(* ===== verification/Bridge_Prelude.thy ===== *)
theory Bridge_Prelude
  imports Main "HOL-Library.Word" "HOL-Library.Monad_Syntax"
begin

unbundle bit_operations_syntax

text \<open>
  Shared vocabulary of the development: the machine integers of the C sources, byte
  buffers with bounds-checked loads, little-endian codecs, memory-mapped flash as a total
  byte map, and the generic lemmas on lists and words that the components use.

  Undefined behaviour.  A C function that reads a buffer is modelled with \<open>rd\<close>, which is
  \<open>None\<close> outside the buffer.  Functions that load from a request or reception buffer
  therefore return an \<open>option\<close>, and \<open>None\<close> means that the C program would have had
  undefined behaviour (an out-of-bounds access or an over-wide shift).  That a component
  never returns \<open>None\<close> is a theorem about it, not an assumption.
\<close>

section \<open>Machine types\<close>

type_synonym u8 = "8 word"
type_synonym u16 = "16 word"
type_synonym u32 = "32 word"
type_synonym bytes = "u8 list"

text \<open>Memory-mapped flash: the content of every 32-bit address.\<close>

type_synonym flash = "u32 \<Rightarrow> u8"

named_theorems mem_safe "rules that discharge bounds-checked loads"
named_theorems le_codec "little-endian encode and decode rules"

lemma unat_u32_lt: "unat (w :: u32) < 4294967296"
  using unsigned_less [of w] by simp

section \<open>Buffers\<close>

definition rd :: "bytes \<Rightarrow> nat \<Rightarrow> u8 option" where
  "rd p i = (if i < length p then Some (p ! i) else None)"

lemma rd_in [simp, mem_safe]: "i < length p \<Longrightarrow> rd p i = Some (p ! i)"
  by (simp add: rd_def)

lemma rd_eq_None_iff [simp]: "rd p i = None \<longleftrightarrow> length p \<le> i"
  by (auto simp: rd_def)

lemma rd_SomeD: "rd p i = Some b \<Longrightarrow> i < length p \<and> p ! i = b"
  by (auto simp: rd_def split: if_splits)

section \<open>Little-endian codecs\<close>

text \<open>Byte \<open>k\<close> of a word, the C expression \<open>(uint8_t)(v >> 8 * k)\<close>.\<close>

definition byte_of :: "nat \<Rightarrow> 'a::len word \<Rightarrow> u8" where
  "byte_of k v = ucast (drop_bit (8 * k) v)"

definition le16 :: "u8 \<Rightarrow> u8 \<Rightarrow> u16" where
  "le16 b0 b1 = ucast b0 OR push_bit 8 (ucast b1)"

definition le32 :: "u8 \<Rightarrow> u8 \<Rightarrow> u8 \<Rightarrow> u8 \<Rightarrow> u32" where
  "le32 b0 b1 b2 b3 = ucast b0 OR push_bit 8 (ucast b1) OR push_bit 16 (ucast b2) OR
     push_bit 24 (ucast b3)"

definition bytes16 :: "u16 \<Rightarrow> bytes" where
  "bytes16 v = [byte_of 0 v, byte_of 1 v]"

definition bytes32 :: "u32 \<Rightarrow> bytes" where
  "bytes32 v = [byte_of 0 v, byte_of 1 v, byte_of 2 v, byte_of 3 v]"

lemma length_bytes16 [simp]: "length (bytes16 v) = 2"
  by (simp add: bytes16_def)

lemma length_bytes32 [simp]: "length (bytes32 v) = 4"
  by (simp add: bytes32_def)

lemma le16_byte_of [simp, le_codec]: "le16 (byte_of 0 v) (byte_of 1 v) = v"
proof (rule bit_word_eqI)
  fix n assume "n < LENGTH(16)"
  then show "bit (le16 (byte_of 0 v) (byte_of 1 v)) n = bit v n"
    by (cases "n < 8") (auto simp: le16_def byte_of_def bit_simps)
qed

lemma le32_byte_of [simp, le_codec]:
  "le32 (byte_of 0 v) (byte_of 1 v) (byte_of 2 v) (byte_of 3 v) = v"
proof (rule bit_word_eqI)
  fix n assume n: "n < LENGTH(32)"
  consider "n < 8" | "8 \<le> n" "n < 16" | "16 \<le> n" "n < 24" | "24 \<le> n" by linarith
  then show "bit (le32 (byte_of 0 v) (byte_of 1 v) (byte_of 2 v) (byte_of 3 v)) n = bit v n"
    using n by cases (auto simp: le32_def byte_of_def bit_simps)
qed

lemma byte_of_le16 [simp, le_codec]:
  "byte_of 0 (le16 a b) = a" "byte_of 1 (le16 a b) = b"
  by (rule bit_word_eqI; auto simp: le16_def byte_of_def bit_simps dest: bit_imp_le_length)+

lemma byte_of_le32 [simp, le_codec]:
  "byte_of 0 (le32 a b c d) = a" "byte_of 1 (le32 a b c d) = b"
  "byte_of 2 (le32 a b c d) = c" "byte_of 3 (le32 a b c d) = d"
  by (rule bit_word_eqI; auto simp: le32_def byte_of_def bit_simps dest: bit_imp_le_length)+

lemma le16_byte_of_Suc_0 [simp]: "le16 (byte_of 0 v) (byte_of (Suc 0) v) = v"
  using le16_byte_of [of v] by simp

lemma le32_byte_of_Suc_0 [simp]:
  "le32 (byte_of 0 v) (byte_of (Suc 0) v) (byte_of 2 v) (byte_of 3 v) = v"
  using le32_byte_of [of v] by simp

lemma byte_of_Suc_0_le16 [simp]: "byte_of (Suc 0) (le16 a b) = b"
  using byte_of_le16(2) by simp

lemma byte_of_Suc_0_le32 [simp]: "byte_of (Suc 0) (le32 a b c d) = b"
  using byte_of_le32(2) by simp

lemma le16_inject [simp]: "le16 a b = le16 c d \<longleftrightarrow> a = c \<and> b = d"
  using byte_of_le16 by metis

lemma le32_inject [simp]: "le32 a b c d = le32 a' b' c' d' \<longleftrightarrow> a = a' \<and> b = b' \<and> c = c' \<and> d = d'"
  using byte_of_le32 by metis

lemma bytes32_inject [simp]: "bytes32 v = bytes32 w \<longleftrightarrow> v = w"
  using le32_byte_of unfolding bytes32_def by (metis list.inject)

text \<open>The idiom \<open>(uint8_t)((v >> 8 * k) & 0xFFu)\<close> masks before narrowing; the mask is redundant.\<close>

lemma ucast_and_FF [simp]: "(ucast (v AND 0xFF) :: u8) = ucast (v :: 'a::len word)"
proof (rule bit_word_eqI)
  fix n assume "n < LENGTH(8)"
  moreover have "bit (0xFF :: 'a word) n \<longleftrightarrow> n < 8 \<and> n < LENGTH('a)" for n
    using bit_mask_iff [where 'a = "'a word", of 8 n] by (auto simp: mask_eq_exp_minus_1)
  ultimately show "bit (ucast (v AND 0xFF) :: u8) n = bit (ucast v :: u8) n"
    by (auto simp: bit_simps dest: bit_imp_le_length)
qed

section \<open>Flash windows\<close>

definition fbytes :: "flash \<Rightarrow> u32 \<Rightarrow> nat \<Rightarrow> bytes" where
  "fbytes f a n = map (\<lambda>i. f (a + of_nat i)) [0..<n]"

lemma length_fbytes [simp]: "length (fbytes f a n) = n"
  by (simp add: fbytes_def)

lemma nth_fbytes [simp]: "i < n \<Longrightarrow> fbytes f a n ! i = f (a + of_nat i)"
  by (simp add: fbytes_def)

lemma fbytes_cong:
  "(\<And>i. i < n \<Longrightarrow> f (a + of_nat i) = g (a + of_nat i)) \<Longrightarrow> fbytes f a n = fbytes g a n"
  by (simp add: fbytes_def)

text \<open>Address \<open>a\<close> lies in the window \<open>[base, base + len)\<close>, computed without overflow.\<close>

definition in_range :: "u32 \<Rightarrow> nat \<Rightarrow> u32 \<Rightarrow> bool" where
  "in_range base len a \<longleftrightarrow> unat base \<le> unat a \<and> unat a < unat base + len"

lemma in_range_offset:
  assumes "i < len" "unat base + len \<le> 2 ^ 32"
  shows "in_range base len (base + of_nat i)"
proof -
  have "unat (base + of_nat i) = unat base + i"
    using assms by (subst unat_add_lem [THEN iffD1]) (auto simp: unat_of_nat)
  then show ?thesis using assms by (simp add: in_range_def)
qed

end
