(* ===== verification/Crc.thy ===== *)
theory Crc
  imports Bridge_Prelude
begin

unbundle bit_operations_syntax

text \<open>
  The two checksums of the firmware: the framing CRC-16/CCITT-FALSE of \<open>src/protocol.c\<close>
  and the image and metadata CRC-32 of \<open>src/crc32.c\<close>, both table driven.  The tables are
  transcribed entry by entry; the bit-serial routines they replace are the reference
  definitions, and the theorems show that the table form computes the same function, that
  CRC-32 can be chained over chunks, and which corruptions each checksum always detects.
\<close>

section \<open>Lookup tables of linear maps\<close>

text \<open>
  Both tables tabulate a map that is linear over XOR.  A table of a linear map is built by
  doubling: each half is the previous half shifted by the image of the next power of two.
  Checking a 256-entry table therefore takes eight images instead of 256.
\<close>

definition xor_double :: "'a::len word list \<Rightarrow> 'a word \<Rightarrow> 'a word list" where
  "xor_double B c = B @ map (\<lambda>x. c XOR x) B"

lemma length_foldl_xor_double: "length (foldl xor_double B cs) = 2 ^ length cs * length B"
  by (induction cs arbitrary: B) (auto simp: xor_double_def)

lemma of_nat_pow2_add:
  assumes "j < 2 ^ i"
  shows "(of_nat (2 ^ i + j) :: 'a::len word) = of_nat (2 ^ i) XOR of_nat j"
proof -
  from assms have "take_bit i j = j" by (rule take_bit_nat_eq_self)
  then have "\<not> bit j i" by (metis bit_take_bit_iff less_irrefl)
  then have "2 ^ i AND j = 0" by (intro bit_eqI) (auto simp: bit_simps)
  then have "2 ^ i + j = (2 ^ i XOR j :: nat)" by (simp add: disjunctive_add_eq_xor)
  then show ?thesis by (simp only: of_nat_xor_eq)
qed

locale xor_linear =
  fixes f :: "'a::len word \<Rightarrow> 'a word"
  assumes xor: "f (a XOR b) = f a XOR f b"
begin

lemma zero: "f 0 = 0"
  using xor [of 0 0] by simp

lemma funpow_xor: "(f ^^ n) (a XOR b) = (f ^^ n) a XOR (f ^^ n) b"
  by (induction n) (simp_all add: xor)

lemma funpow_zero: "(f ^^ n) 0 = 0"
  by (induction n) (simp_all add: zero)

lemma table_nth:
  "k < 2 ^ n \<Longrightarrow>
   foldl xor_double [0] (map (\<lambda>i. f (of_nat (2 ^ i))) [0..<n]) ! k = f (of_nat k)"
proof (induction n arbitrary: k)
  case 0
  then show ?case by (simp add: zero)
next
  case (Suc n)
  let ?B = "foldl xor_double [0] (map (\<lambda>i. f (of_nat (2 ^ i))) [0..<n])"
  have len: "length ?B = 2 ^ n" by (simp add: length_foldl_xor_double)
  have step: "foldl xor_double [0] (map (\<lambda>i. f (of_nat (2 ^ i))) [0..<Suc n]) =
      ?B @ map (\<lambda>x. f (of_nat (2 ^ n)) XOR x) ?B"
    by (simp add: xor_double_def)
  show ?case
  proof (cases "k < 2 ^ n")
    case True
    then show ?thesis using Suc.IH step len by (simp add: nth_append)
  next
    case False
    define j where "j = k - 2 ^ n"
    have j: "j < 2 ^ n" "k = 2 ^ n + j" using False Suc.prems by (auto simp: j_def)
    have "(?B @ map (\<lambda>x. f (of_nat (2 ^ n)) XOR x) ?B) ! k = f (of_nat (2 ^ n)) XOR f (of_nat j)"
      using j len Suc.IH by (simp add: nth_append)
    also have "\<dots> = f (of_nat k)" using j by (simp only: xor [symmetric] of_nat_pow2_add)
    finally show ?thesis using step by simp
  qed
qed

lemma inj_if_kernel: "(\<And>x. f x = 0 \<Longrightarrow> x = 0) \<Longrightarrow> f a = f b \<Longrightarrow> a = b"
  using xor [of a b] by (metis word_bw_assocs(3) word_bw_same(3) xor.right_neutral)

end

lemma xor_left_cancel_word: "(s :: 'a::len word) XOR x = s XOR y \<longleftrightarrow> x = y"
  by (auto simp: bit_eq_iff bit_simps)

lemma xor_right_cancel_word: "(x :: 'a::len word) XOR s = y XOR s \<longleftrightarrow> x = y"
  by (auto simp: bit_eq_iff bit_simps)

section \<open>CRC-16 / CCITT-FALSE (src/protocol.c)\<close>

definition crc16_table :: "u16 list" where
  "crc16_table =
    [0x0000, 0x1021, 0x2042, 0x3063, 0x4084, 0x50A5, 0x60C6, 0x70E7,
     0x8108, 0x9129, 0xA14A, 0xB16B, 0xC18C, 0xD1AD, 0xE1CE, 0xF1EF,
     0x1231, 0x0210, 0x3273, 0x2252, 0x52B5, 0x4294, 0x72F7, 0x62D6,
     0x9339, 0x8318, 0xB37B, 0xA35A, 0xD3BD, 0xC39C, 0xF3FF, 0xE3DE,
     0x2462, 0x3443, 0x0420, 0x1401, 0x64E6, 0x74C7, 0x44A4, 0x5485,
     0xA56A, 0xB54B, 0x8528, 0x9509, 0xE5EE, 0xF5CF, 0xC5AC, 0xD58D,
     0x3653, 0x2672, 0x1611, 0x0630, 0x76D7, 0x66F6, 0x5695, 0x46B4,
     0xB75B, 0xA77A, 0x9719, 0x8738, 0xF7DF, 0xE7FE, 0xD79D, 0xC7BC,
     0x48C4, 0x58E5, 0x6886, 0x78A7, 0x0840, 0x1861, 0x2802, 0x3823,
     0xC9CC, 0xD9ED, 0xE98E, 0xF9AF, 0x8948, 0x9969, 0xA90A, 0xB92B,
     0x5AF5, 0x4AD4, 0x7AB7, 0x6A96, 0x1A71, 0x0A50, 0x3A33, 0x2A12,
     0xDBFD, 0xCBDC, 0xFBBF, 0xEB9E, 0x9B79, 0x8B58, 0xBB3B, 0xAB1A,
     0x6CA6, 0x7C87, 0x4CE4, 0x5CC5, 0x2C22, 0x3C03, 0x0C60, 0x1C41,
     0xEDAE, 0xFD8F, 0xCDEC, 0xDDCD, 0xAD2A, 0xBD0B, 0x8D68, 0x9D49,
     0x7E97, 0x6EB6, 0x5ED5, 0x4EF4, 0x3E13, 0x2E32, 0x1E51, 0x0E70,
     0xFF9F, 0xEFBE, 0xDFDD, 0xCFFC, 0xBF1B, 0xAF3A, 0x9F59, 0x8F78,
     0x9188, 0x81A9, 0xB1CA, 0xA1EB, 0xD10C, 0xC12D, 0xF14E, 0xE16F,
     0x1080, 0x00A1, 0x30C2, 0x20E3, 0x5004, 0x4025, 0x7046, 0x6067,
     0x83B9, 0x9398, 0xA3FB, 0xB3DA, 0xC33D, 0xD31C, 0xE37F, 0xF35E,
     0x02B1, 0x1290, 0x22F3, 0x32D2, 0x4235, 0x5214, 0x6277, 0x7256,
     0xB5EA, 0xA5CB, 0x95A8, 0x8589, 0xF56E, 0xE54F, 0xD52C, 0xC50D,
     0x34E2, 0x24C3, 0x14A0, 0x0481, 0x7466, 0x6447, 0x5424, 0x4405,
     0xA7DB, 0xB7FA, 0x8799, 0x97B8, 0xE75F, 0xF77E, 0xC71D, 0xD73C,
     0x26D3, 0x36F2, 0x0691, 0x16B0, 0x6657, 0x7676, 0x4615, 0x5634,
     0xD94C, 0xC96D, 0xF90E, 0xE92F, 0x99C8, 0x89E9, 0xB98A, 0xA9AB,
     0x5844, 0x4865, 0x7806, 0x6827, 0x18C0, 0x08E1, 0x3882, 0x28A3,
     0xCB7D, 0xDB5C, 0xEB3F, 0xFB1E, 0x8BF9, 0x9BD8, 0xABBB, 0xBB9A,
     0x4A75, 0x5A54, 0x6A37, 0x7A16, 0x0AF1, 0x1AD0, 0x2AB3, 0x3A92,
     0xFD2E, 0xED0F, 0xDD6C, 0xCD4D, 0xBDAA, 0xAD8B, 0x9DE8, 0x8DC9,
     0x7C26, 0x6C07, 0x5C64, 0x4C45, 0x3CA2, 0x2C83, 0x1CE0, 0x0CC1,
     0xEF1F, 0xFF3E, 0xCF5D, 0xDF7C, 0xAF9B, 0xBFBA, 0x8FD9, 0x9FF8,
     0x6E17, 0x7E36, 0x4E55, 0x5E74, 0x2E93, 0x3EB2, 0x0ED1, 0x1EF0]"

definition crc16_step :: "u16 \<Rightarrow> u8 \<Rightarrow> u16" where
  "crc16_step crc b =
     push_bit 8 crc XOR crc16_table ! unat ((drop_bit 8 crc XOR ucast b) AND 0xFF)"

definition crc16_ccitt_false :: "bytes \<Rightarrow> u16" where
  "crc16_ccitt_false buf = foldl crc16_step 0xFFFF buf"

text \<open>The bit-serial routine that the table replaces: polynomial 0x1021, MSB first.\<close>

definition crc16_bit :: "u16 \<Rightarrow> u16" where
  "crc16_bit c = (if bit c 15 then push_bit 1 c XOR 0x1021 else push_bit 1 c)"

definition crc16_byte :: "u16 \<Rightarrow> u8 \<Rightarrow> u16" where
  "crc16_byte crc b = (crc16_bit ^^ 8) (crc XOR push_bit 8 (ucast b))"

definition crc16_bitserial :: "bytes \<Rightarrow> u16" where
  "crc16_bitserial buf = foldl crc16_byte 0xFFFF buf"

lemma crc16_bit_xor: "crc16_bit (a XOR b) = crc16_bit a XOR crc16_bit b"
  by (auto simp: crc16_bit_def bit_simps intro!: bit_word_eqI)

interpretation c16: xor_linear crc16_bit
  by unfold_locales (rule crc16_bit_xor)

interpretation c16t: xor_linear "\<lambda>x. (crc16_bit ^^ 8) (push_bit 8 x)"
  by unfold_locales (simp add: push_bit_xor c16.funpow_xor)

lemma funpow_8: "(f ^^ 8) x = f (f (f (f (f (f (f (f x)))))))"
  by (simp add: eval_nat_numeral)

lemma crc16_table_doubling:
  "crc16_table = foldl xor_double [0]
     [0x1021, 0x2042, 0x4084, 0x8108, 0x1231, 0x2462, 0x48C4, 0x9188]"
  by (simp add: crc16_table_def xor_double_def)

lemma map_upt_8: "map g [0..<8] = [g 0, g 1, g 2, g 3, g 4, g 5, g 6, g (7 :: nat)]"
  by (simp add: eval_nat_numeral)

lemma crc16_basis:
  "map (\<lambda>i. (crc16_bit ^^ 8) (push_bit 8 (of_nat (2 ^ i)))) [0..<8] =
     [0x1021, 0x2042, 0x4084, 0x8108, 0x1231, 0x2462, 0x48C4, 0x9188]"
  unfolding map_upt_8 funpow_8 by (simp add: crc16_bit_def)

lemma crc16_table_nth: "k < 256 \<Longrightarrow> crc16_table ! k = (crc16_bit ^^ 8) (push_bit 8 (of_nat k))"
  using c16t.table_nth [of k 8] unfolding crc16_basis crc16_table_doubling by simp

lemma crc16_bit_funpow_low: "n \<le> 8 \<Longrightarrow> (crc16_bit ^^ n) (ucast (b :: u8)) = push_bit n (ucast b)"
proof (induction n)
  case (Suc n)
  have "\<not> bit (push_bit n (ucast b :: u16)) 15"
    using Suc.prems by (auto simp: bit_simps dest: bit_imp_le_length)
  then show ?case using Suc by (simp add: crc16_bit_def push_bit_push_bit)
qed simp

text \<open>A 16-bit register is its high byte shifted up, XOR its low byte.\<close>

lemma u16_split: "(c :: u16) = push_bit 8 (ucast (byte_of 1 c)) XOR ucast (byte_of 0 c)"
  by (rule bit_word_eqI) (auto simp: byte_of_def bit_simps dest: bit_imp_le_length)

lemma crc16_index:
  "(drop_bit 8 crc XOR ucast (b :: u8)) AND 0xFF = (ucast (byte_of 1 (crc :: u16) XOR b) :: u16)"
proof -
  have m: "(0xFF :: u16) = mask 8" by (simp add: mask_eq_exp_minus_1)
  show ?thesis unfolding m
    by (rule bit_word_eqI) (auto simp: byte_of_def bit_simps dest: bit_imp_le_length)
qed

lemma crc16_step_eq_byte: "crc16_step crc b = crc16_byte crc b"
proof -
  let ?h = "byte_of 1 crc XOR b"
  have k: "unat (ucast ?h :: u16) = unat ?h" "unat ?h < 256"
    using unsigned_less [of ?h, where 'a = nat] by (simp_all add: unsigned_ucast_eq take_bit_nat_eq_self)
  have "crc16_table ! unat (ucast ?h :: u16) = (crc16_bit ^^ 8) (push_bit 8 (ucast ?h))"
    using k crc16_table_nth by (simp add: unsigned_ucast_eq)
  moreover have "crc XOR push_bit 8 (ucast b) = push_bit 8 (ucast ?h) XOR ucast (byte_of 0 crc)"
    by (subst u16_split [of crc]) (simp add: unsigned_xor_eq push_bit_xor ac_simps)
  moreover have "push_bit 8 crc = push_bit 8 (ucast (byte_of 0 crc))"
    by (rule bit_word_eqI) (auto simp: byte_of_def bit_simps)
  ultimately show ?thesis
    unfolding crc16_step_def crc16_byte_def crc16_index
    by (simp add: c16.funpow_xor crc16_bit_funpow_low ac_simps)
qed

lemma crc16_eq_bitserial: "crc16_ccitt_false buf = crc16_bitserial buf"
proof -
  have "crc16_step = crc16_byte" by (intro ext) (rule crc16_step_eq_byte)
  then show ?thesis by (simp add: crc16_ccitt_false_def crc16_bitserial_def)
qed

subsection \<open>What the framing CRC detects\<close>

lemma crc16_bit_kernel: "crc16_bit c = 0 \<Longrightarrow> c = 0"
proof (rule bit_word_eqI)
  fix n assume z: "crc16_bit c = 0" and n: "n < LENGTH(16)"
  have no15: "\<not> bit c 15"
  proof
    assume "bit c 15"
    then have "bit (crc16_bit c) 0" by (simp add: crc16_bit_def bit_0 even_xor_iff)
    then show False using z by simp
  qed
  then have "push_bit 1 c = 0" using z by (simp add: crc16_bit_def)
  then have "\<not> bit (push_bit 1 c) (Suc n)" by simp
  then have "\<not> bit c n" using n no15 unfolding bit_push_bit_iff by (cases "n = 15") auto
  then show "bit c n = bit 0 n" by simp
qed

lemma crc16_bit_inj: "crc16_bit a = crc16_bit b \<Longrightarrow> a = b"
  using c16.inj_if_kernel crc16_bit_kernel by blast

lemma crc16_funpow_inj: "(crc16_bit ^^ n) a = (crc16_bit ^^ n) b \<Longrightarrow> a = b"
  by (induction n) (auto dest: crc16_bit_inj)

lemma crc16_byte_pair:
  "crc16_byte (crc16_byte s a) b = (crc16_bit ^^ 16) (s XOR le16 b a)"
proof -
  have lo: "push_bit 8 (ucast b) = (crc16_bit ^^ 8) (ucast b)"
    by (simp add: crc16_bit_funpow_low)
  have le: "le16 b a = push_bit 8 (ucast a) XOR ucast b"
    using u16_split [of "le16 b a"] by simp
  have "crc16_byte (crc16_byte s a) b =
      (crc16_bit ^^ 8) ((crc16_bit ^^ 8) (s XOR push_bit 8 (ucast a) XOR ucast b))"
    unfolding crc16_byte_def lo c16.funpow_xor by (simp add: xor.assoc)
  also have "\<dots> = (crc16_bit ^^ (8 + 8)) (s XOR le16 b a)"
    unfolding le funpow_add by (simp add: ac_simps)
  finally show ?thesis by simp
qed

lemma crc16_byte_inj: "crc16_byte s b = crc16_byte t b \<Longrightarrow> s = t"
  unfolding crc16_byte_def by (drule crc16_funpow_inj) (simp add: xor_right_cancel_word)

lemma crc16_foldl_inj: "foldl crc16_byte s xs = foldl crc16_byte t xs \<Longrightarrow> s = t"
  by (induction xs arbitrary: s t) (auto dest: crc16_byte_inj)

lemma crc16_zero_run: "foldl crc16_byte 0 (replicate n 0) = 0"
  by (induction n) (simp_all add: crc16_byte_def c16.funpow_zero)

section \<open>CRC-32 (src/crc32.c)\<close>

definition crc32_table :: "u32 list" where
  "crc32_table =
    [0x00000000, 0x77073096, 0xEE0E612C, 0x990951BA, 0x076DC419, 0x706AF48F, 0xE963A535, 0x9E6495A3,
     0x0EDB8832, 0x79DCB8A4, 0xE0D5E91E, 0x97D2D988, 0x09B64C2B, 0x7EB17CBD, 0xE7B82D07, 0x90BF1D91,
     0x1DB71064, 0x6AB020F2, 0xF3B97148, 0x84BE41DE, 0x1ADAD47D, 0x6DDDE4EB, 0xF4D4B551, 0x83D385C7,
     0x136C9856, 0x646BA8C0, 0xFD62F97A, 0x8A65C9EC, 0x14015C4F, 0x63066CD9, 0xFA0F3D63, 0x8D080DF5,
     0x3B6E20C8, 0x4C69105E, 0xD56041E4, 0xA2677172, 0x3C03E4D1, 0x4B04D447, 0xD20D85FD, 0xA50AB56B,
     0x35B5A8FA, 0x42B2986C, 0xDBBBC9D6, 0xACBCF940, 0x32D86CE3, 0x45DF5C75, 0xDCD60DCF, 0xABD13D59,
     0x26D930AC, 0x51DE003A, 0xC8D75180, 0xBFD06116, 0x21B4F4B5, 0x56B3C423, 0xCFBA9599, 0xB8BDA50F,
     0x2802B89E, 0x5F058808, 0xC60CD9B2, 0xB10BE924, 0x2F6F7C87, 0x58684C11, 0xC1611DAB, 0xB6662D3D,
     0x76DC4190, 0x01DB7106, 0x98D220BC, 0xEFD5102A, 0x71B18589, 0x06B6B51F, 0x9FBFE4A5, 0xE8B8D433,
     0x7807C9A2, 0x0F00F934, 0x9609A88E, 0xE10E9818, 0x7F6A0DBB, 0x086D3D2D, 0x91646C97, 0xE6635C01,
     0x6B6B51F4, 0x1C6C6162, 0x856530D8, 0xF262004E, 0x6C0695ED, 0x1B01A57B, 0x8208F4C1, 0xF50FC457,
     0x65B0D9C6, 0x12B7E950, 0x8BBEB8EA, 0xFCB9887C, 0x62DD1DDF, 0x15DA2D49, 0x8CD37CF3, 0xFBD44C65,
     0x4DB26158, 0x3AB551CE, 0xA3BC0074, 0xD4BB30E2, 0x4ADFA541, 0x3DD895D7, 0xA4D1C46D, 0xD3D6F4FB,
     0x4369E96A, 0x346ED9FC, 0xAD678846, 0xDA60B8D0, 0x44042D73, 0x33031DE5, 0xAA0A4C5F, 0xDD0D7CC9,
     0x5005713C, 0x270241AA, 0xBE0B1010, 0xC90C2086, 0x5768B525, 0x206F85B3, 0xB966D409, 0xCE61E49F,
     0x5EDEF90E, 0x29D9C998, 0xB0D09822, 0xC7D7A8B4, 0x59B33D17, 0x2EB40D81, 0xB7BD5C3B, 0xC0BA6CAD,
     0xEDB88320, 0x9ABFB3B6, 0x03B6E20C, 0x74B1D29A, 0xEAD54739, 0x9DD277AF, 0x04DB2615, 0x73DC1683,
     0xE3630B12, 0x94643B84, 0x0D6D6A3E, 0x7A6A5AA8, 0xE40ECF0B, 0x9309FF9D, 0x0A00AE27, 0x7D079EB1,
     0xF00F9344, 0x8708A3D2, 0x1E01F268, 0x6906C2FE, 0xF762575D, 0x806567CB, 0x196C3671, 0x6E6B06E7,
     0xFED41B76, 0x89D32BE0, 0x10DA7A5A, 0x67DD4ACC, 0xF9B9DF6F, 0x8EBEEFF9, 0x17B7BE43, 0x60B08ED5,
     0xD6D6A3E8, 0xA1D1937E, 0x38D8C2C4, 0x4FDFF252, 0xD1BB67F1, 0xA6BC5767, 0x3FB506DD, 0x48B2364B,
     0xD80D2BDA, 0xAF0A1B4C, 0x36034AF6, 0x41047A60, 0xDF60EFC3, 0xA867DF55, 0x316E8EEF, 0x4669BE79,
     0xCB61B38C, 0xBC66831A, 0x256FD2A0, 0x5268E236, 0xCC0C7795, 0xBB0B4703, 0x220216B9, 0x5505262F,
     0xC5BA3BBE, 0xB2BD0B28, 0x2BB45A92, 0x5CB36A04, 0xC2D7FFA7, 0xB5D0CF31, 0x2CD99E8B, 0x5BDEAE1D,
     0x9B64C2B0, 0xEC63F226, 0x756AA39C, 0x026D930A, 0x9C0906A9, 0xEB0E363F, 0x72076785, 0x05005713,
     0x95BF4A82, 0xE2B87A14, 0x7BB12BAE, 0x0CB61B38, 0x92D28E9B, 0xE5D5BE0D, 0x7CDCEFB7, 0x0BDBDF21,
     0x86D3D2D4, 0xF1D4E242, 0x68DDB3F8, 0x1FDA836E, 0x81BE16CD, 0xF6B9265B, 0x6FB077E1, 0x18B74777,
     0x88085AE6, 0xFF0F6A70, 0x66063BCA, 0x11010B5C, 0x8F659EFF, 0xF862AE69, 0x616BFFD3, 0x166CCF45,
     0xA00AE278, 0xD70DD2EE, 0x4E048354, 0x3903B3C2, 0xA7672661, 0xD06016F7, 0x4969474D, 0x3E6E77DB,
     0xAED16A4A, 0xD9D65ADC, 0x40DF0B66, 0x37D83BF0, 0xA9BCAE53, 0xDEBB9EC5, 0x47B2CF7F, 0x30B5FFE9,
     0xBDBDF21C, 0xCABAC28A, 0x53B39330, 0x24B4A3A6, 0xBAD03605, 0xCDD70693, 0x54DE5729, 0x23D967BF,
     0xB3667A2E, 0xC4614AB8, 0x5D681B02, 0x2A6F2B94, 0xB40BBE37, 0xC30C8EA1, 0x5A05DF1B, 0x2D02EF8D]"

definition crc32_step :: "u32 \<Rightarrow> u8 \<Rightarrow> u32" where
  "crc32_step crc b = crc32_table ! unat ((crc XOR ucast b) AND 0xFF) XOR drop_bit 8 crc"

definition ota_crc32 :: "u32 \<Rightarrow> bytes \<Rightarrow> u32" where
  "ota_crc32 crc data = foldl crc32_step (crc XOR 0xFFFFFFFF) data XOR 0xFFFFFFFF"

text \<open>The bit-serial routine: reflected polynomial 0xEDB88320, LSB first.\<close>

definition crc32_bit :: "u32 \<Rightarrow> u32" where
  "crc32_bit c = (if bit c 0 then drop_bit 1 c XOR 0xEDB88320 else drop_bit 1 c)"

definition crc32_byte :: "u32 \<Rightarrow> u8 \<Rightarrow> u32" where
  "crc32_byte crc b = (crc32_bit ^^ 8) (crc XOR ucast b)"

definition crc32_bitserial :: "u32 \<Rightarrow> bytes \<Rightarrow> u32" where
  "crc32_bitserial crc data = foldl crc32_byte (crc XOR 0xFFFFFFFF) data XOR 0xFFFFFFFF"

lemma crc32_bit_xor: "crc32_bit (a XOR b) = crc32_bit a XOR crc32_bit b"
  by (auto simp: crc32_bit_def bit_simps intro!: bit_word_eqI)

interpretation c32: xor_linear crc32_bit
  by unfold_locales (rule crc32_bit_xor)

interpretation c32t: xor_linear "crc32_bit ^^ 8"
  by unfold_locales (rule c32.funpow_xor)

lemma crc32_table_doubling:
  "crc32_table = foldl xor_double [0]
     [0x77073096, 0xEE0E612C, 0x076DC419, 0x0EDB8832, 0x1DB71064, 0x3B6E20C8, 0x76DC4190, 0xEDB88320]"
  by (simp add: crc32_table_def xor_double_def)

lemma crc32_basis:
  "map (\<lambda>i. (crc32_bit ^^ 8) (of_nat (2 ^ i))) [0..<8] =
     [0x77073096, 0xEE0E612C, 0x076DC419, 0x0EDB8832, 0x1DB71064, 0x3B6E20C8, 0x76DC4190, 0xEDB88320]"
  unfolding map_upt_8 funpow_8 by (simp add: crc32_bit_def)

lemma crc32_table_nth: "k < 256 \<Longrightarrow> crc32_table ! k = (crc32_bit ^^ 8) (of_nat k)"
  using c32t.table_nth [of k 8] unfolding crc32_basis crc32_table_doubling by simp

lemma crc32_bit_funpow_high:
  "(\<And>i. i < n \<Longrightarrow> \<not> bit c i) \<Longrightarrow> (crc32_bit ^^ n) c = drop_bit n c"
proof (induction n)
  case (Suc n)
  have "\<not> bit (drop_bit n c) 0" using Suc.prems [of n] by (simp add: bit_simps)
  then show ?case using Suc by (simp add: crc32_bit_def drop_bit_drop_bit)
qed simp

lemma drop_bit_push_bit_ucast:
  assumes "n + 8 \<le> 32"
  shows "drop_bit n (push_bit n (ucast (b :: u8) :: u32)) = ucast b"
proof (rule bit_word_eqI)
  fix i
  show "bit (drop_bit n (push_bit n (ucast b :: u32))) i = bit (ucast b :: u32) i"
    using assms bit_imp_le_length [of b i] by (cases "bit b i") (auto simp: bit_simps)
qed

lemma drop_push_drop: "drop_bit 8 (push_bit 8 (drop_bit 8 (c :: u32))) = drop_bit 8 c"
proof (rule bit_word_eqI)
  fix i
  show "bit (drop_bit 8 (push_bit 8 (drop_bit 8 c))) i = bit (drop_bit 8 c) i"
    using bit_imp_le_length [of c "8 + i"] by (cases "bit c (8 + i)") (auto simp: bit_simps)
qed

lemma crc32_index:
  "(crc XOR ucast (b :: u8)) AND 0xFF = (ucast (byte_of 0 (crc :: u32) XOR b) :: u32)"
proof -
  have m: "(0xFF :: u32) = mask 8" by (simp add: mask_eq_exp_minus_1)
  show ?thesis unfolding m
    by (rule bit_word_eqI) (auto simp: byte_of_def bit_simps dest: bit_imp_le_length)
qed

lemma crc32_step_eq_byte: "crc32_step crc b = crc32_byte crc b"
proof -
  let ?l = "byte_of 0 crc XOR b" and ?h = "push_bit 8 (drop_bit 8 crc)"
  have k: "unat (ucast ?l :: u32) = unat ?l" "unat ?l < 256"
    using unsigned_less [of ?l, where 'a = nat] by (simp_all add: unsigned_ucast_eq take_bit_nat_eq_self)
  have "crc32_table ! unat (ucast ?l :: u32) = (crc32_bit ^^ 8) (ucast ?l)"
    using k crc32_table_nth by (simp add: unsigned_ucast_eq)
  moreover have "crc XOR ucast b = ucast ?l XOR ?h"
    by (rule bit_word_eqI) (auto simp: byte_of_def bit_simps dest: bit_imp_le_length)
  moreover have "(crc32_bit ^^ 8) ?h = drop_bit 8 crc"
    by (subst crc32_bit_funpow_high) (auto simp: bit_simps drop_push_drop)
  ultimately show ?thesis
    unfolding crc32_step_def crc32_byte_def crc32_index by (simp add: c32.funpow_xor)
qed

lemma crc32_eq_bitserial: "ota_crc32 crc data = crc32_bitserial crc data"
proof -
  have "crc32_step = crc32_byte" by (intro ext) (rule crc32_step_eq_byte)
  then show ?thesis by (simp add: ota_crc32_def crc32_bitserial_def)
qed

lemma ota_crc32_append: "ota_crc32 (ota_crc32 c xs) ys = ota_crc32 c (xs @ ys)"
  by (simp add: ota_crc32_def xor.assoc)

subsection \<open>What the image CRC detects\<close>

lemma crc32_bit_kernel: "crc32_bit c = 0 \<Longrightarrow> c = 0"
proof (rule bit_word_eqI)
  fix n assume z: "crc32_bit c = 0" and n: "n < LENGTH(32)"
  have no0: "\<not> bit c 0"
  proof
    assume "bit c 0"
    then have "bit (crc32_bit c) 31" by (auto simp: crc32_bit_def bit_simps dest: bit_imp_le_length)
    then show False using z by simp
  qed
  then have "drop_bit 1 c = 0" using z by (simp add: crc32_bit_def)
  then have "\<not> bit (drop_bit 1 c) (n - 1)" by simp
  then show "bit c n = bit 0 n" using no0 by (cases n) (auto simp: bit_simps)
qed

lemma crc32_bit_inj: "crc32_bit a = crc32_bit b \<Longrightarrow> a = b"
  using c32.inj_if_kernel crc32_bit_kernel by blast

lemma crc32_funpow_inj: "(crc32_bit ^^ n) a = (crc32_bit ^^ n) b \<Longrightarrow> a = b"
  by (induction n) (auto dest: crc32_bit_inj)

lemma crc32_byte_absorb:
  assumes "n + 8 \<le> 32"
  shows "crc32_byte ((crc32_bit ^^ n) s) b = (crc32_bit ^^ (n + 8)) (s XOR push_bit n (ucast b))"
proof -
  have "(crc32_bit ^^ n) (push_bit n (ucast b)) = ucast b"
    using assms by (subst crc32_bit_funpow_high) (auto simp: bit_simps drop_bit_push_bit_ucast)
  then have "(crc32_bit ^^ n) s XOR ucast b = (crc32_bit ^^ n) (s XOR push_bit n (ucast b))"
    by (simp add: c32.funpow_xor)
  moreover have "(crc32_bit ^^ 8) ((crc32_bit ^^ n) x) = (crc32_bit ^^ (n + 8)) x" for x
    using fun_cong [OF funpow_add [of 8 n crc32_bit], of x] by (simp add: add.commute)
  ultimately show ?thesis by (simp only: crc32_byte_def)
qed

lemma crc32_quad:
  "foldl crc32_byte s [a, b, c, d] = (crc32_bit ^^ 32) (s XOR le32 a b c d)"
proof -
  have le: "le32 a b c d = ucast a XOR push_bit 8 (ucast b) XOR push_bit 16 (ucast c) XOR
      push_bit 24 (ucast d)"
    by (rule bit_word_eqI) (auto simp: le32_def bit_simps dest: bit_imp_le_length)
  show ?thesis
    using crc32_byte_absorb [of 0 s a] by (simp add: crc32_byte_absorb le ac_simps)
qed

lemma crc32_byte_inj: "crc32_byte s b = crc32_byte t b \<Longrightarrow> s = t"
  unfolding crc32_byte_def by (drule crc32_funpow_inj) (simp add: xor_right_cancel_word)

lemma crc32_foldl_inj: "foldl crc32_byte s xs = foldl crc32_byte t xs \<Longrightarrow> s = t"
  by (induction xs arbitrary: s t) (auto dest: crc32_byte_inj)

text \<open>
  Two frames of the same length that differ only inside two consecutive bytes have different
  CRC-16 values.  The transports' frame checks rest on it.
\<close>

lemma crc16_detects_two_byte_burst:
  "crc16_ccitt_false (pre @ [a, b] @ post) = crc16_ccitt_false (pre @ [a', b'] @ post) \<longleftrightarrow>
   a = a' \<and> b = b'"
proof
  assume "crc16_ccitt_false (pre @ [a, b] @ post) = crc16_ccitt_false (pre @ [a', b'] @ post)"
  then have "foldl crc16_byte (foldl crc16_byte 0xFFFF pre) [a, b] =
      foldl crc16_byte (foldl crc16_byte 0xFFFF pre) [a', b']"
    unfolding crc16_eq_bitserial crc16_bitserial_def foldl_append by (rule crc16_foldl_inj)
  then have "le16 b a = le16 b' a'"
    unfolding foldl.simps crc16_byte_pair by (metis crc16_funpow_inj xor_left_cancel_word)
  then show "a = a' \<and> b = b'" by simp
qed simp

section \<open>Properties\<close>

text \<open>
  C34: the 256-entry lookup of \<open>crc16_ccitt_false\<close> and that of \<open>ota_crc32\<close> compute the
  bit-serial CRC-16/CCITT-FALSE and the reflected CRC-32 of every buffer (and, for the
  CRC-32, from every running value, which is what lets the image be checked in pieces).
\<close>

theorem crc_tables_equal_bitserial:
  "crc16_ccitt_false buf = crc16_bitserial buf \<and>
   ota_crc32 crc data = crc32_bitserial crc data \<and>
   ota_crc32 (ota_crc32 crc data) more = ota_crc32 crc (data @ more)"
  by (simp add: crc16_eq_bitserial crc32_eq_bitserial)
     (simp add: crc32_eq_bitserial [symmetric] ota_crc32_append)

text \<open>
  Two images of the same length that differ only inside four consecutive bytes have
  different CRC-32 values, from every running value.
\<close>

theorem crc32_detects_four_byte_burst:
  "ota_crc32 c (pre @ [w, x, y, z] @ post) = ota_crc32 c (pre @ [w', x', y', z'] @ post) \<longleftrightarrow>
   w = w' \<and> x = x' \<and> y = y' \<and> z = z'"
proof
  assume "ota_crc32 c (pre @ [w, x, y, z] @ post) = ota_crc32 c (pre @ [w', x', y', z'] @ post)"
  then have "foldl crc32_byte (foldl crc32_byte (c XOR 0xFFFFFFFF) pre) [w, x, y, z] =
      foldl crc32_byte (foldl crc32_byte (c XOR 0xFFFFFFFF) pre) [w', x', y', z']"
    unfolding crc32_eq_bitserial crc32_bitserial_def foldl_append xor_right_cancel_word
    by (rule crc32_foldl_inj)
  then have "le32 w x y z = le32 w' x' y' z'"
    unfolding crc32_quad by (metis crc32_funpow_inj xor_left_cancel_word)
  then show "w = w' \<and> x = x' \<and> y = y' \<and> z = z'" by simp
qed simp

end
