(* ===== verification/Layout.thy ===== *)
theory Layout
  imports Crc
begin

unbundle bit_operations_syntax

text \<open>
  The flash layout and the on-flash structures of \<open>src/ota_layout.h\<close>: the region constants,
  the A/B metadata record with its exact 44-byte encoding, the checked slot derivation, the
  anti-rollback floor, the bootloader's candidate selection, and the two image predicates
  (bootable vector table, confirm-capable trial marker).
\<close>

section \<open>Regions\<close>

abbreviation (input) "OTA_PAGE_SIZE \<equiv> (0x800 :: u32)"
abbreviation (input) "OTA_BOOTLOADER_BASE \<equiv> (0x08000000 :: u32)"
abbreviation (input) "OTA_BOOTLOADER_SIZE \<equiv> (0x8000 :: u32)"
abbreviation (input) "OTA_META_BASE \<equiv> (0x08008000 :: u32)"
abbreviation (input) "OTA_SLOT_A_BASE \<equiv> (0x0800A000 :: u32)"
abbreviation (input) "OTA_SLOT_B_BASE \<equiv> (0x08040000 :: u32)"
abbreviation (input) "OTA_SLOT_SIZE \<equiv> (0x36000 :: u32)"
abbreviation (input) "OTA_FMC_BANK1_BASE \<equiv> (0x08040000 :: u32)"
abbreviation (input) "OTA_CONFIG_REC0 \<equiv> (0x08076000 :: u32)"
abbreviation (input) "OTA_CONFIG_REC1 \<equiv> (0x08076800 :: u32)"
abbreviation (input) "OTA_FLASH_END \<equiv> (0x08080000 :: u32)"
abbreviation (input) "OTA_META_REC0 \<equiv> (0x08008000 :: u32)"
abbreviation (input) "OTA_META_REC1 \<equiv> (0x08008800 :: u32)"
abbreviation (input) "OTA_SLOT_A \<equiv> (0 :: u8)"
abbreviation (input) "OTA_SLOT_B \<equiv> (1 :: u8)"

abbreviation (input) "OTA_META_MAGIC \<equiv> (0x4F544D31 :: u32)"
abbreviation (input) "OTA_META_STRUCT_VER \<equiv> (2 :: u32)"
abbreviation (input) "OTA_META_FLAG_TRIAL \<equiv> (1 :: u8)"
abbreviation (input) "OTA_META_COUNTER_LIMIT \<equiv> (0xFFFFFFF0 :: u32)"
abbreviation (input) "OTA_META_BEGIN_MAX_COUNTER \<equiv> (OTA_META_COUNTER_LIMIT - 3)"

section \<open>Two-element arrays indexed by a slot number\<close>

text \<open>The per-slot arrays of the metadata record.  Indexing past the end is undefined.\<close>

type_synonym arr2 = "u32 \<times> u32"

definition arr_get :: "arr2 \<Rightarrow> u8 \<Rightarrow> u32 option" where
  "arr_get a i = (if i = 0 then Some (fst a) else if i = 1 then Some (snd a) else None)"

definition arr_set :: "arr2 \<Rightarrow> u8 \<Rightarrow> u32 \<Rightarrow> arr2 option" where
  "arr_set a i v = (if i = 0 then Some (v, snd a) else if i = 1 then Some (fst a, v) else None)"

lemma arr_get_simps [simp]: "arr_get a 0 = Some (fst a)" "arr_get a 1 = Some (snd a)"
  by (simp_all add: arr_get_def)

lemma arr_set_simps [simp]: "arr_set a 0 v = Some (v, snd a)" "arr_set a 1 v = Some (fst a, v)"
  by (simp_all add: arr_set_def)

text \<open>\<open>1u << n\<close> on a 32-bit operand: undefined for a shift of 32 or more.\<close>

definition shl1 :: "u8 \<Rightarrow> u32 option" where
  "shl1 n = (if unat n < 32 then Some (push_bit (unat n) 1) else None)"

lemma shl1_simps [simp]: "shl1 0 = Some 1" "shl1 1 = Some 2"
  by (simp_all add: shl1_def)

section \<open>The A/B metadata record\<close>

record ota_meta_record =
  m_magic :: u32
  m_struct_version :: u32
  m_counter :: u32
  m_active_slot :: u8
  m_slot_valid :: u8
  m_flags :: u8
  m_pad1 :: u8
  m_fw_version :: arr2
  m_img_len :: arr2
  m_img_crc32 :: arr2
  m_rec_crc32 :: u32

text \<open>The 40 CRC-covered bytes, in field order at the asserted offsets, and the whole record.\<close>

definition meta_body :: "ota_meta_record \<Rightarrow> bytes" where
  "meta_body r = bytes32 (m_magic r) @ bytes32 (m_struct_version r) @ bytes32 (m_counter r) @
     [m_active_slot r, m_slot_valid r, m_flags r, m_pad1 r] @
     bytes32 (fst (m_fw_version r)) @ bytes32 (snd (m_fw_version r)) @
     bytes32 (fst (m_img_len r)) @ bytes32 (snd (m_img_len r)) @
     bytes32 (fst (m_img_crc32 r)) @ bytes32 (snd (m_img_crc32 r))"

definition meta_bytes :: "ota_meta_record \<Rightarrow> bytes" where
  "meta_bytes r = meta_body r @ bytes32 (m_rec_crc32 r)"

definition le32_at :: "bytes \<Rightarrow> nat \<Rightarrow> u32" where
  "le32_at bs k = le32 (bs ! k) (bs ! (k + 1)) (bs ! (k + 2)) (bs ! (k + 3))"

definition meta_of_bytes :: "bytes \<Rightarrow> ota_meta_record" where
  "meta_of_bytes bs =
     \<lparr>m_magic = le32_at bs 0, m_struct_version = le32_at bs 4, m_counter = le32_at bs 8,
      m_active_slot = bs ! 12, m_slot_valid = bs ! 13, m_flags = bs ! 14, m_pad1 = bs ! 15,
      m_fw_version = (le32_at bs 16, le32_at bs 20), m_img_len = (le32_at bs 24, le32_at bs 28),
      m_img_crc32 = (le32_at bs 32, le32_at bs 36), m_rec_crc32 = le32_at bs 40\<rparr>"

definition zero_record :: ota_meta_record where
  "zero_record = \<lparr>m_magic = 0, m_struct_version = 0, m_counter = 0, m_active_slot = 0,
     m_slot_valid = 0, m_flags = 0, m_pad1 = 0, m_fw_version = (0, 0), m_img_len = (0, 0),
     m_img_crc32 = (0, 0), m_rec_crc32 = 0\<rparr>"

definition is_trial :: "ota_meta_record \<Rightarrow> bool" where
  "is_trial r \<longleftrightarrow> m_flags r AND OTA_META_FLAG_TRIAL \<noteq> 0"

section \<open>Slots, version floor, candidate selection\<close>

definition ota_slot_base_checked :: "u8 \<Rightarrow> u32 option" where
  "ota_slot_base_checked slot =
     (if slot = OTA_SLOT_A then Some OTA_SLOT_A_BASE
      else if slot = OTA_SLOT_B then Some OTA_SLOT_B_BASE
      else None)"

definition ota_version_floor :: "ota_meta_record \<Rightarrow> u32 option" where
  "ota_version_floor r =
     (if m_active_slot r \<noteq> OTA_SLOT_A \<and> m_active_slot r \<noteq> OTA_SLOT_B then Some 0
      else let src = (if is_trial r then m_active_slot r XOR 1 else m_active_slot r)
           in arr_get (m_fw_version r) src)"

definition ota_boot_candidate_ok :: "ota_meta_record \<Rightarrow> bool \<Rightarrow> bool" where
  "ota_boot_candidate_ok r wdt_fired \<longleftrightarrow> \<not> (is_trial r \<and> wdt_fired)"

text \<open>One \<open>for\<close> loop of the selection: the first index whose candidate is valid and passes \<open>p\<close>.\<close>

fun boot_scan :: "(ota_meta_record \<Rightarrow> bool) \<Rightarrow> (ota_meta_record \<times> bool) list \<Rightarrow> nat \<Rightarrow> nat option" where
  "boot_scan p [] i = None"
| "boot_scan p ((r, valid) # cs) i = (if valid \<and> p r then Some i else boot_scan p cs (Suc i))"

definition ota_boot_select :: "(ota_meta_record \<times> bool) list \<Rightarrow> bool \<Rightarrow> nat option \<times> bool" where
  "ota_boot_select cands wdt_fired =
     (case boot_scan (\<lambda>r. ota_boot_candidate_ok r wdt_fired) cands 0 of
        Some i \<Rightarrow> (Some i, False)
      | None \<Rightarrow>
          (case boot_scan (\<lambda>r. \<not> ota_boot_candidate_ok r wdt_fired) cands 0 of
             Some i \<Rightarrow> (Some i, True)
           | None \<Rightarrow> (None, False)))"

section \<open>Image predicates\<close>

abbreviation (input) "OTA_IMG_MIN_LEN \<equiv> (8 :: u32)"
abbreviation (input) "OTA_SRAM_BASE \<equiv> (0x20000000 :: u32)"
abbreviation (input) "OTA_SRAM_END \<equiv> (0x20018000 :: u32)"
abbreviation (input) "OTA_TRIAL_MARKER_STRUCT_VER \<equiv> (1 :: u16)"
abbreviation (input) "OTA_TRIAL_CAP_CONFIRM \<equiv> (1 :: u16)"
abbreviation (input) "OTA_TRIAL_SCAN_LIMIT \<equiv> (2048 :: u32)"
abbreviation (input) "OTA_TRIAL_MARKER_MIN_OFFSET \<equiv> (64 :: nat)"
abbreviation (input) "TRIAL_MARKER_SIZE \<equiv> (20 :: nat)"

text \<open>An image pointer is the readable span behind it, or \<open>None\<close> for the null pointer.\<close>

definition rd_le32 :: "bytes \<Rightarrow> nat \<Rightarrow> u32 option" where
  "rd_le32 p k = do { b0 \<leftarrow> rd p k; b1 \<leftarrow> rd p (k + 1); b2 \<leftarrow> rd p (k + 2); b3 \<leftarrow> rd p (k + 3);
     Some (le32 b0 b1 b2 b3) }"

definition ota_image_bootable :: "u32 \<Rightarrow> bytes option \<Rightarrow> u32 \<Rightarrow> bool option" where
  "ota_image_bootable base img len =
     (if len < OTA_IMG_MIN_LEN \<or> img = None then Some False
      else do {
        msp \<leftarrow> rd_le32 (the img) 0;
        reset \<leftarrow> rd_le32 (the img) 4;
        if msp AND 3 \<noteq> 0 then Some False
        else if msp < OTA_SRAM_BASE \<or> OTA_SRAM_END < msp then Some False
        else if reset AND 1 = 0 then Some False
        else let reset_addr = reset AND NOT 1
             in if reset_addr < base \<or> base + len \<le> reset_addr then Some False
                else Some True })"

definition OTA_TRIAL_MARKER_MAGIC_BYTES :: bytes where
  "OTA_TRIAL_MARKER_MAGIC_BYTES =
     [0x47, 0x44, 0x33, 0x32, 0x42, 0x52, 0x49, 0x44, 0x47, 0x45, 0x2D, 0x54, 0x52, 0x49, 0x41, 0x4C]"

definition ota_trial_rd_u16 :: "bytes \<Rightarrow> nat \<Rightarrow> u16 option" where
  "ota_trial_rd_u16 p k = do { b0 \<leftarrow> rd p k; b1 \<leftarrow> rd p (k + 1); Some (le16 b0 b1) }"

text \<open>\<open>memcmp\<close> of \<open>length ys\<close> bytes at an offset of a span; reading past the span is undefined.\<close>

definition memcmp_eq :: "bytes \<Rightarrow> nat \<Rightarrow> bytes \<Rightarrow> bool option" where
  "memcmp_eq p off ys =
     (if off + length ys \<le> length p then Some (take (length ys) (drop off p) = ys) else None)"

function trial_scan :: "bytes \<Rightarrow> nat \<Rightarrow> nat \<Rightarrow> bool option" where
  "trial_scan img limit off =
     (if off + TRIAL_MARKER_SIZE \<le> limit
      then do {
        hit \<leftarrow> memcmp_eq img off OTA_TRIAL_MARKER_MAGIC_BYTES;
        if hit
        then do {
          ver \<leftarrow> ota_trial_rd_u16 img (off + 16);
          if ver \<noteq> OTA_TRIAL_MARKER_STRUCT_VER then Some False
          else do {
            cap \<leftarrow> ota_trial_rd_u16 img (off + 18);
            Some (cap AND OTA_TRIAL_CAP_CONFIRM \<noteq> 0) } }
        else trial_scan img limit (off + 4) }
      else Some False)"
  by pat_completeness auto
termination
  by (relation "measure (\<lambda>(img, limit, off). limit - off)") auto

declare trial_scan.simps [simp del]

definition ota_image_trial_capable :: "bytes option \<Rightarrow> u32 \<Rightarrow> bool option" where
  "ota_image_trial_capable img len =
     (case img of
        None \<Rightarrow> Some False
      | Some p \<Rightarrow>
          let limit = (if len < OTA_TRIAL_SCAN_LIMIT then len else OTA_TRIAL_SCAN_LIMIT)
          in if unat limit < TRIAL_MARKER_SIZE then Some False
             else trial_scan p (unat limit) OTA_TRIAL_MARKER_MIN_OFFSET)"

section \<open>Record encoding\<close>

lemma length_meta_body [simp]: "length (meta_body r) = 40"
  by (simp add: meta_body_def)

lemma length_meta_bytes [simp]: "length (meta_bytes r) = 44"
  by (simp add: meta_bytes_def)

lemma meta_of_bytes_meta_bytes [simp]: "meta_of_bytes (meta_bytes r) = r"
  by (simp add: meta_of_bytes_def meta_bytes_def meta_body_def bytes32_def le32_at_def)

lemma list_44_cases:
  assumes "length bs = 44"
  shows "bs = map ((!) bs) [0..<44]"
  using assms map_nth [of bs] by simp

lemma bytes32_le32 [simp]: "bytes32 (le32 a b c d) = [a, b, c, d]"
  by (simp add: bytes32_def)

lemma meta_bytes_meta_of_bytes:
  assumes "length bs = 44"
  shows "meta_bytes (meta_of_bytes bs) = bs"
proof -
  have "bs = map ((!) bs) [0..<44]" using assms by (rule list_44_cases)
  also have "\<dots> = meta_bytes (meta_of_bytes bs)"
    by (simp add: meta_of_bytes_def meta_bytes_def meta_body_def le32_at_def upt_conv_Cons eval_nat_numeral)
  finally show ?thesis by simp
qed

lemma take_40_meta_bytes [simp]: "take 40 (meta_bytes r) = meta_body r"
  by (simp add: meta_bytes_def)

lemma meta_body_rec_crc32_update [simp]: "meta_body (r\<lparr>m_rec_crc32 := c\<rparr>) = meta_body r"
  by (simp add: meta_body_def)

section \<open>Slots and the version floor\<close>

lemma ota_slot_base_checked_simps [simp]:
  "ota_slot_base_checked OTA_SLOT_A = Some OTA_SLOT_A_BASE"
  "ota_slot_base_checked OTA_SLOT_B = Some OTA_SLOT_B_BASE"
  by (simp_all add: ota_slot_base_checked_def)

lemma ota_slot_base_checked_SomeD:
  "ota_slot_base_checked s = Some b \<Longrightarrow>
   s = OTA_SLOT_A \<and> b = OTA_SLOT_A_BASE \<or> s = OTA_SLOT_B \<and> b = OTA_SLOT_B_BASE"
  by (auto simp: ota_slot_base_checked_def split: if_splits)

lemma ota_version_floor_defined: "\<exists>v. ota_version_floor r = Some v"
  by (auto simp: ota_version_floor_def Let_def)

section \<open>Candidate selection\<close>

lemma boot_scan_Some_iff:
  "boot_scan p cs i = Some k \<longleftrightarrow>
   (\<exists>j r. k = i + j \<and> j < length cs \<and> cs ! j = (r, True) \<and> p r \<and>
      (\<forall>l < j. \<not> (snd (cs ! l) \<and> p (fst (cs ! l)))))"
proof (induction p cs i rule: boot_scan.induct)
  case (2 p r valid cs i)
  show ?case
  proof (cases "valid \<and> p r")
    case True
    then show ?thesis by (auto simp: less_Suc_eq_0_disj intro: exI [of _ 0])
  next
    case False
    then have "boot_scan p ((r, valid) # cs) i = boot_scan p cs (Suc i)" by auto
    moreover have "(\<exists>j r'. k = Suc i + j \<and> j < length cs \<and> cs ! j = (r', True) \<and> p r' \<and>
          (\<forall>l < j. \<not> (snd (cs ! l) \<and> p (fst (cs ! l))))) \<longleftrightarrow>
        (\<exists>j r'. k = i + j \<and> j < length ((r, valid) # cs) \<and> ((r, valid) # cs) ! j = (r', True) \<and>
          p r' \<and> (\<forall>l < j. \<not> (snd (((r, valid) # cs) ! l) \<and> p (fst (((r, valid) # cs) ! l)))))"
      (is "?L \<longleftrightarrow> ?R")
    proof
      assume ?L
      then obtain j r' where "k = Suc i + j" "j < length cs" "cs ! j = (r', True)" "p r'"
        "\<forall>l < j. \<not> (snd (cs ! l) \<and> p (fst (cs ! l)))" by blast
      then show ?R using False
        by (intro exI [of _ "Suc j"] exI [of _ r']) (auto simp: less_Suc_eq_0_disj)
    next
      assume ?R
      then obtain j r' where j: "k = i + j" "j < length ((r, valid) # cs)"
        "((r, valid) # cs) ! j = (r', True)" "p r'"
        "\<forall>l < j. \<not> (snd (((r, valid) # cs) ! l) \<and> p (fst (((r, valid) # cs) ! l)))" by blast
      from j False obtain j' where "j = Suc j'" by (cases j) auto
      with j show ?L by (intro exI [of _ j'] exI [of _ r']) auto
    qed
    ultimately show ?thesis using "2.IH" [OF False] by simp
  qed
qed simp

lemma boot_scan_None_iff: "boot_scan p cs i = None \<longleftrightarrow> (\<forall>(r, v) \<in> set cs. \<not> (v \<and> p r))"
  by (induction p cs i rule: boot_scan.induct) auto

lemma ota_boot_select_None_iff:
  "fst (ota_boot_select cs w) = None \<longleftrightarrow> (\<forall>(r, v) \<in> set cs. \<not> v)"
  by (auto simp: ota_boot_select_def boot_scan_None_iff split: option.splits
      dest: boot_scan_Some_iff [THEN iffD1])
     (metis (no_types, lifting) nth_mem case_prodD boot_scan_Some_iff)+

section \<open>Image predicates\<close>

lemma rd_le32_in [simp, mem_safe]:
  "k + 4 \<le> length p \<Longrightarrow> rd_le32 p k = Some (le32_at p k)"
  by (simp add: rd_le32_def le32_at_def)

lemma ota_image_bootable_defined:
  assumes "unat len \<le> length img"
  shows "\<exists>b. ota_image_bootable base (Some img) len = Some b"
proof (cases "len < OTA_IMG_MIN_LEN")
  case False
  then have "8 \<le> length img" using assms by (simp add: word_le_nat_alt word_less_nat_alt)
  then show ?thesis by (auto simp: ota_image_bootable_def Let_def)
qed (auto simp: ota_image_bootable_def)

lemma ota_trial_rd_u16_in [simp, mem_safe]:
  "k + 2 \<le> length p \<Longrightarrow> ota_trial_rd_u16 p k = Some (le16 (p ! k) (p ! (k + 1)))"
  by (simp add: ota_trial_rd_u16_def)

lemma trial_scan_defined: "limit \<le> length img \<Longrightarrow> \<exists>b. trial_scan img limit off = Some b"
proof (induction img limit off rule: trial_scan.induct)
  case (1 img limit off)
  then show ?case
    by (subst trial_scan.simps) (auto simp: memcmp_eq_def OTA_TRIAL_MARKER_MAGIC_BYTES_def)
qed

lemma ota_image_trial_capable_defined:
  assumes "unat len \<le> length img"
  shows "\<exists>b. ota_image_trial_capable (Some img) len = Some b"
  using assms by (auto simp: ota_image_trial_capable_def Let_def word_less_nat_alt
      intro!: trial_scan_defined)

end
