(* ===== verification/Fmc.thy ===== *)
theory Fmc
  imports Layout
begin

unbundle bit_operations_syntax

text \<open>
  The flash backend \<open>hal/fmc_ota.c\<close> with its address guard \<open>hal/fmc_ota_guard.h\<close>, at register
  level.  The flash memory controller itself is hardware: whether a status read sees BUSY,
  which error flags an operation latches, and what an operation leaves in the page or
  doubleword it targets are fields of the environment \<open>hw_env\<close>, indexed by the number of
  status reads made so far.  Only the extent of an operation is fixed: a page erase touches
  the page selected by DBS, BKSEL and PNSEL, a program the addressed doubleword.

  \<open>hw_honest\<close> is the one hypothesis on the hardware, used only by statements about
  success: an operation whose wait ended without BUSY and without an error flag was performed.
  Because a controller that reports BUSY for ever makes every later operation fail before it
  touches flash, a power cut in the middle of an operation is the special case \<open>power_cut\<close> of
  the environment, so statements about every environment cover it.
\<close>

section \<open>Build and hardware environment\<close>

datatype build = Full_flash_build | Slot_A_build | Slot_B_build

text \<open>\<open>OTA_RUNNING_SLOT_BASE\<close>, defined only in the partitioned builds.\<close>

fun running_slot_base :: "build \<Rightarrow> u32 option" where
  "running_slot_base Full_flash_build = None"
| "running_slot_base Slot_A_build = Some OTA_SLOT_A_BASE"
| "running_slot_base Slot_B_build = Some OTA_SLOT_B_BASE"

datatype fmc_flag = WPERR | PGERR | PGSERR | PGAERR | RPERR | PGMERR | OBERR

datatype fmc_state_enum = FMC_READY | FMC_BUSY | FMC_WPERR | FMC_PGERR | FMC_PGSERR | FMC_PGAERR |
  FMC_RPERR | FMC_PGMERR | FMC_OBERR | FMC_TOERR

datatype ota_fmc_result = OTA_FMC_RESULT_OK | OTA_FMC_RESULT_ERROR | OTA_FMC_RESULT_TIMEOUT

text \<open>
  \<open>hw_erase n f\<close> and \<open>hw_prog n f g\<close> are the contents an operation started after \<open>n\<close> status reads
  leaves in its target, \<open>f\<close> being the flash before it and \<open>g\<close> the flash with the data written;
  \<open>hw_erase_ecc n e\<close> and \<open>hw_prog_ecc n\<close> say which of its bytes are then uncorrectable.
\<close>

record hw_env =
  env_build :: build
  hw_dbs :: bool
  hw_busy :: "nat \<Rightarrow> bool"
  hw_err :: "nat \<Rightarrow> fmc_flag \<Rightarrow> bool"
  hw_erase :: "nat \<Rightarrow> flash \<Rightarrow> flash"
  hw_erase_ecc :: "nat \<Rightarrow> (u32 \<Rightarrow> bool) \<Rightarrow> u32 \<Rightarrow> bool"
  hw_prog :: "nat \<Rightarrow> flash \<Rightarrow> flash \<Rightarrow> flash"
  hw_prog_ecc :: "nat \<Rightarrow> u32 \<Rightarrow> bool"

record fmc_st =
  flash :: flash
  ecc_bad :: "u32 \<Rightarrow> bool"
  polls :: nat
  stat_err :: "fmc_flag \<Rightarrow> bool"
  ctl_lk :: bool
  ctl_per :: bool
  ctl_pg :: bool
  ctl_bksel :: bool
  ctl_pnsel :: u8
  primask :: bool
  flashecc_ie :: bool
  eccdet :: bool
  ecc_nmi :: bool
  s_fmc_owned :: bool

section \<open>Address guard\<close>

definition ota_fmc_range_forbidden :: "build \<Rightarrow> u32 \<Rightarrow> u32 \<Rightarrow> bool" where
  "ota_fmc_range_forbidden b base len \<longleftrightarrow>
     (if len > 0xFFFFFFFF - base then True
      else let end' = base + len in
        if base < OTA_BOOTLOADER_BASE + OTA_BOOTLOADER_SIZE \<and> OTA_BOOTLOADER_BASE < end' then True
        else (case running_slot_base b of
                Some rs \<Rightarrow> base < rs + OTA_SLOT_SIZE \<and> rs < end'
              | None \<Rightarrow> False))"

section \<open>Controller status\<close>

abbreviation (input) "OTA_FMC_PAGE_SIZE_DBANK \<equiv> (0x400 :: u32)"
abbreviation (input) "OTA_FMC_PAGE_SIZE_SBANK \<equiv> (0x800 :: u32)"
abbreviation (input) "OTA_FMC_ERASE_TIMEOUT_ITERS \<equiv> (2200000 :: u32)"
abbreviation (input) "OTA_FMC_PROGRAM_TIMEOUT_ITERS \<equiv> (9000 :: u32)"

definition ota_fmc_supported :: bool where
  "ota_fmc_supported = True"

text \<open>The decode order of the error flags, after BUSY.\<close>

definition err_decode :: "(fmc_flag \<times> fmc_state_enum) list" where
  "err_decode = [(WPERR, FMC_WPERR), (PGERR, FMC_PGERR), (PGSERR, FMC_PGSERR),
     (PGAERR, FMC_PGAERR), (RPERR, FMC_RPERR), (PGMERR, FMC_PGMERR), (OBERR, FMC_OBERR)]"

fun first_err :: "(fmc_flag \<Rightarrow> bool) \<Rightarrow> (fmc_flag \<times> fmc_state_enum) list \<Rightarrow> fmc_state_enum" where
  "first_err e [] = FMC_READY"
| "first_err e ((fl, st) # ds) = (if e fl then st else first_err e ds)"

definition ota_fmc_state_now :: "hw_env \<Rightarrow> fmc_st \<Rightarrow> fmc_state_enum \<times> fmc_st" where
  "ota_fmc_state_now env s =
     (if hw_busy env (polls s) then FMC_BUSY else first_err (stat_err s) err_decode,
      s\<lparr>polls := Suc (polls s)\<rparr>)"

text \<open>The \<open>do .. while\<close> of the bounded wait, on the 32-bit countdown.\<close>

function wait_loop :: "hw_env \<Rightarrow> u32 \<Rightarrow> fmc_st \<Rightarrow> fmc_state_enum \<times> fmc_st" where
  "wait_loop env timeout s =
     (let (st, s1) = ota_fmc_state_now env s; timeout' = timeout - 1
      in if st = FMC_BUSY \<and> timeout' \<noteq> 0 then wait_loop env timeout' s1 else (st, s1))"
  by pat_completeness auto
termination
proof (relation "measure (\<lambda>(env, timeout, s). unat (timeout - 1))", goal_cases)
  case (2 env timeout s x st s1 timeout')
  then show ?case using measure_unat [of timeout'] by simp
qed simp

declare wait_loop.simps [simp del]

definition ota_fmc_wait_ready :: "hw_env \<Rightarrow> u32 \<Rightarrow> fmc_st \<Rightarrow> fmc_state_enum \<times> fmc_st" where
  "ota_fmc_wait_ready env timeout s =
     (let (st, s1) = wait_loop env timeout s
      in (if st = FMC_BUSY then FMC_TOERR else st, s1))"

text \<open>Writing the error mask to the write-one-to-clear status register.\<close>

definition stat_clear :: "fmc_st \<Rightarrow> fmc_st" where
  "stat_clear s = s\<lparr>stat_err := (\<lambda>_. False)\<rparr>"

definition fmc_unlock :: "fmc_st \<Rightarrow> fmc_st" where
  "fmc_unlock s = s\<lparr>ctl_lk := False\<rparr>"

definition fmc_lock :: "fmc_st \<Rightarrow> fmc_st" where
  "fmc_lock s = s\<lparr>ctl_lk := True\<rparr>"

section \<open>Page erase\<close>

definition fmc_page_size :: "hw_env \<Rightarrow> u32" where
  "fmc_page_size env = (if hw_dbs env then OTA_FMC_PAGE_SIZE_DBANK else OTA_FMC_PAGE_SIZE_SBANK)"

text \<open>The page that the control register selects.\<close>

definition sel_base :: "hw_env \<Rightarrow> fmc_st \<Rightarrow> u32" where
  "sel_base env s =
     (if hw_dbs env \<and> ctl_bksel s then OTA_FMC_BANK1_BASE else OTA_BOOTLOADER_BASE) +
     fmc_page_size env * ucast (ctl_pnsel s)"

definition overlay :: "(u32 \<Rightarrow> bool) \<Rightarrow> (u32 \<Rightarrow> 'a) \<Rightarrow> (u32 \<Rightarrow> 'a) \<Rightarrow> u32 \<Rightarrow> 'a" where
  "overlay p new old a = (if p a then new a else old a)"

text \<open>Setting START: the controller erases the selected page, unless its register is locked.\<close>

definition fmc_start :: "hw_env \<Rightarrow> fmc_st \<Rightarrow> fmc_st" where
  "fmc_start env s =
     (if ctl_per s \<and> \<not> ctl_lk s
      then let p = in_range (sel_base env s) (unat (fmc_page_size env)) in
        s\<lparr>flash := overlay p (hw_erase env (polls s) (flash s)) (flash s),
          ecc_bad := overlay p (hw_erase_ecc env (polls s) (ecc_bad s)) (ecc_bad s),
          stat_err := (\<lambda>fl. stat_err s fl \<or> hw_err env (polls s) fl)\<rparr>
      else s)"

text \<open>Computing the bank and page of an address and writing BKSEL, PNSEL and PER.\<close>

definition select_page :: "hw_env \<Rightarrow> u32 \<Rightarrow> fmc_st \<Rightarrow> fmc_st" where
  "select_page env addr s =
     (let dual = hw_dbs env;
          bank1 = dual \<and> addr \<ge> OTA_FMC_BANK1_BASE;
          page = (if dual
                  then (addr - (if bank1 then OTA_FMC_BANK1_BASE else OTA_BOOTLOADER_BASE))
                         div OTA_FMC_PAGE_SIZE_DBANK
                  else (addr - OTA_BOOTLOADER_BASE) div OTA_FMC_PAGE_SIZE_SBANK)
      in s\<lparr>ctl_bksel := bank1, ctl_pnsel := ucast page, ctl_per := True\<rparr>)"

definition erase_one_page :: "hw_env \<Rightarrow> u32 \<Rightarrow> fmc_st \<Rightarrow> fmc_state_enum \<times> fmc_st" where
  "erase_one_page env addr s =
     (let (st, s) = ota_fmc_wait_ready env OTA_FMC_ERASE_TIMEOUT_ITERS (stat_clear s)
      in if st \<noteq> FMC_READY then (st, s)
         else let s = select_page env addr s;
                  pm = primask s;
                  s = fmc_start env (s\<lparr>primask := True\<rparr>);
                  (st, s) = ota_fmc_wait_ready env OTA_FMC_ERASE_TIMEOUT_ITERS s
              in (st, s\<lparr>primask := pm, ctl_per := False, ctl_pnsel := 0, ctl_bksel := False\<rparr>))"

section \<open>Funnel ownership\<close>

definition fmc_funnel_claim :: "fmc_st \<Rightarrow> bool \<times> fmc_st" where
  "fmc_funnel_claim s =
     (let free_now = \<not> s_fmc_owned s
      in (free_now, if free_now then s\<lparr>s_fmc_owned := True\<rparr> else s))"

definition fmc_funnel_release :: "fmc_st \<Rightarrow> fmc_st" where
  "fmc_funnel_release s = s\<lparr>s_fmc_owned := False\<rparr>"

definition ota_fmc_funnel_busy :: "fmc_st \<Rightarrow> bool" where
  "ota_fmc_funnel_busy s = s_fmc_owned s"

definition ota_fmc_config_write_safe :: "hw_env \<Rightarrow> bool" where
  "ota_fmc_config_write_safe env =
     (if \<not> hw_dbs env then False
      else case running_slot_base (env_build env) of
             Some rs \<Rightarrow> \<not> (rs \<ge> OTA_FMC_BANK1_BASE)
           | None \<Rightarrow> True)"

section \<open>Reads\<close>

text \<open>Loading a word: an uncorrectable doubleword raises ECCDET, and the NMI when it is armed.\<close>

definition load_span :: "u32 \<Rightarrow> nat \<Rightarrow> fmc_st \<Rightarrow> bytes \<times> fmc_st" where
  "load_span addr len s =
     (let bad = (\<exists>i \<in> set [0..<len]. ecc_bad s (addr + of_nat i))
      in (fbytes (flash s) addr len,
          s\<lparr>eccdet := eccdet s \<or> bad, ecc_nmi := ecc_nmi s \<or> (bad \<and> flashecc_ie s)\<rparr>))"

definition ota_fmc_read_safe :: "u32 \<Rightarrow> nat \<Rightarrow> fmc_st \<Rightarrow> bytes option \<times> fmc_st" where
  "ota_fmc_read_safe addr len s =
     (if (addr OR of_nat len) AND 7 \<noteq> 0 then (None, s)
      else let pm = primask s;
               nmi_armed = flashecc_ie s;
               s = s\<lparr>primask := True, flashecc_ie := False, eccdet := False\<rparr>;
               (dst, s) = load_span addr len s;
               bad = eccdet s
           in (if bad then None else Some dst,
               s\<lparr>eccdet := False, flashecc_ie := nmi_armed, primask := pm\<rparr>))"

section \<open>Erase and program\<close>

text \<open>
  The page walk.  The guards that precede it exclude wrap-around (the span is aligned and
  ends at or below \<open>0xFFFFFFFF\<close>), so the loop variable is a natural number.
\<close>

function erase_loop :: "hw_env \<Rightarrow> nat \<Rightarrow> nat \<Rightarrow> fmc_st \<Rightarrow> ota_fmc_result \<times> fmc_st" where
  "erase_loop env a e s =
     (if a < e
      then let (st, s) = erase_one_page env (of_nat a) s
           in if st \<noteq> FMC_READY
              then (if st = FMC_TOERR then OTA_FMC_RESULT_TIMEOUT else OTA_FMC_RESULT_ERROR, s)
              else erase_loop env (a + unat (fmc_page_size env)) e s
      else (OTA_FMC_RESULT_OK, s))"
  by pat_completeness auto
termination
  by (relation "measure (\<lambda>(env, a, e, s). e - a)") (auto simp: fmc_page_size_def)

declare erase_loop.simps [simp del]

definition ota_fmc_erase_range :: "hw_env \<Rightarrow> u32 \<Rightarrow> u32 \<Rightarrow> fmc_st \<Rightarrow> ota_fmc_result \<times> fmc_st" where
  "ota_fmc_erase_range env base len s =
     (if base mod OTA_PAGE_SIZE \<noteq> 0 \<or> len mod OTA_PAGE_SIZE \<noteq> 0 then (OTA_FMC_RESULT_ERROR, s)
      else if ota_fmc_range_forbidden (env_build env) base len then (OTA_FMC_RESULT_ERROR, s)
      else let (claimed, s) = fmc_funnel_claim s
           in if \<not> claimed then (OTA_FMC_RESULT_ERROR, s)
              else let (result, s) = erase_loop env (unat base) (unat (base + len)) (fmc_unlock s)
                   in (result, fmc_funnel_release (fmc_lock s)))"

text \<open>Setting PG and storing both words: the controller programs the addressed doubleword.\<close>

definition put_dword :: "u32 \<Rightarrow> bytes \<Rightarrow> flash \<Rightarrow> flash" where
  "put_dword addr dw f a = (if in_range addr 8 a then dw ! unat (a - addr) else f a)"

definition fmc_store_dword :: "hw_env \<Rightarrow> u32 \<Rightarrow> bytes \<Rightarrow> fmc_st \<Rightarrow> fmc_st" where
  "fmc_store_dword env addr dw s =
     (if ctl_pg s \<and> \<not> ctl_lk s
      then let p = in_range addr 8 in
        s\<lparr>flash := overlay p (hw_prog env (polls s) (flash s) (put_dword addr dw (flash s))) (flash s),
          ecc_bad := overlay p (hw_prog_ecc env (polls s)) (ecc_bad s),
          stat_err := (\<lambda>fl. stat_err s fl \<or> hw_err env (polls s) fl)\<rparr>
      else s)"

definition program_one_dword :: "hw_env \<Rightarrow> u32 \<Rightarrow> bytes \<Rightarrow> fmc_st \<Rightarrow> fmc_state_enum \<times> fmc_st" where
  "program_one_dword env addr dw s =
     (let (st, s) = ota_fmc_wait_ready env OTA_FMC_PROGRAM_TIMEOUT_ITERS (stat_clear s)
      in if st \<noteq> FMC_READY then (st, s)
         else let pm = primask s;
                  s = fmc_store_dword env addr dw (s\<lparr>primask := True, ctl_pg := True\<rparr>);
                  (st, s) = ota_fmc_wait_ready env OTA_FMC_PROGRAM_TIMEOUT_ITERS s
              in (st, s\<lparr>primask := pm, ctl_pg := False\<rparr>))"

text \<open>The eight-byte buffer of one iteration: the next data bytes, a short tail padded with 0xFF.\<close>

definition dword_buf :: "bytes \<Rightarrow> bytes" where
  "dword_buf ds = take 8 ds @ replicate (8 - length ds) 0xFF"

fun program_loop :: "hw_env \<Rightarrow> u32 \<Rightarrow> bytes \<Rightarrow> fmc_st \<Rightarrow> ota_fmc_result \<times> fmc_st" where
  "program_loop env addr [] s = (OTA_FMC_RESULT_OK, s)"
| "program_loop env addr (d # ds) s =
     (let (st, s) = program_one_dword env addr (dword_buf (d # ds)) s
      in if st \<noteq> FMC_READY
         then (if st = FMC_TOERR then OTA_FMC_RESULT_TIMEOUT else OTA_FMC_RESULT_ERROR, s)
         else program_loop env (addr + 8) (drop 8 (d # ds)) s)"

declare program_loop.simps [simp del]

definition ota_fmc_program :: "hw_env \<Rightarrow> u32 \<Rightarrow> bytes \<Rightarrow> fmc_st \<Rightarrow> ota_fmc_result \<times> fmc_st" where
  "ota_fmc_program env addr data s =
     (if addr mod 8 \<noteq> 0 then (OTA_FMC_RESULT_ERROR, s)
      else if ota_fmc_range_forbidden (env_build env) addr (of_nat (length data))
           then (OTA_FMC_RESULT_ERROR, s)
      else let (claimed, s) = fmc_funnel_claim s
           in if \<not> claimed then (OTA_FMC_RESULT_ERROR, s)
              else let (result, s) = program_loop env addr data (fmc_unlock s)
                   in (result, fmc_funnel_release (fmc_lock s)))"

section \<open>The wait\<close>

definition same_outside :: "(u32 \<Rightarrow> bool) \<Rightarrow> fmc_st \<Rightarrow> fmc_st \<Rightarrow> bool" where
  "same_outside p s s' \<longleftrightarrow>
     (\<forall>a. \<not> p a \<longrightarrow> flash s' a = flash s a \<and> ecc_bad s' a = ecc_bad s a)"

text \<open>The parts of the state that every operation hands back as it found them.\<close>

definition fmc_ctx :: "fmc_st \<Rightarrow> bool \<times> bool \<times> bool \<times> bool \<times> bool" where
  "fmc_ctx s = (s_fmc_owned s, primask s, flashecc_ie s, ecc_nmi s, ctl_lk s)"

named_theorems fmc_frame "frame rules of the flash backend"

lemma same_outside_refl [simp, intro]: "same_outside p s s"
  by (simp add: same_outside_def)

lemma same_outside_trans: "same_outside p s t \<Longrightarrow> same_outside p t u \<Longrightarrow> same_outside p s u"
  by (simp add: same_outside_def)

lemma same_outside_mono: "same_outside p s t \<Longrightarrow> (\<And>a. p a \<Longrightarrow> q a) \<Longrightarrow> same_outside q s t"
  by (auto simp: same_outside_def)

lemma first_err_READY: "first_err e err_decode = FMC_READY \<longleftrightarrow> (\<forall>fl. \<not> e fl)"
  by (auto simp: err_decode_def) (metis fmc_flag.exhaust)

lemma first_err_not: "first_err e err_decode \<noteq> FMC_BUSY" "first_err e err_decode \<noteq> FMC_TOERR"
  by (auto simp: err_decode_def)

lemma wait_loop_frame: "\<exists>k. snd (wait_loop env t s) = s\<lparr>polls := k\<rparr>"
proof (induction env t s rule: wait_loop.induct)
  case (1 env t s)
  show ?case
    by (subst wait_loop.simps)
       (use 1 in \<open>auto simp: Let_def ota_fmc_state_now_def split: if_splits\<close>)
qed

lemma wait_ready_frame [fmc_frame]: "\<exists>k. snd (ota_fmc_wait_ready env t s) = s\<lparr>polls := k\<rparr>"
  using wait_loop_frame [of env t s] by (auto simp: ota_fmc_wait_ready_def split: prod.splits)

lemma wait_loop_READY:
  assumes "fst (wait_loop env t s) = FMC_READY" "t \<noteq> 0"
  shows "(\<exists>k < unat t. \<not> hw_busy env (polls s + k)) \<and> (\<forall>fl. \<not> stat_err s fl)"
  using assms
proof (induction env t s rule: wait_loop.induct)
  case (1 env t s)
  show ?case
  proof (cases "hw_busy env (polls s)")
    case False
    then show ?thesis using "1.prems"
      by (subst (asm) wait_loop.simps)
         (auto simp: Let_def ota_fmc_state_now_def first_err_READY first_err_not unat_gt_0
           split: if_splits intro!: exI [of _ 0])
  next
    case True
    then have t: "t - 1 \<noteq> 0"
      and w: "fst (wait_loop env (t - 1) (s\<lparr>polls := Suc (polls s)\<rparr>)) = FMC_READY"
      using "1.prems" by (subst (asm) wait_loop.simps;
        auto simp: Let_def ota_fmc_state_now_def split: if_splits)+
    have ih: "(\<exists>k < unat (t - 1). \<not> hw_busy env (Suc (polls s) + k)) \<and> (\<forall>fl. \<not> stat_err s fl)"
      using "1.IH" [OF refl _ refl _ _ t, of FMC_BUSY "s\<lparr>polls := Suc (polls s)\<rparr>"] t w True
      by (simp add: ota_fmc_state_now_def)
    have "unat (t - 1) < unat t" using measure_unat "1.prems"(2) by blast
    moreover obtain k where "k < unat (t - 1)" "\<not> hw_busy env (polls s + Suc k)" using ih by auto
    ultimately have "Suc k < unat t \<and> \<not> hw_busy env (polls s + Suc k)" by simp
    with ih show ?thesis by blast
  qed
qed

lemma wait_ready_READY:
  assumes "fst (ota_fmc_wait_ready env t s) = FMC_READY" "t \<noteq> 0"
  shows "(\<exists>k < unat t. \<not> hw_busy env (polls s + k)) \<and> (\<forall>fl. \<not> stat_err s fl)"
  using assms wait_loop_READY [of env t s]
  by (auto simp: ota_fmc_wait_ready_def split: prod.splits if_splits)

text \<open>
  \<open>hw_honest\<close>: when the wait that follows an operation sees BUSY go away within its budget and no
  error flag was latched, the page reads erased or the doubleword reads what was stored.
\<close>

definition op_reported_ok :: "hw_env \<Rightarrow> u32 \<Rightarrow> nat \<Rightarrow> bool" where
  "op_reported_ok env t n \<longleftrightarrow>
     (\<exists>k < unat t. \<not> hw_busy env (n + k)) \<and> (\<forall>fl. \<not> hw_err env n fl)"

definition hw_honest :: "hw_env \<Rightarrow> bool" where
  "hw_honest env \<longleftrightarrow>
     (\<forall>n. op_reported_ok env OTA_FMC_ERASE_TIMEOUT_ITERS n \<longrightarrow>
        (\<forall>f e a. hw_erase env n f a = 0xFF \<and> \<not> hw_erase_ecc env n e a)) \<and>
     (\<forall>n. op_reported_ok env OTA_FMC_PROGRAM_TIMEOUT_ITERS n \<longrightarrow>
        (\<forall>f g a. hw_prog env n f g a = g a \<and> \<not> hw_prog_ecc env n a))"

section \<open>Page erase\<close>

definition in_flash :: "u32 \<Rightarrow> nat \<Rightarrow> bool" where
  "in_flash base len \<longleftrightarrow> 0x08000000 \<le> unat base \<and> unat base + len \<le> 0x08080000"

lemma unat_fmc_page_size: "unat (fmc_page_size env) = (if hw_dbs env then 1024 else 2048)"
  by (simp add: fmc_page_size_def)

lemma page_number_base:
  fixes addr b :: u32
  assumes "b \<le> addr" "unat addr - unat b < 256 * unat sz" "unat sz dvd unat addr - unat b"
    and "unat sz * 256 < 2 ^ 32" "0 < unat sz"
  shows "b + sz * ucast (ucast ((addr - b) div sz) :: u8) = addr"
proof -
  define k where "k = (unat addr - unat b) div unat sz"
  have k: "k < 256" "unat sz * k = unat addr - unat b"
    using assms by (auto simp: k_def less_mult_imp_div_less mult.commute)
  have d: "unat ((addr - b) div sz) = k"
    using assms(1) by (simp add: unat_div unat_sub k_def word_le_nat_alt)
  have "unat (ucast (ucast ((addr - b) div sz) :: u8) :: u32) = k"
    using k(1) by (simp add: unsigned_ucast_eq unsigned_take_bit_eq take_bit_nat_eq_self d)
  then have "ucast (ucast ((addr - b) div sz) :: u8) = (of_nat k :: u32)"
    by (metis of_nat_unat ucast_id)
  moreover have "sz * of_nat k = of_nat (unat sz * k)" by simp
  ultimately have "sz * ucast (ucast ((addr - b) div sz) :: u8) = of_nat (unat addr - unat b)"
    using k(2) by metis
  then show ?thesis using assms(1) by (simp add: word_le_nat_alt of_nat_diff)
qed

lemma select_page_sel_base:
  assumes "in_flash addr (unat (fmc_page_size env))" "unat (fmc_page_size env) dvd unat addr"
  shows "sel_base env (select_page env addr s\<lparr>primask := b\<rparr>) = addr"
proof (cases "hw_dbs env")
  case True
  have dv: "1024 dvd unat addr" using assms(2) True by (simp add: unat_fmc_page_size)
  show ?thesis
  proof (cases "addr \<ge> OTA_FMC_BANK1_BASE")
    case b1: True
    have "1024 dvd unat addr - 134479872" using dv by (intro dvd_diff_nat) auto
    with page_number_base [of OTA_FMC_BANK1_BASE addr OTA_FMC_PAGE_SIZE_DBANK] True b1 assms show ?thesis
      by (simp add: select_page_def Let_def sel_base_def fmc_page_size_def in_flash_def word_le_nat_alt)
  next
    case b0: False
    have "1024 dvd unat addr - 134217728" using dv by (intro dvd_diff_nat) auto
    with page_number_base [of OTA_BOOTLOADER_BASE addr OTA_FMC_PAGE_SIZE_DBANK] True b0 assms show ?thesis
      by (simp add: select_page_def Let_def sel_base_def fmc_page_size_def in_flash_def word_le_nat_alt)
  qed
next
  case False
  have "2048 dvd unat addr - 134217728"
    using assms(2) False by (intro dvd_diff_nat) (auto simp: unat_fmc_page_size)
  moreover have "unat addr - 134217728 < 524288"
    using assms(1) False by (auto simp: in_flash_def unat_fmc_page_size)
  ultimately show ?thesis
    using page_number_base [of OTA_BOOTLOADER_BASE addr OTA_FMC_PAGE_SIZE_SBANK] False assms
    by (simp add: select_page_def Let_def sel_base_def fmc_page_size_def in_flash_def word_le_nat_alt)
qed

abbreviation (input) page_span :: "hw_env \<Rightarrow> u32 \<Rightarrow> u32 \<Rightarrow> bool" where
  "page_span env addr \<equiv> in_range addr (unat (fmc_page_size env))"

lemma fmc_start_frame:
  "same_outside (in_range (sel_base env s) (unat (fmc_page_size env))) s (fmc_start env s)"
  by (simp add: fmc_start_def same_outside_def overlay_def Let_def)

lemma fmc_start_fields [simp]:
  "fmc_ctx (fmc_start env s) = fmc_ctx s" "polls (fmc_start env s) = polls s"
  by (simp_all add: fmc_start_def fmc_ctx_def Let_def)

lemma stat_clear_simps [simp]:
  "flash (stat_clear s) = flash s" "ecc_bad (stat_clear s) = ecc_bad s"
  "fmc_ctx (stat_clear s) = fmc_ctx s" "stat_err (stat_clear s) = (\<lambda>_. False)"
  "primask (stat_clear s) = primask s" "ctl_lk (stat_clear s) = ctl_lk s"
  "s_fmc_owned (stat_clear s) = s_fmc_owned s" "flashecc_ie (stat_clear s) = flashecc_ie s"
  "ecc_nmi (stat_clear s) = ecc_nmi s"
  by (simp_all add: stat_clear_def fmc_ctx_def)

lemma fmc_ctx_updates [simp]:
  "fmc_ctx (s\<lparr>polls := k\<rparr>) = fmc_ctx s" "fmc_ctx (s\<lparr>ctl_per := b\<rparr>) = fmc_ctx s"
  "fmc_ctx (s\<lparr>ctl_pg := b\<rparr>) = fmc_ctx s" "fmc_ctx (s\<lparr>ctl_bksel := b\<rparr>) = fmc_ctx s"
  "fmc_ctx (s\<lparr>ctl_pnsel := v\<rparr>) = fmc_ctx s"
  by (simp_all add: fmc_ctx_def)

lemma same_outside_cong:
  "flash s' = flash s \<Longrightarrow> ecc_bad s' = ecc_bad s \<Longrightarrow> flash t' = flash t \<Longrightarrow> ecc_bad t' = ecc_bad t \<Longrightarrow>
   same_outside p s' t' \<longleftrightarrow> same_outside p s t"
  by (simp add: same_outside_def)

lemma select_page_simps [simp]:
  "fmc_ctx (select_page env addr s) = fmc_ctx s" "polls (select_page env addr s) = polls s"
  "flash (select_page env addr s) = flash s" "ecc_bad (select_page env addr s) = ecc_bad s"
  "stat_err (select_page env addr s) = stat_err s" "ctl_per (select_page env addr s)"
  "ctl_lk (select_page env addr s) = ctl_lk s" "primask (select_page env addr s) = primask s"
  "s_fmc_owned (select_page env addr s) = s_fmc_owned s"
  "flashecc_ie (select_page env addr s) = flashecc_ie s" "ecc_nmi (select_page env addr s) = ecc_nmi s"
  by (simp_all add: select_page_def Let_def fmc_ctx_def)

lemma erase_one_page_cases:
  obtains (not_ready) st k where
      "erase_one_page env addr s = (st, (stat_clear s)\<lparr>polls := k\<rparr>)" "st \<noteq> FMC_READY"
      "fst (ota_fmc_wait_ready env OTA_FMC_ERASE_TIMEOUT_ITERS (stat_clear s)) = st"
  | (started) s1 k k' where
      "s1 = select_page env addr ((stat_clear s)\<lparr>polls := k\<rparr>)\<lparr>primask := True\<rparr>"
      "erase_one_page env addr s =
         (fst (ota_fmc_wait_ready env OTA_FMC_ERASE_TIMEOUT_ITERS (fmc_start env s1)),
          (fmc_start env s1)\<lparr>polls := k', primask := primask s,
             ctl_per := False, ctl_pnsel := 0, ctl_bksel := False\<rparr>)"
proof -
  obtain k where k: "snd (ota_fmc_wait_ready env OTA_FMC_ERASE_TIMEOUT_ITERS (stat_clear s)) =
      (stat_clear s)\<lparr>polls := k\<rparr>"
    using wait_ready_frame by blast
  define s1 where "s1 = select_page env addr ((stat_clear s)\<lparr>polls := k\<rparr>)\<lparr>primask := True\<rparr>"
  obtain k' where k': "snd (ota_fmc_wait_ready env OTA_FMC_ERASE_TIMEOUT_ITERS (fmc_start env s1)) =
      (fmc_start env s1)\<lparr>polls := k'\<rparr>"
    using wait_ready_frame by blast
  show thesis
  proof (cases "fst (ota_fmc_wait_ready env OTA_FMC_ERASE_TIMEOUT_ITERS (stat_clear s)) = FMC_READY")
    case False
    then have "erase_one_page env addr s =
        (fst (ota_fmc_wait_ready env OTA_FMC_ERASE_TIMEOUT_ITERS (stat_clear s)),
         (stat_clear s)\<lparr>polls := k\<rparr>)"
      using k by (auto simp: erase_one_page_def Let_def split: prod.splits)
    then show thesis using not_ready False by blast
  next
    case True
    then have "erase_one_page env addr s =
         (fst (ota_fmc_wait_ready env OTA_FMC_ERASE_TIMEOUT_ITERS (fmc_start env s1)),
          (fmc_start env s1)\<lparr>polls := k', primask := primask s,
             ctl_per := False, ctl_pnsel := 0, ctl_bksel := False\<rparr>)"
      using k k' by (auto simp: erase_one_page_def Let_def s1_def [symmetric] split: prod.splits)
    then show thesis using started s1_def by blast
  qed
qed

lemma erase_one_page_frame [fmc_frame]:
  assumes "in_flash addr (unat (fmc_page_size env))" "unat (fmc_page_size env) dvd unat addr"
  shows "same_outside (page_span env addr) s (snd (erase_one_page env addr s))"
proof (cases rule: erase_one_page_cases [of env addr s])
  case (not_ready st k)
  then show ?thesis by (simp add: same_outside_def)
next
  case (started s1 k k')
  have "sel_base env s1 = addr" unfolding started(1) using assms by (rule select_page_sel_base)
  then have "same_outside (page_span env addr) s1 (fmc_start env s1)"
    using fmc_start_frame [of env s1] by simp
  then show ?thesis using started by (simp add: same_outside_def)
qed

lemma erase_one_page_ctx [fmc_frame]: "fmc_ctx (snd (erase_one_page env addr s)) = fmc_ctx s"
proof (cases rule: erase_one_page_cases [of env addr s])
  case (started s1 k k')
  have "fmc_ctx (fmc_start env s1) = fmc_ctx s1" by simp
  then show ?thesis using started by (simp add: fmc_ctx_def)
qed simp

lemma erase_one_page_ok:
  assumes "in_flash addr (unat (fmc_page_size env))" "unat (fmc_page_size env) dvd unat addr"
    and "hw_honest env" "\<not> ctl_lk s" "fst (erase_one_page env addr s) = FMC_READY"
    and "page_span env addr a"
  shows "flash (snd (erase_one_page env addr s)) a = 0xFF \<and>
         \<not> ecc_bad (snd (erase_one_page env addr s)) a"
proof (cases rule: erase_one_page_cases [of env addr s])
  case (not_ready st k)
  then show ?thesis using assms by simp
next
  case (started s1 k k')
  have sb: "sel_base env s1 = addr" unfolding started(1) using assms(1,2) by (rule select_page_sel_base)
  have "op_reported_ok env OTA_FMC_ERASE_TIMEOUT_ITERS (polls s1)"
    using wait_ready_READY [of env OTA_FMC_ERASE_TIMEOUT_ITERS "fmc_start env s1"] started assms(4,5)
    by (auto simp: op_reported_ok_def fmc_start_def Let_def)
  then have "flash (fmc_start env s1) a = 0xFF \<and> \<not> ecc_bad (fmc_start env s1) a"
    using assms(3,4,6) sb started(1) by (simp add: hw_honest_def fmc_start_def overlay_def Let_def)
  then show ?thesis using started(2) by simp
qed

section \<open>Erase range\<close>

lemma unat_of_nat_flash: "a \<le> 0x08080000 \<Longrightarrow> unat (of_nat a :: u32) = a"
  by (simp add: unat_of_nat)

lemma erase_loop_step_in_flash:
  assumes "0x08000000 \<le> a" "e \<le> 0x08080000" "unat (fmc_page_size env) dvd a"
    and "unat (fmc_page_size env) dvd e" "a < e"
  shows "in_flash (of_nat a) (unat (fmc_page_size env))"
    and "unat (fmc_page_size env) dvd unat (of_nat a :: u32)"
    and "a + unat (fmc_page_size env) \<le> e"
proof -
  have "unat (fmc_page_size env) \<le> e - a"
    using assms by (intro dvd_imp_le) (auto intro: dvd_diff_nat)
  then show "a + unat (fmc_page_size env) \<le> e" using assms by simp
  then show "in_flash (of_nat a) (unat (fmc_page_size env))"
    using assms by (simp add: in_flash_def unat_of_nat_flash)
  show "unat (fmc_page_size env) dvd unat (of_nat a :: u32)"
    using assms by (simp add: unat_of_nat_flash)
qed

lemma erase_loop_frame:
  assumes "0x08000000 \<le> a" "e \<le> 0x08080000" "unat (fmc_page_size env) dvd a"
    and "unat (fmc_page_size env) dvd e" "\<And>x. a \<le> unat x \<Longrightarrow> unat x < e \<Longrightarrow> p x"
  shows "same_outside p s (snd (erase_loop env a e s)) \<and>
         fmc_ctx (snd (erase_loop env a e s)) = fmc_ctx s"
  using assms
proof (induction env a e s rule: erase_loop.induct)
  case (1 env a e s)
  show ?case
  proof (cases "a < e")
    case False
    then show ?thesis by (simp add: erase_loop.simps)
  next
    case True
    obtain st s1 where e1: "erase_one_page env (of_nat a) s = (st, s1)" by fastforce
    note step = erase_loop_step_in_flash [OF "1.prems"(1-4) True]
    have "same_outside (page_span env (of_nat a)) s s1"
      using erase_one_page_frame [OF step(1,2), of s] e1 by simp
    then have f1: "same_outside p s s1"
      by (rule same_outside_mono)
         (use step(3) "1.prems"(1,2,5) in \<open>auto simp: in_range_def unat_of_nat_flash\<close>)
    have c1: "fmc_ctx s1 = fmc_ctx s" using erase_one_page_ctx [of env "of_nat a" s] e1 by simp
    have "same_outside p s1 (snd (erase_loop env (a + unat (fmc_page_size env)) e s1)) \<and>
        fmc_ctx (snd (erase_loop env (a + unat (fmc_page_size env)) e s1)) = fmc_ctx s1"
      if "st = FMC_READY"
      by (rule "1.IH") (use True e1 that "1.prems" in \<open>simp_all add: dvd_add\<close>)
    then show ?thesis using True e1 f1 c1
      by (subst (1 2) erase_loop.simps) (auto intro: same_outside_trans)
  qed
qed

lemma fmc_ctx_lkD: "fmc_ctx s' = fmc_ctx s \<Longrightarrow> ctl_lk s' = ctl_lk s"
  by (simp add: fmc_ctx_def)

lemma erase_loop_ok:
  assumes "0x08000000 \<le> a" "e \<le> 0x08080000" "unat (fmc_page_size env) dvd a"
    and "unat (fmc_page_size env) dvd e" "hw_honest env" "\<not> ctl_lk s"
    and "fst (erase_loop env a e s) = OTA_FMC_RESULT_OK" "a \<le> unat x" "unat x < e"
  shows "flash (snd (erase_loop env a e s)) x = 0xFF \<and> \<not> ecc_bad (snd (erase_loop env a e s)) x"
  using assms
proof (induction env a e s rule: erase_loop.induct)
  case (1 env a e s)
  then have lt: "a < e" by simp
  obtain st s1 where e1: "erase_one_page env (of_nat a) s = (st, s1)" by fastforce
  note step = erase_loop_step_in_flash [OF "1.prems"(1-4) lt]
  let ?n = "a + unat (fmc_page_size env)"
  have ok: "st = FMC_READY" and rest: "fst (erase_loop env ?n e s1) = OTA_FMC_RESULT_OK"
    using "1.prems"(7) lt e1 by (subst (asm) erase_loop.simps; auto split: if_splits)+
  have eq: "snd (erase_loop env a e s) = snd (erase_loop env ?n e s1)"
    using lt e1 ok by (subst erase_loop.simps) simp
  have lk: "\<not> ctl_lk s1"
    using erase_one_page_ctx [of env "of_nat a" s] e1 "1.prems"(6) by (auto dest: fmc_ctx_lkD)
  show ?case
  proof (cases "unat x < ?n")
    case True
    then have "flash s1 x = 0xFF \<and> \<not> ecc_bad s1 x"
      using erase_one_page_ok [OF step(1,2) "1.prems"(5,6), of x] e1 ok "1.prems"(1,2,8) lt
      by (simp add: in_range_def unat_of_nat_flash)
    moreover have "same_outside (\<lambda>y. ?n \<le> unat y) s1 (snd (erase_loop env ?n e s1))"
      using erase_loop_frame [of ?n e env "\<lambda>y. ?n \<le> unat y" s1] "1.prems"(1-4) by (simp add: dvd_add)
    ultimately show ?thesis using True eq by (auto simp: same_outside_def)
  next
    case False
    then show ?thesis unfolding eq
      by (intro "1.IH") (use lt e1 ok rest lk "1.prems" in \<open>simp_all add: dvd_add\<close>)
  qed
qed

section \<open>The guard\<close>

text \<open>The flash that no operation may touch: the bootloader and the slot the build runs from.\<close>

definition protected :: "build \<Rightarrow> u32 \<Rightarrow> bool" where
  "protected b a \<longleftrightarrow> in_range OTA_BOOTLOADER_BASE (unat OTA_BOOTLOADER_SIZE) a \<or>
     (case running_slot_base b of
        Some rs \<Rightarrow> in_range rs (unat OTA_SLOT_SIZE) a
      | None \<Rightarrow> False)"

lemma unat_add_no_wrap:
  "\<not> (len :: u32) > 0xFFFFFFFF - base \<Longrightarrow> unat (base + len) = unat base + unat len"
proof -
  assume "\<not> len > 0xFFFFFFFF - base"
  moreover have "unat (0xFFFFFFFF - base) = 0xFFFFFFFF - unat base"
    using unat_u32_lt [of base] by (simp add: unat_sub_if_size word_size word_le_nat_alt)
  ultimately have "unat base + unat len < 2 ^ 32"
    using unat_u32_lt [of base] by (simp add: word_less_nat_alt)
  then show ?thesis by (simp add: unat_word_ariths(1))
qed

lemma range_allowed:
  assumes "\<not> ota_fmc_range_forbidden b base len"
  shows "unat (base + len) = unat base + unat len"
    and "in_range base (unat len) a \<Longrightarrow> \<not> protected b a"
proof -
  have nw: "\<not> len > 0xFFFFFFFF - base" using assms by (auto simp: ota_fmc_range_forbidden_def)
  then show e: "unat (base + len) = unat base + unat len" by (rule unat_add_no_wrap)
  assume "in_range base (unat len) a"
  then show "\<not> protected b a" using assms nw e
    by (cases b) (auto simp: ota_fmc_range_forbidden_def protected_def in_range_def Let_def
        word_less_nat_alt split: if_splits)
qed

section \<open>What the two operations do\<close>

text \<open>The interlock, the interrupt mask and the ECC interrupt enable are returned as found.\<close>

definition fmc_keep :: "fmc_st \<Rightarrow> fmc_st \<Rightarrow> bool" where
  "fmc_keep s s' \<longleftrightarrow> s_fmc_owned s' = s_fmc_owned s \<and> primask s' = primask s \<and>
     flashecc_ie s' = flashecc_ie s \<and> ecc_nmi s' = ecc_nmi s"

lemma fmc_keep_refl [simp, intro]: "fmc_keep s s"
  by (simp add: fmc_keep_def)

lemma fmc_keep_trans: "fmc_keep s t \<Longrightarrow> fmc_keep t u \<Longrightarrow> fmc_keep s u"
  by (simp add: fmc_keep_def)

lemma page_size_dvd_layout: "2048 dvd n \<Longrightarrow> unat (fmc_page_size env) dvd n"
  by (auto simp: unat_fmc_page_size intro: dvd_trans [of 1024 2048])

lemma word_mod_0_dvd: "(w :: u32) mod 0x800 = 0 \<longleftrightarrow> 2048 dvd unat w"
  using unat_mod [of w "0x800"] by (simp add: unat_eq_zero [symmetric] dvd_eq_mod_eq_0)

lemma fmc_bracket [simp]:
  "flash (fmc_funnel_release (fmc_lock s)) = flash s"
  "ecc_bad (fmc_funnel_release (fmc_lock s)) = ecc_bad s"
  "fmc_keep s0 (fmc_funnel_release (fmc_lock s)) \<longleftrightarrow> \<not> s_fmc_owned s0 \<and> primask s = primask s0 \<and>
     flashecc_ie s = flashecc_ie s0 \<and> ecc_nmi s = ecc_nmi s0"
  "flash (fmc_unlock s) = flash s" "ecc_bad (fmc_unlock s) = ecc_bad s" "\<not> ctl_lk (fmc_unlock s)"
  by (auto simp: fmc_funnel_release_def fmc_lock_def fmc_unlock_def fmc_keep_def)

lemma erase_range_cases:
  obtains (refused) "ota_fmc_erase_range env base len s = (OTA_FMC_RESULT_ERROR, s)"
  | (run) s1 where "s1 = fmc_unlock (s\<lparr>s_fmc_owned := True\<rparr>)" "\<not> s_fmc_owned s"
      "ota_fmc_erase_range env base len s =
         (fst (erase_loop env (unat base) (unat (base + len)) s1),
          fmc_funnel_release (fmc_lock (snd (erase_loop env (unat base) (unat (base + len)) s1))))"
      "2048 dvd unat base" "2048 dvd unat len"
      "\<not> ota_fmc_range_forbidden (env_build env) base len"
proof (cases "2048 dvd unat base \<and> 2048 dvd unat len \<and>
    \<not> ota_fmc_range_forbidden (env_build env) base len \<and> \<not> s_fmc_owned s")
  case True
  then show thesis
    by (intro run [OF refl])
       (auto simp: ota_fmc_erase_range_def fmc_funnel_claim_def word_mod_0_dvd Let_def
         split: prod.splits)
next
  case False
  then show thesis
    by (intro refused) (auto simp: ota_fmc_erase_range_def fmc_funnel_claim_def word_mod_0_dvd Let_def)
qed

lemma erase_range_frame:
  assumes "in_flash base (unat len)"
  shows "same_outside (\<lambda>a. in_range base (unat len) a \<and> \<not> protected (env_build env) a) s
           (snd (ota_fmc_erase_range env base len s)) \<and>
         fmc_keep s (snd (ota_fmc_erase_range env base len s))"
proof (cases rule: erase_range_cases [of env base len s])
  case (run s1)
  note al = range_allowed [OF run(6)]
  let ?p = "\<lambda>a. in_range base (unat len) a \<and> \<not> protected (env_build env) a"
  let ?s2 = "snd (erase_loop env (unat base) (unat (base + len)) s1)"
  have "same_outside ?p s1 ?s2 \<and> fmc_ctx ?s2 = fmc_ctx s1"
    by (rule erase_loop_frame)
       (use assms run(4,5) al in \<open>auto simp: in_flash_def in_range_def intro!: page_size_dvd_layout\<close>)
  moreover have "flash s1 = flash s" "ecc_bad s1 = ecc_bad s"
    "fmc_ctx s1 = (True, primask s, flashecc_ie s, ecc_nmi s, False)"
    by (simp_all add: run(1) fmc_unlock_def fmc_ctx_def)
  ultimately show ?thesis
    using run(2,3) by (simp add: same_outside_def) (simp add: fmc_ctx_def)
qed auto

lemma erase_range_ok:
  assumes "in_flash base (unat len)" "hw_honest env" "in_range base (unat len) a"
    and "fst (ota_fmc_erase_range env base len s) = OTA_FMC_RESULT_OK"
  shows "flash (snd (ota_fmc_erase_range env base len s)) a = 0xFF \<and>
         \<not> ecc_bad (snd (ota_fmc_erase_range env base len s)) a"
proof (cases rule: erase_range_cases [of env base len s])
  case refused
  then show ?thesis using assms(4) by simp
next
  case (run s1)
  note al = range_allowed [OF run(6)]
  have "flash (snd (erase_loop env (unat base) (unat (base + len)) s1)) a = 0xFF \<and>
      \<not> ecc_bad (snd (erase_loop env (unat base) (unat (base + len)) s1)) a"
    by (rule erase_loop_ok)
       (use assms run al in \<open>auto simp: in_flash_def in_range_def intro!: page_size_dvd_layout\<close>)
  then show ?thesis using run(3) by simp
qed

subsection \<open>Program\<close>

definition pad8 :: "nat \<Rightarrow> nat" where
  "pad8 n = 8 * ((n + 7) div 8)"

lemma pad8_0 [simp]: "pad8 0 = 0"
  by (simp add: pad8_def)

lemma pad8_ge: "n \<le> pad8 n"
  by (simp add: pad8_def)

lemma pad8_mult [simp]: "8 dvd n \<Longrightarrow> pad8 n = n"
  by (auto simp: pad8_def elim!: dvdE)

lemma pad8_step: "0 < n \<Longrightarrow> pad8 n = 8 + pad8 (n - 8)"
proof (cases "n \<le> 8")
  case True
  moreover assume "0 < n"
  ultimately have "(n + 7) div 8 = 1" by (intro div_nat_eqI) auto
  then show ?thesis using True by (simp add: pad8_def)
next
  case False
  then obtain m where "n = 8 + m" using le_Suc_ex [of 8 n] by auto
  moreover have "(8 + m + 7) div 8 = Suc ((m + 7) div 8)" by simp
  ultimately show ?thesis by (simp add: pad8_def)
qed

lemma length_dword_buf [simp]: "length (dword_buf ds) = 8"
  by (simp add: dword_buf_def min_def)

lemma nth_dword_buf: "i < 8 \<Longrightarrow> dword_buf ds ! i = (if i < length ds then ds ! i else 0xFF)"
  by (auto simp: dword_buf_def nth_append)

lemma program_one_dword_cases:
  obtains (not_ready) st k where
      "program_one_dword env addr dw s = (st, (stat_clear s)\<lparr>polls := k\<rparr>)" "st \<noteq> FMC_READY"
      "fst (ota_fmc_wait_ready env OTA_FMC_PROGRAM_TIMEOUT_ITERS (stat_clear s)) = st"
  | (started) s1 k k' where
      "s1 = (stat_clear s)\<lparr>polls := k, primask := True, ctl_pg := True\<rparr>"
      "program_one_dword env addr dw s =
         (fst (ota_fmc_wait_ready env OTA_FMC_PROGRAM_TIMEOUT_ITERS (fmc_store_dword env addr dw s1)),
          (fmc_store_dword env addr dw s1)\<lparr>polls := k', primask := primask s, ctl_pg := False\<rparr>)"
proof -
  obtain k where k: "snd (ota_fmc_wait_ready env OTA_FMC_PROGRAM_TIMEOUT_ITERS (stat_clear s)) =
      (stat_clear s)\<lparr>polls := k\<rparr>"
    using wait_ready_frame by blast
  define s1 where "s1 = (stat_clear s)\<lparr>polls := k, primask := True, ctl_pg := True\<rparr>"
  obtain k' where k': "snd (ota_fmc_wait_ready env OTA_FMC_PROGRAM_TIMEOUT_ITERS
      (fmc_store_dword env addr dw s1)) = (fmc_store_dword env addr dw s1)\<lparr>polls := k'\<rparr>"
    using wait_ready_frame by blast
  show thesis
  proof (cases "fst (ota_fmc_wait_ready env OTA_FMC_PROGRAM_TIMEOUT_ITERS (stat_clear s)) = FMC_READY")
    case False
    then have "program_one_dword env addr dw s =
        (fst (ota_fmc_wait_ready env OTA_FMC_PROGRAM_TIMEOUT_ITERS (stat_clear s)),
         (stat_clear s)\<lparr>polls := k\<rparr>)"
      using k by (auto simp: program_one_dword_def Let_def split: prod.splits)
    then show thesis using not_ready False by blast
  next
    case True
    then have "program_one_dword env addr dw s =
         (fst (ota_fmc_wait_ready env OTA_FMC_PROGRAM_TIMEOUT_ITERS (fmc_store_dword env addr dw s1)),
          (fmc_store_dword env addr dw s1)\<lparr>polls := k', primask := primask s, ctl_pg := False\<rparr>)"
      using k k' by (auto simp: program_one_dword_def Let_def s1_def [symmetric] split: prod.splits)
    then show thesis using started s1_def by blast
  qed
qed

lemma program_one_dword_frame [fmc_frame]:
  "same_outside (in_range addr 8) s (snd (program_one_dword env addr dw s)) \<and>
   fmc_ctx (snd (program_one_dword env addr dw s)) = fmc_ctx s"
proof (cases rule: program_one_dword_cases [of env addr dw s])
  case (not_ready st k)
  then show ?thesis by (simp add: same_outside_def)
next
  case (started s1 k k')
  then show ?thesis
    by (simp add: fmc_store_dword_def same_outside_def overlay_def fmc_ctx_def Let_def)
qed

lemma program_one_dword_ok:
  assumes "hw_honest env" "\<not> ctl_lk s" "fst (program_one_dword env addr dw s) = FMC_READY"
    and "in_range addr 8 a"
  shows "flash (snd (program_one_dword env addr dw s)) a = dw ! unat (a - addr) \<and>
         \<not> ecc_bad (snd (program_one_dword env addr dw s)) a"
proof (cases rule: program_one_dword_cases [of env addr dw s])
  case (not_ready st k)
  then show ?thesis using assms by simp
next
  case (started s1 k k')
  have "op_reported_ok env OTA_FMC_PROGRAM_TIMEOUT_ITERS (polls s1)"
    using wait_ready_READY [of env OTA_FMC_PROGRAM_TIMEOUT_ITERS "fmc_store_dword env addr dw s1"]
      started assms(2,3)
    by (auto simp: op_reported_ok_def fmc_store_dword_def Let_def)
  then show ?thesis using assms started
    by (simp add: hw_honest_def fmc_store_dword_def overlay_def put_dword_def Let_def)
qed

lemma in_range_step:
  assumes "unat addr + (8 + n) \<le> 0x08080000"
  shows "unat (addr + 8 :: u32) = unat addr + 8"
  using assms by (simp add: unat_word_ariths(1))

lemma program_loop_frame:
  assumes "unat addr + pad8 (length ds) \<le> 0x08080000"
    and "\<And>x. in_range addr (pad8 (length ds)) x \<Longrightarrow> p x"
  shows "same_outside p s (snd (program_loop env addr ds s)) \<and>
         fmc_ctx (snd (program_loop env addr ds s)) = fmc_ctx s"
  using assms
proof (induction env addr ds s rule: program_loop.induct)
  case (1 env addr s)
  then show ?case by (simp add: program_loop.simps)
next
  case (2 env addr d ds s)
  obtain st s1 where e1: "program_one_dword env addr (dword_buf (d # ds)) s = (st, s1)" by fastforce
  have pad: "pad8 (length (d # ds)) = 8 + pad8 (length (drop 8 (d # ds)))"
    using pad8_step [of "length (d # ds)"] by (simp add: Suc_diff_le)
  have u: "unat (addr + 8) = unat addr + 8" using "2.prems"(1) pad by (intro in_range_step) simp
  have f1: "same_outside p s s1"
    using program_one_dword_frame [of addr s env "dword_buf (d # ds)"] e1 "2.prems"(2) pad
    by (auto simp: in_range_def elim!: same_outside_mono)
  have c1: "fmc_ctx s1 = fmc_ctx s"
    using program_one_dword_frame [of addr s env "dword_buf (d # ds)"] e1 by simp
  have "same_outside p s1 (snd (program_loop env (addr + 8) (drop 8 (d # ds)) s1)) \<and>
      fmc_ctx (snd (program_loop env (addr + 8) (drop 8 (d # ds)) s1)) = fmc_ctx s1"
    if "st = FMC_READY"
  proof (rule "2.IH")
    show "unat (addr + 8) + pad8 (length (drop 8 (d # ds))) \<le> 0x08080000"
      using "2.prems"(1) pad u by simp
    show "p x" if "in_range (addr + 8) (pad8 (length (drop 8 (d # ds)))) x" for x
      using that "2.prems"(2) pad u by (simp add: in_range_def)
  qed (use e1 that in auto)
  then show ?case using e1 f1 c1
    by (subst (1 2) program_loop.simps) (auto intro: same_outside_trans)
qed

lemma program_loop_ok:
  assumes "unat addr + pad8 (length ds) \<le> 0x08080000" "hw_honest env" "\<not> ctl_lk s"
    and "fst (program_loop env addr ds s) = OTA_FMC_RESULT_OK" "i < pad8 (length ds)"
  shows "flash (snd (program_loop env addr ds s)) (addr + of_nat i) =
           (if i < length ds then ds ! i else 0xFF) \<and>
         \<not> ecc_bad (snd (program_loop env addr ds s)) (addr + of_nat i)"
  using assms
proof (induction env addr ds s arbitrary: i rule: program_loop.induct)
  case (1 env addr s)
  then show ?case by simp
next
  case (2 env addr d ds s)
  let ?rest = "drop 8 (d # ds)"
  obtain st s1 where e1: "program_one_dword env addr (dword_buf (d # ds)) s = (st, s1)" by fastforce
  have pad: "pad8 (length (d # ds)) = 8 + pad8 (length ?rest)"
    using pad8_step [of "length (d # ds)"] by (simp add: Suc_diff_le)
  have u: "unat (addr + 8) = unat addr + 8" using "2.prems"(1) pad by (intro in_range_step) simp
  have ok: "st = FMC_READY" and rest: "fst (program_loop env (addr + 8) ?rest s1) = OTA_FMC_RESULT_OK"
    using "2.prems"(4) e1 by (subst (asm) program_loop.simps; auto split: if_splits)+
  have eq: "snd (program_loop env addr (d # ds) s) = snd (program_loop env (addr + 8) ?rest s1)"
    using e1 ok by (subst program_loop.simps) simp
  have lk: "\<not> ctl_lk s1"
    using program_one_dword_frame [of addr s env "dword_buf (d # ds)"] e1 "2.prems"(3)
    by (auto dest: fmc_ctx_lkD)
  have le: "unat (addr + 8) + pad8 (length ?rest) \<le> 0x08080000" using "2.prems"(1) pad u by simp
  show ?case
  proof (cases "i < 8")
    case True
    have off: "unat (addr + of_nat i) = unat addr + i"
      using True "2.prems"(1) pad by (simp add: unat_word_ariths(1) unat_of_nat)
    have "flash s1 (addr + of_nat i) = dword_buf (d # ds) ! i \<and> \<not> ecc_bad s1 (addr + of_nat i)"
      using program_one_dword_ok [OF "2.prems"(2,3), of addr "dword_buf (d # ds)" "addr + of_nat i"]
        e1 ok off True by (simp add: in_range_def unat_of_nat)
    moreover have "same_outside (in_range (addr + 8) (pad8 (length ?rest))) s1
        (snd (program_loop env (addr + 8) ?rest s1))"
      using program_loop_frame [OF le] by blast
    ultimately show ?thesis using True eq off u
      by (auto simp: same_outside_def in_range_def nth_dword_buf)
  next
    case False
    then have "i - 8 < pad8 (length ?rest)" using "2.prems"(5) pad by simp
    then have "flash (snd (program_loop env (addr + 8) ?rest s1)) (addr + 8 + of_nat (i - 8)) =
        (if i - 8 < length ?rest then ?rest ! (i - 8) else 0xFF) \<and>
        \<not> ecc_bad (snd (program_loop env (addr + 8) ?rest s1)) (addr + 8 + of_nat (i - 8))"
      using "2.IH" [OF e1 [symmetric] refl _ le "2.prems"(2) lk rest, of "i - 8"] ok by simp
    moreover have "addr + 8 + of_nat (i - 8) = addr + of_nat i"
      using False by (simp add: of_nat_diff)
    moreover have "?rest ! (i - 8) = (d # ds) ! i" if "i < length (d # ds)"
      using False that by (subst nth_drop) auto
    ultimately show ?thesis using False unfolding eq by (auto simp del: drop_Cons)
  qed
qed

lemma program_cases:
  obtains (refused) "ota_fmc_program env addr data s = (OTA_FMC_RESULT_ERROR, s)"
  | (run) s1 where "s1 = fmc_unlock (s\<lparr>s_fmc_owned := True\<rparr>)" "\<not> s_fmc_owned s"
      "ota_fmc_program env addr data s =
         (fst (program_loop env addr data s1),
          fmc_funnel_release (fmc_lock (snd (program_loop env addr data s1))))"
      "addr mod 8 = 0" "\<not> ota_fmc_range_forbidden (env_build env) addr (of_nat (length data))"
proof (cases "addr mod 8 = 0 \<and> \<not> ota_fmc_range_forbidden (env_build env) addr (of_nat (length data)) \<and>
    \<not> s_fmc_owned s")
  case True
  then show thesis
    by (intro run [OF refl])
       (auto simp: ota_fmc_program_def fmc_funnel_claim_def Let_def split: prod.splits)
next
  case False
  then show thesis by (intro refused) (auto simp: ota_fmc_program_def fmc_funnel_claim_def Let_def)
qed

lemma word_mod_8_dvd: "(w :: u32) mod 8 = 0 \<longleftrightarrow> 8 dvd unat w"
  using unat_mod [of w 8] by (simp add: unat_eq_zero [symmetric] dvd_eq_mod_eq_0)

text \<open>The 0xFF padding of a short tail stays clear of the protected regions too.\<close>

lemma dword_floor:
  fixes x k n :: nat
  assumes "x < 8 * k + 8 * ((n + 7) div 8)"
  shows "8 * (x div 8) < 8 * k + n"
proof -
  have "x div 8 < k + (n + 7) div 8" using assms by (intro less_mult_imp_div_less) simp
  moreover have "8 * ((n + 7) div 8) \<le> n + 7" by simp
  ultimately show ?thesis by linarith
qed

lemma padded_range_allowed:
  assumes "\<not> ota_fmc_range_forbidden b addr (of_nat n)" "addr mod 8 = 0"
    and "unat addr + pad8 n \<le> 0x08080000" "in_range addr (pad8 n) x"
  shows "\<not> protected b x"
proof
  assume pr: "protected b x"
  have n: "unat (of_nat n :: u32) = n" using assms(3) pad8_ge [of n] by (simp add: unat_of_nat)
  define y :: u32 where "y = of_nat (8 * (unat x div 8))"
  have y: "unat y = 8 * (unat x div 8)" unfolding y_def unat_of_nat using unat_u32_lt [of x] by simp
  have "8 dvd unat addr" using assms(2) by (simp add: word_mod_8_dvd)
  then have "in_range addr n y"
    using assms(4) y by (auto simp: in_range_def pad8_def dword_floor elim!: dvdE)
  then have "\<not> protected b y" using range_allowed(2) [OF assms(1)] n by simp
  moreover have "protected b y"
    using pr y by (cases b) (auto simp: protected_def in_range_def)
  ultimately show False by simp
qed

lemma program_frame:
  assumes "unat addr + pad8 (length data) \<le> 0x08080000"
  shows "same_outside (\<lambda>a. in_range addr (pad8 (length data)) a \<and> \<not> protected (env_build env) a) s
           (snd (ota_fmc_program env addr data s)) \<and>
         fmc_keep s (snd (ota_fmc_program env addr data s))"
proof (cases rule: program_cases [of env addr data s])
  case (run s1)
  let ?p = "\<lambda>a. in_range addr (pad8 (length data)) a \<and> \<not> protected (env_build env) a"
  have "same_outside ?p s1 (snd (program_loop env addr data s1)) \<and>
      fmc_ctx (snd (program_loop env addr data s1)) = fmc_ctx s1"
    by (rule program_loop_frame [OF assms]) (use padded_range_allowed [OF run(5,4) assms] in blast)
  moreover have "flash s1 = flash s" "ecc_bad s1 = ecc_bad s"
    "fmc_ctx s1 = (True, primask s, flashecc_ie s, ecc_nmi s, False)"
    by (simp_all add: run(1) fmc_unlock_def fmc_ctx_def)
  ultimately show ?thesis
    using run(2,3) by (simp add: same_outside_def) (simp add: fmc_ctx_def)
qed auto

lemma program_ok:
  assumes "unat addr + pad8 (length data) \<le> 0x08080000" "hw_honest env"
    and "fst (ota_fmc_program env addr data s) = OTA_FMC_RESULT_OK" "i < pad8 (length data)"
  shows "flash (snd (ota_fmc_program env addr data s)) (addr + of_nat i) =
           (if i < length data then data ! i else 0xFF) \<and>
         \<not> ecc_bad (snd (ota_fmc_program env addr data s)) (addr + of_nat i)"
proof (cases rule: program_cases [of env addr data s])
  case refused
  then show ?thesis using assms(3) by simp
next
  case (run s1)
  have "\<not> ctl_lk s1" by (simp add: run(1))
  with program_loop_ok [OF assms(1,2), of s1 i] run(3) assms(3,4) show ?thesis by simp
qed

section \<open>The interface the storage clients rely on\<close>

text \<open>
  \<open>flash_seam\<close> is the contract of \<open>src/fmc_ota.h\<close> as the boot-configuration and update code
  use it: which bytes an operation may change, and, when the hardware is honest, what a
  successful operation leaves.
\<close>

locale flash_seam =
  fixes fl :: "'s \<Rightarrow> flash"
    and ecc :: "'s \<Rightarrow> u32 \<Rightarrow> bool"
    and erase :: "u32 \<Rightarrow> u32 \<Rightarrow> 's \<Rightarrow> ota_fmc_result \<times> 's"
    and prog :: "u32 \<Rightarrow> bytes \<Rightarrow> 's \<Rightarrow> ota_fmc_result \<times> 's"
    and guarded :: "u32 \<Rightarrow> bool"
    and honest :: bool
  assumes erase_frame:
      "in_flash base (unat len) \<Longrightarrow> guarded a \<or> \<not> in_range base (unat len) a \<Longrightarrow>
       fl (snd (erase base len s)) a = fl s a \<and>
       ecc (snd (erase base len s)) a = ecc s a"
    and prog_frame:
      "unat addr + pad8 (length data) \<le> 0x08080000 \<Longrightarrow>
       guarded a \<or> \<not> in_range addr (pad8 (length data)) a \<Longrightarrow>
       fl (snd (prog addr data s)) a = fl s a \<and>
       ecc (snd (prog addr data s)) a = ecc s a"
    and erase_ok:
      "honest \<Longrightarrow> in_flash base (unat len) \<Longrightarrow> fst (erase base len s) = OTA_FMC_RESULT_OK \<Longrightarrow>
       in_range base (unat len) a \<Longrightarrow>
       fl (snd (erase base len s)) a = 0xFF \<and> \<not> ecc (snd (erase base len s)) a"
    and prog_ok:
      "honest \<Longrightarrow> unat addr + pad8 (length data) \<le> 0x08080000 \<Longrightarrow>
       fst (prog addr data s) = OTA_FMC_RESULT_OK \<Longrightarrow> i < pad8 (length data) \<Longrightarrow>
       fl (snd (prog addr data s)) (addr + of_nat i) =
         (if i < length data then data ! i else 0xFF) \<and>
       \<not> ecc (snd (prog addr data s)) (addr + of_nat i)"
begin

text \<open>The client sequence of both record writers: erase one page, then program at an offset of it.\<close>

definition write_page :: "u32 \<Rightarrow> u32 \<Rightarrow> bytes \<Rightarrow> 's \<Rightarrow> ota_fmc_result \<times> 's" where
  "write_page page addr data s =
     (let (r, s) = erase page OTA_PAGE_SIZE s
      in if r \<noteq> OTA_FMC_RESULT_OK then (r, s) else prog addr data s)"

lemma write_page_frame:
  assumes "in_flash page 2048" "unat page \<le> unat addr"
    and "unat addr + pad8 (length data) \<le> unat page + 2048" "guarded a \<or> \<not> in_range page 2048 a"
  shows "fl (snd (write_page page addr data s)) a = fl s a \<and>
         ecc (snd (write_page page addr data s)) a = ecc s a"
proof -
  have "guarded a \<or> \<not> in_range addr (pad8 (length data)) a"
    using assms by (auto simp: in_range_def)
  moreover have "unat addr + pad8 (length data) \<le> 0x08080000" using assms by (simp add: in_flash_def)
  moreover obtain r s1 where e: "erase page OTA_PAGE_SIZE s = (r, s1)" by fastforce
  ultimately show ?thesis
    using erase_frame [of page OTA_PAGE_SIZE a s] prog_frame [of addr data a s1] assms(1,4)
    by (simp add: write_page_def)
qed

lemma write_page_ok:
  assumes "honest" "in_flash page 2048" "unat page \<le> unat addr"
    and "unat addr + pad8 (length data) \<le> unat page + 2048"
    and "fst (write_page page addr data s) = OTA_FMC_RESULT_OK" "in_range page 2048 a"
  shows "fl (snd (write_page page addr data s)) a =
           (if in_range addr (length data) a then data ! (unat a - unat addr) else 0xFF) \<and>
         \<not> ecc (snd (write_page page addr data s)) a"
proof -
  obtain r s1 where e: "erase page OTA_PAGE_SIZE s = (r, s1)" by fastforce
  then have r: "r = OTA_FMC_RESULT_OK" and w: "write_page page addr data s = prog addr data s1"
    using assms(5) by (auto simp: write_page_def split: if_splits)
  then have p: "fst (prog addr data s1) = OTA_FMC_RESULT_OK" using assms(5) by simp
  have erased: "fl s1 a = 0xFF \<and> \<not> ecc s1 a"
    using erase_ok [of page OTA_PAGE_SIZE s a] assms(1,2,6) e r by simp
  have le: "unat addr + pad8 (length data) \<le> 0x08080000" using assms by (simp add: in_flash_def)
  show ?thesis
  proof (cases "in_range addr (pad8 (length data)) a")
    case False
    then have "\<not> in_range addr (length data) a" using pad8_ge [of "length data"] by (auto simp: in_range_def)
    then show ?thesis using prog_frame [OF le, of a s1] False erased w by simp
  next
    case True
    define i where "i = unat a - unat addr"
    have "a = addr + of_nat i" "i < pad8 (length data)"
      using True by (auto simp: i_def in_range_def of_nat_diff)
    then show ?thesis using prog_ok [OF assms(1) le p, of i] True w
      by (auto simp: in_range_def i_def)
  qed
qed

end

interpretation fmc: flash_seam flash ecc_bad "ota_fmc_erase_range env"
  "ota_fmc_program env" "protected (env_build env)" "hw_honest env" for env
proof unfold_locales
  fix base len :: u32 and s a
  assume "in_flash base (unat len)"
    "protected (env_build env) a \<or> \<not> in_range base (unat len) a"
  then show "flash (snd (ota_fmc_erase_range env base len s)) a = flash s a \<and>
      ecc_bad (snd (ota_fmc_erase_range env base len s)) a = ecc_bad s a"
    using erase_range_frame [of base len env s] by (auto simp: same_outside_def)
next
  fix addr :: u32 and data :: bytes and s a
  assume "unat addr + pad8 (length data) \<le> 0x08080000"
    "protected (env_build env) a \<or> \<not> in_range addr (pad8 (length data)) a"
  then show "flash (snd (ota_fmc_program env addr data s)) a = flash s a \<and>
      ecc_bad (snd (ota_fmc_program env addr data s)) a = ecc_bad s a"
    using program_frame [of addr data env s] by (auto simp: same_outside_def)
qed (use erase_range_ok program_ok in auto)

section \<open>Power cuts\<close>

text \<open>
  Power lost after \<open>n\<close> status reads.  The operation in flight leaves whatever the environment
  says; every later one finds the controller busy and stops before touching flash.
\<close>

definition power_cut :: "nat \<Rightarrow> hw_env \<Rightarrow> hw_env" where
  "power_cut n env = env\<lparr>hw_busy := (\<lambda>k. n \<le> k \<or> hw_busy env k)\<rparr>"

lemma power_cut_simps [simp]:
  "env_build (power_cut n env) = env_build env" "hw_dbs (power_cut n env) = hw_dbs env"
  "hw_erase (power_cut n env) = hw_erase env" "hw_erase_ecc (power_cut n env) = hw_erase_ecc env"
  "hw_prog (power_cut n env) = hw_prog env" "hw_prog_ecc (power_cut n env) = hw_prog_ecc env"
  "hw_err (power_cut n env) = hw_err env"
  by (simp_all add: power_cut_def)

lemma hw_honest_power_cut [intro]:
  assumes "hw_honest env"
  shows "hw_honest (power_cut n env)"
proof -
  have "op_reported_ok env t k" if "op_reported_ok (power_cut n env) t k" for t k
    using that by (auto simp: op_reported_ok_def power_cut_def)
  then show ?thesis using assms unfolding hw_honest_def power_cut_simps by blast
qed

lemma power_cut_wait_not_ready:
  assumes "n \<le> polls s" "t \<noteq> 0"
  shows "fst (ota_fmc_wait_ready (power_cut n env) t s) \<noteq> FMC_READY"
proof
  assume "fst (ota_fmc_wait_ready (power_cut n env) t s) = FMC_READY"
  from wait_ready_READY [OF this assms(2)] assms(1) show False by (auto simp: power_cut_def)
qed

text \<open>A healthy part: dual bank, never busy, no error, every operation performed.\<close>

definition good_hw :: "build \<Rightarrow> hw_env" where
  "good_hw b = \<lparr>env_build = b, hw_dbs = True, hw_busy = (\<lambda>_. False), hw_err = (\<lambda>_ _. False),
     hw_erase = (\<lambda>_ _ _. 0xFF), hw_erase_ecc = (\<lambda>_ _ _. False), hw_prog = (\<lambda>_ _ g. g),
     hw_prog_ecc = (\<lambda>_ _. False)\<rparr>"

lemma good_hw_simps [simp]: "env_build (good_hw b) = b" "hw_dbs (good_hw b)"
  by (simp_all add: good_hw_def)

lemma hw_honest_good_hw [simp]: "hw_honest (good_hw b)"
  by (simp add: hw_honest_def good_hw_def)

definition fmc_reset :: "flash \<Rightarrow> fmc_st" where
  "fmc_reset f = \<lparr>flash = f, ecc_bad = (\<lambda>_. False), polls = 0, stat_err = (\<lambda>_. False), ctl_lk = True,
     ctl_per = False, ctl_pg = False, ctl_bksel = False, ctl_pnsel = 0, primask = False,
     flashecc_ie = True, eccdet = False, ecc_nmi = False, s_fmc_owned = False\<rparr>"

section \<open>Progress\<close>

text \<open>On hardware that is never busy and reports no error, an idle funnel performs every legal call.\<close>

definition hw_clean :: "hw_env \<Rightarrow> bool" where
  "hw_clean env \<longleftrightarrow> (\<forall>n. \<not> hw_busy env n) \<and> (\<forall>n fl. \<not> hw_err env n fl)"

lemma hw_clean_good_hw [simp]: "hw_clean (good_hw b)"
  by (simp add: hw_clean_def good_hw_def)

lemma wait_ready_clean:
  assumes "hw_clean env" "\<And>fl. \<not> stat_err s fl"
  shows "fst (ota_fmc_wait_ready env t s) = FMC_READY"
proof -
  have "first_err (stat_err s) err_decode = FMC_READY" using assms(2) by (simp add: first_err_READY)
  then have "wait_loop env t s = (FMC_READY, s\<lparr>polls := Suc (polls s)\<rparr>)"
    using assms(1) by (subst wait_loop.simps) (simp add: ota_fmc_state_now_def hw_clean_def Let_def)
  then show ?thesis by (simp add: ota_fmc_wait_ready_def)
qed

lemma erase_one_page_clean:
  assumes "hw_clean env"
  shows "fst (erase_one_page env addr s) = FMC_READY"
proof (cases rule: erase_one_page_cases [of env addr s])
  case (not_ready st k)
  then show ?thesis
    using wait_ready_clean [OF assms, of "stat_clear s" OTA_FMC_ERASE_TIMEOUT_ITERS] by simp
next
  case (started s1 k k')
  have "\<not> stat_err (fmc_start env s1) fl" for fl
    using assms started(1) by (simp add: fmc_start_def hw_clean_def Let_def)
  then show ?thesis using wait_ready_clean [OF assms] started(2) by simp
qed

lemma program_one_dword_clean:
  assumes "hw_clean env"
  shows "fst (program_one_dword env addr dw s) = FMC_READY"
proof (cases rule: program_one_dword_cases [of env addr dw s])
  case (not_ready st k)
  then show ?thesis
    using wait_ready_clean [OF assms, of "stat_clear s" OTA_FMC_PROGRAM_TIMEOUT_ITERS] by simp
next
  case (started s1 k k')
  have "\<not> stat_err (fmc_store_dword env addr dw s1) fl" for fl
    using assms started(1) by (simp add: fmc_store_dword_def hw_clean_def Let_def)
  then show ?thesis using wait_ready_clean [OF assms] started(2) by simp
qed

lemma erase_loop_clean: "hw_clean env \<Longrightarrow> fst (erase_loop env a e s) = OTA_FMC_RESULT_OK"
proof (induction env a e s rule: erase_loop.induct)
  case (1 env a e s)
  then show ?case using erase_one_page_clean [of env "of_nat a" s]
    by (subst erase_loop.simps) (auto split: prod.splits)
qed

lemma program_loop_clean: "hw_clean env \<Longrightarrow> fst (program_loop env addr ds s) = OTA_FMC_RESULT_OK"
proof (induction env addr ds s rule: program_loop.induct)
  case (2 env addr d ds s)
  then show ?case using program_one_dword_clean [of env addr "dword_buf (d # ds)" s]
    by (subst program_loop.simps) (auto split: prod.splits)
qed (simp add: program_loop.simps)

lemma erase_range_clean:
  assumes "hw_clean env" "\<not> s_fmc_owned s" "2048 dvd unat base" "2048 dvd unat len"
    and "\<not> ota_fmc_range_forbidden (env_build env) base len"
  shows "fst (ota_fmc_erase_range env base len s) = OTA_FMC_RESULT_OK"
  using assms erase_loop_clean [OF assms(1)]
  by (auto simp: ota_fmc_erase_range_def fmc_funnel_claim_def word_mod_0_dvd Let_def
      split: prod.splits) (metis fst_conv)

lemma program_clean:
  assumes "hw_clean env" "\<not> s_fmc_owned s" "8 dvd unat addr"
    and "\<not> ota_fmc_range_forbidden (env_build env) addr (of_nat (length data))"
  shows "fst (ota_fmc_program env addr data s) = OTA_FMC_RESULT_OK"
  using assms program_loop_clean [OF assms(1)]
  by (auto simp: ota_fmc_program_def fmc_funnel_claim_def word_mod_8_dvd Let_def
      split: prod.splits) (metis fst_conv)

section \<open>Interrupted erases\<close>

text \<open>
  \<open>hw_tears\<close>: an erase, completed or not, leaves each doubleword of its page as it was, erased,
  or uncorrectable, which is what the header of \<open>src/boot_config.h\<close> assumes of a power cut.
\<close>

definition dword_torn :: "flash \<Rightarrow> (u32 \<Rightarrow> bool) \<Rightarrow> flash \<Rightarrow> (u32 \<Rightarrow> bool) \<Rightarrow> u32 \<Rightarrow> bool" where
  "dword_torn f e f' e' d \<longleftrightarrow>
     (\<forall>i < 8. f' (d + of_nat i) = f (d + of_nat i) \<and> e' (d + of_nat i) = e (d + of_nat i)) \<or>
     (\<forall>i < 8. f' (d + of_nat i) = 0xFF) \<or> (\<exists>i < 8. e' (d + of_nat i))"

definition hw_tears :: "hw_env \<Rightarrow> bool" where
  "hw_tears env \<longleftrightarrow>
     (\<forall>n f e d. 8 dvd unat d \<longrightarrow> dword_torn f e (hw_erase env n f) (hw_erase_ecc env n e) d)"

lemma hw_tears_good_hw [simp]: "hw_tears (good_hw b)"
  by (simp add: hw_tears_def dword_torn_def good_hw_def)

lemma hw_tears_power_cut [simp]: "hw_tears (power_cut n env) = hw_tears env"
  by (simp add: hw_tears_def)

lemma dword_offsets:
  assumes "8 dvd unat d" "in_range base n d" "8 dvd n" "8 dvd unat base"
    and "unat base + n \<le> 0x08080000" "i < 8"
  shows "in_range base n (d + of_nat i)" "unat (d + of_nat i) = unat d + i"
proof -
  obtain k b m where k: "unat d = 8 * k" "unat base = 8 * b" "n = 8 * m"
    using assms(1,3,4) by (auto elim!: dvdE)
  have "k < b + m" using assms(2) k by (simp add: in_range_def)
  then have u: "unat d + i < 8 * (b + m)" using k assms(6) by simp
  then show e: "unat (d + of_nat i) = unat d + i"
    using assms(5,6) k by (simp add: unat_word_ariths(1) unat_of_nat)
  show "in_range base n (d + of_nat i)" using u e assms(2) k by (simp add: in_range_def)
qed

lemma dword_torn_same:
  "(\<And>i. i < 8 \<Longrightarrow> f' (d + of_nat i) = f (d + of_nat i) \<and> e' (d + of_nat i) = e (d + of_nat i)) \<Longrightarrow>
   dword_torn f e f' e' d"
  by (simp add: dword_torn_def)

lemma dword_torn_cong:
  assumes "\<And>i. i < 8 \<Longrightarrow> f' (d + of_nat i) = g' (d + of_nat i) \<and> e' (d + of_nat i) = h' (d + of_nat i)"
    and "\<And>i. i < 8 \<Longrightarrow> f (d + of_nat i) = g (d + of_nat i) \<and> e (d + of_nat i) = h (d + of_nat i)"
  shows "dword_torn f e f' e' d = dword_torn g h g' h' d"
  using assms by (simp add: dword_torn_def cong: conj_cong)

lemma erase_one_page_torn:
  assumes "in_flash addr (unat (fmc_page_size env))" "unat (fmc_page_size env) dvd unat addr"
    and "hw_tears env" "8 dvd unat d" "page_span env addr d"
  shows "dword_torn (flash s) (ecc_bad s) (flash (snd (erase_one_page env addr s)))
           (ecc_bad (snd (erase_one_page env addr s))) d"
proof (cases rule: erase_one_page_cases [of env addr s])
  case (not_ready st k)
  then show ?thesis by (simp add: dword_torn_def)
next
  case (started s1 k k')
  have sb: "sel_base env s1 = addr"
    unfolding started(1) using assms(1,2) by (rule select_page_sel_base)
  have in8: "page_span env addr (d + of_nat i)" if "i < 8" for i
    by (rule dword_offsets) (use assms that in \<open>auto simp: in_flash_def unat_fmc_page_size
        intro: dvd_trans [of 8 1024] dvd_trans [of 8 2048] split: if_splits\<close>)
  show ?thesis
  proof (cases "ctl_lk s")
    case True
    then show ?thesis using started by (simp add: fmc_start_def dword_torn_def)
  next
    case False
    have "dword_torn (flash s) (ecc_bad s) (hw_erase env (polls s1) (flash s))
        (hw_erase_ecc env (polls s1) (ecc_bad s)) d"
      using assms(3,4) by (simp add: hw_tears_def)
    then show ?thesis
      by (subst dword_torn_cong) (use started False sb in8 in
        \<open>auto simp: fmc_start_def overlay_def Let_def\<close>)
  qed
qed

lemma erase_loop_torn:
  assumes "0x08000000 \<le> a" "e \<le> 0x08080000" "unat (fmc_page_size env) dvd a"
    and "unat (fmc_page_size env) dvd e" "hw_tears env" "8 dvd unat d" "a \<le> unat d" "unat d < e"
  shows "dword_torn (flash s) (ecc_bad s) (flash (snd (erase_loop env a e s)))
           (ecc_bad (snd (erase_loop env a e s))) d"
  using assms
proof (induction env a e s rule: erase_loop.induct)
  case (1 env a e s)
  then have lt: "a < e" by simp
  let ?z = "unat (fmc_page_size env)"
  obtain st s1 where e1: "erase_one_page env (of_nat a) s = (st, s1)" by fastforce
  note step = erase_loop_step_in_flash [OF "1.prems"(1-4) lt]
  have az: "unat (of_nat a :: u32) = a" using "1.prems"(2) lt by (simp add: unat_of_nat_flash)
  have z8: "8 dvd ?z" "8 dvd a"
    using "1.prems"(3) by (auto simp: unat_fmc_page_size intro: dvd_trans [of 8 1024] dvd_trans [of 8 2048] split: if_splits)
  have rest: "snd (erase_loop env a e s) =
      (if st = FMC_READY then snd (erase_loop env (a + ?z) e s1) else s1)"
    using lt e1 by (subst erase_loop.simps) auto
  show ?case
  proof (cases "unat d < a + ?z")
    case True
    then have ind: "page_span env (of_nat a) d" using "1.prems"(7) az by (simp add: in_range_def)
    have t1: "dword_torn (flash s) (ecc_bad s) (flash s1) (ecc_bad s1) d"
      using erase_one_page_torn [OF step(1,2) "1.prems"(5,6) ind, of s] e1 by simp
    have off: "unat (d + of_nat i) < a + ?z" if "i < 8" for i
      using dword_offsets(1) [OF "1.prems"(6) ind _ _ _ that] z8 az step by (simp add: in_range_def in_flash_def)
    have "same_outside (\<lambda>y. a + ?z \<le> unat y) s1 (snd (erase_loop env (a + ?z) e s1))"
      using erase_loop_frame [of "a + ?z" e env "\<lambda>y. a + ?z \<le> unat y" s1] "1.prems"(1-4)
      by (simp add: dvd_add)
    then have "flash (snd (erase_loop env a e s)) (d + of_nat i) = flash s1 (d + of_nat i) \<and>
        ecc_bad (snd (erase_loop env a e s)) (d + of_nat i) = ecc_bad s1 (d + of_nat i)" if "i < 8" for i
      using off [OF that] rest by (auto simp: same_outside_def)
    then show ?thesis using t1 by (subst dword_torn_cong [where g' = "flash s1" and h' = "ecc_bad s1"]) auto
  next
    case False
    have out: "flash s1 (d + of_nat i) = flash s (d + of_nat i) \<and>
        ecc_bad s1 (d + of_nat i) = ecc_bad s (d + of_nat i)" if "i < 8" for i
    proof -
      have "unat (d + of_nat i) = unat d + i"
        using that "1.prems"(2,8) unat_u32_lt [of d] by (simp add: unat_word_ariths(1) unat_of_nat)
      then show ?thesis
        using erase_one_page_frame [OF step(1,2), of s] e1 False az
        by (auto simp: same_outside_def in_range_def)
    qed
    have "dword_torn (flash s1) (ecc_bad s1) (flash (snd (erase_loop env (a + ?z) e s1)))
        (ecc_bad (snd (erase_loop env (a + ?z) e s1))) d" if "st = FMC_READY"
      by (rule "1.IH") (use lt e1 that False "1.prems" in \<open>simp_all add: dvd_add\<close>)
    then show ?thesis using out rest
      by (subst dword_torn_cong [where g = "flash s1" and h = "ecc_bad s1"])
         (auto intro: dword_torn_same)
  qed
qed

lemma erase_range_torn:
  assumes "in_flash base (unat len)" "hw_tears env" "8 dvd unat d" "in_range base (unat len) d"
  shows "dword_torn (flash s) (ecc_bad s) (flash (snd (ota_fmc_erase_range env base len s)))
           (ecc_bad (snd (ota_fmc_erase_range env base len s))) d"
proof (cases rule: erase_range_cases [of env base len s])
  case refused
  then show ?thesis by (simp add: dword_torn_def)
next
  case (run s1)
  note al = range_allowed [OF run(6)]
  have "dword_torn (flash s1) (ecc_bad s1)
      (flash (snd (erase_loop env (unat base) (unat (base + len)) s1)))
      (ecc_bad (snd (erase_loop env (unat base) (unat (base + len)) s1))) d"
    by (rule erase_loop_torn)
       (use assms run al in \<open>auto simp: in_flash_def in_range_def intro!: page_size_dvd_layout\<close>)
  then show ?thesis using run(1,3) by simp
qed

section \<open>Properties\<close>

lemma wait_loop_polls: "t \<noteq> 0 \<Longrightarrow> polls (snd (wait_loop env t s)) \<le> polls s + unat t"
proof (induction env t s rule: wait_loop.induct)
  case (1 env t s)
  have t1: "unat (t - 1) = unat t - 1" "0 < unat t"
    using 1(2) by (simp_all add: unat_minus_one unat_gt_0)
  have "polls (snd (wait_loop env (t - 1) (s\<lparr>polls := Suc (polls s)\<rparr>))) \<le> Suc (polls s) + unat (t - 1)"
    if "hw_busy env (polls s)" "t - 1 \<noteq> 0"
    using 1(1) [OF refl _ refl _ that(2), of FMC_BUSY "s\<lparr>polls := Suc (polls s)\<rparr>"] that
    by (simp add: ota_fmc_state_now_def)
  then show ?case using t1
    by (subst wait_loop.simps) (auto simp: ota_fmc_state_now_def Let_def first_err_not)
qed

lemma overlap_point:
  fixes base len r n :: u32
  assumes "base < r + n" "r < base + len" "unat (base + len) = unat base + unat len"
    and "unat (r + n) = unat r + unat n" "0 < unat len" "0 < unat n"
  shows "\<exists>a. in_range base (unat len) a \<and> in_range r (unat n) a"
proof -
  have "unat (max base r) = max (unat base) (unat r)" by (simp add: max_def word_le_nat_alt)
  then have "in_range base (unat len) (max base r) \<and> in_range r (unat n) (max base r)"
    using assms by (auto simp: in_range_def word_less_nat_alt)
  then show ?thesis by blast
qed

text \<open>
  The address guard refuses a non-empty span exactly when it wraps past the end of the
  address space or touches the bootloader or the running slot.
\<close>

theorem ota_fmc_range_forbidden_iff:
  assumes "len \<noteq> 0"
  shows "ota_fmc_range_forbidden b base len \<longleftrightarrow>
    2 ^ 32 \<le> unat base + unat len \<or> (\<exists>a. in_range base (unat len) a \<and> protected b a)"
    (is "?L \<longleftrightarrow> ?R")
proof
  assume ?L
  show ?R
  proof (cases "len > 0xFFFFFFFF - base")
    case True
    moreover have "unat (0xFFFFFFFF - base) = 0xFFFFFFFF - unat base"
      using unat_u32_lt [of base] by (simp add: unat_sub_if_size word_size word_le_nat_alt)
    ultimately have "2 ^ 32 \<le> unat base + unat len" by (simp add: word_less_nat_alt)
    then show ?thesis by blast
  next
    case False
    note e = unat_add_no_wrap [OF False]
    have "0 < unat len" using assms by (simp add: unat_gt_0)
    moreover have "base < 0x08008000 \<and> 0x08000000 < base + len \<or>
        (\<exists>rs. running_slot_base b = Some rs \<and> base < rs + 0x36000 \<and> rs < base + len)"
      using \<open>?L\<close> False
      by (auto simp: ota_fmc_range_forbidden_def Let_def split: if_splits option.splits)
    moreover have "unat (rs + 0x36000) = unat rs + 0x36000" if "running_slot_base b = Some rs" for rs
      using that by (cases b) auto
    ultimately show ?thesis
      using overlap_point [OF _ _ e, where r = "0x08000000" and n = "0x8000"]
        overlap_point [OF _ _ e, where n = "0x36000"]
      by (fastforce simp: protected_def)
  qed
next
  assume r: ?R
  show ?L
  proof (rule ccontr)
    assume "\<not> ?L"
    from range_allowed [OF this] r unat_u32_lt [of "base + len"] show False by auto
  qed
qed

theorem ota_fmc_range_forbidden_iff_witness:
  "(2048 :: u32) \<noteq> 0 \<and>
   (ota_fmc_range_forbidden Slot_A_build 0x08076000 2048 \<longleftrightarrow>
    2 ^ 32 \<le> unat (0x08076000 :: u32) + unat (2048 :: u32) \<or>
    (\<exists>a. in_range 0x08076000 (unat (2048 :: u32)) a \<and> protected Slot_A_build a))"
  using ota_fmc_range_forbidden_iff [of 2048 Slot_A_build "0x08076000"] by simp

text \<open>
  C17: erasing a range of the flash changes nothing outside the range and nothing in the
  bootloader or the running slot, whatever the controller does; it returns the interlock and
  the interrupt mask as it found them, and is refused without effect while another call owns
  the funnel; and when the hardware is honest and the result is OK, every byte of the range
  reads 0xFF without ECC error.
\<close>

theorem ota_fmc_erase_range_contract:
  assumes "in_flash base (unat len)"
  shows "case ota_fmc_erase_range env base len s of (r, s') \<Rightarrow>
    (\<forall>a. protected (env_build env) a \<or> \<not> in_range base (unat len) a \<longrightarrow>
       flash s' a = flash s a \<and> ecc_bad s' a = ecc_bad s a) \<and>
    s_fmc_owned s' = s_fmc_owned s \<and> primask s' = primask s \<and>
    (s_fmc_owned s \<longrightarrow> r = OTA_FMC_RESULT_ERROR \<and> s' = s) \<and>
    (hw_honest env \<and> r = OTA_FMC_RESULT_OK \<longrightarrow>
       (\<forall>a. in_range base (unat len) a \<longrightarrow> flash s' a = 0xFF \<and> \<not> ecc_bad s' a))"
proof -
  obtain r s' where e: "ota_fmc_erase_range env base len s = (r, s')" by fastforce
  have "s_fmc_owned s \<Longrightarrow> r = OTA_FMC_RESULT_ERROR \<and> s' = s"
    using e by (auto simp: ota_fmc_erase_range_def fmc_funnel_claim_def split: if_splits)
  then show ?thesis
    using e erase_range_frame [OF assms, of env s] erase_range_ok [OF assms, of env _ s]
    by (auto simp: same_outside_def fmc_keep_def)
qed

theorem ota_fmc_erase_range_contract_witness:
  "in_flash OTA_CONFIG_REC0 (unat OTA_PAGE_SIZE) \<and>
   flash (snd (ota_fmc_erase_range (good_hw Slot_A_build) OTA_CONFIG_REC0 OTA_PAGE_SIZE
     (fmc_reset (\<lambda>_. 0x12)))) OTA_SLOT_A_BASE = 0x12"
proof -
  have i: "in_flash OTA_CONFIG_REC0 (unat OTA_PAGE_SIZE)" by (simp add: in_flash_def)
  moreover have "\<not> in_range OTA_CONFIG_REC0 (unat OTA_PAGE_SIZE) OTA_SLOT_A_BASE"
    by (simp add: in_range_def)
  ultimately show ?thesis
    using ota_fmc_erase_range_contract [OF i, of "good_hw Slot_A_build" "fmc_reset (\<lambda>_. 0x12)"]
    by (auto split: prod.splits simp: fmc_reset_def)
qed

text \<open>
  C18: programming changes only the doublewords that hold the data and nothing in the
  bootloader or the running slot; it keeps the interlock and the interrupt mask and is refused
  without effect while the funnel is owned; and when the hardware is honest and the result is
  OK the data read back, the tail of the last doubleword being 0xFF.
\<close>

theorem ota_fmc_program_contract:
  assumes "unat addr + pad8 (length data) \<le> 0x08080000"
  shows "case ota_fmc_program env addr data s of (r, s') \<Rightarrow>
    (\<forall>a. protected (env_build env) a \<or> \<not> in_range addr (pad8 (length data)) a \<longrightarrow>
       flash s' a = flash s a \<and> ecc_bad s' a = ecc_bad s a) \<and>
    s_fmc_owned s' = s_fmc_owned s \<and> primask s' = primask s \<and>
    (s_fmc_owned s \<longrightarrow> r = OTA_FMC_RESULT_ERROR \<and> s' = s) \<and>
    (hw_honest env \<and> r = OTA_FMC_RESULT_OK \<longrightarrow>
       (\<forall>i < pad8 (length data). flash s' (addr + of_nat i) =
          (if i < length data then data ! i else 0xFF) \<and> \<not> ecc_bad s' (addr + of_nat i)))"
proof -
  obtain r s' where e: "ota_fmc_program env addr data s = (r, s')" by fastforce
  have "s_fmc_owned s \<Longrightarrow> r = OTA_FMC_RESULT_ERROR \<and> s' = s"
    using e by (auto simp: ota_fmc_program_def fmc_funnel_claim_def split: if_splits)
  then show ?thesis
    using e program_frame [OF assms, of env s] program_ok [OF assms, of env s]
    by (auto simp: same_outside_def fmc_keep_def)
qed

theorem ota_fmc_program_contract_witness:
  "unat OTA_CONFIG_REC0 + pad8 (length [1, 2, 3 :: u8]) \<le> 0x08080000 \<and>
   flash (snd (ota_fmc_program (good_hw Slot_A_build) OTA_CONFIG_REC0 [1, 2, 3]
     (fmc_reset (\<lambda>_. 0xFF)))) (OTA_CONFIG_REC0 + 2) = 3"
proof -
  have i: "unat OTA_CONFIG_REC0 + pad8 (length [1, 2, 3 :: u8]) \<le> 0x08080000" by (simp add: pad8_def)
  moreover have "fst (ota_fmc_program (good_hw Slot_A_build) OTA_CONFIG_REC0 [1, 2, 3]
     (fmc_reset (\<lambda>_. 0xFF))) = OTA_FMC_RESULT_OK"
    by (rule program_clean) (simp_all add: fmc_reset_def good_hw_def ota_fmc_range_forbidden_def hw_clean_def)
  ultimately show ?thesis
    using ota_fmc_program_contract [OF i, of "good_hw Slot_A_build" "fmc_reset (\<lambda>_. 0xFF)"]
    by (auto split: prod.splits simp: pad8_def dest!: spec [where x = "2 :: nat"])
qed

text \<open>
  C19: the wait is bounded: it makes at most as many status reads as its budget, and error
  flags latched by an earlier failed operation never make a later one fail: on a controller
  that is neither busy nor reporting new errors, every aligned and allowed erase of an idle
  funnel succeeds from every state.
\<close>

theorem ota_fmc_no_sticky_poison:
  assumes "hw_clean env" "\<not> s_fmc_owned s" "2048 dvd unat base" "2048 dvd unat len"
    and "\<not> ota_fmc_range_forbidden (env_build env) base len" "t \<noteq> 0"
  shows "fst (ota_fmc_erase_range env base len s) = OTA_FMC_RESULT_OK \<and>
    polls (snd (ota_fmc_wait_ready env' t s')) \<le> polls s' + unat t"
  using erase_range_clean [OF assms(1-5)] wait_loop_polls [OF assms(6), of env' s']
  by (auto simp: ota_fmc_wait_ready_def split: prod.splits)

theorem ota_fmc_no_sticky_poison_witness:
  "fst (ota_fmc_erase_range (good_hw Slot_A_build) OTA_META_REC0 OTA_PAGE_SIZE
     ((fmc_reset (\<lambda>_. 0))\<lparr>stat_err := (\<lambda>fl. fl = PGERR)\<rparr>)) = OTA_FMC_RESULT_OK"
proof -
  have "\<not> ota_fmc_range_forbidden (env_build (good_hw Slot_A_build)) OTA_META_REC0 OTA_PAGE_SIZE"
    by (simp add: ota_fmc_range_forbidden_def good_hw_def)
  then show ?thesis
    using ota_fmc_no_sticky_poison [of "good_hw Slot_A_build" "(fmc_reset (\<lambda>_. 0))\<lparr>stat_err := (\<lambda>fl. fl = PGERR)\<rparr>"
        OTA_META_REC0 OTA_PAGE_SIZE 1] by (simp add: fmc_reset_def)
qed



end
