(* ===== verification/Boot_Config.thy ===== *)
theory Boot_Config
  imports Fmc
begin

unbundle bit_operations_syntax

text \<open>
  Persistent boot configuration, \<open>src/boot_config.c\<close>: two record pages written alternately, each
  record a payload doubleword (counter, flags) followed by a commit doubleword (CRC-32, magic)
  that is programmed last; a queued SET that the main loop commits; and the boot-time apply.
\<close>

section \<open>Records\<close>

abbreviation (input) "BOOT_CONFIG_FLAG_SDMUX_EN_HIGH \<equiv> (1 :: u32)"
abbreviation (input) "BOOT_CONFIG_KNOWN_FLAGS \<equiv> (1 :: u32)"
abbreviation (input) "BOOT_CONFIG_SDMUX_EN_PAD_MASK \<equiv> (0x1000 :: u32)"
abbreviation (input) "BOOT_CONFIG_MAGIC \<equiv> (0x32464342 :: u32)"
abbreviation (input) "BOOT_CONFIG_COUNTER_LIMIT \<equiv> (0xFFFFFFF0 :: u32)"
abbreviation (input) "BOOT_CONFIG_COMMIT_OFF \<equiv> (8 :: u32)"

record boot_config_record =
  bc_counter :: u32
  bc_flags :: u32
  bc_crc32 :: u32
  bc_magic :: u32

definition record_crc :: "u32 \<Rightarrow> u32 \<Rightarrow> u32" where
  "record_crc counter flags = ota_crc32 0 (bytes32 counter @ bytes32 flags)"

definition boot_config_read_page :: "u32 \<Rightarrow> fmc_st \<Rightarrow> boot_config_record option \<times> fmc_st" where
  "boot_config_read_page base s =
     (case ota_fmc_read_safe (base + BOOT_CONFIG_COMMIT_OFF) 8 s of
        (None, s) \<Rightarrow> (None, s)
      | (Some commit, s) \<Rightarrow>
          if le32_at commit 4 \<noteq> BOOT_CONFIG_MAGIC then (None, s)
          else (case ota_fmc_read_safe base 8 s of
                  (None, s) \<Rightarrow> (None, s)
                | (Some payload, s) \<Rightarrow>
                    if le32_at commit 0 \<noteq> record_crc (le32_at payload 0) (le32_at payload 4) then (None, s)
                    else if le32_at payload 0 = 0 \<or> BOOT_CONFIG_COUNTER_LIMIT \<le> le32_at payload 0 then (None, s)
                    else (Some \<lparr>bc_counter = le32_at payload 0, bc_flags = le32_at payload 4,
                                bc_crc32 = le32_at commit 0, bc_magic = le32_at commit 4\<rparr>, s)))"

text \<open>The newest valid record, and the page a new record goes to.\<close>

definition newest_record :: "fmc_st \<Rightarrow> boot_config_record option \<times> u32 \<times> fmc_st" where
  "newest_record s =
     (let (v0, s) = boot_config_read_page OTA_CONFIG_REC0 s;
          (v1, s) = boot_config_read_page OTA_CONFIG_REC1 s
      in case (v0, v1) of
           (Some r0, None) \<Rightarrow> (Some r0, OTA_CONFIG_REC1, s)
         | (Some r0, Some r1) \<Rightarrow>
             if bc_counter r0 > bc_counter r1 then (Some r0, OTA_CONFIG_REC1, s)
             else (Some r1, OTA_CONFIG_REC0, s)
         | (None, Some r1) \<Rightarrow> (Some r1, OTA_CONFIG_REC0, s)
         | (None, None) \<Rightarrow> (None, OTA_CONFIG_REC0, s))"

section \<open>Store\<close>

text \<open>Erase, payload, commit, read back: the flash part of a store, for a given record.\<close>

definition store_record :: "hw_env \<Rightarrow> u32 \<Rightarrow> u32 \<Rightarrow> u32 \<Rightarrow> fmc_st \<Rightarrow> ota_fmc_result \<times> fmc_st" where
  "store_record env target counter flags s =
     (let (rv, s) = ota_fmc_erase_range env target OTA_PAGE_SIZE s
      in if rv \<noteq> OTA_FMC_RESULT_OK then (rv, s)
      else let (rv, s) = ota_fmc_program env target (bytes32 counter @ bytes32 flags) s
      in if rv \<noteq> OTA_FMC_RESULT_OK then (rv, s)
      else let (rv, s) = ota_fmc_program env (target + BOOT_CONFIG_COMMIT_OFF)
                           (bytes32 (record_crc counter flags) @ bytes32 BOOT_CONFIG_MAGIC) s
      in if rv \<noteq> OTA_FMC_RESULT_OK then (rv, s)
      else let (check, s) = boot_config_read_page target s
      in (case check of
            Some c \<Rightarrow> if bc_counter c = counter \<and> bc_flags c = flags
                      then OTA_FMC_RESULT_OK else OTA_FMC_RESULT_ERROR
          | None \<Rightarrow> OTA_FMC_RESULT_ERROR, s))"

definition boot_config_store :: "hw_env \<Rightarrow> u32 \<Rightarrow> fmc_st \<Rightarrow> ota_fmc_result \<times> fmc_st" where
  "boot_config_store env flags0 s =
     (if \<not> ota_fmc_supported then (OTA_FMC_RESULT_ERROR, s)
      else let flags = flags0 AND BOOT_CONFIG_KNOWN_FLAGS;
               (cur, target, s) = newest_record s
           in if (case cur of Some c \<Rightarrow> bc_flags c | None \<Rightarrow> 0) = flags then (OTA_FMC_RESULT_OK, s)
              else (case cur of
                      Some c \<Rightarrow>
                        if bc_counter c + 1 \<ge> BOOT_CONFIG_COUNTER_LIMIT then (OTA_FMC_RESULT_ERROR, s)
                        else store_record env target (bc_counter c + 1) flags s
                    | None \<Rightarrow> store_record env target 1 flags s))"

section \<open>RAM cache and queue\<close>

record cfg_st =
  s_stored :: u32
  s_pending :: bool
  s_pending_flags :: u32

definition cfg_reset :: cfg_st where
  "cfg_reset = \<lparr>s_stored = 0, s_pending = False, s_pending_flags = 0\<rparr>"

definition boot_config_load :: "cfg_st \<Rightarrow> fmc_st \<Rightarrow> cfg_st \<times> fmc_st" where
  "boot_config_load c s =
     (let (cur, _, s) = newest_record s
      in (c\<lparr>s_pending := False,
            s_stored := (case cur of Some r \<Rightarrow> bc_flags r AND BOOT_CONFIG_KNOWN_FLAGS | None \<Rightarrow> 0)\<rparr>, s))"

definition boot_config_flags :: "cfg_st \<Rightarrow> u32" where
  "boot_config_flags c = s_stored c"

definition boot_config_pending :: "cfg_st \<Rightarrow> u32 option" where
  "boot_config_pending c = (if s_pending c then Some (s_pending_flags c) else None)"

definition boot_config_request :: "u32 \<Rightarrow> cfg_st \<Rightarrow> bool \<times> cfg_st" where
  "boot_config_request flags c =
     (if s_pending c then (s_pending_flags c = flags, c)
      else if flags = s_stored c then (True, c)
      else (True, c\<lparr>s_pending_flags := flags, s_pending := True\<rparr>))"

text \<open>\<open>erase_active\<close> is \<open>ota_erase_active()\<close> of the update session.\<close>

definition boot_config_tick :: "hw_env \<Rightarrow> bool \<Rightarrow> cfg_st \<Rightarrow> fmc_st \<Rightarrow> cfg_st \<times> fmc_st" where
  "boot_config_tick env erase_active c s =
     (if \<not> s_pending c then (c, s)
      else if erase_active \<or> ota_fmc_funnel_busy s then (c, s)
      else let flags = s_pending_flags c;
               (rv, s) = boot_config_store env flags s;
               c = (if rv = OTA_FMC_RESULT_OK then c\<lparr>s_stored := flags\<rparr> else c)
           in (c\<lparr>s_pending := False\<rparr>, s))"

text \<open>\<open>gpio_write\<close> is the backend's \<open>bridge_hw_gpio_write\<close>; its status is ignored.\<close>

definition boot_config_apply ::
  "(u32 \<Rightarrow> u32 \<Rightarrow> 'h \<Rightarrow> 'r \<times> 'h) \<Rightarrow> cfg_st \<Rightarrow> fmc_st \<Rightarrow> 'h \<Rightarrow> cfg_st \<times> fmc_st \<times> 'h" where
  "boot_config_apply gpio_write c s h =
     (let (c, s) = boot_config_load c s
      in (c, s,
          if s_stored c AND BOOT_CONFIG_FLAG_SDMUX_EN_HIGH \<noteq> 0
          then snd (gpio_write BOOT_CONFIG_SDMUX_EN_PAD_MASK BOOT_CONFIG_SDMUX_EN_PAD_MASK h) else h))"

section \<open>What a page holds\<close>

text \<open>The value a page reads as, as a function of the flash and ECC content.\<close>

definition page_record :: "flash \<Rightarrow> (u32 \<Rightarrow> bool) \<Rightarrow> u32 \<Rightarrow> boot_config_record option" where
  "page_record f e base =
     (let pay = fbytes f base 8; com = fbytes f (base + 8) 8;
          r = \<lparr>bc_counter = le32_at pay 0, bc_flags = le32_at pay 4,
               bc_crc32 = le32_at com 0, bc_magic = le32_at com 4\<rparr>
      in if (\<forall>i \<in> {..<8}. \<not> e (base + of_nat i)) \<and> (\<forall>i \<in> {..<8}. \<not> e (base + 8 + of_nat i)) \<and>
            bc_magic r = BOOT_CONFIG_MAGIC \<and> bc_crc32 r = record_crc (bc_counter r) (bc_flags r) \<and>
            bc_counter r \<noteq> 0 \<and> bc_counter r < BOOT_CONFIG_COUNTER_LIMIT
         then Some r else None)"

lemma read_safe_eq:
  assumes "addr AND 7 = 0"
  shows "ota_fmc_read_safe addr 8 s =
     (if \<forall>i \<in> {..<8}. \<not> ecc_bad s (addr + of_nat i) then Some (fbytes (flash s) addr 8) else None,
      s\<lparr>eccdet := False\<rparr>)"
proof -
  have "(addr OR 8) AND 7 = 0" using assms by (simp add: bit.conj_disj_distrib2)
  then show ?thesis by (auto simp: ota_fmc_read_safe_def load_span_def Let_def)
qed

lemma read_page_eq:
  assumes "base AND 7 = 0" "(base + 8) AND 7 = 0"
  shows "boot_config_read_page base s = (page_record (flash s) (ecc_bad s) base, s\<lparr>eccdet := False\<rparr>)"
  unfolding boot_config_read_page_def page_record_def read_safe_eq [OF assms(1)] read_safe_eq [OF assms(2)]
  by (auto simp: Let_def not_le)

definition newest_of ::
  "boot_config_record option \<Rightarrow> boot_config_record option \<Rightarrow> boot_config_record option \<times> u32" where
  "newest_of v0 v1 =
     (case (v0, v1) of
        (Some r0, None) \<Rightarrow> (Some r0, OTA_CONFIG_REC1)
      | (Some r0, Some r1) \<Rightarrow> if bc_counter r0 > bc_counter r1 then (Some r0, OTA_CONFIG_REC1)
                              else (Some r1, OTA_CONFIG_REC0)
      | (None, Some r1) \<Rightarrow> (Some r1, OTA_CONFIG_REC0)
      | (None, None) \<Rightarrow> (None, OTA_CONFIG_REC0))"

text \<open>The flags a boot finds: those of the newest valid record, 0 when there is none.\<close>

definition boot_value :: "fmc_st \<Rightarrow> u32" where
  "boot_value s =
     (case fst (newest_of (page_record (flash s) (ecc_bad s) OTA_CONFIG_REC0)
                          (page_record (flash s) (ecc_bad s) OTA_CONFIG_REC1)) of
        Some r \<Rightarrow> bc_flags r AND BOOT_CONFIG_KNOWN_FLAGS
      | None \<Rightarrow> 0)"

definition boot_counter :: "fmc_st \<Rightarrow> u32" where
  "boot_counter s =
     (case fst (newest_of (page_record (flash s) (ecc_bad s) OTA_CONFIG_REC0)
                          (page_record (flash s) (ecc_bad s) OTA_CONFIG_REC1)) of
        Some r \<Rightarrow> bc_counter r
      | None \<Rightarrow> 0)"

lemma newest_record_eq:
  "newest_record s =
     (let (cur, target) = newest_of (page_record (flash s) (ecc_bad s) OTA_CONFIG_REC0)
                                    (page_record (flash s) (ecc_bad s) OTA_CONFIG_REC1)
      in (cur, target, s\<lparr>eccdet := False\<rparr>))"
  unfolding newest_record_def newest_of_def
  by (simp add: read_page_eq Let_def split: option.splits)

lemma boot_value_eccdet [simp]: "boot_value (s\<lparr>eccdet := b\<rparr>) = boot_value s"
  by (simp add: boot_value_def)

lemma page_record_cong:
  assumes "\<And>i. i < 16 \<Longrightarrow> f (base + of_nat i) = g (base + of_nat i) \<and>
             e (base + of_nat i) = h (base + of_nat i)"
  shows "page_record f e base = page_record g h base"
proof -
  have lo: "f (base + of_nat i) = g (base + of_nat i) \<and> e (base + of_nat i) = h (base + of_nat i)"
    if "i < 8" for i using assms [of i] that by simp
  have hi: "f (base + 8 + of_nat i) = g (base + 8 + of_nat i) \<and>
      e (base + 8 + of_nat i) = h (base + 8 + of_nat i)" if "i < 8" for i
    using assms [of "8 + i"] that by (simp add: add.assoc)
  have "fbytes f base 8 = fbytes g base 8" "fbytes f (base + 8) 8 = fbytes g (base + 8) 8"
    using lo hi by (auto intro!: fbytes_cong)
  then show ?thesis using lo hi by (simp add: page_record_def Let_def)
qed

lemma page_record_SomeD:
  "page_record f e base = Some r \<Longrightarrow>
   bc_counter r = le32_at (fbytes f base 8) 0 \<and> bc_flags r = le32_at (fbytes f base 8) 4 \<and>
   bc_magic r = le32_at (fbytes f (base + 8) 8) 4 \<and> bc_magic r = BOOT_CONFIG_MAGIC \<and>
   bc_crc32 r = record_crc (bc_counter r) (bc_flags r) \<and> bc_counter r \<noteq> 0 \<and>
   bc_counter r < BOOT_CONFIG_COUNTER_LIMIT"
  by (auto simp: page_record_def Let_def split: if_splits)

lemma page_record_ecc:
  assumes "(\<exists>i < 8. e (base + of_nat i)) \<or> (\<exists>i < 8. e (base + 8 + of_nat i))"
  shows "page_record f e base = None"
  using assms by (auto simp: page_record_def Let_def)

lemma le32_at_FF: "(\<And>i. i < 4 \<Longrightarrow> bs ! (k + i) = 0xFF) \<Longrightarrow> le32_at bs k = 0xFFFFFFFF"
proof -
  assume a: "\<And>i. i < 4 \<Longrightarrow> bs ! (k + i) = (0xFF :: u8)"
  have "le32 0xFF 0xFF 0xFF 0xFF = 0xFFFFFFFF" by (simp add: le32_def)
  then show ?thesis using a [of 0] a [of 1] a [of 2] a [of 3] by (simp add: le32_at_def)
qed

lemma page_record_blank_payload:
  assumes "\<And>i. i < 8 \<Longrightarrow> f (base + of_nat i) = 0xFF"
  shows "page_record f e base = None"
proof -
  have "le32_at (fbytes f base 8) 0 = 0xFFFFFFFF" by (rule le32_at_FF) (simp add: assms)
  then show ?thesis by (simp add: page_record_def Let_def)
qed

lemma page_record_blank_commit:
  assumes "\<And>i. i < 8 \<Longrightarrow> f (base + 8 + of_nat i) = 0xFF"
  shows "page_record f e base = None"
proof -
  have "le32_at (fbytes f (base + 8) 8) 4 = 0xFFFFFFFF"
    by (rule le32_at_FF) (use assms in \<open>simp add: nth_fbytes del: of_nat_add\<close>)
  then show ?thesis by (simp add: page_record_def Let_def)
qed

lemma dword_tornE:
  assumes "dword_torn f e f' e' d"
  obtains (same) "\<And>i. i < 8 \<Longrightarrow> f' (d + of_nat i) = f (d + of_nat i) \<and> e' (d + of_nat i) = e (d + of_nat i)"
  | (blank) "\<And>i. i < 8 \<Longrightarrow> f' (d + of_nat i) = 0xFF"
  | (bad) "\<exists>i < 8. e' (d + of_nat i)"
  using assms unfolding dword_torn_def by metis

lemma page_record_torn:
  assumes "dword_torn f e f' e' base" "dword_torn f e f' e' (base + 8)"
  shows "page_record f' e' base = page_record f e base \<or> page_record f' e' base = None"
  using assms(1)
proof (cases rule: dword_tornE)
  case lo: same
  show ?thesis using assms(2)
  proof (cases rule: dword_tornE)
    case hi: same
    have "page_record f' e' base = page_record f e base"
    proof (rule page_record_cong)
      fix i :: nat assume "i < 16"
      show "f' (base + of_nat i) = f (base + of_nat i) \<and> e' (base + of_nat i) = e (base + of_nat i)"
      proof (cases "i < 8")
        case False
        then obtain j where "i = 8 + j" using le_Suc_ex [of 8 i] by auto
        with hi [of j] \<open>i < 16\<close> show ?thesis by (simp add: add.assoc)
      qed (rule lo)
    qed
    then show ?thesis ..
  qed (simp_all add: page_record_blank_commit page_record_ecc)
qed (simp_all add: page_record_blank_payload page_record_ecc)

section \<open>Outcomes of a store\<close>

definition cfg_page :: "u32 \<Rightarrow> bool" where
  "cfg_page t \<longleftrightarrow> t = OTA_CONFIG_REC0 \<or> t = OTA_CONFIG_REC1"

lemma cfg_page_facts:
  assumes "cfg_page t"
  shows "in_flash t 2048" "8 dvd unat t" "unat (t + 8) = unat t + 8" "t AND 7 = 0" "(t + 8) AND 7 = 0"
    "unat t \<le> 0x08076800" "i < 2048 \<Longrightarrow> unat (t + of_nat i) = unat t + i"
    "i < 2048 \<Longrightarrow> unat (t + 8 + of_nat i) = unat t + 8 + i"
proof -
  show u: "unat t \<le> 0x08076800" using assms by (auto simp: cfg_page_def)
  show "in_flash t 2048" "8 dvd unat t" "t AND 7 = 0" "(t + 8) AND 7 = 0" "unat (t + 8) = unat t + 8"
    using assms by (auto simp: cfg_page_def in_flash_def dvd_def)
  show "i < 2048 \<Longrightarrow> unat (t + of_nat i) = unat t + i" "i < 2048 \<Longrightarrow> unat (t + 8 + of_nat i) = unat t + 8 + i"
    using u by (simp_all add: unat_word_ariths(1) unat_of_nat)
qed

lemma pad8_8 [simp]: "pad8 8 = 8"
  by (simp add: pad8_def)

lemma page_record_same_outside:
  assumes "cfg_page t" "\<And>x. unat t \<le> unat x \<Longrightarrow> unat x < unat t + 16 \<Longrightarrow> f x = g x \<and> e x = h x"
  shows "page_record f e t = page_record g h t"
  by (rule page_record_cong) (rule assms(2), use cfg_page_facts(7) [OF assms(1)] in auto)

lemma le32_at_bytes32:
  "le32_at (bytes32 v @ bs) 0 = v" "le32_at (bytes32 v @ bytes32 w) 4 = w"
  by (simp_all add: le32_at_def bytes32_def)

text \<open>After a store of \<open>(counter, flags)\<close> the target page reads as before, as absent, or as that record.\<close>

definition stored_record :: "u32 \<Rightarrow> u32 \<Rightarrow> boot_config_record" where
  "stored_record counter flags = \<lparr>bc_counter = counter, bc_flags = flags,
     bc_crc32 = record_crc counter flags, bc_magic = BOOT_CONFIG_MAGIC\<rparr>"

lemma page_record_payload:
  assumes "fbytes f t 8 = bytes32 counter @ bytes32 flags" "page_record f e t = Some r"
  shows "r = stored_record counter flags"
  using page_record_SomeD [OF assms(2)] assms(1)
  by (auto simp: stored_record_def le32_at_bytes32 intro!: boot_config_record.equality)

lemma fbytes_8_eqI:
  assumes "length bs = n" "\<And>i. i < n \<Longrightarrow> f (t + of_nat i) = bs ! i"
  shows "fbytes f t n = bs"
  using assms by (intro nth_equalityI) auto

lemma store_record_frame:
  assumes "cfg_page t" "\<not> in_range t 2048 a"
  shows "flash (snd (store_record env t counter flags s)) a = flash s a \<and>
         ecc_bad (snd (store_record env t counter flags s)) a = ecc_bad s a"
proof -
  note cf = cfg_page_facts [OF assms(1)]
  have out: "\<not> in_range t 8 a" "\<not> in_range (t + 8) 8 a" using assms(2) cf(3) by (auto simp: in_range_def)
  have e: "flash (snd (ota_fmc_erase_range env t OTA_PAGE_SIZE s)) a = flash s a \<and>
      ecc_bad (snd (ota_fmc_erase_range env t OTA_PAGE_SIZE s)) a = ecc_bad s a"
    using fmc.erase_frame [of t OTA_PAGE_SIZE env a s] cf(1) assms(2) by simp
  have p1: "flash (snd (ota_fmc_program env t (bytes32 x @ bytes32 y) u)) a = flash u a \<and>
      ecc_bad (snd (ota_fmc_program env t (bytes32 x @ bytes32 y) u)) a = ecc_bad u a" for x y u
    using fmc.prog_frame [of t "bytes32 x @ bytes32 y" env a u] cf(6) out by simp
  have p2: "flash (snd (ota_fmc_program env (t + 8) (bytes32 x @ bytes32 y) u)) a = flash u a \<and>
      ecc_bad (snd (ota_fmc_program env (t + 8) (bytes32 x @ bytes32 y) u)) a = ecc_bad u a" for x y u
    using fmc.prog_frame [of "t + 8" "bytes32 x @ bytes32 y" env a u] cf(3,6) out by simp
  show ?thesis
    using e p1 p2 unfolding store_record_def read_page_eq [OF cf(4,5)]
    by (auto simp: Let_def split: prod.splits) (metis snd_conv)+
qed

lemma store_record_target:
  assumes "cfg_page t" "hw_honest env" "hw_tears env"
  shows "let s' = snd (store_record env t counter flags s)
    in page_record (flash s') (ecc_bad s') t \<in>
         {page_record (flash s) (ecc_bad s) t, None, Some (stored_record counter flags)}"
proof -
  note cf = cfg_page_facts [OF assms(1)]
  obtain r1 s1 where e: "ota_fmc_erase_range env t OTA_PAGE_SIZE s = (r1, s1)" by fastforce
  obtain r2 s2 where p: "ota_fmc_program env t (bytes32 counter @ bytes32 flags) s1 = (r2, s2)" by fastforce
  obtain r3 s3 where c: "ota_fmc_program env (t + 8)
      (bytes32 (record_crc counter flags) @ bytes32 BOOT_CONFIG_MAGIC) s2 = (r3, s3)" by fastforce
  have torn: "dword_torn (flash s) (ecc_bad s) (flash s1) (ecc_bad s1) d" if "d = t \<or> d = t + 8" for d
    using erase_range_torn [of t OTA_PAGE_SIZE env d s] e cf(1,2,3) assms(3) that
    by (auto simp: in_range_def)
  have R1: "page_record (flash s1) (ecc_bad s1) t \<in> {page_record (flash s) (ecc_bad s) t, None}"
    using page_record_torn [OF torn [of t] torn [of "t + 8"]] by simp
  have blank: "flash s1 x = 0xFF" if "r1 = OTA_FMC_RESULT_OK" "in_range t 2048 x" for x
    using fmc.erase_ok [of env t OTA_PAGE_SIZE s x] e cf(1) assms(2) that by simp
  have keep2: "flash s2 x = flash s1 x \<and> ecc_bad s2 x = ecc_bad s1 x" if "\<not> in_range t 8 x" for x
    using fmc.prog_frame [of t "bytes32 counter @ bytes32 flags" env x s1] p cf(6) that by simp
  have R2: "page_record (flash s2) (ecc_bad s2) t = None" if "r1 = OTA_FMC_RESULT_OK"
  proof (rule page_record_blank_commit)
    fix i :: nat assume "i < 8"
    then have "unat (t + 8 + of_nat i) = unat t + 8 + i" using cf(8) [of i] by simp
    then show "flash s2 (t + 8 + of_nat i) = 0xFF"
      using keep2 blank [OF that] \<open>i < 8\<close> by (simp add: in_range_def)
  qed
  have pay: "flash s2 (t + of_nat i) = (bytes32 counter @ bytes32 flags) ! i"
    if "r2 = OTA_FMC_RESULT_OK" "i < 8" for i
    using fmc.prog_ok [of env t "bytes32 counter @ bytes32 flags" s1 i] p cf(6) assms(2) that by simp
  have keep3: "flash s3 x = flash s2 x" if "\<not> in_range (t + 8) 8 x" for x
    using fmc.prog_frame [of "t + 8" "bytes32 (record_crc counter flags) @ bytes32 BOOT_CONFIG_MAGIC" env x s2]
      c cf(3,6) that by simp
  have R3: "page_record (flash s3) (ecc_bad s3) t \<in> {None, Some (stored_record counter flags)}"
    if "r2 = OTA_FMC_RESULT_OK"
  proof -
    have "fbytes (flash s3) t 8 = bytes32 counter @ bytes32 flags"
      by (rule fbytes_8_eqI) (use pay [OF that] keep3 cf(3,7) in \<open>auto simp: in_range_def\<close>)
    then show ?thesis using page_record_payload by (metis insert_iff not_None_eq)
  qed
  show ?thesis
    using R1 R2 R3 e p c unfolding store_record_def read_page_eq [OF cf(4,5)]
    by (auto simp: Let_def)
qed

lemma store_record_OK:
  assumes "cfg_page t" "fst (store_record env t counter flags s) = OTA_FMC_RESULT_OK"
  shows "\<exists>r. page_record (flash (snd (store_record env t counter flags s)))
               (ecc_bad (snd (store_record env t counter flags s))) t = Some r \<and>
             bc_counter r = counter \<and> bc_flags r = flags"
  using assms(2) cfg_page_facts(4,5) [OF assms(1)] unfolding store_record_def
  by (auto simp: Let_def read_page_eq split: prod.splits if_splits option.splits)

section \<open>Ranking\<close>

lemma newest_of_cfg_page: "cfg_page (snd (newest_of v0 v1))"
  by (auto simp: newest_of_def cfg_page_def split: option.splits)

lemma newest_of_keep:
  assumes "newest_of v0 v1 = (cur, t)" "v = (if t = OTA_CONFIG_REC0 then v0 else v1) \<or> v = None"
  shows "fst (newest_of (if t = OTA_CONFIG_REC0 then v else v0) (if t = OTA_CONFIG_REC0 then v1 else v)) = cur"
  using assms by (auto simp: newest_of_def split: option.splits if_splits)

lemma newest_of_new:
  assumes "newest_of v0 v1 = (cur, t)" "\<And>c. cur = Some c \<Longrightarrow> bc_counter c < bc_counter r"
  shows "fst (newest_of (if t = OTA_CONFIG_REC0 then Some r else v0)
                        (if t = OTA_CONFIG_REC0 then v1 else Some r)) = Some r"
  using assms by (fastforce simp: newest_of_def split: option.splits if_splits)

text \<open>A store to page \<open>t\<close> leaves the other page's record alone.\<close>

lemma store_record_other:
  assumes "cfg_page t" "cfg_page u" "t \<noteq> u"
  shows "page_record (flash (snd (store_record env t counter flags s)))
           (ecc_bad (snd (store_record env t counter flags s))) u =
         page_record (flash s) (ecc_bad s) u"
proof (rule page_record_same_outside [OF assms(2)])
  fix x :: u32 assume "unat u \<le> unat x" "unat x < unat u + 16"
  then have "\<not> in_range t 2048 x" using assms by (auto simp: cfg_page_def in_range_def)
  then show "flash (snd (store_record env t counter flags s)) x = flash s x \<and>
      ecc_bad (snd (store_record env t counter flags s)) x = ecc_bad s x"
    using store_record_frame [OF assms(1)] by blast
qed

lemma counter_step:
  "c < BOOT_CONFIG_COUNTER_LIMIT \<Longrightarrow> (c :: u32) < c + 1"
  by (simp add: word_less_nat_alt unat_word_ariths(1))

lemma newest_counter_lt:
  "newest_of (page_record f e OTA_CONFIG_REC0) (page_record f e OTA_CONFIG_REC1) = (Some c, t) \<Longrightarrow>
   bc_counter c < BOOT_CONFIG_COUNTER_LIMIT"
  by (auto simp: newest_of_def split: option.splits if_splits dest: page_record_SomeD)

text \<open>One store, in terms of the two page values: the shared skeleton of the store theorems.\<close>

lemma boot_config_store_cases:
  obtains (noop) "boot_config_store env flags s = (OTA_FMC_RESULT_OK, s\<lparr>eccdet := False\<rparr>)"
      "boot_value s = flags AND BOOT_CONFIG_KNOWN_FLAGS"
  | (full) "boot_config_store env flags s = (OTA_FMC_RESULT_ERROR, s\<lparr>eccdet := False\<rparr>)"
      "boot_counter s + 1 \<ge> BOOT_CONFIG_COUNTER_LIMIT"
  | (stored) cur t n where
      "newest_of (page_record (flash s) (ecc_bad s) OTA_CONFIG_REC0)
                 (page_record (flash s) (ecc_bad s) OTA_CONFIG_REC1) = (cur, t)"
      "boot_config_store env flags s =
         store_record env t n (flags AND BOOT_CONFIG_KNOWN_FLAGS) (s\<lparr>eccdet := False\<rparr>)"
      "\<And>c. cur = Some c \<Longrightarrow> bc_counter c < n" "n \<noteq> 0" "n < BOOT_CONFIG_COUNTER_LIMIT"
proof -
  obtain cur t where n: "newest_of (page_record (flash s) (ecc_bad s) OTA_CONFIG_REC0)
      (page_record (flash s) (ecc_bad s) OTA_CONFIG_REC1) = (cur, t)" by fastforce
  let ?fl = "flags AND BOOT_CONFIG_KNOWN_FLAGS"
  show thesis
  proof (cases "(case cur of Some c \<Rightarrow> bc_flags c | None \<Rightarrow> 0) = ?fl")
    case True
    then have "boot_value s = ?fl" using n by (auto simp: boot_value_def split: option.splits)
    with True n show thesis
      by (intro noop) (auto simp: boot_config_store_def newest_record_eq ota_fmc_supported_def Let_def)
  next
    case False
    note st = boot_config_store_def newest_record_eq ota_fmc_supported_def Let_def
    show thesis
    proof (cases cur)
      case None
      show thesis by (rule stored [OF n, of 1]) (use False None n in \<open>auto simp: st\<close>)
    next
      case (Some c)
      have inc: "bc_counter c < bc_counter c + 1"
        using newest_counter_lt n Some counter_step by blast
      then have nz: "bc_counter c + 1 \<noteq> 0" by auto
      show thesis
      proof (cases "bc_counter c + 1 \<ge> BOOT_CONFIG_COUNTER_LIMIT")
        case True
        show thesis by (rule full) (use False Some n True in \<open>simp_all add: st boot_counter_def\<close>)
      next
        case lt: False
        show thesis
          by (rule stored [OF n, of "bc_counter c + 1"])
             (use False Some n lt inc nz in \<open>auto simp: st\<close>)
      qed
    qed
  qed
qed

lemma store_to_page:
  assumes "newest_of (page_record (flash s) (ecc_bad s) OTA_CONFIG_REC0)
             (page_record (flash s) (ecc_bad s) OTA_CONFIG_REC1) = (cur, t)"
    and "s' = snd (store_record env t n fl (s\<lparr>eccdet := False\<rparr>))"
    and "v = page_record (flash s') (ecc_bad s') t"
  shows "newest_of (page_record (flash s') (ecc_bad s') OTA_CONFIG_REC0)
           (page_record (flash s') (ecc_bad s') OTA_CONFIG_REC1) =
         newest_of (if t = OTA_CONFIG_REC0 then v else page_record (flash s) (ecc_bad s) OTA_CONFIG_REC0)
           (if t = OTA_CONFIG_REC0 then page_record (flash s) (ecc_bad s) OTA_CONFIG_REC1 else v)"
proof -
  have t: "cfg_page t" using newest_of_cfg_page assms(1) by (metis snd_conv)
  have other: "page_record (flash s') (ecc_bad s') u = page_record (flash s) (ecc_bad s) u"
    if "cfg_page u" "t \<noteq> u" for u
    using store_record_other [OF t that, of env n fl "s\<lparr>eccdet := False\<rparr>"] assms(2) by simp
  from t show ?thesis unfolding cfg_page_def
  proof
    assume "t = OTA_CONFIG_REC0"
    then show ?thesis using other [of OTA_CONFIG_REC1] assms(3) by (simp add: cfg_page_def)
  next
    assume "t = OTA_CONFIG_REC1"
    then show ?thesis using other [of OTA_CONFIG_REC0] assms(3) by (simp add: cfg_page_def)
  qed
qed

lemma boot_config_store_value:
  assumes "hw_honest env" "hw_tears env"
  shows "boot_value (snd (boot_config_store env flags s)) \<in>
           {boot_value s, flags AND BOOT_CONFIG_KNOWN_FLAGS}"
proof (cases rule: boot_config_store_cases [of env flags s])
  case (stored cur t n)
  define s' where "s' = snd (boot_config_store env flags s)"
  define v where "v = page_record (flash s') (ecc_bad s') t"
  let ?new = "stored_record n (flags AND BOOT_CONFIG_KNOWN_FLAGS)"
  note eq = store_to_page [OF stored(1) s'_def [unfolded stored(2)] v_def]
  have t: "cfg_page t" using newest_of_cfg_page stored(1) by (metis snd_conv)
  have "v \<in> {page_record (flash s) (ecc_bad s) t, None, Some ?new}"
    using store_record_target [OF t assms, of n _ "s\<lparr>eccdet := False\<rparr>"] stored(2)
    by (simp add: v_def s'_def Let_def)
  then consider (old) "v = page_record (flash s) (ecc_bad s) t \<or> v = None" | (new) "v = Some ?new" by auto
  then show ?thesis
  proof cases
    case old
    then have "v = (if t = OTA_CONFIG_REC0 then page_record (flash s) (ecc_bad s) OTA_CONFIG_REC0
        else page_record (flash s) (ecc_bad s) OTA_CONFIG_REC1) \<or> v = None"
      using t by (auto simp: cfg_page_def)
    from newest_of_keep [OF stored(1) this] have "boot_value s' = boot_value s"
      using stored(1) by (simp add: boot_value_def eq)
    then show ?thesis by (simp add: s'_def)
  next
    case new
    have "fst (newest_of (page_record (flash s') (ecc_bad s') OTA_CONFIG_REC0)
        (page_record (flash s') (ecc_bad s') OTA_CONFIG_REC1)) = Some ?new"
      unfolding eq new by (rule newest_of_new [OF stored(1)]) (simp add: stored(3) stored_record_def)
    then have "boot_value s' = flags AND BOOT_CONFIG_KNOWN_FLAGS"
      by (simp add: boot_value_def stored_record_def)
    then show ?thesis by (simp add: s'_def)
  qed
qed simp_all

lemma boot_config_store_OK:
  assumes "fst (boot_config_store env flags s) = OTA_FMC_RESULT_OK"
  shows "boot_value (snd (boot_config_store env flags s)) = flags AND BOOT_CONFIG_KNOWN_FLAGS"
proof (cases rule: boot_config_store_cases [of env flags s])
  case (stored cur t n)
  define s' where "s' = snd (boot_config_store env flags s)"
  have t: "cfg_page t" using newest_of_cfg_page stored(1) by (metis snd_conv)
  obtain r where r: "page_record (flash s') (ecc_bad s') t = Some r" "bc_counter r = n"
      "bc_flags r = flags AND BOOT_CONFIG_KNOWN_FLAGS"
    using store_record_OK [OF t] assms stored(2) by (metis s'_def)
  note eq = store_to_page [OF stored(1) s'_def [unfolded stored(2)] r(1) [symmetric]]
  have "fst (newest_of (page_record (flash s') (ecc_bad s') OTA_CONFIG_REC0)
      (page_record (flash s') (ecc_bad s') OTA_CONFIG_REC1)) = Some r"
    unfolding eq by (rule newest_of_new [OF stored(1)]) (simp add: stored(3) r(2))
  then show ?thesis by (simp add: boot_value_def s'_def [symmetric] r(3))
qed (use assms in simp_all)

section \<open>Frame\<close>

lemma fmc_keep_eccdet [simp]:
  "fmc_keep s (t\<lparr>eccdet := b\<rparr>) = fmc_keep s t" "fmc_keep (s\<lparr>eccdet := b\<rparr>) t = fmc_keep s t"
  by (simp_all add: fmc_keep_def)

lemma store_record_keep:
  assumes "cfg_page t"
  shows "fmc_keep s (snd (store_record env t n fl s))"
proof -
  note cf = cfg_page_facts [OF assms]
  have e: "fmc_keep s (snd (ota_fmc_erase_range env t OTA_PAGE_SIZE s))"
    using erase_range_frame [of t OTA_PAGE_SIZE env s] cf(1) by simp
  have p: "fmc_keep u (snd (ota_fmc_program env t (bytes32 x @ bytes32 y) u))"
    "fmc_keep u (snd (ota_fmc_program env (t + 8) (bytes32 x @ bytes32 y) u))" for x y u
    using program_frame [of t "bytes32 x @ bytes32 y" env u] cf(3,6)
      program_frame [of "t + 8" "bytes32 x @ bytes32 y" env u] by simp_all
  obtain r1 s1 where s1: "ota_fmc_erase_range env t OTA_PAGE_SIZE s = (r1, s1)" by fastforce
  obtain r2 s2 where s2: "ota_fmc_program env t (bytes32 n @ bytes32 fl) s1 = (r2, s2)" by fastforce
  obtain r3 s3 where s3: "ota_fmc_program env (t + 8)
      (bytes32 (record_crc n fl) @ bytes32 BOOT_CONFIG_MAGIC) s2 = (r3, s3)" by fastforce
  have k: "fmc_keep s s1" "fmc_keep s1 s2" "fmc_keep s2 s3"
    using e p(1) [of s1 n fl] p(2) [of s2 "record_crc n fl" BOOT_CONFIG_MAGIC] s1 s2 s3 by simp_all
  then have "fmc_keep s s2" "fmc_keep s s3" using fmc_keep_trans by blast+
  then show ?thesis
    using k s1 s2 s3 by (simp add: store_record_def read_page_eq [OF cf(4,5)] Let_def)
qed

lemma boot_config_store_frame:
  "fmc_keep s (snd (boot_config_store env flags s)) \<and>
   same_outside (in_range OTA_CONFIG_REC0 4096) s (snd (boot_config_store env flags s))"
proof (cases rule: boot_config_store_cases [of env flags s])
  case (stored cur t n)
  have t: "cfg_page t" using newest_of_cfg_page stored(1) by (metis snd_conv)
  have "\<not> in_range t 2048 a" if "\<not> in_range OTA_CONFIG_REC0 4096 a" for a
    using that t by (auto simp: in_range_def cfg_page_def)
  then show ?thesis
    using store_record_frame [OF t] store_record_keep [OF t, of "s\<lparr>eccdet := False\<rparr>"] stored(2)
    by (simp add: same_outside_def)
qed (simp_all add: same_outside_def)

lemma boot_config_tick_frame:
  "case boot_config_tick env ea c s of (c', s') \<Rightarrow>
     fmc_keep s s' \<and> same_outside (in_range OTA_CONFIG_REC0 4096) s s'"
  using boot_config_store_frame [of s env "s_pending_flags c"]
  by (auto simp: boot_config_tick_def Let_def split: prod.splits)

section \<open>Success on healthy hardware\<close>

lemma cfg_allowed:
  assumes "cfg_page t"
  shows "\<not> ota_fmc_range_forbidden b t OTA_PAGE_SIZE" "\<not> ota_fmc_range_forbidden b t 8"
    "\<not> ota_fmc_range_forbidden b (t + 8) 8"
  using assms by (cases b; auto simp: cfg_page_def ota_fmc_range_forbidden_def)+

lemma store_record_clean:
  assumes "cfg_page t" "hw_clean env" "hw_honest env" "\<not> s_fmc_owned s" "n \<noteq> 0"
    and "n < BOOT_CONFIG_COUNTER_LIMIT"
  shows "fst (store_record env t n fl s) = OTA_FMC_RESULT_OK"
proof -
  note cf = cfg_page_facts [OF assms(1)] and al = cfg_allowed [OF assms(1)]
  let ?pay = "bytes32 n @ bytes32 fl" and ?com = "bytes32 (record_crc n fl) @ bytes32 BOOT_CONFIG_MAGIC"
  obtain r1 s1 where e: "ota_fmc_erase_range env t OTA_PAGE_SIZE s = (r1, s1)" by fastforce
  obtain r2 s2 where p: "ota_fmc_program env t ?pay s1 = (r2, s2)" by fastforce
  obtain r3 s3 where c: "ota_fmc_program env (t + 8) ?com s2 = (r3, s3)" by fastforce
  have d: "2048 dvd unat t" using assms(1) by (auto simp: cfg_page_def)
  have k1: "fmc_keep s s1" using erase_range_frame [of t OTA_PAGE_SIZE env s] cf(1) e by simp
  have k2: "fmc_keep s1 s2" using program_frame [of t ?pay env s1] cf(6) p by simp
  have r1: "r1 = OTA_FMC_RESULT_OK"
    using erase_range_clean [of env s t OTA_PAGE_SIZE] assms d al e by simp
  have r2: "r2 = OTA_FMC_RESULT_OK"
    using program_clean [of env s1 t ?pay] assms k1 al p cf(2) by (simp add: fmc_keep_def)
  have "8 dvd unat (t + 8)" using cf(2,3) by simp
  then have r3: "r3 = OTA_FMC_RESULT_OK"
    using program_clean [of env s2 "t + 8" ?com] assms k1 k2 al c by (simp add: fmc_keep_def)
  have pay: "flash s2 (t + of_nat i) = ?pay ! i \<and> \<not> ecc_bad s2 (t + of_nat i)" if "i < 8" for i
    using fmc.prog_ok [of env t ?pay s1 i] p r2 cf(6) assms(3) that by simp
  have com: "flash s3 (t + 8 + of_nat i) = ?com ! i \<and> \<not> ecc_bad s3 (t + 8 + of_nat i)" if "i < 8" for i
    using fmc.prog_ok [of env "t + 8" ?com s2 i] c r3 cf(3,6) assms(3) that by simp
  have keep: "flash s3 (t + of_nat i) = flash s2 (t + of_nat i) \<and>
      ecc_bad s3 (t + of_nat i) = ecc_bad s2 (t + of_nat i)" if "i < 8" for i
    using fmc.prog_frame [of "t + 8" ?com env "t + of_nat i" s2] c cf(3,6) cf(7) [of i] that
    by (simp add: in_range_def)
  have "fbytes (flash s3) t 8 = ?pay" "fbytes (flash s3) (t + 8) 8 = ?com"
    by (rule fbytes_8_eqI; use pay keep com in simp)+
  then have "page_record (flash s3) (ecc_bad s3) t = Some (stored_record n fl)"
    using pay keep com assms(5,6)
    by (simp add: page_record_def Let_def le32_at_bytes32 stored_record_def)
  then show ?thesis
    using e p c r1 r2 r3 by (simp add: store_record_def read_page_eq [OF cf(4,5)] stored_record_def Let_def)
qed

lemma boot_config_store_persists_clean:
  assumes "hw_clean env" "hw_honest env" "\<not> s_fmc_owned s"
    and "boot_counter s + 1 < BOOT_CONFIG_COUNTER_LIMIT"
  shows "fst (boot_config_store env flags s) = OTA_FMC_RESULT_OK"
proof (cases rule: boot_config_store_cases [of env flags s])
  case (stored cur t n)
  have "cfg_page t" using newest_of_cfg_page stored(1) by (metis snd_conv)
  then show ?thesis using store_record_clean assms stored by simp
qed (use assms in simp_all)

section \<open>Properties\<close>

text \<open>
  C10: power-loss safety of a boot-configuration store.  On every honest part whose interrupted
  erases leave doublewords old, blank or uncorrectable, and with the power cut after any number
  of status reads, the flags the next boot finds are the old ones or the new ones, never
  anything else; and the only flash that changes is the two configuration pages.
\<close>

theorem boot_config_store_power_safe:
  assumes "hw_honest env" "hw_tears env"
  shows "let s' = snd (boot_config_store (power_cut n env) flags s)
    in boot_value s' \<in> {boot_value s, flags AND BOOT_CONFIG_KNOWN_FLAGS} \<and>
       s_stored (fst (boot_config_load c s')) = boot_value s' \<and>
       (\<forall>a. \<not> in_range OTA_CONFIG_REC0 4096 a \<longrightarrow> flash s' a = flash s a)"
proof -
  have "s_stored (fst (boot_config_load c u)) = boot_value u" for u
    by (auto simp: boot_config_load_def newest_record_eq boot_value_def Let_def
        split: prod.splits option.splits)
  then show ?thesis
    using boot_config_store_value [OF hw_honest_power_cut [OF assms(1)], of n flags s] assms(2)
      boot_config_store_frame [of s "power_cut n env" flags]
    by (simp add: same_outside_def Let_def)
qed

theorem boot_config_store_power_safe_witness:
  "let s' = snd (boot_config_store (power_cut 3 (good_hw Slot_A_build)) 1 (fmc_reset (\<lambda>_. 0xFF)))
   in boot_value s' \<in> {0, 1}"
proof -
  have "boot_value (fmc_reset (\<lambda>_. 0xFF)) = 0"
    by (simp add: boot_value_def newest_of_def page_record_blank_payload fmc_reset_def)
  then show ?thesis
    using boot_config_store_power_safe [of "good_hw Slot_A_build" 3 1 "fmc_reset (\<lambda>_. 0xFF)" cfg_reset]
    by (simp add: Let_def)
qed

text \<open>
  A store that reports OK has persisted the flags, whatever the hardware did; and on
  healthy hardware with an idle funnel a store succeeds, unless the record counter is about to
  reach its limit.
\<close>

theorem boot_config_store_persists:
  "(fst (boot_config_store env flags s) = OTA_FMC_RESULT_OK \<longrightarrow>
      boot_value (snd (boot_config_store env flags s)) = flags AND BOOT_CONFIG_KNOWN_FLAGS) \<and>
   (hw_clean env \<and> hw_honest env \<and> \<not> s_fmc_owned s \<and>
    boot_counter s + 1 < BOOT_CONFIG_COUNTER_LIMIT \<longrightarrow>
      fst (boot_config_store env flags s) = OTA_FMC_RESULT_OK)"
  using boot_config_store_OK boot_config_store_persists_clean by blast

theorem boot_config_store_persists_witness:
  "boot_value (snd (boot_config_store (good_hw Slot_A_build) 1 (fmc_reset (\<lambda>_. 0xFF)))) = 1"
proof -
  have "boot_counter (fmc_reset (\<lambda>_. 0xFF)) = 0"
    by (simp add: boot_counter_def newest_of_def page_record_blank_payload fmc_reset_def)
  then show ?thesis
    using boot_config_store_persists [of "good_hw Slot_A_build" 1 "fmc_reset (\<lambda>_. 0xFF)"]
    by (simp add: fmc_reset_def)
qed

text \<open>
  The queue.  A tick never touches flash or drops the request while an update erase walk
  is active or the funnel is owned; otherwise it clears the request and, on healthy hardware
  whose counter is not exhausted, both the RAM cache and the flash then hold the queued flags;
  and a request is refused only for a value different from the one already queued.
\<close>

theorem boot_config_tick_commits:
  "(ea \<or> s_fmc_owned s \<longrightarrow> boot_config_tick env ea c s = (c, s)) \<and>
   (s_pending c \<and> s_pending_flags c AND BOOT_CONFIG_KNOWN_FLAGS = s_pending_flags c \<and> \<not> ea \<and>
    hw_clean env \<and> hw_honest env \<and> \<not> s_fmc_owned s \<and> boot_counter s + 1 < BOOT_CONFIG_COUNTER_LIMIT \<longrightarrow>
      (case boot_config_tick env ea c s of (c', s') \<Rightarrow>
         \<not> s_pending c' \<and> s_stored c' = s_pending_flags c \<and> boot_value s' = s_pending_flags c)) \<and>
   (\<not> fst (boot_config_request flags c) \<longleftrightarrow> (\<exists>q. boot_config_pending c = Some q \<and> q \<noteq> flags))"
  using boot_config_store_persists_clean [of env s "s_pending_flags c"]
    boot_config_store_OK [of env "s_pending_flags c" s]
  by (auto simp: boot_config_tick_def ota_fmc_funnel_busy_def boot_config_request_def
      boot_config_pending_def Let_def split: prod.splits)

theorem boot_config_tick_commits_witness:
  "case boot_config_tick (good_hw Slot_A_build) False
     (snd (boot_config_request 1 cfg_reset)) (fmc_reset (\<lambda>_. 0xFF)) of (c', s') \<Rightarrow>
     \<not> s_pending c' \<and> s_stored c' = 1 \<and> boot_value s' = 1"
proof -
  have "boot_counter (fmc_reset (\<lambda>_. 0xFF)) = 0"
    by (simp add: boot_counter_def newest_of_def page_record_blank_payload fmc_reset_def)
  then show ?thesis
    using boot_config_tick_commits [of False "fmc_reset (\<lambda>_. 0xFF)" "good_hw Slot_A_build"
        "snd (boot_config_request 1 cfg_reset)" 0]
    by (auto simp: fmc_reset_def boot_config_request_def cfg_reset_def)
qed

end
