(* ===== verification/Ota_Meta.thy ===== *)
theory Ota_Meta
  imports Boot_Config
begin

unbundle bit_operations_syntax

text \<open>
  The A/B metadata store of \<open>src/ota.c\<close>: reading and ranking the two record pages, the commit
  that rewrites one of them, and the weak flash seam that stands in when no backend is linked.

  \<open>meta_commit\<close> is \<open>None\<close> where the C expression \<open>1u << active_slot\<close> or an index of a per-slot array
  is undefined.
\<close>

section \<open>Weak seam\<close>

definition weak_fmc_supported :: bool where
  "weak_fmc_supported = False"

definition weak_fmc_erase_range :: "u32 \<Rightarrow> u32 \<Rightarrow> fmc_st \<Rightarrow> ota_fmc_result \<times> fmc_st" where
  "weak_fmc_erase_range base len s = (OTA_FMC_RESULT_ERROR, s)"

definition weak_fmc_program :: "u32 \<Rightarrow> bytes \<Rightarrow> fmc_st \<Rightarrow> ota_fmc_result \<times> fmc_st" where
  "weak_fmc_program addr data s = (OTA_FMC_RESULT_ERROR, s)"

definition weak_fmc_funnel_busy :: "fmc_st \<Rightarrow> bool" where
  "weak_fmc_funnel_busy s = False"

definition weak_fmc_config_write_safe :: bool where
  "weak_fmc_config_write_safe = True"

definition weak_fmc_read_safe :: "u32 \<Rightarrow> nat \<Rightarrow> fmc_st \<Rightarrow> bytes option \<times> fmc_st" where
  "weak_fmc_read_safe addr len s = (Some (fbytes (flash s) addr len), s)"

text \<open>The weak seam meets the same contract: it changes nothing and never reports success.\<close>

interpretation weak: flash_seam flash ecc_bad weak_fmc_erase_range weak_fmc_program "\<lambda>_. True" True
  by unfold_locales (simp_all add: weak_fmc_erase_range_def weak_fmc_program_def)

section \<open>Reading\<close>

definition meta_read :: "flash \<Rightarrow> u32 \<Rightarrow> ota_meta_record option" where
  "meta_read f addr =
     (let p = meta_of_bytes (fbytes f addr 44)
      in if m_magic p \<noteq> OTA_META_MAGIC \<or> m_struct_version p \<noteq> OTA_META_STRUCT_VER then None
         else if ota_crc32 0 (fbytes f addr 40) \<noteq> m_rec_crc32 p then None
         else Some p)"

definition meta_pick_newest ::
  "ota_meta_record option \<Rightarrow> ota_meta_record option \<Rightarrow> (ota_meta_record \<times> u32) option" where
  "meta_pick_newest va vb =
     (case (va, vb) of
        (Some a, Some b) \<Rightarrow> if m_counter a \<ge> m_counter b then Some (a, OTA_META_REC0)
                            else Some (b, OTA_META_REC1)
      | (Some a, None) \<Rightarrow> Some (a, OTA_META_REC0)
      | (None, Some b) \<Rightarrow> Some (b, OTA_META_REC1)
      | (None, None) \<Rightarrow> None)"

definition meta_current :: "flash \<Rightarrow> (ota_meta_record \<times> u32) option" where
  "meta_current f = meta_pick_newest (meta_read f OTA_META_REC0) (meta_read f OTA_META_REC1)"

fun OTA_RUNNING_SLOT :: "build \<Rightarrow> u8" where
  "OTA_RUNNING_SLOT Slot_B_build = OTA_SLOT_B"
| "OTA_RUNNING_SLOT _ = OTA_SLOT_A"

definition meta_page_rank :: "build \<Rightarrow> ota_meta_record option \<Rightarrow> nat" where
  "meta_page_rank b v =
     (case v of
        None \<Rightarrow> 0
      | Some r \<Rightarrow> if m_active_slot r = OTA_RUNNING_SLOT b then 2 else 1)"

text \<open>The page that a commit erases and rewrites.\<close>

definition meta_target ::
  "build \<Rightarrow> ota_meta_record option \<Rightarrow> ota_meta_record option \<Rightarrow> u32 \<Rightarrow> u32" where
  "meta_target b va vb target_override =
     (if target_override \<noteq> 0 then target_override
      else let rank_a = meta_page_rank b va; rank_b = meta_page_rank b vb
           in if rank_a \<noteq> rank_b then (if rank_a < rank_b then OTA_META_REC0 else OTA_META_REC1)
              else (case (va, vb) of
                      (Some a, Some b) \<Rightarrow>
                        if m_counter a \<ge> m_counter b then OTA_META_REC1 else OTA_META_REC0
                    | _ \<Rightarrow> OTA_META_REC0))"

section \<open>Commit\<close>

text \<open>The two optional edits of a commit: demoting a slot and rewriting a slot's descriptors.\<close>

definition meta_invalidate :: "u8 \<Rightarrow> ota_meta_record \<Rightarrow> ota_meta_record option" where
  "meta_invalidate slot r =
     (if slot = OTA_SLOT_A \<or> slot = OTA_SLOT_B
      then do {
        bit \<leftarrow> shl1 slot;
        lens \<leftarrow> arr_set (m_img_len r) slot 0;
        crcs \<leftarrow> arr_set (m_img_crc32 r) slot 0;
        Some (r\<lparr>m_slot_valid := m_slot_valid r AND ucast (NOT bit), m_img_len := lens,
                m_img_crc32 := crcs\<rparr>) }
      else Some r)"

definition meta_set_entry ::
  "bool \<Rightarrow> u8 \<Rightarrow> u32 \<Rightarrow> u32 \<Rightarrow> u32 \<Rightarrow> ota_meta_record \<Rightarrow> ota_meta_record option" where
  "meta_set_entry update_entry slot fw_ver img_len img_crc r =
     (if update_entry
      then do {
        fws \<leftarrow> arr_set (m_fw_version r) slot fw_ver;
        lens \<leftarrow> arr_set (m_img_len r) slot img_len;
        crcs \<leftarrow> arr_set (m_img_crc32 r) slot img_crc;
        Some (r\<lparr>m_fw_version := fws, m_img_len := lens, m_img_crc32 := crcs\<rparr>) }
      else Some r)"

text \<open>The record a commit writes, from the newest record (or the zeroed one).\<close>

definition meta_build ::
  "ota_meta_record \<Rightarrow> u8 \<Rightarrow> bool \<Rightarrow> u32 \<Rightarrow> u32 \<Rightarrow> u32 \<Rightarrow> u8 \<Rightarrow> u8 \<Rightarrow> ota_meta_record option" where
  "meta_build rec active_slot update_entry fw_ver img_len img_crc flags invalidate_slot = do {
     bit \<leftarrow> shl1 active_slot;
     r \<leftarrow> meta_invalidate invalidate_slot
            (rec\<lparr>m_magic := OTA_META_MAGIC, m_struct_version := OTA_META_STRUCT_VER,
                 m_counter := m_counter rec + 1, m_active_slot := active_slot,
                 m_slot_valid := m_slot_valid rec OR ucast bit\<rparr>);
     r \<leftarrow> meta_set_entry update_entry active_slot fw_ver img_len img_crc (r\<lparr>m_flags := flags\<rparr>);
     Some (r\<lparr>m_rec_crc32 := ota_crc32 0 (meta_body r)\<rparr>) }"

definition meta_commit ::
  "hw_env \<Rightarrow> u8 \<Rightarrow> bool \<Rightarrow> u32 \<Rightarrow> u32 \<Rightarrow> u32 \<Rightarrow> u8 \<Rightarrow> u32 \<Rightarrow> u8 \<Rightarrow> fmc_st \<Rightarrow> (bool \<times> fmc_st) option" where
  "meta_commit env active_slot update_entry fw_ver img_len img_crc flags target_override
     invalidate_slot s =
     (let va = meta_read (flash s) OTA_META_REC0;
          vb = meta_read (flash s) OTA_META_REC1;
          rec = (case meta_pick_newest va vb of Some (r, _) \<Rightarrow> r | None \<Rightarrow> zero_record);
          target = meta_target (env_build env) va vb target_override
      in if m_counter rec \<ge> (if flags \<noteq> 0 then OTA_META_COUNTER_LIMIT - 1 else OTA_META_COUNTER_LIMIT)
         then Some (False, s)
         else let (r, s) = ota_fmc_erase_range env target OTA_PAGE_SIZE s
              in if r \<noteq> OTA_FMC_RESULT_OK then Some (False, s)
                 else do {
                   new \<leftarrow> meta_build rec active_slot update_entry fw_ver img_len img_crc flags invalidate_slot;
                   let (r, s) = ota_fmc_program env target (meta_bytes new) s;
                   Some (r = OTA_FMC_RESULT_OK, s) })"

text \<open>The valid record that names the slot this build runs from.\<close>

definition find_running_slot_record :: "build \<Rightarrow> flash \<Rightarrow> (ota_meta_record \<times> u32) option" where
  "find_running_slot_record b f =
     (let va = meta_read f OTA_META_REC0;
          vb = meta_read f OTA_META_REC1;
          best = (case va of
                    Some a \<Rightarrow> if m_active_slot a = OTA_RUNNING_SLOT b then Some (a, OTA_META_REC0) else None
                  | None \<Rightarrow> None)
      in case vb of
           Some r \<Rightarrow>
             if m_active_slot r = OTA_RUNNING_SLOT b \<and>
                (case best of None \<Rightarrow> True | Some (a, _) \<Rightarrow> m_counter r > m_counter a)
             then Some (r, OTA_META_REC1) else best
         | None \<Rightarrow> best)"

section \<open>Lemmas on reading\<close>

lemma meta_read_cong:
  assumes "\<And>i. i < 44 \<Longrightarrow> f (a + of_nat i) = g (a + of_nat i)"
  shows "meta_read f a = meta_read g a"
proof -
  have "fbytes f a 44 = fbytes g a 44" "fbytes f a 40 = fbytes g a 40"
    using assms by (auto intro!: fbytes_cong)
  then show ?thesis by (simp add: meta_read_def Let_def)
qed

lemma take_fbytes: "m \<le> n \<Longrightarrow> take m (fbytes f a n) = fbytes f a m"
  by (auto simp: fbytes_def take_map)

lemma meta_read_bytes:
  assumes "fbytes f a 44 = meta_bytes r" "m_magic r = OTA_META_MAGIC"
    and "m_struct_version r = OTA_META_STRUCT_VER" "m_rec_crc32 r = ota_crc32 0 (meta_body r)"
  shows "meta_read f a = Some r"
proof -
  have "fbytes f a 40 = meta_body r" using take_fbytes [of 40 44 f a] assms(1) by simp
  then show ?thesis using assms by (simp add: meta_read_def Let_def)
qed

definition meta_page :: "u32 \<Rightarrow> bool" where
  "meta_page t \<longleftrightarrow> t = OTA_META_REC0 \<or> t = OTA_META_REC1"

lemma meta_page_facts:
  assumes "meta_page t"
  shows "in_flash t 2048" "2048 dvd unat t" "8 dvd unat t" "unat t \<le> 0x08008800"
    "\<not> ota_fmc_range_forbidden b t OTA_PAGE_SIZE" "\<not> ota_fmc_range_forbidden b t 44"
    "i < 2048 \<Longrightarrow> unat (t + of_nat i) = unat t + i"
proof -
  show u: "unat t \<le> 0x08008800" using assms by (auto simp: meta_page_def)
  show "in_flash t 2048" "2048 dvd unat t" "8 dvd unat t"
    using assms by (auto simp: meta_page_def in_flash_def dvd_def)
  show "\<not> ota_fmc_range_forbidden b t OTA_PAGE_SIZE" "\<not> ota_fmc_range_forbidden b t 44"
    using assms by (cases b; auto simp: meta_page_def ota_fmc_range_forbidden_def)+
  show "i < 2048 \<Longrightarrow> unat (t + of_nat i) = unat t + i"
    using u by (simp add: unat_word_ariths(1) unat_of_nat)
qed

lemma meta_read_same:
  assumes "meta_page t" "\<And>x. in_range t 2048 x \<Longrightarrow> f x = g x"
  shows "meta_read f t = meta_read g t"
  by (rule meta_read_cong) (rule assms(2), use meta_page_facts(7) [OF assms(1)] in \<open>auto simp: in_range_def\<close>)

lemma meta_target_page:
  "target_override = 0 \<or> meta_page target_override \<Longrightarrow> meta_page (meta_target b va vb target_override)"
  by (auto simp: meta_target_def meta_page_def Let_def split: option.splits)

section \<open>Lemmas on the commit\<close>

lemma pad8_44 [simp]: "pad8 44 = 48"
  by (simp add: pad8_def)

lemma meta_invalidate_keeps:
  assumes "meta_invalidate slot r = Some r'"
  shows "m_magic r' = m_magic r" "m_struct_version r' = m_struct_version r" "m_counter r' = m_counter r"
    "m_active_slot r' = m_active_slot r" "m_fw_version r' = m_fw_version r"
  using assms by (auto simp: meta_invalidate_def bind_eq_Some_conv split: if_splits)

lemma meta_set_entry_keeps:
  assumes "meta_set_entry upd slot fw len crc r = Some r'"
  shows "m_magic r' = m_magic r" "m_struct_version r' = m_struct_version r" "m_counter r' = m_counter r"
    "m_active_slot r' = m_active_slot r" "m_flags r' = m_flags r" "m_slot_valid r' = m_slot_valid r"
  using assms by (auto simp: meta_set_entry_def bind_eq_Some_conv split: if_splits)

lemma meta_build_defined:
  assumes "active_slot = OTA_SLOT_A \<or> active_slot = OTA_SLOT_B"
  shows "\<exists>new. meta_build rec active_slot upd fw len crc flags ivs = Some new"
  using assms by (auto simp: meta_build_def meta_invalidate_def meta_set_entry_def)

lemma meta_build_cases:
  assumes "meta_build rec active_slot upd fw len crc flags ivs = Some new"
  obtains bit r1 r2 where "shl1 active_slot = Some bit"
    "meta_invalidate ivs (rec\<lparr>m_magic := OTA_META_MAGIC, m_struct_version := OTA_META_STRUCT_VER,
                 m_counter := m_counter rec + 1, m_active_slot := active_slot,
                 m_slot_valid := m_slot_valid rec OR ucast bit\<rparr>) = Some r1"
    "meta_set_entry upd active_slot fw len crc (r1\<lparr>m_flags := flags\<rparr>) = Some r2"
    "new = r2\<lparr>m_rec_crc32 := ota_crc32 0 (meta_body r2)\<rparr>"
  using assms unfolding meta_build_def by (auto simp: bind_eq_Some_conv)

lemma meta_build_wf:
  assumes "meta_build rec active_slot upd fw len crc flags ivs = Some new"
  shows "m_magic new = OTA_META_MAGIC \<and> m_struct_version new = OTA_META_STRUCT_VER \<and>
    m_counter new = m_counter rec + 1 \<and> m_active_slot new = active_slot \<and> m_flags new = flags \<and>
    m_rec_crc32 new = ota_crc32 0 (meta_body new)"
  using assms
proof (rule meta_build_cases)
  fix bit r1 r2
  assume i: "meta_invalidate ivs (rec\<lparr>m_magic := OTA_META_MAGIC, m_struct_version := OTA_META_STRUCT_VER,
                 m_counter := m_counter rec + 1, m_active_slot := active_slot,
                 m_slot_valid := m_slot_valid rec OR ucast bit\<rparr>) = Some r1"
    and e: "meta_set_entry upd active_slot fw len crc (r1\<lparr>m_flags := flags\<rparr>) = Some r2"
    and n: "new = r2\<lparr>m_rec_crc32 := ota_crc32 0 (meta_body r2)\<rparr>"
  show ?thesis
    using meta_invalidate_keeps [OF i] meta_set_entry_keeps [OF e] by (simp add: n)
qed

lemma erase_meta_page:
  assumes "meta_page t"
  shows "same_outside (in_range t 2048) s (snd (ota_fmc_erase_range env t OTA_PAGE_SIZE s)) \<and>
    fmc_keep s (snd (ota_fmc_erase_range env t OTA_PAGE_SIZE s))"
  using erase_range_frame [of t OTA_PAGE_SIZE env s] meta_page_facts(1) [OF assms]
  by (auto intro: same_outside_mono)

lemma program_meta_page:
  assumes "meta_page t"
  shows "same_outside (in_range t 2048) s (snd (ota_fmc_program env t (meta_bytes r) s)) \<and>
    fmc_keep s (snd (ota_fmc_program env t (meta_bytes r) s))"
  using program_frame [of t "meta_bytes r" env s] meta_page_facts(4) [OF assms]
  by (auto simp: in_range_def intro: same_outside_mono)

definition newest_or_zero :: "fmc_st \<Rightarrow> ota_meta_record" where
  "newest_or_zero s = (case meta_current (flash s) of Some (r, _) \<Rightarrow> r | None \<Rightarrow> zero_record)"

definition commit_target :: "hw_env \<Rightarrow> fmc_st \<Rightarrow> u32 \<Rightarrow> u32" where
  "commit_target env s ov = meta_target (env_build env) (meta_read (flash s) OTA_META_REC0)
     (meta_read (flash s) OTA_META_REC1) ov"

definition counter_cap :: "u8 \<Rightarrow> u32" where
  "counter_cap flags = (if flags \<noteq> 0 then OTA_META_COUNTER_LIMIT - 1 else OTA_META_COUNTER_LIMIT)"

lemma commit_target_page: "ov = 0 \<or> meta_page ov \<Longrightarrow> meta_page (commit_target env s ov)"
  using meta_target_page by (simp add: commit_target_def)

lemma meta_commit_unfold:
  "meta_commit env sl upd fw len crc flags ov ivs s =
     (let er = ota_fmc_erase_range env (commit_target env s ov) OTA_PAGE_SIZE s
      in if counter_cap flags \<le> m_counter (newest_or_zero s) then Some (False, s)
         else if fst er \<noteq> OTA_FMC_RESULT_OK then Some (False, snd er)
         else (case meta_build (newest_or_zero s) sl upd fw len crc flags ivs of
                 None \<Rightarrow> None
               | Some new \<Rightarrow>
                   let pr = ota_fmc_program env (commit_target env s ov) (meta_bytes new) (snd er)
                   in Some (fst pr = OTA_FMC_RESULT_OK, snd pr)))"
  unfolding meta_commit_def commit_target_def newest_or_zero_def counter_cap_def meta_current_def Let_def
  by (auto simp: case_prod_beta split: option.split Option.bind_split)

text \<open>Whatever happens during a commit, only the target page changes.\<close>

lemma meta_commit_frame:
  assumes "meta_commit env sl upd fw len crc flags ov ivs s = Some (ok, s')" "ov = 0 \<or> meta_page ov"
  shows "same_outside (in_range (commit_target env s ov) 2048) s s' \<and> fmc_keep s s'"
proof -
  let ?t = "commit_target env s ov"
  let ?s1 = "snd (ota_fmc_erase_range env ?t OTA_PAGE_SIZE s)"
  have t: "meta_page ?t" using commit_target_page [OF assms(2)] .
  note f1 = erase_meta_page [OF t, of s env]
  consider "s' = s" | "s' = ?s1" | new where "s' = snd (ota_fmc_program env ?t (meta_bytes new) ?s1)"
    using assms(1) unfolding meta_commit_unfold Let_def by (auto split: if_splits option.splits)
  then show ?thesis
  proof cases
    case (3 new)
    then show ?thesis
      using program_meta_page [OF t, of ?s1 env new] f1
      by (blast intro: same_outside_trans fmc_keep_trans)
  qed (use f1 in auto)
qed

lemma meta_commit_defined:
  assumes "sl = OTA_SLOT_A \<or> sl = OTA_SLOT_B"
  shows "\<exists>ok s'. meta_commit env sl upd fw len crc flags ov ivs s = Some (ok, s')"
proof -
  obtain new where "meta_build (newest_or_zero s) sl upd fw len crc flags ivs = Some new"
    using meta_build_defined [OF assms] by blast
  then show ?thesis by (auto simp: meta_commit_unfold Let_def)
qed

lemma meta_commit_success:
  assumes "meta_commit env sl upd fw len crc flags ov ivs s = Some (True, s')" "hw_honest env"
    and "ov = 0 \<or> meta_page ov"
  shows "\<exists>new. meta_build (newest_or_zero s) sl upd fw len crc flags ivs = Some new \<and>
    meta_read (flash s') (commit_target env s ov) = Some new \<and>
    m_counter (newest_or_zero s) < counter_cap flags"
proof -
  let ?t = "commit_target env s ov"
  let ?s1 = "snd (ota_fmc_erase_range env ?t OTA_PAGE_SIZE s)"
  have t: "meta_page ?t" using commit_target_page [OF assms(3)] .
  obtain new where new: "meta_build (newest_or_zero s) sl upd fw len crc flags ivs = Some new"
    and p: "fst (ota_fmc_program env ?t (meta_bytes new) ?s1) = OTA_FMC_RESULT_OK"
    and s': "s' = snd (ota_fmc_program env ?t (meta_bytes new) ?s1)"
    and lt: "m_counter (newest_or_zero s) < counter_cap flags"
    using assms(1) unfolding meta_commit_unfold Let_def by (auto split: if_splits option.splits)
  have le: "unat ?t + pad8 (length (meta_bytes new)) \<le> 0x08080000" using meta_page_facts(4) [OF t] by simp
  have "fbytes (flash s') ?t 44 = meta_bytes new"
    by (rule fbytes_8_eqI) (use fmc.prog_ok [OF assms(2) le p] s' in simp_all)
  then show ?thesis using new lt meta_build_wf [OF new] meta_read_bytes by blast
qed

lemma meta_commit_clean:
  assumes "hw_clean env" "\<not> s_fmc_owned s" "sl = OTA_SLOT_A \<or> sl = OTA_SLOT_B"
    and "ov = 0 \<or> meta_page ov" "m_counter (newest_or_zero s) < counter_cap flags"
  shows "\<exists>s'. meta_commit env sl upd fw len crc flags ov ivs s = Some (True, s')"
proof -
  let ?t = "commit_target env s ov"
  let ?s1 = "snd (ota_fmc_erase_range env ?t OTA_PAGE_SIZE s)"
  have t: "meta_page ?t" using commit_target_page [OF assms(4)] .
  note mf = meta_page_facts [OF t]
  have r1: "fst (ota_fmc_erase_range env ?t OTA_PAGE_SIZE s) = OTA_FMC_RESULT_OK"
    by (rule erase_range_clean [OF assms(1,2) mf(2) _ mf(5)]) simp
  have "fmc_keep s ?s1" using erase_meta_page [OF t, of s env] by simp
  then have "fst (ota_fmc_program env ?t (meta_bytes new) ?s1) = OTA_FMC_RESULT_OK" for new
    by (intro program_clean [OF assms(1) _ mf(3)])
       (use mf(6) [of "env_build env"] assms(2) in \<open>simp_all add: fmc_keep_def\<close>)
  moreover obtain new where "meta_build (newest_or_zero s) sl upd fw len crc flags ivs = Some new"
    using meta_build_defined [OF assms(3)] by blast
  ultimately show ?thesis using r1 assms(5) by (simp add: meta_commit_unfold Let_def not_le)
qed

end
