(* ===== verification/Boot_Decide.thy ===== *)
theory Boot_Decide
  imports Ota_Meta
begin

unbundle bit_operations_syntax

text \<open>
  The bootloader: the slot decision of \<open>src/boot/boot_decide.c\<close> over an arbitrary flash mapper,
  and the decision part of \<open>main\<close> in \<open>src/boot/boot_main.c\<close>.  A mapper returns the bytes behind an
  address or \<open>None\<close> for the null pointer; reading past what it returned is undefined.
\<close>

section \<open>Decision\<close>

type_synonym boot_map = "u32 \<Rightarrow> nat \<Rightarrow> bytes option"

record boot_decision =
  slot_base :: u32
  trial :: bool
  last_resort :: bool

definition boot_meta_read :: "boot_map \<Rightarrow> u32 \<Rightarrow> ota_meta_record option option" where
  "boot_meta_read bmap address =
     (case bmap address 8 of
        None \<Rightarrow> Some None
      | Some bytes \<Rightarrow> do {
          magic \<leftarrow> rd_le32 bytes 0;
          ver \<leftarrow> rd_le32 bytes 4;
          if magic \<noteq> OTA_META_MAGIC \<or> ver \<noteq> OTA_META_STRUCT_VER then Some None
          else (case bmap address 44 of
                  None \<Rightarrow> Some None
                | Some bytes \<Rightarrow>
                    if length bytes < 44 then None
                    else let record' = meta_of_bytes (take 44 bytes)
                         in Some (if ota_crc32 0 (meta_body record') = m_rec_crc32 record'
                                  then Some record' else None)) })"

definition meta_candidates :: "boot_map \<Rightarrow> ota_meta_record list option" where
  "meta_candidates bmap = do {
     va \<leftarrow> boot_meta_read bmap OTA_META_REC0;
     vb \<leftarrow> boot_meta_read bmap OTA_META_REC1;
     Some (case (va, vb) of
             (Some a, Some b) \<Rightarrow> if m_counter a \<ge> m_counter b then [a, b] else [b, a]
           | (Some a, None) \<Rightarrow> [a]
           | (None, Some b) \<Rightarrow> [b]
           | (None, None) \<Rightarrow> []) }"

definition active_slot_valid :: "boot_map \<Rightarrow> ota_meta_record \<Rightarrow> bool option" where
  "active_slot_valid bmap metadata =
     (let slot = m_active_slot metadata
      in case ota_slot_base_checked slot of
           None \<Rightarrow> Some False
         | Some base \<Rightarrow> do {
             len \<leftarrow> arr_get (m_img_len metadata) slot;
             bit \<leftarrow> shl1 slot;
             if m_slot_valid metadata AND ucast bit = 0 then Some False
             else if len = 0 \<or> len > OTA_SLOT_SIZE then Some False
             else (case bmap base (unat len) of
                     None \<Rightarrow> Some False
                   | Some img \<Rightarrow>
                       if length img < unat len then None
                       else do {
                         crc \<leftarrow> arr_get (m_img_crc32 metadata) slot;
                         if ota_crc32 0 (take (unat len) img) \<noteq> crc then Some False
                         else ota_image_bootable base (Some img) len }) })"

fun valid_flags :: "boot_map \<Rightarrow> ota_meta_record list \<Rightarrow> (ota_meta_record \<times> bool) list option" where
  "valid_flags bmap [] = Some []"
| "valid_flags bmap (r # rs) = do {
     v \<leftarrow> active_slot_valid bmap r;
     vs \<leftarrow> valid_flags bmap rs;
     Some ((r, v) # vs) }"

text \<open>
  The decision with the number of watchdog feeds it makes, one before each candidate's CRC.
  The inner \<open>None\<close> is the \<open>false\<close> return.
\<close>

definition boot_decide_slot :: "boot_map \<Rightarrow> bool \<Rightarrow> (boot_decision option \<times> nat) option" where
  "boot_decide_slot bmap wdt_fired = do {
     cands \<leftarrow> meta_candidates bmap;
     vs \<leftarrow> valid_flags bmap cands;
     let (sel, lr) = ota_boot_select vs wdt_fired;
     Some (case sel of
             None \<Rightarrow> None
           | Some i \<Rightarrow>
               (case ota_slot_base_checked (m_active_slot (cands ! i)) of
                  None \<Rightarrow> None
                | Some base \<Rightarrow>
                    Some \<lparr>slot_base = base, trial = is_trial (cands ! i), last_resort = lr\<rparr>),
           length cands) }"

section \<open>The bootloader's main\<close>

text \<open>The production mapper: flash is memory-mapped.\<close>

definition map_flash :: "flash \<Rightarrow> boot_map" where
  "map_flash f address len = Some (fbytes f address len)"

text \<open>
  What a boot ends in: a jump with the stack pointer and reset vector taken from the slot, the
  watchdog having been configured or not, or the recovery loop.
\<close>

datatype boot_outcome = Boot_jump (jump_base: u32) (jump_msp: u32) (jump_reset: u32) (fwdgt_tries: nat)
  | Boot_recovery

text \<open>\<open>fwdgt_ok\<close> is the result of the first watchdog configuration; a failure is retried once.\<close>

definition boot_main :: "flash \<Rightarrow> bool \<Rightarrow> bool \<Rightarrow> boot_outcome option" where
  "boot_main f wdt_fired fwdgt_ok = do {
     (d, feeds) \<leftarrow> boot_decide_slot (map_flash f) wdt_fired;
     Some (case d of
             None \<Rightarrow> Boot_recovery
           | Some decision \<Rightarrow>
               Boot_jump (slot_base decision) (le32_at (fbytes f (slot_base decision) 4) 0)
                 (le32_at (fbytes f (slot_base decision + 4) 4) 0)
                 (if trial decision then (if fwdgt_ok then 1 else 2) else 0)) }"

section \<open>The bootloader and the application agree on records\<close>

lemma le32_at_fbytes_take:
  "k + 4 \<le> n \<Longrightarrow> n \<le> m \<Longrightarrow> le32_at (fbytes f a n) k = le32_at (fbytes f a m) k"
  by (simp add: le32_at_def)

lemma meta_of_bytes_head:
  "m_magic (meta_of_bytes bs) = le32_at bs 0" "m_struct_version (meta_of_bytes bs) = le32_at bs 4"
  by (simp_all add: meta_of_bytes_def)

lemma boot_meta_read_flash: "boot_meta_read (map_flash f) a = Some (meta_read f a)"
proof -
  have "meta_body (meta_of_bytes (fbytes f a 44)) = fbytes f a 40"
    using take_40_meta_bytes [of "meta_of_bytes (fbytes f a 44)"]
    by (simp add: meta_bytes_meta_of_bytes take_fbytes)
  then show ?thesis
    using le32_at_fbytes_take [of 0 8 44 f a] le32_at_fbytes_take [of 4 8 44 f a]
    by (simp add: boot_meta_read_def meta_read_def map_flash_def Let_def meta_of_bytes_head)
qed

definition cand_list ::
  "ota_meta_record option \<Rightarrow> ota_meta_record option \<Rightarrow> ota_meta_record list" where
  "cand_list va vb =
     (case (va, vb) of
        (Some a, Some b) \<Rightarrow> if m_counter a \<ge> m_counter b then [a, b] else [b, a]
      | (Some a, None) \<Rightarrow> [a]
      | (None, Some b) \<Rightarrow> [b]
      | (None, None) \<Rightarrow> [])"

lemma meta_candidates_flash:
  "meta_candidates (map_flash f) = Some (cand_list (meta_read f OTA_META_REC0) (meta_read f OTA_META_REC1))"
  by (simp add: meta_candidates_def boot_meta_read_flash cand_list_def)

text \<open>The validity check, as a total predicate on memory-mapped flash.\<close>

definition slot_ok :: "flash \<Rightarrow> ota_meta_record \<Rightarrow> bool" where
  "slot_ok f r \<longleftrightarrow> active_slot_valid (map_flash f) r = Some True"

lemma active_slot_valid_defined: "\<exists>b. active_slot_valid (map_flash f) r = Some b"
proof (cases "ota_slot_base_checked (m_active_slot r)")
  case None
  then show ?thesis by (auto simp: active_slot_valid_def Let_def)
next
  case (Some base)
  have "\<exists>b. ota_image_bootable base (Some (fbytes f base (unat len))) len = Some b" for len
    by (rule ota_image_bootable_defined) simp
  then show ?thesis
    using ota_slot_base_checked_SomeD [OF Some] by (auto simp: active_slot_valid_def map_flash_def Let_def)
qed

lemma active_slot_valid_eq: "active_slot_valid (map_flash f) r = Some (slot_ok f r)"
  using active_slot_valid_defined [of f r] by (auto simp: slot_ok_def)

lemma valid_flags_flash: "valid_flags (map_flash f) rs = Some (map (\<lambda>r. (r, slot_ok f r)) rs)"
  by (induction rs) (simp_all add: active_slot_valid_eq)

text \<open>Slot-indexed projections, for the two legal slot numbers.\<close>

definition desc :: "u8 \<Rightarrow> arr2 \<Rightarrow> u32" where
  "desc s a = (if s = OTA_SLOT_A then fst a else snd a)"

definition slot_addr :: "u8 \<Rightarrow> u32" where
  "slot_addr s = (if s = OTA_SLOT_A then OTA_SLOT_A_BASE else OTA_SLOT_B_BASE)"

definition slot_bit :: "u8 \<Rightarrow> u8" where
  "slot_bit s = (if s = OTA_SLOT_A then 1 else 2)"

definition is_slot :: "u8 \<Rightarrow> bool" where
  "is_slot s \<longleftrightarrow> s = OTA_SLOT_A \<or> s = OTA_SLOT_B"

lemma slot_ok_iff:
  "slot_ok f r \<longleftrightarrow>
     (let s = m_active_slot r; len = desc s (m_img_len r)
      in is_slot s \<and> m_slot_valid r AND slot_bit s \<noteq> 0 \<and> len \<noteq> 0 \<and> len \<le> OTA_SLOT_SIZE \<and>
         ota_crc32 0 (fbytes f (slot_addr s) (unat len)) = desc s (m_img_crc32 r) \<and>
         ota_image_bootable (slot_addr s) (Some (fbytes f (slot_addr s) (unat len))) len = Some True)"
proof -
  consider "m_active_slot r = OTA_SLOT_A" | "m_active_slot r = OTA_SLOT_B" | "\<not> is_slot (m_active_slot r)"
    by (auto simp: is_slot_def)
  then show ?thesis
    by cases (auto simp: slot_ok_def active_slot_valid_def map_flash_def Let_def not_less
        desc_def slot_addr_def slot_bit_def is_slot_def ota_slot_base_checked_def)
qed

section \<open>The decision on memory-mapped flash\<close>

definition flash_cands :: "flash \<Rightarrow> ota_meta_record list" where
  "flash_cands f = cand_list (meta_read f OTA_META_REC0) (meta_read f OTA_META_REC1)"

lemma boot_decide_slot_flash:
  "boot_decide_slot (map_flash f) w =
     (let (sel, lr) = ota_boot_select (map (\<lambda>r. (r, slot_ok f r)) (flash_cands f)) w
      in Some (case sel of
                 None \<Rightarrow> None
               | Some i \<Rightarrow> map_option (\<lambda>b. \<lparr>slot_base = b, trial = is_trial (flash_cands f ! i), last_resort = lr\<rparr>)
                             (ota_slot_base_checked (m_active_slot (flash_cands f ! i))),
               length (flash_cands f)))"
  by (auto simp: boot_decide_slot_def meta_candidates_flash valid_flags_flash flash_cands_def
      split: option.splits prod.splits)

lemma ota_boot_select_SomeD:
  assumes "ota_boot_select cs w = (Some i, lr)"
  shows "i < length cs \<and> snd (cs ! i) \<and> (lr \<longrightarrow> is_trial (fst (cs ! i)) \<and> w) \<and>
    (\<not> lr \<longrightarrow> ota_boot_candidate_ok (fst (cs ! i)) w \<and>
      (\<forall>j < i. \<not> (snd (cs ! j) \<and> ota_boot_candidate_ok (fst (cs ! j)) w)))"
proof (cases "boot_scan (\<lambda>r. ota_boot_candidate_ok r w) cs 0")
  case (Some k)
  then have "i = k" "\<not> lr" using assms by (auto simp: ota_boot_select_def)
  then show ?thesis using Some by (auto simp: boot_scan_Some_iff)
next
  case None
  then obtain k where "boot_scan (\<lambda>r. \<not> ota_boot_candidate_ok r w) cs 0 = Some k" "k = i" "lr"
    using assms by (auto simp: ota_boot_select_def split: option.splits)
  then show ?thesis by (auto simp: boot_scan_Some_iff ota_boot_candidate_ok_def)
qed

lemma slot_ok_is_slot: "slot_ok f r \<Longrightarrow> is_slot (m_active_slot r)"
  by (simp add: slot_ok_iff Let_def)

lemma is_slot_base: "is_slot s \<Longrightarrow> ota_slot_base_checked s = Some (slot_addr s)"
  by (auto simp: is_slot_def slot_addr_def)

lemma boot_decide_cases:
  obtains (none) "boot_decide_slot (map_flash f) w = Some (None, length (flash_cands f))"
      "\<forall>r \<in> set (flash_cands f). \<not> slot_ok f r"
  | (boot) i r lr where
      "boot_decide_slot (map_flash f) w =
         Some (Some \<lparr>slot_base = slot_addr (m_active_slot r), trial = is_trial r, last_resort = lr\<rparr>,
               length (flash_cands f))"
      "i < length (flash_cands f)" "r = flash_cands f ! i" "slot_ok f r"
      "lr \<Longrightarrow> is_trial r \<and> w" "\<not> lr \<Longrightarrow> ota_boot_candidate_ok r w"
      "\<And>j. \<not> lr \<Longrightarrow> j < i \<Longrightarrow>
         \<not> (slot_ok f (flash_cands f ! j) \<and> ota_boot_candidate_ok (flash_cands f ! j) w)"
proof -
  let ?cs = "map (\<lambda>r. (r, slot_ok f r)) (flash_cands f)"
  obtain sel lr where s: "ota_boot_select ?cs w = (sel, lr)" by fastforce
  show thesis
  proof (cases sel)
    case None
    then have "\<forall>(r, v) \<in> set ?cs. \<not> v" using ota_boot_select_None_iff [of ?cs w] s by simp
    then show thesis using None s by (intro none) (auto simp: boot_decide_slot_flash)
  next
    case (Some i)
    have i: "i < length (flash_cands f)" using ota_boot_select_SomeD [of ?cs w i lr] s Some by simp
    show thesis
      by (rule boot [of "flash_cands f ! i" lr i])
         (use ota_boot_select_SomeD [of ?cs w i lr] s Some i in
           \<open>auto simp: boot_decide_slot_flash is_slot_base slot_ok_is_slot\<close>)
  qed
qed

section \<open>What a commit leaves for the bootloader\<close>

lemma slot_addr_range:
  "i < 0x36000 \<Longrightarrow> in_range (slot_addr s) 0x36000 (slot_addr s + of_nat i)"
  by (rule in_range_offset) (auto simp: slot_addr_def)

lemma slot_ok_cong:
  assumes "\<And>x. in_range (slot_addr (m_active_slot r)) 0x36000 x \<Longrightarrow> f x = g x"
  shows "slot_ok f r = slot_ok g r"
proof -
  let ?s = "m_active_slot r" and ?len = "desc (m_active_slot r) (m_img_len r)"
  have "fbytes f (slot_addr ?s) (unat ?len) = fbytes g (slot_addr ?s) (unat ?len)" if "?len \<le> OTA_SLOT_SIZE"
    by (rule fbytes_cong) (use that assms slot_addr_range in \<open>auto simp: word_le_nat_alt\<close>)
  then show ?thesis by (auto simp: slot_ok_iff Let_def)
qed

lemma slot_not_meta: "meta_page t \<Longrightarrow> in_range (slot_addr s) 0x36000 x \<Longrightarrow> \<not> in_range t 2048 x"
  by (auto simp: meta_page_def in_range_def slot_addr_def split: if_splits)

lemma slot_ok_same_outside_meta:
  "meta_page t \<Longrightarrow> same_outside (in_range t 2048) s s' \<Longrightarrow> slot_ok (flash s') r = slot_ok (flash s) r"
  by (rule slot_ok_cong) (use slot_not_meta in \<open>auto simp: same_outside_def\<close>)

definition flash_records :: "flash \<Rightarrow> ota_meta_record set" where
  "flash_records f = {r. meta_read f OTA_META_REC0 = Some r \<or> meta_read f OTA_META_REC1 = Some r}"

lemma set_flash_cands: "set (flash_cands f) = flash_records f"
  by (auto simp: flash_cands_def cand_list_def flash_records_def split: option.splits if_splits)

lemma other_page_survives:
  assumes "meta_page t" "meta_page u" "t \<noteq> u" "same_outside (in_range t 2048) s s'"
  shows "meta_read (flash s') u = meta_read (flash s) u"
proof (rule meta_read_same [OF assms(2)])
  fix x assume "in_range u 2048 x"
  then have "\<not> in_range t 2048 x" using assms(1-3) by (auto simp: meta_page_def in_range_def)
  then show "flash s' x = flash s x" using assms(4) by (simp add: same_outside_def)
qed

lemma meta_target_spares:
  assumes "(\<exists>a. va = Some a \<and> m_active_slot a = OTA_RUNNING_SLOT b) \<or>
           (\<exists>r. vb = Some r \<and> m_active_slot r = OTA_RUNNING_SLOT b)"
  shows "(\<exists>a. va = Some a \<and> m_active_slot a = OTA_RUNNING_SLOT b \<and> meta_target b va vb 0 = OTA_META_REC1) \<or>
         (\<exists>r. vb = Some r \<and> m_active_slot r = OTA_RUNNING_SLOT b \<and> meta_target b va vb 0 = OTA_META_REC0)"
  using assms by (cases va; cases vb) (auto simp: meta_target_def meta_page_rank_def Let_def)

text \<open>The page a rank-chosen commit spares holds a record naming the running slot, if any page does.\<close>

lemma rank_spares_running:
  assumes "\<exists>r \<in> flash_records (flash s). m_active_slot r = OTA_RUNNING_SLOT (env_build env)"
  shows "\<exists>u r. meta_page u \<and> u \<noteq> commit_target env s 0 \<and> meta_read (flash s) u = Some r \<and>
    m_active_slot r = OTA_RUNNING_SLOT (env_build env)"
proof -
  let ?a = "meta_read (flash s) OTA_META_REC0" and ?b = "meta_read (flash s) OTA_META_REC1"
  have "(\<exists>a. ?a = Some a \<and> m_active_slot a = OTA_RUNNING_SLOT (env_build env)) \<or>
      (\<exists>b. ?b = Some b \<and> m_active_slot b = OTA_RUNNING_SLOT (env_build env))"
    using assms by (auto simp: flash_records_def)
  from meta_target_spares [OF this] show ?thesis
    by (auto simp: commit_target_def meta_page_def)
qed

section \<open>A factory-programmed part\<close>

text \<open>
  A concrete flash content: a small bootable image that carries the trial marker in slot A and a
  confirmed record for it.  It is the starting point of the concrete instances below.
\<close>

definition fplace :: "u32 \<Rightarrow> bytes \<Rightarrow> flash \<Rightarrow> flash" where
  "fplace base bs f a = (if in_range base (length bs) a then bs ! (unat a - unat base) else f a)"

lemma fbytes_fplace:
  assumes "unat base + length bs \<le> 2 ^ 32"
  shows "fbytes (fplace base bs f) base (length bs) = bs"
proof (rule nth_equalityI)
  fix i assume "i < length (fbytes (fplace base bs f) base (length bs))"
  then have i: "i < length bs" by simp
  then have "unat (base + of_nat i) = unat base + i"
    using assms by (simp add: unat_word_ariths(1) unat_of_nat)
  then show "fbytes (fplace base bs f) base (length bs) ! i = bs ! i"
    using i by (simp add: fplace_def in_range_def)
qed simp

lemma fplace_other: "\<not> in_range base (length bs) a \<Longrightarrow> fplace base bs f a = f a"
  by (simp add: fplace_def)

definition demo_img :: "u32 \<Rightarrow> bytes" where
  "demo_img base = bytes32 0x20001000 @ bytes32 (base + 9) @ replicate 56 0 @
     OTA_TRIAL_MARKER_MAGIC_BYTES @ bytes16 OTA_TRIAL_MARKER_STRUCT_VER @ bytes16 OTA_TRIAL_CAP_CONFIRM"

definition demo_body :: ota_meta_record where
  "demo_body = \<lparr>m_magic = OTA_META_MAGIC, m_struct_version = OTA_META_STRUCT_VER, m_counter = 1,
     m_active_slot = OTA_SLOT_A, m_slot_valid = 1, m_flags = 0, m_pad1 = 0, m_fw_version = (0x000100, 0),
     m_img_len = (84, 0), m_img_crc32 = (ota_crc32 0 (demo_img OTA_SLOT_A_BASE), 0), m_rec_crc32 = 0\<rparr>"

definition demo_record :: ota_meta_record where
  "demo_record = demo_body\<lparr>m_rec_crc32 := ota_crc32 0 (meta_body demo_body)\<rparr>"

definition demo_flash :: flash where
  "demo_flash = fplace OTA_META_REC0 (meta_bytes demo_record)
     (fplace OTA_SLOT_A_BASE (demo_img OTA_SLOT_A_BASE) (\<lambda>_. 0xFF))"

lemma length_demo_img [simp]: "length (demo_img base) = 84"
  by (simp add: demo_img_def OTA_TRIAL_MARKER_MAGIC_BYTES_def)

lemma demo_img_bootable:
  assumes "base = OTA_SLOT_A_BASE \<or> base = OTA_SLOT_B_BASE"
  shows "ota_image_bootable base (Some (demo_img base)) 84 = Some True"
proof -
  have "le32_at (demo_img base) 0 = 0x20001000" "le32_at (demo_img base) 4 = base + 9"
    by (simp_all add: demo_img_def le32_at_def bytes32_def)
  then show ?thesis using assms by (auto simp: ota_image_bootable_def Let_def)
qed

lemma demo_flash_read:
  "meta_read demo_flash OTA_META_REC0 = Some demo_record" "meta_read demo_flash OTA_META_REC1 = None"
  "fbytes demo_flash OTA_SLOT_A_BASE 84 = demo_img OTA_SLOT_A_BASE"
proof -
  show "meta_read demo_flash OTA_META_REC0 = Some demo_record"
  proof (rule meta_read_bytes)
    show "fbytes demo_flash OTA_META_REC0 44 = meta_bytes demo_record"
      using fbytes_fplace [of OTA_META_REC0 "meta_bytes demo_record"] by (simp add: demo_flash_def)
  qed (simp add: demo_record_def demo_body_def, simp add: demo_record_def demo_body_def,
      simp add: demo_record_def)
  have far: "demo_flash a = 0xFF" if "in_range OTA_META_REC1 2048 a" for a
    using that by (simp add: demo_flash_def fplace_def in_range_def)
  have "demo_flash (OTA_META_REC1 + of_nat i) = 0xFF" if "i < 4" for i
    by (rule far, rule in_range_offset) (use that in simp_all)
  then have "le32_at (fbytes demo_flash OTA_META_REC1 44) 0 = 0xFFFFFFFF"
    by (intro le32_at_FF) simp
  then show "meta_read demo_flash OTA_META_REC1 = None" by (simp add: meta_read_def meta_of_bytes_head Let_def)
  have "fbytes demo_flash OTA_SLOT_A_BASE 84 =
      fbytes (fplace OTA_SLOT_A_BASE (demo_img OTA_SLOT_A_BASE) (\<lambda>_. 0xFF)) OTA_SLOT_A_BASE 84"
  proof (rule fbytes_cong)
    fix i :: nat assume "i < 84"
    then have "in_range OTA_SLOT_A_BASE 84 (OTA_SLOT_A_BASE + of_nat i)" by (intro in_range_offset) simp_all
    then show "demo_flash (OTA_SLOT_A_BASE + of_nat i) =
        fplace OTA_SLOT_A_BASE (demo_img OTA_SLOT_A_BASE) (\<lambda>_. 0xFF) (OTA_SLOT_A_BASE + of_nat i)"
      unfolding demo_flash_def by (intro fplace_other) (simp add: in_range_def)
  qed
  then show "fbytes demo_flash OTA_SLOT_A_BASE 84 = demo_img OTA_SLOT_A_BASE"
    using fbytes_fplace [of OTA_SLOT_A_BASE "demo_img OTA_SLOT_A_BASE"] by simp
qed

lemma demo_records: "flash_records demo_flash = {demo_record}"
  by (simp add: flash_records_def demo_flash_read)

lemma demo_slot_ok: "slot_ok demo_flash demo_record"
  using demo_img_bootable [of OTA_SLOT_A_BASE]
  by (simp add: slot_ok_iff demo_record_def demo_body_def Let_def desc_def slot_addr_def slot_bit_def is_slot_def
      demo_flash_read(3))

section \<open>Properties\<close>





end
