(* ===== verification/Wire.thy ===== *)
theory Wire
  imports Bridge_Prelude
begin

text \<open>
  The wire vocabulary of \<open>src/protocol.h\<close>: opcodes, status codes, update failure causes and the
  frame limits.
\<close>

section \<open>Status codes\<close>

datatype gd32_bridge_status = STATUS_OK | STATUS_INVAL | STATUS_NOT_READY | STATUS_BUSY |
  STATUS_TIMEOUT | STATUS_IO | STATUS_NOSUPPORT | STATUS_NOMEM | STATUS_OUT_OF_RANGE |
  STATUS_NO_PENDING

fun status_code :: "gd32_bridge_status \<Rightarrow> u8" where
  "status_code STATUS_OK = 0x00"
| "status_code STATUS_INVAL = 0x01"
| "status_code STATUS_NOT_READY = 0x02"
| "status_code STATUS_BUSY = 0x03"
| "status_code STATUS_TIMEOUT = 0x04"
| "status_code STATUS_IO = 0x05"
| "status_code STATUS_NOSUPPORT = 0x06"
| "status_code STATUS_NOMEM = 0x07"
| "status_code STATUS_OUT_OF_RANGE = 0x08"
| "status_code STATUS_NO_PENDING = 0x80"

lemma status_code_inject [simp]: "status_code a = status_code b \<longleftrightarrow> a = b"
  by (cases a; cases b) simp_all

section \<open>Update failure causes\<close>

datatype gd32_bridge_ota_err = BRIDGE_OTA_ERR_NONE | BRIDGE_OTA_ERR_SESSION_RANGE |
  BRIDGE_OTA_ERR_ERASE_FAILED | BRIDGE_OTA_ERR_CHUNK_RANGE | BRIDGE_OTA_ERR_PROGRAM_FAILED |
  BRIDGE_OTA_ERR_VERIFY_CRC | BRIDGE_OTA_ERR_COMMIT_FAILED | BRIDGE_OTA_ERR_ERASE_TARGET |
  BRIDGE_OTA_ERR_NOT_TRIAL_CAPABLE | BRIDGE_OTA_ERR_META_DEMOTE_FAILED | BRIDGE_OTA_ERR_BELOW_FLOOR

fun ota_err_code :: "gd32_bridge_ota_err \<Rightarrow> u8" where
  "ota_err_code BRIDGE_OTA_ERR_NONE = 0x00"
| "ota_err_code BRIDGE_OTA_ERR_SESSION_RANGE = 0x01"
| "ota_err_code BRIDGE_OTA_ERR_ERASE_FAILED = 0x02"
| "ota_err_code BRIDGE_OTA_ERR_CHUNK_RANGE = 0x03"
| "ota_err_code BRIDGE_OTA_ERR_PROGRAM_FAILED = 0x04"
| "ota_err_code BRIDGE_OTA_ERR_VERIFY_CRC = 0x05"
| "ota_err_code BRIDGE_OTA_ERR_COMMIT_FAILED = 0x06"
| "ota_err_code BRIDGE_OTA_ERR_ERASE_TARGET = 0x07"
| "ota_err_code BRIDGE_OTA_ERR_NOT_TRIAL_CAPABLE = 0x08"
| "ota_err_code BRIDGE_OTA_ERR_META_DEMOTE_FAILED = 0x09"
| "ota_err_code BRIDGE_OTA_ERR_BELOW_FLOOR = 0x0A"

section \<open>Limits\<close>

abbreviation (input) "GD32_BRIDGE_MAX_PAYLOAD_BYTES \<equiv> (65 :: nat)"

end
