(* ===== verification/Ota_Session.thy ===== *)
theory Ota_Session
  imports Boot_Decide Wire
begin

unbundle bit_operations_syntax

text \<open>
  The update session of \<open>src/ota.c\<close> (partitioned builds): its static variables as a record, one
  definition per opcode handler, the background erase pump, the trial and confirm logic, and the
  opcode switch \<open>ota_dispatch\<close>.

  A handler takes the request bytes, the reply capacity, the session and the flash controller and
  returns status, reply bytes and both states, or \<open>None\<close> where the C code has undefined behaviour.
  \<open>ota_system_reset\<close> does not return on silicon; the model records the request in
  \<open>reset_requested\<close> and, as the host-test seam does, lets the handler return.
\<close>

section \<open>Session state\<close>

datatype ota_state = OTA_ST_IDLE | OTA_ST_READY | OTA_ST_BUSY | OTA_ST_VERIFIED | OTA_ST_ERROR

fun ota_state_code :: "ota_state \<Rightarrow> u8" where
  "ota_state_code OTA_ST_IDLE = 0"
| "ota_state_code OTA_ST_READY = 1"
| "ota_state_code OTA_ST_BUSY = 2"
| "ota_state_code OTA_ST_VERIFIED = 3"
| "ota_state_code OTA_ST_ERROR = 4"

record ota_st =
  s_state :: ota_state
  s_inactive :: u8
  s_img_len :: u32
  s_last_off :: u32
  s_expected_crc :: u32
  s_img_crc :: u32
  s_fw_version :: u32
  s_err :: gd32_bridge_ota_err
  s_erasing :: bool
  s_erase_at :: u32
  s_erase_end :: u32
  s_erase_epoch :: u32
  s_trial :: bool
  s_frame_seen :: bool
  reset_requested :: bool
  fault_loop_cleared :: bool

definition other_slot :: "u8 \<Rightarrow> u8" where
  "other_slot s = (if s = OTA_SLOT_A then OTA_SLOT_B else OTA_SLOT_A)"

definition ota_reset :: "build \<Rightarrow> ota_st" where
  "ota_reset b = \<lparr>s_state = OTA_ST_IDLE, s_inactive = other_slot (OTA_RUNNING_SLOT b), s_img_len = 0,
     s_last_off = 0, s_expected_crc = 0, s_img_crc = 0, s_fw_version = 0, s_err = BRIDGE_OTA_ERR_NONE,
     s_erasing = False, s_erase_at = 0, s_erase_end = 0, s_erase_epoch = 0, s_trial = False,
     s_frame_seen = False, reset_requested = False, fault_loop_cleared = False\<rparr>"

type_synonym ota_reply = "(gd32_bridge_status \<times> bytes \<times> ota_st \<times> fmc_st) option"

abbreviation (input) "OTA_PROGRAM_GRANULE \<equiv> (8 :: u32)"
abbreviation (input) "OTA_CHUNK_MAX \<equiv> (56 :: u16)"

definition ota_session_reject :: "gd32_bridge_ota_err \<Rightarrow> ota_st \<Rightarrow> ota_st" where
  "ota_session_reject err o' =
     o'\<lparr>s_erase_epoch := s_erase_epoch o' + 1, s_state := OTA_ST_ERROR, s_err := err\<rparr>"

definition ota_inactive_base :: "ota_st \<Rightarrow> u32" where
  "ota_inactive_base o' =
     (case ota_slot_base_checked (s_inactive o') of Some base \<Rightarrow> base | None \<Rightarrow> OTA_SLOT_A_BASE)"

definition ota_system_reset :: "ota_st \<Rightarrow> ota_st" where
  "ota_system_reset o' = o'\<lparr>reset_requested := True\<rparr>"

definition ota_fault_loop_clear :: "ota_st \<Rightarrow> ota_st" where
  "ota_fault_loop_clear o' = o'\<lparr>fault_loop_cleared := True\<rparr>"

section \<open>Boot reconciliation and the trial gate\<close>

definition ota_boot_init :: "hw_env \<Rightarrow> ota_st \<Rightarrow> fmc_st \<Rightarrow> (ota_st \<times> fmc_st) option" where
  "ota_boot_init env o0 m =
     (let o1 = o0\<lparr>s_trial := False, s_frame_seen := False\<rparr>
      in if \<not> ota_fmc_supported then Some (o1, m)
         else let run_rec_trial = (case find_running_slot_record (env_build env) (flash m) of
                                     Some (r, _) \<Rightarrow> is_trial r
                                   | None \<Rightarrow> False)
              in if run_rec_trial then Some (o1\<lparr>s_trial := True\<rparr>, m)
                 else (case meta_current (flash m) of
                         None \<Rightarrow> Some (o1, m)
                       | Some (newest, _) \<Rightarrow>
                           if m_active_slot newest \<noteq> OTA_RUNNING_SLOT (env_build env) \<and> is_trial newest
                           then do {
                             (_, m') \<leftarrow> meta_commit env (OTA_RUNNING_SLOT (env_build env)) False 0 0 0 0 0
                                          (m_active_slot newest) m;
                             Some (ota_fault_loop_clear o1, m') }
                           else Some (o1, m)))"

definition ota_session_active :: "ota_st \<Rightarrow> bool" where
  "ota_session_active o' \<longleftrightarrow> s_state o' \<noteq> OTA_ST_IDLE \<and> s_state o' \<noteq> OTA_ST_ERROR"

definition ota_erase_active :: "ota_st \<Rightarrow> bool" where
  "ota_erase_active o' = s_erasing o'"

definition ota_trial_unconfirmed :: "ota_st \<Rightarrow> bool" where
  "ota_trial_unconfirmed o' = s_trial o'"

definition ota_note_frame :: "ota_st \<Rightarrow> ota_st" where
  "ota_note_frame o' = o'\<lparr>s_frame_seen := True\<rparr>"

definition ota_confirm_tick :: "hw_env \<Rightarrow> ota_st \<Rightarrow> fmc_st \<Rightarrow> (ota_st \<times> fmc_st) option" where
  "ota_confirm_tick env o' m =
     (if \<not> s_trial o' \<or> \<not> s_frame_seen o' then Some (o', m)
      else case find_running_slot_record (env_build env) (flash m) of
             None \<Rightarrow> Some (o', m)
           | Some (_, which) \<Rightarrow> do {
               (ok, m') \<leftarrow> meta_commit env (OTA_RUNNING_SLOT (env_build env)) False 0 0 0 0 which 0xFF m;
               Some (if ok then ota_system_reset (ota_fault_loop_clear o') else o', m') })"

section \<open>BEGIN\<close>

text \<open>Arming the background erase once every check has passed, in one critical section.\<close>

definition begin_arm :: "u8 \<Rightarrow> u32 \<Rightarrow> u32 \<Rightarrow> u32 \<Rightarrow> u32 \<Rightarrow> u32 \<Rightarrow> ota_st \<Rightarrow> ota_st" where
  "begin_arm inactive img_len expected_crc fw_version erase_at erase_end o' =
     o'\<lparr>s_erase_epoch := s_erase_epoch o' + 1, s_inactive := inactive, s_last_off := 0,
        s_img_len := img_len, s_expected_crc := expected_crc, s_fw_version := fw_version,
        s_erasing := True, s_erase_at := erase_at, s_erase_end := erase_end, s_state := OTA_ST_BUSY\<rparr>"

text \<open>
  Demoting the erase target in the metadata, before anything is armed.  \<open>Inl\<close> is an early return
  with its status and session, \<open>Inr\<close> continues.
\<close>

definition begin_demote ::
  "hw_env \<Rightarrow> u8 \<Rightarrow> ota_st \<Rightarrow> fmc_st \<Rightarrow> (gd32_bridge_status \<times> ota_st \<times> fmc_st + fmc_st) option" where
  "begin_demote env inactive o' m =
     (case meta_current (flash m) of
        None \<Rightarrow> Some (Inr m)
      | Some (cur, _) \<Rightarrow>
          if m_counter cur > OTA_META_BEGIN_MAX_COUNTER
          then Some (Inl (STATUS_IO, ota_session_reject BRIDGE_OTA_ERR_META_DEMOTE_FAILED o', m))
          else if ota_fmc_funnel_busy m then Some (Inl (STATUS_BUSY, o', m))
          else do {
            (ok, m') \<leftarrow> meta_commit env (m_active_slot cur) False 0 0 0 (m_flags cur) 0 inactive m;
            Some (if ok then Inr m'
                  else Inl (STATUS_IO, ota_session_reject BRIDGE_OTA_ERR_META_DEMOTE_FAILED o', m')) })"

text \<open>The wire fields: image length, expected CRC and the optional version triple.\<close>

definition begin_fields :: "bytes \<Rightarrow> (u32 \<times> u32 \<times> u32) option" where
  "begin_fields req = do {
     img_len \<leftarrow> rd_le32 req 0;
     expected_crc \<leftarrow> rd_le32 req 4;
     fw_version \<leftarrow> (if length req \<ge> 11
                    then do { b8 \<leftarrow> rd req 8; b9 \<leftarrow> rd req 9; b10 \<leftarrow> rd req 10;
                              Some ((push_bit 16 (ucast b8) OR push_bit 8 (ucast b9) OR ucast b10) :: u32) }
                    else Some 0);
     Some (img_len, expected_crc, fw_version) }"

text \<open>The checks and the arming, on the decoded fields.\<close>

definition begin_session :: "hw_env \<Rightarrow> u32 \<Rightarrow> u32 \<Rightarrow> u32 \<Rightarrow> nat \<Rightarrow> ota_st \<Rightarrow> fmc_st \<Rightarrow> ota_reply" where
  "begin_session env img_len expected_crc fw_version cap o' m =
     (if img_len = 0 \<or> img_len > OTA_SLOT_SIZE
      then Some (STATUS_OUT_OF_RANGE, [], ota_session_reject BRIDGE_OTA_ERR_SESSION_RANGE o', m)
      else
        let running = OTA_RUNNING_SLOT (env_build env);
            running_base = slot_addr running;
            inactive = other_slot running;
            erase_at = (case ota_slot_base_checked inactive of Some b \<Rightarrow> b | None \<Rightarrow> OTA_SLOT_A_BASE);
            erase_end = erase_at + OTA_SLOT_SIZE
        in if erase_at < running_base + OTA_SLOT_SIZE \<and> running_base < erase_end
           then Some (STATUS_INVAL, [], ota_session_reject BRIDGE_OTA_ERR_ERASE_TARGET o', m)
           else (case begin_demote env inactive o' m of
                   None \<Rightarrow> None
                 | Some (Inl (st, o1, m1)) \<Rightarrow> Some (st, [], o1, m1)
                 | Some (Inr m1) \<Rightarrow>
                     Some (STATUS_OK,
                           if cap \<ge> 3 then bytes16 OTA_CHUNK_MAX @ [inactive] else [],
                           begin_arm inactive img_len expected_crc fw_version erase_at erase_end o', m1)))"

definition h_begin :: "hw_env \<Rightarrow> bytes \<Rightarrow> nat \<Rightarrow> ota_st \<Rightarrow> fmc_st \<Rightarrow> ota_reply" where
  "h_begin env req cap o' m =
     (if length req < 8 then Some (STATUS_INVAL, [], o', m)
      else do {
        (img_len, expected_crc, fw_version) \<leftarrow> begin_fields req;
        begin_session env img_len expected_crc fw_version cap o' m })"

section \<open>WRITE, VERIFY, COMMIT\<close>

text \<open>
  The part of a write behind the request checks: a replay of bytes below the high-water mark is
  compared with flash, anything else is programmed.
\<close>

definition write_chunk ::
  "hw_env \<Rightarrow> u32 \<Rightarrow> bytes \<Rightarrow> nat \<Rightarrow> ota_st \<Rightarrow> fmc_st \<Rightarrow> gd32_bridge_status \<times> bytes \<times> ota_st \<times> fmc_st" where
  "write_chunk env off data cap o' m =
     (let end_off = off + of_nat (length data);
          ack = (\<lambda>o1. if cap \<ge> 4 then bytes32 (s_last_off o1) else [])
      in if end_off \<le> s_last_off o'
         then (if fbytes (flash m) (ota_inactive_base o' + off) (length data) = data
               then (STATUS_OK, ack o', o'\<lparr>s_state := OTA_ST_READY\<rparr>, m)
               else (STATUS_IO, [], o'\<lparr>s_state := OTA_ST_ERROR, s_err := BRIDGE_OTA_ERR_PROGRAM_FAILED\<rparr>, m))
         else let o1 = o'\<lparr>s_state := OTA_ST_BUSY\<rparr>;
                  (r, m1) = ota_fmc_program env (ota_inactive_base o1 + off) data m
              in if r \<noteq> OTA_FMC_RESULT_OK
                 then (if r = OTA_FMC_RESULT_TIMEOUT then STATUS_TIMEOUT else STATUS_IO, [],
                       o1\<lparr>s_state := OTA_ST_ERROR, s_err := BRIDGE_OTA_ERR_PROGRAM_FAILED\<rparr>, m1)
                 else let o2 = (if end_off > s_last_off o1 then o1\<lparr>s_last_off := end_off\<rparr> else o1);
                          o3 = o2\<lparr>s_state := OTA_ST_READY\<rparr>
                      in (STATUS_OK, ack o3, o3, m1))"

definition h_write :: "hw_env \<Rightarrow> bytes \<Rightarrow> nat \<Rightarrow> ota_st \<Rightarrow> fmc_st \<Rightarrow> ota_reply" where
  "h_write env req cap o' m =
     (if s_state o' \<noteq> OTA_ST_READY then Some (STATUS_NOT_READY, [], o', m)
      else if length req < 5 then Some (STATUS_INVAL, [], o', m)
      else do {
        off \<leftarrow> rd_le32 req 0;
        dl \<leftarrow> rd req 4;
        let dlen = unat dl;
        Some (
          if dlen = 0 \<or> dlen \<noteq> length req - 5 then (STATUS_INVAL, [], o', m)
          else if off > OTA_SLOT_SIZE \<or> of_nat dlen > OTA_SLOT_SIZE - off
          then (STATUS_OUT_OF_RANGE, [], o'\<lparr>s_state := OTA_ST_ERROR, s_err := BRIDGE_OTA_ERR_CHUNK_RANGE\<rparr>, m)
          else if off mod OTA_PROGRAM_GRANULE \<noteq> 0 then (STATUS_INVAL, [], o', m)
          else write_chunk env off (take dlen (drop 5 req)) cap o' m) })"

definition slot_image :: "fmc_st \<Rightarrow> u32 \<Rightarrow> u32 \<Rightarrow> bytes" where
  "slot_image m base len = fbytes (flash m) base (unat len)"

definition h_verify :: "nat \<Rightarrow> ota_st \<Rightarrow> fmc_st \<Rightarrow> ota_reply" where
  "h_verify cap o' m =
     Some (if s_state o' \<noteq> OTA_ST_READY then (STATUS_NOT_READY, [], o', m)
           else if s_img_len o' = 0 \<or> s_img_len o' > OTA_SLOT_SIZE
           then (STATUS_INVAL, [], o'\<lparr>s_state := OTA_ST_ERROR, s_err := BRIDGE_OTA_ERR_SESSION_RANGE\<rparr>, m)
           else let crc = ota_crc32 0 (slot_image m (ota_inactive_base o') (s_img_len o'));
                    ok = (crc = s_expected_crc o');
                    o1 = o'\<lparr>s_img_crc := crc, s_state := (if ok then OTA_ST_VERIFIED else OTA_ST_ERROR)\<rparr>;
                    o2 = (if ok then o1 else o1\<lparr>s_err := BRIDGE_OTA_ERR_VERIFY_CRC\<rparr>)
                in (STATUS_OK, if cap \<ge> 5 then bytes32 crc @ [if ok then 1 else 0] else [], o2, m))"

definition h_commit :: "hw_env \<Rightarrow> ota_st \<Rightarrow> fmc_st \<Rightarrow> ota_reply" where
  "h_commit env o' m =
     (let fail = (\<lambda>st e m1. (st, [], o'\<lparr>s_state := OTA_ST_ERROR, s_err := e\<rparr>, m1));
          base = ota_inactive_base o';
          img = Some (slot_image m base (s_img_len o'))
      in if s_state o' \<noteq> OTA_ST_VERIFIED then Some (STATUS_NOT_READY, [], o', m)
         else if s_img_len o' = 0 \<or> s_img_len o' > OTA_SLOT_SIZE
         then Some (fail STATUS_INVAL BRIDGE_OTA_ERR_SESSION_RANGE m)
         else do {
           bootable \<leftarrow> ota_image_bootable base img (s_img_len o');
           if \<not> bootable then Some (fail STATUS_INVAL BRIDGE_OTA_ERR_COMMIT_FAILED m)
           else do {
             capable \<leftarrow> ota_image_trial_capable img (s_img_len o');
             if \<not> capable then Some (fail STATUS_INVAL BRIDGE_OTA_ERR_NOT_TRIAL_CAPABLE m)
             else do {
               below \<leftarrow> (case meta_current (flash m) of
                           None \<Rightarrow> Some False
                         | Some (r, _) \<Rightarrow> do { fl \<leftarrow> ota_version_floor r; Some (s_fw_version o' < fl) });
               if below then Some (fail STATUS_INVAL BRIDGE_OTA_ERR_BELOW_FLOOR m)
               else do {
                 (ok, m1) \<leftarrow> meta_commit env (s_inactive o') True (s_fw_version o') (s_img_len o')
                               (s_img_crc o') OTA_META_FLAG_TRIAL 0 0xFF m;
                 Some (if ok then (STATUS_OK, [], ota_system_reset o', m1)
                       else fail STATUS_IO BRIDGE_OTA_ERR_COMMIT_FAILED m1) } } } })"

section \<open>ROLLBACK, GET_STATE, ABORT\<close>

definition h_rollback :: "hw_env \<Rightarrow> ota_st \<Rightarrow> fmc_st \<Rightarrow> ota_reply" where
  "h_rollback env o' m =
     (let inval = Some (STATUS_INVAL, [], o', m)
      in if s_state o' \<noteq> OTA_ST_IDLE \<and> s_state o' \<noteq> OTA_ST_ERROR then Some (STATUS_BUSY, [], o', m)
         else case meta_current (flash m) of
           None \<Rightarrow> inval
         | Some (cur, _) \<Rightarrow>
             if m_active_slot cur \<noteq> OTA_SLOT_A \<and> m_active_slot cur \<noteq> OTA_SLOT_B then inval
             else do {
               let other = other_slot (m_active_slot cur);
               bit \<leftarrow> shl1 other;
               len \<leftarrow> arr_get (m_img_len cur) other;
               crc \<leftarrow> arr_get (m_img_crc32 cur) other;
               fw \<leftarrow> arr_get (m_fw_version cur) other;
               flr \<leftarrow> ota_version_floor cur;
               if m_slot_valid cur AND ucast bit = 0 \<or> len = 0 \<or> len > OTA_SLOT_SIZE then inval
               else if fw < flr
               then Some (STATUS_INVAL, [], o'\<lparr>s_state := OTA_ST_ERROR, s_err := BRIDGE_OTA_ERR_BELOW_FLOOR\<rparr>, m)
               else (case ota_slot_base_checked other of
                       None \<Rightarrow> inval
                     | Some base \<Rightarrow> do {
                         let img = slot_image m base len;
                         bootable \<leftarrow> ota_image_bootable base (Some img) len;
                         if ota_crc32 0 img \<noteq> crc \<or> \<not> bootable then inval
                         else do {
                           capable \<leftarrow> ota_image_trial_capable (Some img) len;
                           (ok, m1) \<leftarrow> meta_commit env other False 0 0 0
                                         (if capable then OTA_META_FLAG_TRIAL else 0) 0 0xFF m;
                           Some (if ok then (STATUS_OK, [], ota_system_reset o', m1)
                                 else (STATUS_IO, [], o', m1)) } }) })"

definition h_get_state :: "hw_env \<Rightarrow> nat \<Rightarrow> ota_st \<Rightarrow> fmc_st \<Rightarrow> ota_reply" where
  "h_get_state env cap o' m =
     (let gen = (case meta_current (flash m) of Some (cur, _) \<Rightarrow> ucast (m_counter cur) | None \<Rightarrow> (0 :: u16));
          in_progress = (s_state o' = OTA_ST_READY \<or> s_state o' = OTA_ST_BUSY \<or> s_state o' = OTA_ST_VERIFIED)
      in Some (STATUS_OK,
               if cap \<ge> 6
               then [ota_state_code (s_state o'), OTA_RUNNING_SLOT (env_build env),
                     if in_progress then s_inactive o' else 0xFF] @ bytes16 gen @ [ota_err_code (s_err o')]
               else [],
               o', m))"

definition h_abort :: "ota_st \<Rightarrow> ota_st" where
  "h_abort o' = o'\<lparr>s_erase_epoch := s_erase_epoch o' + 1, s_erasing := False, s_state := OTA_ST_IDLE,
     s_err := BRIDGE_OTA_ERR_NONE\<rparr>"

section \<open>Erase pump\<close>

text \<open>
  The tick takes a snapshot in a critical section, erases with interrupts enabled, and
  publishes the result in a second critical section, so that transport interrupts can run
  handlers between the two.
\<close>

definition erase_snapshot :: "ota_st \<Rightarrow> (u32 \<times> u32 \<times> u32) option" where
  "erase_snapshot o' = (if s_erasing o' then Some (s_erase_epoch o', s_erase_at o', s_erase_end o') else None)"

definition erase_publish :: "u32 \<times> u32 \<times> u32 \<Rightarrow> ota_fmc_result \<Rightarrow> ota_st \<Rightarrow> ota_st" where
  "erase_publish snap erase_result o' =
     (case snap of (epoch, at, end') \<Rightarrow>
        if \<not> s_erasing o' \<or> s_erase_epoch o' \<noteq> epoch then o'
        else if erase_result \<noteq> OTA_FMC_RESULT_OK
        then o'\<lparr>s_erasing := False, s_state := OTA_ST_ERROR, s_err := BRIDGE_OTA_ERR_ERASE_FAILED\<rparr>
        else let o1 = o'\<lparr>s_erase_at := at + OTA_PAGE_SIZE\<rparr>
             in if s_erase_at o1 \<ge> end'
                then o1\<lparr>s_erasing := False,
                        s_state := (if s_state o1 = OTA_ST_BUSY then OTA_ST_READY else s_state o1)\<rparr>
                else o1)"

definition ota_erase_tick :: "hw_env \<Rightarrow> ota_st \<Rightarrow> fmc_st \<Rightarrow> ota_st \<times> fmc_st" where
  "ota_erase_tick env o' m =
     (case erase_snapshot o' of
        None \<Rightarrow> (o', m)
      | Some (epoch, at, end') \<Rightarrow>
          let (r, m1) = ota_fmc_erase_range env at OTA_PAGE_SIZE m
          in (erase_publish (epoch, at, end') r o', m1))"

section \<open>Opcode switch\<close>

abbreviation (input) "CMD_OTA_BEGIN \<equiv> (0xF0 :: u8)"
abbreviation (input) "CMD_OTA_WRITE_CHUNK \<equiv> (0xF1 :: u8)"
abbreviation (input) "CMD_OTA_VERIFY \<equiv> (0xF2 :: u8)"
abbreviation (input) "CMD_OTA_COMMIT \<equiv> (0xF3 :: u8)"
abbreviation (input) "CMD_OTA_ROLLBACK \<equiv> (0xF4 :: u8)"
abbreviation (input) "CMD_OTA_GET_STATE \<equiv> (0xF5 :: u8)"
abbreviation (input) "CMD_OTA_ABORT \<equiv> (0xF6 :: u8)"

definition ota_dispatch :: "hw_env \<Rightarrow> u8 \<Rightarrow> bytes \<Rightarrow> nat \<Rightarrow> ota_st \<Rightarrow> fmc_st \<Rightarrow> ota_reply" where
  "ota_dispatch env cmd req cap o' m =
     (if env_build env = Full_flash_build then Some (STATUS_NOSUPPORT, [], o', m)
      else if \<not> ota_fmc_supported then Some (STATUS_NOSUPPORT, [], o', m)
      else if cmd = CMD_OTA_BEGIN then h_begin env req cap o' m
      else if cmd = CMD_OTA_WRITE_CHUNK then h_write env req cap o' m
      else if cmd = CMD_OTA_VERIFY then h_verify cap o' m
      else if cmd = CMD_OTA_COMMIT then h_commit env o' m
      else if cmd = CMD_OTA_ROLLBACK then h_rollback env o' m
      else if cmd = CMD_OTA_GET_STATE then h_get_state env cap o' m
      else if cmd = CMD_OTA_ABORT then Some (STATUS_OK, [], h_abort o', m)
      else Some (STATUS_NOSUPPORT, [], o', m))"

section \<open>Frames\<close>

text \<open>The change is confined to the two metadata pages, or to those and the inactive slot.\<close>

definition meta_only :: "fmc_st \<Rightarrow> fmc_st \<Rightarrow> bool" where
  "meta_only m m' \<longleftrightarrow> same_outside (in_range OTA_META_REC0 4096) m m' \<and> fmc_keep m m'"

definition inactive_slot :: "build \<Rightarrow> u8" where
  "inactive_slot b = other_slot (OTA_RUNNING_SLOT b)"

definition slot_only :: "build \<Rightarrow> fmc_st \<Rightarrow> fmc_st \<Rightarrow> bool" where
  "slot_only b m m' \<longleftrightarrow>
     same_outside (in_range (slot_addr (inactive_slot b)) 0x36000) m m' \<and> fmc_keep m m'"

lemma meta_only_refl [simp, intro]: "meta_only m m"
  by (simp add: meta_only_def)

lemma slot_only_refl [simp, intro]: "slot_only b m m"
  by (simp add: slot_only_def)

lemma meta_commit_meta_only:
  assumes "meta_commit env sl upd fw len crc flags ov ivs m = Some (ok, m')" "ov = 0 \<or> meta_page ov"
  shows "meta_only m m'"
proof -
  have "in_range OTA_META_REC0 4096 a" if "in_range (commit_target env m ov) 2048 a" for a
    using that commit_target_page [OF assms(2), of env m] by (auto simp: meta_page_def in_range_def)
  then show ?thesis
    using meta_commit_frame [OF assms] by (auto simp: meta_only_def intro: same_outside_mono)
qed

lemma meta_only_slot_flash:
  assumes "meta_only m m'" "in_range (slot_addr s) 0x36000 a"
  shows "flash m' a = flash m a"
proof -
  have "\<not> in_range OTA_META_REC0 4096 a"
    using assms(2) by (auto simp: in_range_def slot_addr_def split: if_splits)
  then show ?thesis using assms(1) by (simp add: meta_only_def same_outside_def)
qed

lemma is_slot_inactive [simp]: "is_slot (inactive_slot b)" "is_slot (OTA_RUNNING_SLOT b)"
  by (cases b; simp add: inactive_slot_def other_slot_def is_slot_def)+

lemma ota_inactive_base_eq [simp]:
  "s_inactive o' = inactive_slot b \<Longrightarrow> ota_inactive_base o' = slot_addr (inactive_slot b)"
  by (simp add: ota_inactive_base_def is_slot_base)

section \<open>BEGIN\<close>

definition rejected :: "ota_st \<Rightarrow> ota_st \<Rightarrow> bool" where
  "rejected o' o1 \<longleftrightarrow> (\<exists>e. o1 = ota_session_reject e o')"

lemma rejectedI [simp, intro]: "rejected o' (ota_session_reject e o')"
  by (auto simp: rejected_def)

lemma begin_demote_outcome:
  assumes "begin_demote env ina o' m = Some d"
  shows "(\<exists>st o1 m1. d = Inl (st, o1, m1) \<and> meta_only m m1 \<and> st \<noteq> STATUS_OK \<and> (o1 = o' \<or> rejected o' o1)) \<or>
         (\<exists>m1. d = Inr m1 \<and> meta_only m m1)"
proof (cases "meta_current (flash m)")
  case None
  then show ?thesis using assms by (auto simp: begin_demote_def)
next
  case (Some p)
  obtain cur w where p: "p = (cur, w)" by fastforce
  consider "m_counter cur > OTA_META_BEGIN_MAX_COUNTER"
    | "\<not> m_counter cur > OTA_META_BEGIN_MAX_COUNTER" "ota_fmc_funnel_busy m"
    | "\<not> m_counter cur > OTA_META_BEGIN_MAX_COUNTER" "\<not> ota_fmc_funnel_busy m" by blast
  then show ?thesis
  proof cases
    case 3
    then obtain ok m1 where c: "meta_commit env (m_active_slot cur) False 0 0 0 (m_flags cur) 0 ina m = Some (ok, m1)"
      and d: "d = (if ok then Inr m1 else Inl (STATUS_IO, ota_session_reject BRIDGE_OTA_ERR_META_DEMOTE_FAILED o', m1))"
      using assms Some p by (auto simp: begin_demote_def bind_eq_Some_conv)
    then show ?thesis using meta_commit_meta_only [OF c] by auto
  qed (use assms Some p in \<open>simp_all add: begin_demote_def, auto\<close>)
qed

lemma begin_fields_eq:
  "8 \<le> length req \<Longrightarrow> \<exists>fw. begin_fields req = Some (le32_at req 0, le32_at req 4, fw)"
  by (cases "11 \<le> length req") (simp_all add: begin_fields_def)

lemma slots_disjoint:
  "\<not> (slot_addr (inactive_slot b) < slot_addr (OTA_RUNNING_SLOT b) + OTA_SLOT_SIZE \<and>
      slot_addr (OTA_RUNNING_SLOT b) < slot_addr (inactive_slot b) + OTA_SLOT_SIZE)"
  by (cases b) (simp_all add: inactive_slot_def other_slot_def slot_addr_def)

text \<open>The session that an accepted BEGIN opens.\<close>

definition armed :: "build \<Rightarrow> u32 \<Rightarrow> u32 \<Rightarrow> u32 \<Rightarrow> ota_st \<Rightarrow> ota_st" where
  "armed b len crc fw o' = begin_arm (inactive_slot b) len crc fw (slot_addr (inactive_slot b))
     (slot_addr (inactive_slot b) + OTA_SLOT_SIZE) o'"

lemma begin_session_eq:
  "begin_session env len crc fw cap o' m =
     (if len = 0 \<or> len > OTA_SLOT_SIZE
      then Some (STATUS_OUT_OF_RANGE, [], ota_session_reject BRIDGE_OTA_ERR_SESSION_RANGE o', m)
      else (case begin_demote env (inactive_slot (env_build env)) o' m of
              None \<Rightarrow> None
            | Some (Inl (st, o1, m1)) \<Rightarrow> Some (st, [], o1, m1)
            | Some (Inr m1) \<Rightarrow>
                Some (STATUS_OK, if cap \<ge> 3 then bytes16 OTA_CHUNK_MAX @ [inactive_slot (env_build env)] else [],
                      armed (env_build env) len crc fw o', m1)))"
proof -
  have "ota_slot_base_checked (inactive_slot (env_build env)) = Some (slot_addr (inactive_slot (env_build env)))"
    by (simp add: is_slot_base)
  then show ?thesis
    using slots_disjoint [of "env_build env"]
    unfolding begin_session_def Let_def armed_def inactive_slot_def [symmetric]
    by (auto split: option.split sum.split)
qed

definition opened :: "build \<Rightarrow> ota_st \<Rightarrow> ota_st \<Rightarrow> bool" where
  "opened b o' o1 \<longleftrightarrow> (\<exists>len crc fw. len \<noteq> 0 \<and> len \<le> OTA_SLOT_SIZE \<and> o1 = armed b len crc fw o')"

lemma openedI [intro]: "len \<noteq> 0 \<Longrightarrow> \<not> len > OTA_SLOT_SIZE \<Longrightarrow> opened b o' (armed b len crc fw o')"
  by (auto simp: opened_def not_less)

lemma h_begin_outcome:
  assumes "h_begin env req cap o' m = Some (st, rep, o1, m1)"
  shows "meta_only m m1 \<and> length rep \<le> min cap 3 \<and>
    (o1 = o' \<or> rejected o' o1 \<or> opened (env_build env) o' o1) \<and>
    (st = STATUS_OK \<longrightarrow> opened (env_build env) o' o1)"
proof (cases "length req < 8")
  case True
  then show ?thesis using assms by (auto simp: h_begin_def)
next
  case False
  then obtain fw where "begin_fields req = Some (le32_at req 0, le32_at req 4, fw)"
    using begin_fields_eq [of req] by auto
  then have s: "begin_session env (le32_at req 0) (le32_at req 4) fw cap o' m = Some (st, rep, o1, m1)"
    using assms False by (simp add: h_begin_def)
  show ?thesis
  proof (cases "le32_at req 0 = 0 \<or> le32_at req 0 > OTA_SLOT_SIZE")
    case True
    then show ?thesis using s by (auto simp: begin_session_eq)
  next
    case ok: False
    then obtain d where d: "begin_demote env (inactive_slot (env_build env)) o' m = Some d"
      using s by (auto simp: begin_session_eq split: option.splits)
    from begin_demote_outcome [OF d] show ?thesis
      using s d ok by (auto simp: begin_session_eq)
  qed
qed

section \<open>WRITE\<close>

text \<open>The accepted requests: a chunk whose embedded length agrees with the frame and fits the slot.\<close>

definition write_fits :: "bytes \<Rightarrow> u32 \<Rightarrow> bytes \<Rightarrow> bool" where
  "write_fits req off data \<longleftrightarrow> 5 \<le> length req \<and> off = le32_at req 0 \<and> data = drop 5 req \<and>
     data \<noteq> [] \<and> unat (req ! 4) = length data \<and> unat off + length data \<le> 0x36000 \<and> 8 dvd unat off"

lemma pad8_le: "n \<le> k \<Longrightarrow> 8 dvd k \<Longrightarrow> pad8 n \<le> k"
  by (auto simp: pad8_def elim!: dvdE)

lemma write_range:
  assumes "write_fits req off data"
  shows "unat (slot_addr s + off) = unat (slot_addr s) + unat off"
    and "unat (slot_addr s + off) + pad8 (length data) \<le> 0x08080000"
    and "in_range (slot_addr s + off) (pad8 (length data)) a \<Longrightarrow> in_range (slot_addr s) 0x36000 a"
    and "unat (off + of_nat (length data)) = unat off + length data"
proof -
  have o: "unat off + length data \<le> 0x36000" "8 dvd unat off" using assms by (auto simp: write_fits_def)
  have "pad8 (length data) \<le> 0x36000 - unat off"
    using o by (intro pad8_le) (auto intro: dvd_diff_nat)
  then have p: "unat off + pad8 (length data) \<le> 0x36000" using o by simp
  have b: "unat (slot_addr s) \<le> 0x08040000" by (simp add: slot_addr_def)
  show u: "unat (slot_addr s + off) = unat (slot_addr s) + unat off"
    using b o by (simp add: unat_word_ariths(1))
  show "unat (slot_addr s + off) + pad8 (length data) \<le> 0x08080000" using u b p by simp
  show "in_range (slot_addr s + off) (pad8 (length data)) a \<Longrightarrow> in_range (slot_addr s) 0x36000 a"
    using u p by (auto simp: in_range_def)
  show "unat (off + of_nat (length data)) = unat off + length data"
    using o by (simp add: unat_word_ariths(1) unat_of_nat)
qed

lemma not_in_range_slot:
  "\<not> (off > OTA_SLOT_SIZE \<or> of_nat n > OTA_SLOT_SIZE - off) \<longleftrightarrow> unat (off :: u32) + n \<le> 0x36000"
  if "n < 256" for n
proof -
  have "unat (of_nat n :: u32) = n" using that by (simp add: unat_of_nat)
  moreover have "unat (OTA_SLOT_SIZE - off) = 0x36000 - unat off" if "off \<le> OTA_SLOT_SIZE"
    using that by (simp add: unat_sub word_le_nat_alt)
  ultimately show ?thesis
    by (cases "off \<le> OTA_SLOT_SIZE") (auto simp: word_less_nat_alt word_le_nat_alt not_less)
qed

lemma h_write_eq:
  "h_write env req cap o' m =
     Some (if s_state o' \<noteq> OTA_ST_READY then (STATUS_NOT_READY, [], o', m)
           else if length req < 5 \<or> unat (req ! 4) = 0 \<or> unat (req ! 4) \<noteq> length req - 5
           then (STATUS_INVAL, [], o', m)
           else if \<not> unat (le32_at req 0) + unat (req ! 4) \<le> 0x36000
           then (STATUS_OUT_OF_RANGE, [], o'\<lparr>s_state := OTA_ST_ERROR, s_err := BRIDGE_OTA_ERR_CHUNK_RANGE\<rparr>, m)
           else if \<not> 8 dvd unat (le32_at req 0) then (STATUS_INVAL, [], o', m)
           else write_chunk env (le32_at req 0) (take (unat (req ! 4)) (drop 5 req)) cap o' m)"
proof -
  have "unat (req ! 4) < 256" using unsigned_less [of "req ! 4"] by simp
  note nr = not_in_range_slot [OF this, of "le32_at req 0"]
  show ?thesis unfolding h_write_def nr [symmetric] word_mod_8_dvd [symmetric] Let_def
    by (cases "length req < 5"; cases "unat (req ! 4) = 0") simp_all
qed

lemma write_chunk_eq:
  assumes "s_state o' = OTA_ST_READY" "s_inactive o' = inactive_slot b"
  shows "write_chunk env off data cap o' m =
     (let r = ota_fmc_program env (slot_addr (inactive_slot b) + off) data m
      in if off + of_nat (length data) \<le> s_last_off o'
         then (if fbytes (flash m) (slot_addr (inactive_slot b) + off) (length data) = data
               then (STATUS_OK, if cap \<ge> 4 then bytes32 (s_last_off o') else [], o', m)
               else (STATUS_IO, [], o'\<lparr>s_state := OTA_ST_ERROR, s_err := BRIDGE_OTA_ERR_PROGRAM_FAILED\<rparr>, m))
         else if fst r \<noteq> OTA_FMC_RESULT_OK
         then (if fst r = OTA_FMC_RESULT_TIMEOUT then STATUS_TIMEOUT else STATUS_IO, [],
               o'\<lparr>s_state := OTA_ST_ERROR, s_err := BRIDGE_OTA_ERR_PROGRAM_FAILED\<rparr>, snd r)
         else (STATUS_OK, if cap \<ge> 4 then bytes32 (off + of_nat (length data)) else [],
               o'\<lparr>s_last_off := off + of_nat (length data)\<rparr>, snd r))"
proof -
  have st: "o'\<lparr>s_state := OTA_ST_READY\<rparr> = o'" "o'\<lparr>s_last_off := v, s_state := OTA_ST_READY\<rparr> = o'\<lparr>s_last_off := v\<rparr>" for v
    using assms(1) by simp_all
  have base: "ota_inactive_base o' = slot_addr (inactive_slot b)"
    "ota_inactive_base (o'\<lparr>s_state := OTA_ST_BUSY\<rparr>) = slot_addr (inactive_slot b)"
    using assms(2) by simp_all
  show ?thesis
    unfolding write_chunk_def Let_def base st by (auto simp: st case_prod_beta not_le)
qed

text \<open>What a write can do to the session and the flash.\<close>

inductive write_effect :: "hw_env \<Rightarrow> bytes \<Rightarrow> ota_st \<Rightarrow> fmc_st \<Rightarrow> gd32_bridge_status \<Rightarrow> ota_st \<Rightarrow> fmc_st \<Rightarrow> bool"
  for env req o' m where
  unchanged: "st \<noteq> STATUS_OK \<Longrightarrow> write_effect env req o' m st o' m"
| replay: "write_fits req off data \<Longrightarrow> s_state o' = OTA_ST_READY \<Longrightarrow>
    off + of_nat (length data) \<le> s_last_off o' \<Longrightarrow>
    fbytes (flash m) (slot_addr (inactive_slot (env_build env)) + off) (length data) = data \<Longrightarrow>
    write_effect env req o' m STATUS_OK o' m"
| failed: "s_state o' = OTA_ST_READY \<Longrightarrow> st \<noteq> STATUS_OK \<Longrightarrow>
    write_effect env req o' m st (o'\<lparr>s_state := OTA_ST_ERROR, s_err := e\<rparr>) m"
| program_failed: "write_fits req off data \<Longrightarrow> s_state o' = OTA_ST_READY \<Longrightarrow> st \<noteq> STATUS_OK \<Longrightarrow>
    r = ota_fmc_program env (slot_addr (inactive_slot (env_build env)) + off) data m \<Longrightarrow>
    write_effect env req o' m st (o'\<lparr>s_state := OTA_ST_ERROR, s_err := BRIDGE_OTA_ERR_PROGRAM_FAILED\<rparr>) (snd r)"
| programmed: "write_fits req off data \<Longrightarrow> s_state o' = OTA_ST_READY \<Longrightarrow>
    \<not> off + of_nat (length data) \<le> s_last_off o' \<Longrightarrow>
    r = ota_fmc_program env (slot_addr (inactive_slot (env_build env)) + off) data m \<Longrightarrow>
    fst r = OTA_FMC_RESULT_OK \<Longrightarrow>
    write_effect env req o' m STATUS_OK (o'\<lparr>s_last_off := off + of_nat (length data)\<rparr>) (snd r)"

lemma h_write_effect:
  assumes "s_inactive o' = inactive_slot (env_build env)"
  shows "\<exists>st rep o1 m1. h_write env req cap o' m = Some (st, rep, o1, m1) \<and>
    write_effect env req o' m st o1 m1 \<and> length rep \<le> min cap 4"
proof (cases "s_state o' = OTA_ST_READY \<and> 5 \<le> length req \<and> unat (req ! 4) \<noteq> 0 \<and>
    unat (req ! 4) = length req - 5 \<and> unat (le32_at req 0) + unat (req ! 4) \<le> 0x36000 \<and>
    8 dvd unat (le32_at req 0)")
  case True
  define off where "off = le32_at req 0"
  define data where "data = take (unat (req ! 4)) (drop 5 req)"
  have wf: "write_fits req off data" and st: "s_state o' = OTA_ST_READY"
    using True by (auto simp: write_fits_def off_def data_def)
  have c: "\<not> s_state o' \<noteq> OTA_ST_READY"
    "\<not> (length req < 5 \<or> unat (req ! 4) = 0 \<or> unat (req ! 4) \<noteq> length req - 5)"
    "\<not> \<not> unat (le32_at req 0) + unat (req ! 4) \<le> 0x36000" "\<not> \<not> 8 dvd unat (le32_at req 0)"
    using True by auto
  have e: "h_write env req cap o' m = Some (write_chunk env off data cap o' m)"
    by (simp only: h_write_eq c if_False off_def data_def)
  note ws = write_effect.replay [OF wf st] write_effect.failed [OF st]
    write_effect.program_failed [OF wf st _ refl] write_effect.programmed [OF wf st _ refl]
  have "case write_chunk env off data cap o' m of (st, rep, o1, m1) \<Rightarrow>
      write_effect env req o' m st o1 m1 \<and> length rep \<le> min cap 4"
    unfolding write_chunk_eq [OF st assms] Let_def by (simp add: ws)
  then show ?thesis unfolding e by (auto split: prod.splits)
next
  case False
  then show ?thesis
    by (auto simp: h_write_eq not_less intro: write_effect.unchanged write_effect.failed)
qed

section \<open>COMMIT and ROLLBACK\<close>

lemma meta_current_record: "meta_current f = Some (r, w) \<Longrightarrow> r \<in> flash_records f \<and> meta_page w"
  by (auto simp: meta_current_def meta_pick_newest_def flash_records_def meta_page_def
      split: option.splits if_splits)

text \<open>Metadata whose records name one of the two slots.\<close>

definition meta_sane :: "flash \<Rightarrow> bool" where
  "meta_sane f \<longleftrightarrow> (\<forall>r \<in> flash_records f. is_slot (m_active_slot r))"

lemma slot_image_bootable: "\<exists>b. ota_image_bootable base (Some (slot_image m base len)) len = Some b"
  by (rule ota_image_bootable_defined) (simp add: slot_image_def)

lemma slot_image_capable: "\<exists>b. ota_image_trial_capable (Some (slot_image m base len)) len = Some b"
  by (rule ota_image_trial_capable_defined) (simp add: slot_image_def)

text \<open>The anti-rollback comparison of a commit.\<close>

definition below_floor :: "fmc_st \<Rightarrow> u32 \<Rightarrow> bool" where
  "below_floor m fw =
     (case meta_current (flash m) of
        None \<Rightarrow> False
      | Some (r, _) \<Rightarrow> (case ota_version_floor r of Some fl \<Rightarrow> fw < fl | None \<Rightarrow> False))"

lemma below_floor_eq:
  "(case meta_current (flash m) of
      None \<Rightarrow> Some False
    | Some (r, _) \<Rightarrow> do { fl \<leftarrow> ota_version_floor r; Some (fw < fl) }) = Some (below_floor m fw)"
proof (cases "meta_current (flash m)")
  case (Some p)
  then show ?thesis using ota_version_floor_defined [of "fst p"]
    by (auto simp: below_floor_def split: prod.splits)
qed (simp add: below_floor_def)

inductive commit_effect :: "hw_env \<Rightarrow> ota_st \<Rightarrow> fmc_st \<Rightarrow> gd32_bridge_status \<Rightarrow> ota_st \<Rightarrow> fmc_st \<Rightarrow> bool"
  for env o' m where
  not_ready: "s_state o' \<noteq> OTA_ST_VERIFIED \<Longrightarrow> commit_effect env o' m STATUS_NOT_READY o' m"
| refused: "s_state o' = OTA_ST_VERIFIED \<Longrightarrow> st \<noteq> STATUS_OK \<Longrightarrow>
    commit_effect env o' m st (o'\<lparr>s_state := OTA_ST_ERROR, s_err := e\<rparr>) m"
| failed: "s_state o' = OTA_ST_VERIFIED \<Longrightarrow>
    meta_commit env (s_inactive o') True (s_fw_version o') (s_img_len o') (s_img_crc o') OTA_META_FLAG_TRIAL 0 0xFF m =
      Some (False, m1) \<Longrightarrow>
    commit_effect env o' m STATUS_IO (o'\<lparr>s_state := OTA_ST_ERROR, s_err := BRIDGE_OTA_ERR_COMMIT_FAILED\<rparr>) m1"
| committed: "s_state o' = OTA_ST_VERIFIED \<Longrightarrow> s_img_len o' \<noteq> 0 \<Longrightarrow> s_img_len o' \<le> OTA_SLOT_SIZE \<Longrightarrow>
    ota_image_bootable (ota_inactive_base o') (Some (slot_image m (ota_inactive_base o') (s_img_len o'))) (s_img_len o') = Some True \<Longrightarrow>
    ota_image_trial_capable (Some (slot_image m (ota_inactive_base o') (s_img_len o'))) (s_img_len o') = Some True \<Longrightarrow>
    \<not> below_floor m (s_fw_version o') \<Longrightarrow>
    meta_commit env (s_inactive o') True (s_fw_version o') (s_img_len o') (s_img_crc o') OTA_META_FLAG_TRIAL 0 0xFF m =
      Some (True, m1) \<Longrightarrow>
    commit_effect env o' m STATUS_OK (ota_system_reset o') m1"

lemma meta_commit_is_slot:
  assumes "is_slot sl"
  shows "\<exists>ok s'. meta_commit env sl upd fw len crc flags ov ivs s = Some (ok, s')"
  by (rule meta_commit_defined) (use assms in \<open>simp add: is_slot_def\<close>)

lemma h_commit_effect:
  assumes "s_inactive o' = inactive_slot b"
  shows "\<exists>st o1 m1. h_commit env o' m = Some (st, [], o1, m1) \<and> commit_effect env o' m st o1 m1"
proof -
  let ?base = "ota_inactive_base o'" and ?len = "s_img_len o'"
  obtain bo where bo: "ota_image_bootable ?base (Some (slot_image m ?base ?len)) ?len = Some bo"
    using slot_image_bootable by blast
  obtain ca where ca: "ota_image_trial_capable (Some (slot_image m ?base ?len)) ?len = Some ca"
    using slot_image_capable by blast
  have "is_slot (s_inactive o')" using assms by simp
  then obtain ok m1 where mc: "meta_commit env (s_inactive o') True (s_fw_version o') ?len (s_img_crc o')
      OTA_META_FLAG_TRIAL 0 0xFF m = Some (ok, m1)"
    using meta_commit_is_slot by blast
  have eq: "h_commit env o' m =
     Some (if s_state o' \<noteq> OTA_ST_VERIFIED then (STATUS_NOT_READY, [], o', m)
           else if ?len = 0 \<or> ?len > OTA_SLOT_SIZE
           then (STATUS_INVAL, [], o'\<lparr>s_state := OTA_ST_ERROR, s_err := BRIDGE_OTA_ERR_SESSION_RANGE\<rparr>, m)
           else if \<not> bo then (STATUS_INVAL, [], o'\<lparr>s_state := OTA_ST_ERROR, s_err := BRIDGE_OTA_ERR_COMMIT_FAILED\<rparr>, m)
           else if \<not> ca then (STATUS_INVAL, [], o'\<lparr>s_state := OTA_ST_ERROR, s_err := BRIDGE_OTA_ERR_NOT_TRIAL_CAPABLE\<rparr>, m)
           else if below_floor m (s_fw_version o')
           then (STATUS_INVAL, [], o'\<lparr>s_state := OTA_ST_ERROR, s_err := BRIDGE_OTA_ERR_BELOW_FLOOR\<rparr>, m)
           else if ok then (STATUS_OK, [], ota_system_reset o', m1)
           else (STATUS_IO, [], o'\<lparr>s_state := OTA_ST_ERROR, s_err := BRIDGE_OTA_ERR_COMMIT_FAILED\<rparr>, m1))"
    unfolding h_commit_def Let_def below_floor_eq bo ca mc by simp
  have "case h_commit env o' m of None \<Rightarrow> False
    | Some (st, rep, o1, m1) \<Rightarrow> rep = [] \<and> commit_effect env o' m st o1 m1"
  proof (cases "s_state o' = OTA_ST_VERIFIED")
    case True
    note ce = commit_effect.refused [OF True] commit_effect.failed [OF True] commit_effect.committed [OF True]
    show ?thesis
      unfolding eq using bo ca mc True by (cases bo; cases ca; cases ok) (simp_all add: ce not_less)
  qed (simp add: eq commit_effect.not_ready)
  then show ?thesis by (auto split: option.splits)
qed

inductive rollback_effect :: "hw_env \<Rightarrow> ota_st \<Rightarrow> fmc_st \<Rightarrow> gd32_bridge_status \<Rightarrow> ota_st \<Rightarrow> fmc_st \<Rightarrow> bool"
  for env o' m where
  refused: "st \<noteq> STATUS_OK \<Longrightarrow> rollback_effect env o' m st o' m"
| below: "s_state o' = OTA_ST_IDLE \<or> s_state o' = OTA_ST_ERROR \<Longrightarrow>
    rollback_effect env o' m STATUS_INVAL (o'\<lparr>s_state := OTA_ST_ERROR, s_err := BRIDGE_OTA_ERR_BELOW_FLOOR\<rparr>) m"
| failed: "s_state o' = OTA_ST_IDLE \<or> s_state o' = OTA_ST_ERROR \<Longrightarrow> is_slot sl \<Longrightarrow>
    meta_commit env sl False 0 0 0 fl 0 0xFF m = Some (False, m1) \<Longrightarrow>
    rollback_effect env o' m STATUS_IO o' m1"
| rolled: "s_state o' = OTA_ST_IDLE \<or> s_state o' = OTA_ST_ERROR \<Longrightarrow>
    meta_current (flash m) = Some (cur, w) \<Longrightarrow> is_slot (m_active_slot cur) \<Longrightarrow>
    sl = other_slot (m_active_slot cur) \<Longrightarrow>
    slot_ok (flash m) (cur\<lparr>m_active_slot := sl\<rparr>) \<Longrightarrow>
    ota_version_floor cur = Some flr \<Longrightarrow> flr \<le> desc sl (m_fw_version cur) \<Longrightarrow>
    ota_image_trial_capable (Some (slot_image m (slot_addr sl) (desc sl (m_img_len cur)))) (desc sl (m_img_len cur)) = Some ca \<Longrightarrow>
    meta_commit env sl False 0 0 0 (if ca then OTA_META_FLAG_TRIAL else 0) 0 0xFF m = Some (True, m1) \<Longrightarrow>
    rollback_effect env o' m STATUS_OK (ota_system_reset o') m1"

lemma other_slot_facts:
  assumes "is_slot s"
  shows "is_slot (other_slot s)" "arr_get a (other_slot s) = Some (desc (other_slot s) a)"
    "shl1 (other_slot s) = Some (ucast (slot_bit (other_slot s)))"
    "ota_slot_base_checked (other_slot s) = Some (slot_addr (other_slot s))"
  using assms by (auto simp: is_slot_def other_slot_def desc_def slot_bit_def slot_addr_def)

lemma ucast_slot_bit [simp]: "ucast (ucast (slot_bit s) :: u32) = slot_bit s"
  by (simp add: slot_bit_def)

lemma h_rollback_effect:
  "\<exists>st o1 m1. h_rollback env o' m = Some (st, [], o1, m1) \<and> rollback_effect env o' m st o1 m1"
proof (cases "s_state o' \<noteq> OTA_ST_IDLE \<and> s_state o' \<noteq> OTA_ST_ERROR \<or> meta_current (flash m) = None")
  case True
  then show ?thesis by (auto simp: h_rollback_def Let_def intro: rollback_effect.refused)
next
  case False
  then obtain cur w where cur: "meta_current (flash m) = Some (cur, w)"
    and st: "s_state o' = OTA_ST_IDLE \<or> s_state o' = OTA_ST_ERROR" by auto
  show ?thesis
  proof (cases "is_slot (m_active_slot cur)")
    case False
    then show ?thesis using cur st
      by (auto simp: h_rollback_def Let_def is_slot_def intro: rollback_effect.refused)
  next
    case sl: True
    let ?sl = "other_slot (m_active_slot cur)"
    let ?len = "desc ?sl (m_img_len cur)" and ?crc = "desc ?sl (m_img_crc32 cur)"
    let ?img = "slot_image m (slot_addr ?sl) ?len"
    note of = other_slot_facts [OF sl]
    obtain flr where flr: "ota_version_floor cur = Some flr" using ota_version_floor_defined by blast
    obtain bo where bo: "ota_image_bootable (slot_addr ?sl) (Some ?img) ?len = Some bo"
      using slot_image_bootable by blast
    obtain ca where ca: "ota_image_trial_capable (Some ?img) ?len = Some ca" using slot_image_capable by blast
    obtain ok m1 where mc: "meta_commit env ?sl False 0 0 0 (if ca then OTA_META_FLAG_TRIAL else 0) 0 0xFF m = Some (ok, m1)"
      using meta_commit_is_slot [OF of(1)] by blast
    have na: "\<not> (m_active_slot cur \<noteq> OTA_SLOT_A \<and> m_active_slot cur \<noteq> OTA_SLOT_B)"
      using sl by (auto simp: is_slot_def)
    have ns: "\<not> (s_state o' \<noteq> OTA_ST_IDLE \<and> s_state o' \<noteq> OTA_ST_ERROR)" using st by blast
    have eq: "h_rollback env o' m = Some (
        if m_slot_valid cur AND slot_bit ?sl = 0 \<or> ?len = 0 \<or> ?len > OTA_SLOT_SIZE then (STATUS_INVAL, [], o', m)
        else if desc ?sl (m_fw_version cur) < flr
        then (STATUS_INVAL, [], o'\<lparr>s_state := OTA_ST_ERROR, s_err := BRIDGE_OTA_ERR_BELOW_FLOOR\<rparr>, m)
        else if ota_crc32 0 ?img \<noteq> ?crc \<or> \<not> bo then (STATUS_INVAL, [], o', m)
        else if ok then (STATUS_OK, [], ota_system_reset o', m1) else (STATUS_IO, [], o', m1))"
      unfolding h_rollback_def Let_def cur option.case prod.case if_not_P [OF na] if_not_P [OF ns]
      by (simp add: of flr bo ca mc)
    have okk: "slot_ok (flash m) (cur\<lparr>m_active_slot := ?sl\<rparr>)"
      if "m_slot_valid cur AND slot_bit ?sl \<noteq> 0" "?len \<noteq> 0" "\<not> ?len > OTA_SLOT_SIZE" "ota_crc32 0 ?img = ?crc" bo
      using that bo of(1) by (simp add: slot_ok_iff Let_def slot_image_def not_less)
    have "case h_rollback env o' m of None \<Rightarrow> False
      | Some (st, rep, o1, m1) \<Rightarrow> rep = [] \<and> rollback_effect env o' m st o1 m1"
      unfolding eq using mc okk
      by (cases ok)
         (simp_all add: rollback_effect.refused rollback_effect.below [OF st]
           rollback_effect.failed [OF st of(1)] rollback_effect.rolled [OF st cur sl refl _ flr _ ca] not_less)
    then show ?thesis by (auto split: option.splits)
  qed
qed

section \<open>Dispatch\<close>

inductive verify_effect :: "ota_st \<Rightarrow> fmc_st \<Rightarrow> ota_st \<Rightarrow> bool" for o' m where
  same: "verify_effect o' m o'"
| bad_range: "s_state o' = OTA_ST_READY \<Longrightarrow> verify_effect o' m (o'\<lparr>s_state := OTA_ST_ERROR, s_err := e\<rparr>)"
| bad_crc: "s_state o' = OTA_ST_READY \<Longrightarrow>
    verify_effect o' m (o'\<lparr>s_img_crc := crc, s_state := OTA_ST_ERROR, s_err := e\<rparr>)"
| good: "s_state o' = OTA_ST_READY \<Longrightarrow> s_img_len o' \<noteq> 0 \<Longrightarrow> s_img_len o' \<le> OTA_SLOT_SIZE \<Longrightarrow>
    ota_crc32 0 (slot_image m (ota_inactive_base o') (s_img_len o')) = s_expected_crc o' \<Longrightarrow>
    verify_effect o' m (o'\<lparr>s_img_crc := s_expected_crc o', s_state := OTA_ST_VERIFIED\<rparr>)"

lemma h_verify_effect:
  "\<exists>st rep o1. h_verify cap o' m = Some (st, rep, o1, m) \<and> verify_effect o' m o1 \<and> length rep \<le> min cap 5"
proof -
  have "case h_verify cap o' m of None \<Rightarrow> False
    | Some (st, rep, o1, m1) \<Rightarrow> m1 = m \<and> verify_effect o' m o1 \<and> length rep \<le> min cap 5"
    by (cases "s_state o' = OTA_ST_READY")
       (simp_all add: h_verify_def verify_effect.intros Let_def not_less)
  then show ?thesis by (auto split: option.splits)
qed

text \<open>
  Every outcome of a dispatched update opcode, one rule per handler.  The invariants below are
  proved by cases on this relation.
\<close>

inductive ota_effect :: "hw_env \<Rightarrow> u8 \<Rightarrow> bytes \<Rightarrow> ota_st \<Rightarrow> fmc_st \<Rightarrow> gd32_bridge_status \<Rightarrow> ota_st \<Rightarrow> fmc_st \<Rightarrow> bool"
  for env cmd req o' m where
  same: "ota_effect env cmd req o' m st o' m"
| begun: "cmd = CMD_OTA_BEGIN \<Longrightarrow> meta_only m m1 \<Longrightarrow>
    o1 = o' \<or> rejected o' o1 \<or> opened (env_build env) o' o1 \<Longrightarrow> ota_effect env cmd req o' m st o1 m1"
| written: "cmd = CMD_OTA_WRITE_CHUNK \<Longrightarrow> write_effect env req o' m st o1 m1 \<Longrightarrow> ota_effect env cmd req o' m st o1 m1"
| verified: "cmd = CMD_OTA_VERIFY \<Longrightarrow> verify_effect o' m o1 \<Longrightarrow> ota_effect env cmd req o' m st o1 m"
| committed: "cmd = CMD_OTA_COMMIT \<Longrightarrow> commit_effect env o' m st o1 m1 \<Longrightarrow> ota_effect env cmd req o' m st o1 m1"
| rolled: "cmd = CMD_OTA_ROLLBACK \<Longrightarrow> rollback_effect env o' m st o1 m1 \<Longrightarrow> ota_effect env cmd req o' m st o1 m1"
| aborted: "cmd = CMD_OTA_ABORT \<Longrightarrow> ota_effect env cmd req o' m st (h_abort o') m"

lemma h_begin_defined:
  assumes "meta_sane (flash m)"
  shows "\<exists>r. h_begin env req cap o' m = Some r"
proof (cases "length req < 8")
  case False
  have "\<exists>d. begin_demote env ina o' m = Some d" for ina
  proof (cases "meta_current (flash m)")
    case (Some p)
    obtain cur w where p: "p = (cur, w)" by fastforce
    then have "is_slot (m_active_slot cur)"
      using assms meta_current_record [of "flash m" cur w] Some by (auto simp: meta_sane_def)
    from meta_commit_is_slot [OF this] obtain ok m1 where
      "meta_commit env (m_active_slot cur) False 0 0 0 (m_flags cur) 0 ina m = Some (ok, m1)" by blast
    then show ?thesis using Some p by (auto simp: begin_demote_def)
  qed (simp add: begin_demote_def)
  then obtain d where "begin_demote env (inactive_slot (env_build env)) o' m = Some d" by blast
  moreover obtain fw where "begin_fields req = Some (le32_at req 0, le32_at req 4, fw)"
    using begin_fields_eq [of req] False by auto
  ultimately show ?thesis using False
    by (auto simp: h_begin_def begin_session_eq split: sum.split)
qed (simp add: h_begin_def)

lemma ota_dispatch_effect:
  assumes "ota_dispatch env cmd req cap o' m = Some (st, rep, o1, m1)"
    and "s_inactive o' = inactive_slot (env_build env)"
  shows "ota_effect env cmd req o' m st o1 m1 \<and> length rep \<le> min cap 6"
proof -
  consider (beg) "cmd = CMD_OTA_BEGIN" "h_begin env req cap o' m = Some (st, rep, o1, m1)"
    | (wr) "cmd = CMD_OTA_WRITE_CHUNK" "h_write env req cap o' m = Some (st, rep, o1, m1)"
    | (ver) "cmd = CMD_OTA_VERIFY" "h_verify cap o' m = Some (st, rep, o1, m1)"
    | (com) "cmd = CMD_OTA_COMMIT" "h_commit env o' m = Some (st, rep, o1, m1)"
    | (rol) "cmd = CMD_OTA_ROLLBACK" "h_rollback env o' m = Some (st, rep, o1, m1)"
    | (get) "h_get_state env cap o' m = Some (st, rep, o1, m1)"
    | (abo) "cmd = CMD_OTA_ABORT" "o1 = h_abort o'" "m1 = m" "rep = []"
    | (non) "o1 = o'" "m1 = m" "rep = []"
    using assms(1) by (auto simp: ota_dispatch_def split: if_splits)
  then show ?thesis
  proof cases
    case beg
    then show ?thesis using h_begin_outcome [OF beg(2)] by (auto intro: ota_effect.begun)
  next
    case wr
    then show ?thesis using h_write_effect [OF assms(2), of req cap m] by (auto intro: ota_effect.written)
  next
    case ver
    then show ?thesis using h_verify_effect [of cap o' m] by (auto intro: ota_effect.verified)
  next
    case com
    then show ?thesis using h_commit_effect [OF assms(2), of env m] by (auto intro: ota_effect.committed)
  next
    case rol
    then show ?thesis using h_rollback_effect [of env o' m] by (auto intro: ota_effect.rolled)
  qed (auto simp: h_get_state_def Let_def intro: ota_effect.same ota_effect.aborted)
qed

lemma ota_dispatch_defined:
  assumes "meta_sane (flash m)" "s_inactive o' = inactive_slot (env_build env)"
  shows "\<exists>r. ota_dispatch env cmd req cap o' m = Some r"
  using h_begin_defined [OF assms(1), of env req cap o'] h_write_effect [OF assms(2), of req cap m]
    h_verify_effect [of cap o' m] h_commit_effect [OF assms(2), of env m] h_rollback_effect [of env o' m]
  by (auto simp: ota_dispatch_def h_get_state_def Let_def)

end
