(* ===== verification/Ota_Machine.thy ===== *)
theory Ota_Machine
  imports Ota_Session
begin

unbundle bit_operations_syntax

text \<open>
  The update subsystem as a transition system.  Transport interrupts run opcode handlers, the
  main loop runs the erase pump, the confirm tick and the boot-configuration tick, and handlers
  may run between the two critical sections of an erase tick, while the page erase is under way
  and the funnel is owned.  The flash effect of that erase is applied when it ends: a handler
  that runs meanwhile cannot change flash, its operations being refused by the interlock.

  The session invariant is proved over every reachable state of this system: what READY and
  VERIFIED mean for the flash, and that no stale tick can revive an aborted or rejected session.
  A tick in flight counts the handlers run since its snapshot; the 32-bit epoch cannot come round
  to its old value as long as there are fewer than \<open>2 ^ 32\<close> of them within one page erase.
\<close>

section \<open>States and steps\<close>

record mach =
  mo :: ota_st
  mf :: fmc_st
  mc :: cfg_st
  mfl :: "((u32 \<times> u32 \<times> u32) \<times> nat) option"

definition bump :: "(('a \<times> nat) option) \<Rightarrow> ('a \<times> nat) option" where
  "bump fl = map_option (\<lambda>(t, n). (t, Suc n)) fl"

inductive fw_step :: "hw_env \<Rightarrow> mach \<Rightarrow> mach \<Rightarrow> bool" for env where
  isr_ota: "ota_dispatch env cmd req cap (mo s) (mf s) = Some (st, rep, o1, m1) \<Longrightarrow>
    (\<And>t n. mfl s = Some (t, n) \<Longrightarrow> Suc n < 2 ^ 32) \<Longrightarrow>
    fw_step env s (s\<lparr>mo := o1, mf := m1, mfl := bump (mfl s)\<rparr>)"
| isr_frame: "fw_step env s (s\<lparr>mo := ota_note_frame (mo s)\<rparr>)"
| isr_config: "fw_step env s (s\<lparr>mc := snd (boot_config_request fl (mc s))\<rparr>)"
| tick_start: "mfl s = None \<Longrightarrow> erase_snapshot (mo s) = Some t \<Longrightarrow>
    fw_step env s (s\<lparr>mf := (mf s)\<lparr>s_fmc_owned := True\<rparr>, mfl := Some (t, 0)\<rparr>)"
| tick_end: "mfl s = Some ((ep, at, e), n) \<Longrightarrow>
    ota_fmc_erase_range env at OTA_PAGE_SIZE ((mf s)\<lparr>s_fmc_owned := False\<rparr>) = (r, m1) \<Longrightarrow>
    fw_step env s (s\<lparr>mo := erase_publish (ep, at, e) r (mo s), mf := m1, mfl := None\<rparr>)"
| confirm: "mfl s = None \<Longrightarrow> ota_confirm_tick env (mo s) (mf s) = Some (o1, m1) \<Longrightarrow>
    fw_step env s (s\<lparr>mo := o1, mf := m1\<rparr>)"
| config_tick: "mfl s = None \<Longrightarrow>
    boot_config_tick env (ota_erase_active (mo s)) (mc s) (mf s) = (c1, m1) \<Longrightarrow>
    fw_step env s (s\<lparr>mc := c1, mf := m1\<rparr>)"

definition mach_init :: "hw_env \<Rightarrow> mach \<Rightarrow> bool" where
  "mach_init env s \<longleftrightarrow> mfl s = None \<and>
     (\<exists>m. \<not> s_fmc_owned m \<and> ota_boot_init env (ota_reset (env_build env)) m = Some (mo s, mf s))"

section \<open>Invariant\<close>

abbreviation (input) ibase :: "build \<Rightarrow> u32" where
  "ibase b \<equiv> slot_addr (inactive_slot b)"

text \<open>Offsets \<open>lo .. hi\<close> of the inactive slot read erased, when the hardware is honest.  The
  other parts of the invariant hold on any hardware.\<close>

definition blank :: "bool \<Rightarrow> build \<Rightarrow> flash \<Rightarrow> nat \<Rightarrow> nat \<Rightarrow> bool" where
  "blank hon b f lo hi \<longleftrightarrow> (hon \<longrightarrow> (\<forall>i. lo \<le> i \<and> i < hi \<longrightarrow> f (ibase b + of_nat i) = 0xFF))"

definition len_ok :: "ota_st \<Rightarrow> bool" where
  "len_ok o' \<longleftrightarrow> s_img_len o' \<noteq> 0 \<and> s_img_len o' \<le> OTA_SLOT_SIZE"

text \<open>An armed erase has blanked the slot up to the page it is about to erase.\<close>

definition walking :: "bool \<Rightarrow> build \<Rightarrow> ota_st \<Rightarrow> flash \<Rightarrow> bool" where
  "walking hon b o' f \<longleftrightarrow> (s_state o' = OTA_ST_BUSY \<or> s_state o' = OTA_ST_ERROR) \<and> len_ok o' \<and> s_last_off o' = 0 \<and>
     s_erase_end o' = ibase b + OTA_SLOT_SIZE \<and>
     (\<exists>k < 108. s_erase_at o' = ibase b + of_nat (2048 * k) \<and> blank hon b f 0 (2048 * k))"

definition sess_inv :: "bool \<Rightarrow> build \<Rightarrow> ota_st \<Rightarrow> flash \<Rightarrow> bool" where
  "sess_inv hon b o' f \<longleftrightarrow> s_inactive o' = inactive_slot b \<and>
     (s_state o' = OTA_ST_READY \<longrightarrow> \<not> s_erasing o' \<and> len_ok o' \<and> unat (s_last_off o') \<le> 0x36000 \<and>
        blank hon b f (pad8 (unat (s_last_off o'))) 0x36000) \<and>
     (s_state o' = OTA_ST_VERIFIED \<longrightarrow> \<not> s_erasing o' \<and> len_ok o' \<and> s_img_crc o' = s_expected_crc o' \<and>
        ota_crc32 0 (fbytes f (ibase b) (unat (s_img_len o'))) = s_expected_crc o') \<and>
     (s_state o' = OTA_ST_BUSY \<longrightarrow> s_erasing o') \<and>
     (s_erasing o' \<longrightarrow> walking hon b o' f)"

text \<open>
  While a tick is in flight the funnel is owned, the session is not READY or VERIFIED, and the
  session still has the snapshot's epoch only if it still stands at the snapshot's page.
\<close>

definition flight_inv :: "build \<Rightarrow> ota_st \<Rightarrow> fmc_st \<Rightarrow> ((u32 \<times> u32 \<times> u32) \<times> nat) option \<Rightarrow> bool" where
  "flight_inv b o' m fl \<longleftrightarrow>
     (case fl of
        None \<Rightarrow> \<not> s_fmc_owned m
      | Some ((ep, at, e), n) \<Rightarrow>
          s_fmc_owned m \<and> n < 2 ^ 32 \<and> e = ibase b + OTA_SLOT_SIZE \<and>
          s_state o' \<noteq> OTA_ST_READY \<and> s_state o' \<noteq> OTA_ST_VERIFIED \<and>
          (\<exists>k < 108. at = ibase b + of_nat (2048 * k) \<and>
             (s_erasing o' \<longrightarrow> unat (s_erase_at o') \<le> unat at)) \<and>
          (\<exists>j \<le> n. s_erase_epoch o' = ep + of_nat j \<and> (j = 0 \<and> s_erasing o' \<longrightarrow> s_erase_at o' = at)))"

definition mach_inv :: "hw_env \<Rightarrow> mach \<Rightarrow> bool" where
  "mach_inv env s \<longleftrightarrow> sess_inv (hw_honest env) (env_build env) (mo s) (flash (mf s)) \<and>
     flight_inv (env_build env) (mo s) (mf s) (mfl s)"

lemma unat_slot_page:
  assumes "i \<le> 0x36000"
  shows "unat (slot_addr s + of_nat i) = unat (slot_addr s) + i"
  using assms by (simp add: slot_addr_def unat_word_ariths(1) unat_of_nat)

lemma blank_cong:
  assumes "\<And>a. in_range (ibase b) 0x36000 a \<Longrightarrow> f a = g a" "hi \<le> 0x36000"
  shows "blank hon b f lo hi = blank hon b g lo hi"
  using assms slot_addr_range by (auto simp: blank_def)

lemma sess_inv_flash:
  assumes "\<And>a. in_range (ibase b) 0x36000 a \<Longrightarrow> f a = g a"
  shows "sess_inv hon b o' f = sess_inv hon b o' g"
proof -
  have w: "walking hon b o' f = walking hon b o' g"
    unfolding walking_def
    by (intro conj_cong refl ex_cong1) (auto simp: blank_cong [OF assms])
  have "fbytes f (ibase b) (unat (s_img_len o')) = fbytes g (ibase b) (unat (s_img_len o'))" if "len_ok o'"
    by (rule fbytes_cong) (use that assms slot_addr_range in \<open>auto simp: len_ok_def word_le_nat_alt\<close>)
  then show ?thesis
    unfolding sess_inv_def w using blank_cong [OF assms, where hi = "0x36000"] by auto
qed

lemma sess_inv_meta_only: "meta_only m m' \<Longrightarrow> sess_inv hon b o' (flash m') = sess_inv hon b o' (flash m)"
  by (rule sess_inv_flash) (rule meta_only_slot_flash)

section \<open>Handlers keep the invariant\<close>

lemma sess_inv_idle:
  assumes "sess_inv hon b o' f" "s_state o1 = OTA_ST_IDLE \<or> s_state o1 = OTA_ST_ERROR"
    and "s_inactive o1 = s_inactive o'" "\<not> s_erasing o1"
  shows "sess_inv hon b o1 g"
  using assms by (auto simp: sess_inv_def)

lemma sess_inv_reject:
  assumes "sess_inv hon b o' f" "rejected o' o1"
  shows "sess_inv hon b o1 f"
  using assms by (auto simp: sess_inv_def rejected_def ota_session_reject_def walking_def len_ok_def)

lemma sess_inv_opened:
  assumes "opened b o' o1"
  shows "sess_inv hon b o1 f"
proof -
  obtain len crc fw where o: "len \<noteq> 0" "len \<le> OTA_SLOT_SIZE" "o1 = armed b len crc fw o'"
    using assms by (auto simp: opened_def)
  have "walking hon b o1 f"
    using o by (auto simp: walking_def armed_def begin_arm_def len_ok_def blank_def intro!: exI [of _ 0])
  then show ?thesis using o by (simp add: sess_inv_def armed_def begin_arm_def)
qed

lemma pad8_add: "8 dvd a \<Longrightarrow> pad8 (a + n) = a + pad8 n"
proof (elim dvdE)
  fix k assume "a = 8 * k"
  moreover have "(n + 7 + k * 8) div 8 = (n + 7) div 8 + k" by simp
  ultimately show ?thesis by (simp add: pad8_def algebra_simps)
qed

lemma pad8_mono: "m \<le> n \<Longrightarrow> pad8 m \<le> pad8 n"
  by (auto simp: pad8_def intro: div_le_mono)

lemma sess_inv_programmed:
  assumes "sess_inv hon b o' (flash m)" "write_fits req off data" "s_state o' = OTA_ST_READY"
    and "\<not> off + of_nat (length data) \<le> s_last_off o'" "env_build env = b"
    and "r = ota_fmc_program env (ibase b + off) data m"
  shows "sess_inv hon b (o'\<lparr>s_last_off := off + of_nat (length data)\<rparr>) (flash (snd r))"
proof -
  note wr = write_range(1,2) [OF assms(2), where s = "inactive_slot b"] write_range(4) [OF assms(2)]
  have o8: "8 dvd unat off" and le: "unat off + length data \<le> 0x36000" using assms(2) by (auto simp: write_fits_def)
  have last: "unat (s_last_off o') \<le> unat off + length data"
    using assms(4) wr(3) by (simp add: not_le word_less_nat_alt)
  have fr: "flash (snd r) a = flash m a" if "\<not> in_range (ibase b + off) (pad8 (length data)) a" for a
    using fmc.prog_frame [OF wr(2), of env a m] that assms(6) by simp
  have bl: "blank hon b (flash m) (pad8 (unat (s_last_off o'))) 0x36000"
    using assms(1,3) by (simp add: sess_inv_def)
  have "blank hon b (flash (snd r)) (pad8 (unat off + length data)) 0x36000"
    unfolding blank_def
  proof (intro allI impI)
    fix i assume hon and i: "pad8 (unat off + length data) \<le> i \<and> i < 0x36000"
    have u: "unat (ibase b + of_nat i) = unat (ibase b) + i" using unat_slot_page i by simp
    have "\<not> in_range (ibase b + off) (pad8 (length data)) (ibase b + of_nat i)"
      using i u wr(1) pad8_add [OF o8, of "length data"] by (auto simp: in_range_def)
    moreover have "pad8 (unat (s_last_off o')) \<le> i" using pad8_mono [OF last] i by simp
    ultimately show "flash (snd r) (ibase b + of_nat i) = 0xFF" using fr bl i \<open>hon\<close> by (simp add: blank_def)
  qed
  then show ?thesis using assms(1,3) wr(3) le by (simp add: sess_inv_def len_ok_def)
qed

lemma sess_inv_write:
  assumes "sess_inv hon b o' (flash m)" "write_effect env req o' m st o1 m1" "env_build env = b"
  shows "sess_inv hon b o1 (flash m1)"
  using assms(2)
proof cases
  case (programmed off data r)
  then show ?thesis using sess_inv_programmed [OF assms(1)] assms(3) by simp
next
  case (program_failed off data r)
  then show ?thesis using assms(1) by (intro sess_inv_idle [OF assms(1)]) (auto simp: sess_inv_def)
next
  case (failed e)
  then show ?thesis using assms(1) by (intro sess_inv_idle [OF assms(1)]) (auto simp: sess_inv_def)
qed (use assms(1) in auto)

lemma sess_inv_verify:
  assumes "sess_inv hon b o' (flash m)" "verify_effect o' m o1"
  shows "sess_inv hon b o1 (flash m)"
  using assms(2)
proof cases
  case good
  then show ?thesis using assms(1) by (auto simp: sess_inv_def len_ok_def slot_image_def)
qed (use assms(1) in \<open>auto intro: sess_inv_idle simp: sess_inv_def\<close>)

lemma sess_inv_commit:
  assumes "sess_inv hon b o' (flash m)" "commit_effect env o' m st o1 m1"
  shows "sess_inv hon b o1 (flash m1)"
  using assms(2)
proof cases
  case (failed)
  then show ?thesis using assms(1) by (intro sess_inv_idle [OF assms(1)]) (auto simp: sess_inv_def)
next
  case (committed)
  have "sess_inv hon b (ota_system_reset o') f = sess_inv hon b o' f" for f
    by (simp add: sess_inv_def ota_system_reset_def walking_def len_ok_def)
  then show ?thesis
    using committed sess_inv_meta_only [OF meta_commit_meta_only [OF committed(9)]] assms(1) by simp
qed (use assms(1) in \<open>auto intro: sess_inv_idle simp: sess_inv_def\<close>)

lemma sess_inv_rollback:
  assumes "sess_inv hon b o' (flash m)" "rollback_effect env o' m st o1 m1"
  shows "sess_inv hon b o1 (flash m1)"
  using assms(2)
proof cases
  case below
  then show ?thesis using assms(1)
    by (auto simp: sess_inv_def walking_def len_ok_def)
next
  case (failed sl fl)
  then show ?thesis using sess_inv_meta_only [OF meta_commit_meta_only [OF failed(5)]] assms(1) by simp
next
  case (rolled cur w sl flr ca)
  have "sess_inv hon b (ota_system_reset o') f = sess_inv hon b o' f" for f
    by (simp add: sess_inv_def ota_system_reset_def walking_def len_ok_def)
  then show ?thesis
    using rolled sess_inv_meta_only [OF meta_commit_meta_only [OF rolled(11)]] assms(1) by simp
qed (use assms(1) in auto)

lemma sess_inv_effect:
  assumes "sess_inv hon b o' (flash m)" "ota_effect env cmd req o' m st o1 m1" "env_build env = b"
  shows "sess_inv hon b o1 (flash m1)"
  using assms(2)
proof cases
  case begun
  have "sess_inv hon b o1 (flash m)"
    using begun(3) assms sess_inv_reject sess_inv_opened by auto
  then show ?thesis using sess_inv_meta_only [OF begun(2)] by simp
next
  case written
  then show ?thesis using sess_inv_write assms(1,3) by blast
next
  case verified
  then show ?thesis using sess_inv_verify assms(1) by blast
next
  case committed
  then show ?thesis using sess_inv_commit assms(1) by blast
next
  case rolled
  then show ?thesis using sess_inv_rollback assms(1) by blast
next
  case aborted
  then show ?thesis by (intro sess_inv_idle [OF assms(1)]) (auto simp: h_abort_def)
qed (use assms(1) in auto)

section \<open>The erase in flight\<close>

lemma commit_effect_keeps:
  "commit_effect env o' m st o1 m1 \<Longrightarrow> s_state o' \<noteq> OTA_ST_VERIFIED \<Longrightarrow> o1 = o' \<and> m1 = m"
  by (cases rule: commit_effect.cases) auto

lemma effect_keep:
  assumes "ota_effect env cmd req o' m st o1 m1"
  shows "fmc_keep m m1"
  using assms
proof cases
  case written
  note pf = program_frame [OF write_range(2)]
  from written(2) show ?thesis by cases (auto intro: pf [THEN conjunct2])
next
  case committed
  from committed(2) show ?thesis
    by cases (auto dest!: meta_commit_meta_only simp: meta_only_def)
next
  case rolled
  from rolled(2) show ?thesis
    by cases (auto dest!: meta_commit_meta_only simp: meta_only_def)
qed (auto simp: meta_only_def)

text \<open>A handler either leaves the erase position alone or advances the epoch.\<close>

lemma effect_epoch:
  assumes "ota_effect env cmd req o' m st o1 m1"
    and "s_state o' \<noteq> OTA_ST_READY" "s_state o' \<noteq> OTA_ST_VERIFIED"
  shows "s_state o1 \<noteq> OTA_ST_READY \<and> s_state o1 \<noteq> OTA_ST_VERIFIED \<and>
    ((s_erase_epoch o1 = s_erase_epoch o' \<and> s_erasing o1 = s_erasing o' \<and> s_erase_at o1 = s_erase_at o') \<or>
     (s_erase_epoch o1 = s_erase_epoch o' + 1 \<and>
      (s_erasing o1 \<longrightarrow> s_erasing o' \<and> s_erase_at o1 = s_erase_at o' \<or> s_erase_at o1 = ibase (env_build env))))"
  using assms(1)
proof cases
  case begun
  then show ?thesis using assms(2,3)
    by (auto simp: rejected_def ota_session_reject_def opened_def armed_def begin_arm_def)
next
  case written
  from written(2) show ?thesis using assms(2,3) by cases auto
next
  case verified
  from verified(3) show ?thesis using assms(2,3) by cases auto
next
  case committed
  then show ?thesis using commit_effect_keeps [OF committed(2) assms(3)] assms(2,3) by simp
next
  case rolled
  from rolled(2) show ?thesis using assms(2,3) by cases (auto simp: ota_system_reset_def)
qed (use assms(2,3) in \<open>auto simp: h_abort_def\<close>)

lemma flight_inv_effect:
  assumes "ota_effect env cmd req o' m st o1 m1" "flight_inv b o' m fl" "env_build env = b"
    and "\<And>t n. fl = Some (t, n) \<Longrightarrow> Suc n < 2 ^ 32"
  shows "flight_inv b o1 m1 (bump fl)"
proof (cases fl)
  case None
  then show ?thesis using assms(2) effect_keep [OF assms(1)] by (simp add: flight_inv_def bump_def fmc_keep_def)
next
  case (Some p)
  obtain ep at e n where p: "p = ((ep, at, e), n)" by (metis prod.exhaust)
  from assms(2) Some p obtain k j where f: "s_fmc_owned m" "e = ibase b + OTA_SLOT_SIZE"
    "s_state o' \<noteq> OTA_ST_READY" "s_state o' \<noteq> OTA_ST_VERIFIED"
    "k < 108" "at = ibase b + of_nat (2048 * k)" "s_erasing o' \<longrightarrow> unat (s_erase_at o') \<le> unat at"
    "j \<le> n" "s_erase_epoch o' = ep + of_nat j" "j = 0 \<and> s_erasing o' \<longrightarrow> s_erase_at o' = at"
    by (auto simp: flight_inv_def)
  have le: "unat (ibase b) \<le> unat at" using f(5,6) unat_slot_page [of "2048 * k"] by simp
  note e = effect_epoch [OF assms(1) f(3,4)]
  have n: "Suc n < 2 ^ 32" and o: "s_fmc_owned m1"
    using assms(4) Some p effect_keep [OF assms(1)] f(1) by (auto simp: fmc_keep_def)
  have c1: "\<exists>k < 108. at = ibase b + of_nat (2048 * k) \<and> (s_erasing o1 \<longrightarrow> unat (s_erase_at o1) \<le> unat at)"
    using e f(5-7) le assms(3) by (intro exI [of _ k]) auto
  have c2: "\<exists>j \<le> Suc n. s_erase_epoch o1 = ep + of_nat j \<and> (j = 0 \<and> s_erasing o1 \<longrightarrow> s_erase_at o1 = at)"
  proof (cases "s_erase_epoch o1 = s_erase_epoch o'")
    case True
    then show ?thesis using e f(8-10) by (intro exI [of _ j]) auto
  next
    case False
    then show ?thesis using e f(8-10) by (intro exI [of _ "Suc j"]) auto
  qed
  show ?thesis using n o e c1 c2 f(2) Some p by (simp add: flight_inv_def bump_def)
qed

section \<open>The end of an erase\<close>

lemma page_in_slot:
  assumes "k < 108" "at = ibase b + of_nat (2048 * k)"
  shows "in_flash at 2048" "unat at = unat (ibase b) + 2048 * k"
    and "in_range at 2048 a \<Longrightarrow> in_range (ibase b) 0x36000 a"
proof -
  show u: "unat at = unat (ibase b) + 2048 * k"
    unfolding assms(2) by (rule unat_slot_page) (use assms(1) in simp)
  then show "in_flash at 2048" using assms(1) by (simp add: in_flash_def slot_addr_def)
  show "in_range at 2048 a \<Longrightarrow> in_range (ibase b) 0x36000 a" using u assms(1) by (auto simp: in_range_def)
qed

lemma blank_erase:
  assumes "k < 108" "at = ibase b + of_nat (2048 * k)" "blank (hw_honest env) b (flash m) 0 (2048 * i)" "i \<le> k"
    and "ota_fmc_erase_range env at OTA_PAGE_SIZE m = (r, m1)"
  shows "blank (hw_honest env) b (flash m1) 0 (2048 * i)"
    and "i = k \<Longrightarrow> r = OTA_FMC_RESULT_OK \<Longrightarrow> blank (hw_honest env) b (flash m1) 0 (2048 * Suc k)"
proof -
  note pg = page_in_slot [OF assms(1,2)]
  have fr: "flash m1 a = flash m a" if "\<not> in_range at 2048 a" for a
    using fmc.erase_frame [of at OTA_PAGE_SIZE env a m] pg(1) that assms(5) by simp
  have lo: "\<not> in_range at 2048 (ibase b + of_nat l)" if "l < 2048 * i" for l
    using that pg(2) assms(1,4) unat_slot_page [of l] by (auto simp: in_range_def)
  show bl: "blank (hw_honest env) b (flash m1) 0 (2048 * i)"
    using assms(3) fr lo by (auto simp: blank_def)
  assume i: "i = k" and r: "r = OTA_FMC_RESULT_OK"
  show "blank (hw_honest env) b (flash m1) 0 (2048 * Suc k)"
    unfolding blank_def
  proof (intro impI allI)
    fix l assume h: "hw_honest env" and l: "0 \<le> l \<and> l < 2048 * Suc k"
    show "flash m1 (ibase b + of_nat l) = 0xFF"
    proof (cases "l < 2048 * k")
      case True
      then show ?thesis using bl h i by (simp add: blank_def)
    next
      case False
      then have "in_range at 2048 (ibase b + of_nat l)"
        using l pg(2) assms(1) unat_slot_page [of l] by (auto simp: in_range_def)
      then show ?thesis using fmc.erase_ok [OF h, of at OTA_PAGE_SIZE m] pg(1) assms(5) r by simp
    qed
  qed
qed

lemma sess_inv_published:
  assumes "walking hon b o' f" "k < 108" "at = ibase b + of_nat (2048 * k)" "s_erasing o'"
    and "s_inactive o' = inactive_slot b" "e = ibase b + OTA_SLOT_SIZE"
    and "r = OTA_FMC_RESULT_OK \<Longrightarrow> blank hon b g 0 (2048 * Suc k)"
  shows "sess_inv hon b (erase_publish (s_erase_epoch o', at, e) r o') g"
proof (cases "r = OTA_FMC_RESULT_OK")
  case False
  then show ?thesis using assms(4,5) by (simp add: erase_publish_def sess_inv_def)
next
  case True
  have st: "s_state o' = OTA_ST_BUSY \<or> s_state o' = OTA_ST_ERROR" "len_ok o'" "s_last_off o' = 0"
    "s_erase_end o' = e" using assms(1,6) by (auto simp: walking_def)
  have at: "at + OTA_PAGE_SIZE = ibase b + of_nat (2048 * Suc k)" using assms(3) by simp
  have cmp: "at + OTA_PAGE_SIZE \<ge> e \<longleftrightarrow> Suc k = 108"
    using assms(2) unat_slot_page [of "2048 * Suc k" "inactive_slot b"] unat_slot_page [of "0x36000" "inactive_slot b"]
    unfolding at assms(6) by (auto simp: word_le_nat_alt simp del: of_nat_mult of_nat_Suc)
  note bl = assms(7) [OF True]
  show ?thesis
  proof (cases "Suc k = 108")
    case last: True
    then have "blank hon b g 0 0x36000" using bl by simp
    then show ?thesis using True last cmp assms(4,5) st
      by (auto simp: erase_publish_def sess_inv_def len_ok_def Let_def)
  next
    case False
    then have "walking hon b (o'\<lparr>s_erase_at := at + OTA_PAGE_SIZE\<rparr>) g"
      using st bl at assms(2,6) by (auto simp: walking_def len_ok_def intro!: exI [of _ "Suc k"])
    then show ?thesis using True False cmp assms(4,5) st
      by (auto simp: erase_publish_def sess_inv_def Let_def)
  qed
qed

lemma sess_inv_publish:
  assumes "sess_inv (hw_honest env) b o' (flash m)" "flight_inv b o' m0 (Some ((ep, at, e), n))"
    and "ota_fmc_erase_range env at OTA_PAGE_SIZE m = (r, m1)"
  shows "sess_inv (hw_honest env) b (erase_publish (ep, at, e) r o') (flash m1)"
proof -
  from assms(2) obtain k j where f: "n < 2 ^ 32" "e = ibase b + OTA_SLOT_SIZE"
    "s_state o' \<noteq> OTA_ST_READY" "s_state o' \<noteq> OTA_ST_VERIFIED"
    "k < 108" "at = ibase b + of_nat (2048 * k)" "s_erasing o' \<longrightarrow> unat (s_erase_at o') \<le> unat at"
    "j \<le> n" "s_erase_epoch o' = ep + of_nat j" "j = 0 \<and> s_erasing o' \<longrightarrow> s_erase_at o' = at"
    by (auto simp: flight_inv_def)
  have ina: "s_inactive o' = inactive_slot b" using assms(1) by (simp add: sess_inv_def)
  show ?thesis
  proof (cases "s_erasing o'")
    case False
    then have "erase_publish (ep, at, e) r o' = o'" by (simp add: erase_publish_def)
    moreover have "s_state o' \<noteq> OTA_ST_BUSY" using assms(1) False by (auto simp: sess_inv_def)
    ultimately show ?thesis using False f(3,4) ina by (simp add: sess_inv_def)
  next
    case True
    then have w: "walking (hw_honest env) b o' (flash m)" using assms(1) by (simp add: sess_inv_def)
    then obtain i where i: "i < 108" "s_erase_at o' = ibase b + of_nat (2048 * i)"
      "blank (hw_honest env) b (flash m) 0 (2048 * i)" by (auto simp: walking_def)
    have ik: "i \<le> k"
      using page_in_slot(2) [OF i(1,2)] page_in_slot(2) [OF f(5,6)] f(7) True by simp
    note be = blank_erase [OF f(5,6) i(3) ik assms(3)]
    show ?thesis
    proof (cases "s_erase_epoch o' = ep")
      case False
      then have "erase_publish (ep, at, e) r o' = o'" by (simp add: erase_publish_def)
      moreover have "walking (hw_honest env) b o' (flash m1)"
        using w i be(1) by (auto simp: walking_def)
      ultimately show ?thesis using True f(3,4) ina by (simp add: sess_inv_def)
    next
      case same: True
      have "(of_nat j :: u32) = 0" using same f(9) by simp
      moreover have "unat (of_nat j :: u32) = j" using f(1,8) by (simp add: unat_of_nat take_bit_nat_eq_self)
      ultimately have "j = 0" by simp
      then have at: "s_erase_at o' = at" using f(10) True by simp
      then have eqk: "i = k" using page_in_slot(2) [OF i(1,2)] page_in_slot(2) [OF f(5,6)] by simp
      show ?thesis
        using sess_inv_published [OF w f(5,6) True ina f(2), of r "flash m1"] be(2) [OF eqk] same by simp
    qed
  qed
qed

section \<open>Every step keeps the invariant\<close>

lemma confirm_tick_effect:
  assumes "ota_confirm_tick env o' m = Some (o1, m1)"
  shows "meta_only m m1 \<and> (o1 = o' \<or> o1 = ota_system_reset (ota_fault_loop_clear o'))"
proof (cases "\<not> s_trial o' \<or> \<not> s_frame_seen o'")
  case False
  show ?thesis
  proof (cases "find_running_slot_record (env_build env) (flash m)")
    case (Some p)
    then have "meta_page (snd p)"
      by (auto simp: find_running_slot_record_def meta_page_def Let_def split: option.splits if_splits)
    then show ?thesis using assms False Some meta_commit_meta_only
      by (cases p) (auto simp: ota_confirm_tick_def bind_eq_Some_conv split: if_splits)
  qed (use assms False in \<open>auto simp: ota_confirm_tick_def\<close>)
qed (use assms in \<open>auto simp: ota_confirm_tick_def\<close>)

lemma boot_init_effect:
  assumes "ota_boot_init env o0 m = Some (o1, m1)"
  shows "meta_only m m1 \<and> s_state o1 = s_state o0 \<and> s_inactive o1 = s_inactive o0 \<and> s_erasing o1 = s_erasing o0"
  using assms meta_commit_meta_only
  by (auto simp: ota_boot_init_def Let_def ota_fmc_supported_def ota_fault_loop_clear_def bind_eq_Some_conv
      split: if_splits option.splits)

lemma mach_inv_init: "mach_init env s \<Longrightarrow> mach_inv env s"
  by (auto simp: mach_init_def mach_inv_def sess_inv_def flight_inv_def ota_reset_def inactive_slot_def
      meta_only_def fmc_keep_def dest!: boot_init_effect)

lemma flight_inv_frame:
  assumes "fmc_keep m m1" "s_state o1 = s_state o'" "s_erasing o1 = s_erasing o'" "s_erase_at o1 = s_erase_at o'"
    and "s_erase_epoch o1 = s_erase_epoch o'" "flight_inv b o' m fl"
  shows "flight_inv b o1 m1 fl"
  using assms by (auto simp: flight_inv_def fmc_keep_def split: option.splits)

lemma mach_inv_tick_end:
  assumes "mach_inv env s" "mfl s = Some ((ep, at, e), n)"
    and "ota_fmc_erase_range env at OTA_PAGE_SIZE ((mf s)\<lparr>s_fmc_owned := False\<rparr>) = (r, m1)"
  shows "mach_inv env (s\<lparr>mo := erase_publish (ep, at, e) r (mo s), mf := m1, mfl := None\<rparr>)"
proof -
  let ?m0 = "(mf s)\<lparr>s_fmc_owned := False\<rparr>"
  have fi: "flight_inv (env_build env) (mo s) (mf s) (Some ((ep, at, e), n))"
    and si: "sess_inv (hw_honest env) (env_build env) (mo s) (flash ?m0)"
    using assms(1,2) by (auto simp: mach_inv_def)
  obtain k where k: "k < 108" "at = ibase (env_build env) + of_nat (2048 * k)"
    using fi by (auto simp: flight_inv_def)
  have "fmc_keep ?m0 m1"
    using erase_range_frame [of at OTA_PAGE_SIZE env ?m0] page_in_slot(1) [OF k] assms(3) by simp
  then show ?thesis
    using sess_inv_publish [OF si fi assms(3)] by (simp add: mach_inv_def flight_inv_def fmc_keep_def)
qed

lemma mach_inv_confirm:
  assumes "mach_inv env s" "mfl s = None" "ota_confirm_tick env (mo s) (mf s) = Some (o1, m1)"
  shows "mach_inv env (s\<lparr>mo := o1, mf := m1\<rparr>)"
proof -
  let ?b = "env_build env" and ?h = "hw_honest env"
  have rs: "sess_inv ?h ?b (ota_system_reset (ota_fault_loop_clear (mo s))) f = sess_inv ?h ?b (mo s) f" for f
    by (simp add: sess_inv_def ota_system_reset_def ota_fault_loop_clear_def walking_def len_ok_def)
  have c: "meta_only (mf s) m1" "o1 = mo s \<or> o1 = ota_system_reset (ota_fault_loop_clear (mo s))"
    using confirm_tick_effect [OF assms(3)] by auto
  then have "sess_inv ?h ?b o1 (flash m1)"
    using assms(1) rs sess_inv_meta_only [OF c(1)] by (auto simp: mach_inv_def)
  moreover have "flight_inv ?b o1 m1 (mfl s)"
    using assms(1,2) c(1) by (auto simp: mach_inv_def flight_inv_def meta_only_def fmc_keep_def)
  ultimately show ?thesis by (simp add: mach_inv_def)
qed

lemma config_tick_outside:
  assumes "boot_config_tick env ea c m = (c1, m1)"
  shows "fmc_keep m m1" "\<not> in_range OTA_CONFIG_REC0 4096 a \<Longrightarrow> flash m1 a = flash m a"
  using boot_config_tick_frame [where env = env and ea = ea and c = c and s = m] assms
  by (auto simp: same_outside_def)

lemma mach_inv_config_tick:
  assumes "mach_inv env s" "boot_config_tick env ea (mc s) (mf s) = (c1, m1)"
  shows "mach_inv env (s\<lparr>mc := c1, mf := m1\<rparr>)"
proof -
  note c = config_tick_outside [OF assms(2)]
  have "flash m1 a = flash (mf s) a" if "in_range (ibase (env_build env)) 0x36000 a" for a
    by (rule c(2)) (use that in \<open>auto simp: in_range_def slot_addr_def split: if_splits\<close>)
  then have "sess_inv (hw_honest env) (env_build env) (mo s) (flash m1)"
    using assms(1) sess_inv_flash [of "env_build env" "flash m1" "flash (mf s)"] by (simp add: mach_inv_def)
  then show ?thesis
    using assms(1) flight_inv_frame [OF c(1) refl refl refl refl] by (simp add: mach_inv_def)
qed

lemma mach_inv_tick_start:
  assumes "mach_inv env s" "erase_snapshot (mo s) = Some t"
  shows "mach_inv env (s\<lparr>mf := (mf s)\<lparr>s_fmc_owned := True\<rparr>, mfl := Some (t, 0)\<rparr>)"
proof -
  have e: "s_erasing (mo s)" "t = (s_erase_epoch (mo s), s_erase_at (mo s), s_erase_end (mo s))"
    using assms(2) by (auto simp: erase_snapshot_def split: if_splits)
  then have "walking (hw_honest env) (env_build env) (mo s) (flash (mf s))"
    using assms(1) by (simp add: mach_inv_def sess_inv_def)
  then have "flight_inv (env_build env) (mo s) ((mf s)\<lparr>s_fmc_owned := True\<rparr>) (Some (t, 0))"
    unfolding e(2) by (auto simp: flight_inv_def walking_def)
  then show ?thesis using assms(1) by (simp add: mach_inv_def)
qed

lemma mach_inv_isr_ota:
  assumes "mach_inv env s" "ota_dispatch env cmd req cap (mo s) (mf s) = Some (st, rep, o1, m1)"
    and "\<And>t n. mfl s = Some (t, n) \<Longrightarrow> Suc n < 2 ^ 32"
  shows "mach_inv env (s\<lparr>mo := o1, mf := m1, mfl := bump (mfl s)\<rparr>)"
proof -
  have si: "sess_inv (hw_honest env) (env_build env) (mo s) (flash (mf s))"
    and fi: "flight_inv (env_build env) (mo s) (mf s) (mfl s)"
    and ina: "s_inactive (mo s) = inactive_slot (env_build env)"
    using assms(1) by (auto simp: mach_inv_def sess_inv_def)
  note ef = ota_dispatch_effect [OF assms(2) ina, THEN conjunct1]
  show ?thesis
    using sess_inv_effect [OF si ef refl] flight_inv_effect [OF ef fi refl assms(3)] by (simp add: mach_inv_def)
qed

lemma mach_inv_isr_frame: "mach_inv env s \<Longrightarrow> mach_inv env (s\<lparr>mo := ota_note_frame (mo s)\<rparr>)"
  using flight_inv_frame [OF fmc_keep_refl, of "ota_note_frame (mo s)" "mo s"]
  by (simp add: mach_inv_def sess_inv_def walking_def len_ok_def ota_note_frame_def)

lemmas mach_inv_steps = mach_inv_isr_ota mach_inv_isr_frame mach_inv_tick_start mach_inv_tick_end
  mach_inv_confirm mach_inv_config_tick

lemma mach_inv_step: "fw_step env s s' \<Longrightarrow> mach_inv env s \<Longrightarrow> mach_inv env s'"
proof (induction rule: fw_step.induct)
  case (isr_config s fl)
  then show ?case by (simp add: mach_inv_def)
qed (simp_all add: mach_inv_steps)

lemma mach_inv_reachable:
  assumes "(fw_step env)\<^sup>*\<^sup>* s0 s" "mach_init env s0"
  shows "mach_inv env s"
  using assms by (induction rule: rtranclp_induct) (auto intro: mach_inv_init mach_inv_step)

section \<open>What a step can write\<close>

definition write_area :: "build \<Rightarrow> u32 \<Rightarrow> bool" where
  "write_area b a \<longleftrightarrow> in_range (ibase b) 0x36000 a \<or> in_range OTA_META_REC0 4096 a \<or> in_range OTA_CONFIG_REC0 4096 a"

lemma write_area_not_protected: "write_area b a \<Longrightarrow> \<not> protected b a"
  by (cases b) (auto simp: write_area_def protected_def in_range_def inactive_slot_def other_slot_def slot_addr_def)

lemma meta_only_area: "meta_only m m' \<Longrightarrow> \<not> write_area b a \<Longrightarrow> flash m' a = flash m a"
  by (simp add: meta_only_def same_outside_def write_area_def)

lemma write_effect_area:
  assumes "write_effect env req o' m st o1 m1" "\<not> write_area (env_build env) a"
  shows "flash m1 a = flash m a"
proof -
  have "flash (snd (ota_fmc_program env (ibase (env_build env) + off) data m)) a = flash m a"
    if "write_fits req off data" for off data
    using fmc.prog_frame [OF write_range(2) [OF that], of env a] write_range(3) [OF that] assms(2)
    by (auto simp: write_area_def)
  from assms(1) this show ?thesis by cases auto
qed

lemma ota_effect_area:
  assumes "ota_effect env cmd req o' m st o1 m1" "\<not> write_area (env_build env) a"
  shows "flash m1 a = flash m a"
  using assms(1)
proof cases
  case begun
  then show ?thesis using meta_only_area assms(2) by blast
next
  case written
  then show ?thesis using write_effect_area assms(2) by blast
next
  case committed
  from committed(2) show ?thesis
    by cases (auto dest!: meta_commit_meta_only meta_only_area [OF _ assms(2)])
next
  case rolled
  from rolled(2) show ?thesis
    by cases (auto dest!: meta_commit_meta_only meta_only_area [OF _ assms(2)])
qed auto

lemma fw_step_area:
  assumes "fw_step env s s'" "mach_inv env s" "\<not> write_area (env_build env) a"
  shows "flash (mf s') a = flash (mf s) a"
  using assms(1)
proof cases
  case (isr_ota cmd req cap st rep o1 m1)
  have "s_inactive (mo s) = inactive_slot (env_build env)" using assms(2) by (simp add: mach_inv_def sess_inv_def)
  from ota_effect_area [OF ota_dispatch_effect [OF isr_ota(2) this, THEN conjunct1] assms(3)]
  show ?thesis using isr_ota(1) by simp
next
  case (tick_end ep at e n r m1)
  then obtain k where k: "k < 108" "at = ibase (env_build env) + of_nat (2048 * k)"
    using assms(2) by (auto simp: mach_inv_def flight_inv_def)
  have "\<not> in_range at 2048 a" using page_in_slot(3) [OF k] assms(3) by (auto simp: write_area_def)
  then show ?thesis
    using fmc.erase_frame [of at OTA_PAGE_SIZE env a "(mf s)\<lparr>s_fmc_owned := False\<rparr>"] page_in_slot(1) [OF k] tick_end
    by simp
next
  case (confirm o1 m1)
  then show ?thesis using confirm_tick_effect meta_only_area assms(3) by auto
next
  case (config_tick c1 m1)
  then show ?thesis using config_tick_outside(2) [OF config_tick(3), of a] assms(3) by (simp add: write_area_def)
qed auto

section \<open>The erase pump runs to completion\<close>

text \<open>An armed session after \<open>k\<close> successful page erases.\<close>

lemma slot_only_trans: "slot_only b m m1 \<Longrightarrow> slot_only b m1 m2 \<Longrightarrow> slot_only b m m2"
  by (auto simp: slot_only_def intro: same_outside_trans fmc_keep_trans)

definition pumped :: "build \<Rightarrow> nat \<Rightarrow> ota_st \<Rightarrow> ota_st" where
  "pumped b k o' = o'\<lparr>s_erase_at := ibase b + of_nat (2048 * k), s_erasing := k < 108,
     s_state := (if k < 108 then OTA_ST_BUSY else OTA_ST_READY)\<rparr>"

lemma pumped_0: "pumped b 0 (armed b len crc fw o') = armed b len crc fw o'"
  by (simp add: pumped_def armed_def begin_arm_def)

lemma erase_publish_pumped:
  assumes "k < 108" "s_erase_end o' = ibase b + OTA_SLOT_SIZE"
  shows "erase_publish (s_erase_epoch o', ibase b + of_nat (2048 * k), s_erase_end o') OTA_FMC_RESULT_OK (pumped b k o') =
    pumped b (Suc k) o'"
proof -
  define at where "at = ibase b + of_nat (2048 * k)"
  define nx where "nx = ibase b + of_nat (2048 * Suc k)"
  have "at + OTA_PAGE_SIZE = nx" by (simp add: at_def nx_def)
  moreover have "nx \<ge> s_erase_end o' \<longleftrightarrow> Suc k = 108"
    using assms unat_slot_page [of "2048 * Suc k" "inactive_slot b"] unat_slot_page [of "0x36000" "inactive_slot b"]
    by (auto simp: nx_def word_le_nat_alt simp del: of_nat_mult of_nat_Suc)
  ultimately show ?thesis
    using assms(1) unfolding erase_publish_def pumped_def at_def [symmetric] nx_def [symmetric]
    by (cases "Suc k = 108") (simp_all add: Let_def)
qed

lemma slot_page_allowed:
  assumes "k < 108" "at = ibase b + of_nat (2048 * k)"
  shows "\<not> ota_fmc_range_forbidden b at OTA_PAGE_SIZE"
proof -
  have u: "unat at = unat (ibase b) + 2048 * k" "unat (at + OTA_PAGE_SIZE) = unat (ibase b) + 2048 * k + 2048"
    "unat (0xFFFFFFFF - at) = 0xFFFFFFFF - unat at"
    using page_in_slot(2) [OF assms] page_in_slot(1) [OF assms]
    by (auto simp: in_flash_def unat_word_ariths(1) unat_sub_if_size word_size word_le_nat_alt)
  show ?thesis using assms(1) u
    by (cases b) (auto simp: ota_fmc_range_forbidden_def inactive_slot_def other_slot_def slot_addr_def
        Let_def word_less_nat_alt word_le_nat_alt)
qed

definition erase_ticks :: "hw_env \<Rightarrow> nat \<Rightarrow> ota_st \<times> fmc_st \<Rightarrow> ota_st \<times> fmc_st" where
  "erase_ticks env k = (\<lambda>(o', m). ota_erase_tick env o' m) ^^ k"

lemma erase_tick_pumped:
  assumes "hw_clean env" "\<not> s_fmc_owned m" "k < 108" "s_erase_end o' = ibase b + OTA_SLOT_SIZE" "env_build env = b"
    and "blank (hw_honest env) b (flash m) 0 (2048 * k)"
  shows "\<exists>m1. ota_erase_tick env (pumped b k o') m = (pumped b (Suc k) o', m1) \<and>
    slot_only b m m1 \<and> blank (hw_honest env) b (flash m1) 0 (2048 * Suc k)"
proof -
  define at where "at = ibase b + of_nat (2048 * k)"
  note pg = page_in_slot [OF assms(3) at_def]
  obtain m1 where e: "ota_fmc_erase_range env at OTA_PAGE_SIZE m = (OTA_FMC_RESULT_OK, m1)"
    using erase_range_clean [OF assms(1,2), of at OTA_PAGE_SIZE] slot_page_allowed [OF assms(3) at_def]
      pg(1,2) assms(5) by (cases "ota_fmc_erase_range env at OTA_PAGE_SIZE m") (auto simp: slot_addr_def)
  have "slot_only b m m1"
    using erase_range_frame [of at OTA_PAGE_SIZE env m] pg e
    by (auto simp: slot_only_def intro: same_outside_mono)
  moreover have "ota_erase_tick env (pumped b k o') m = (pumped b (Suc k) o', m1)"
    using e erase_publish_pumped [OF assms(3,4)] assms(3)
    by (simp add: ota_erase_tick_def erase_snapshot_def pumped_def at_def)
  ultimately show ?thesis using blank_erase(2) [OF assms(3) at_def assms(6) order_refl e] by simp
qed

lemma erase_ticks_pumped:
  assumes "hw_clean env" "\<not> s_fmc_owned m" "k \<le> 108" "s_erase_end o' = ibase b + OTA_SLOT_SIZE" "env_build env = b"
  shows "\<exists>m1. erase_ticks env k (pumped b 0 o', m) = (pumped b k o', m1) \<and>
    slot_only b m m1 \<and> blank (hw_honest env) b (flash m1) 0 (2048 * k)"
  using assms(3)
proof (induction k)
  case 0
  then show ?case by (simp add: erase_ticks_def blank_def)
next
  case (Suc k)
  then obtain m1 where i: "erase_ticks env k (pumped b 0 o', m) = (pumped b k o', m1)" "slot_only b m m1"
    "blank (hw_honest env) b (flash m1) 0 (2048 * k)" by auto
  have "\<not> s_fmc_owned m1" using i(2) assms(2) by (simp add: slot_only_def fmc_keep_def)
  with erase_tick_pumped [OF assms(1) this _ assms(4,5) i(3)] Suc.prems obtain m2 where
    "ota_erase_tick env (pumped b k o') m1 = (pumped b (Suc k) o', m2)" "slot_only b m1 m2"
    "blank (hw_honest env) b (flash m2) 0 (2048 * Suc k)" by auto
  then show ?case using i slot_only_trans by (auto simp: erase_ticks_def)
qed

lemma reach_erase_tick:
  assumes "mfl s = None" "\<not> s_fmc_owned (mf s)" "ota_erase_tick env (mo s) (mf s) = (o1, m1)"
  shows "(fw_step env)\<^sup>*\<^sup>* s (s\<lparr>mo := o1, mf := m1\<rparr>)"
proof (cases "erase_snapshot (mo s)")
  case None
  then have "s\<lparr>mo := o1, mf := m1\<rparr> = s" using assms(3) by (auto simp: ota_erase_tick_def)
  then show ?thesis by simp
next
  case (Some t)
  obtain ep at e where t: "t = (ep, at, e)" by (metis prod.exhaust)
  obtain r m2 where r: "ota_fmc_erase_range env at OTA_PAGE_SIZE (mf s) = (r, m2)" by fastforce
  let ?s1 = "s\<lparr>mf := (mf s)\<lparr>s_fmc_owned := True\<rparr>, mfl := Some (t, 0)\<rparr>"
  have "(mf ?s1)\<lparr>s_fmc_owned := False\<rparr> = mf s" using assms(2) by simp
  then have "fw_step env ?s1 (?s1\<lparr>mo := erase_publish (ep, at, e) r (mo ?s1), mf := m2, mfl := None\<rparr>)"
    using r t by (intro fw_step.tick_end [where n = 0]) simp_all
  moreover have "?s1\<lparr>mo := erase_publish (ep, at, e) r (mo ?s1), mf := m2, mfl := None\<rparr> = s\<lparr>mo := o1, mf := m1\<rparr>"
    using assms(1,3) Some t r by (simp add: ota_erase_tick_def)
  moreover have "fw_step env s ?s1" by (rule fw_step.tick_start) (use assms(1) Some in auto)
  ultimately show ?thesis by (metis converse_rtranclp_into_rtranclp r_into_rtranclp)
qed

lemma reach_erase_ticks:
  assumes "hw_clean env" "\<not> s_fmc_owned m" "k \<le> 108" "s_erase_end o' = ibase b + OTA_SLOT_SIZE" "env_build env = b"
    and "s = \<lparr>mo = pumped b 0 o', mf = m, mc = c, mfl = None\<rparr>"
  shows "\<exists>m1. (fw_step env)\<^sup>*\<^sup>* s \<lparr>mo = pumped b k o', mf = m1, mc = c, mfl = None\<rparr> \<and> slot_only b m m1 \<and>
    erase_ticks env k (pumped b 0 o', m) = (pumped b k o', m1)"
  using assms(3)
proof (induction k)
  case 0
  then show ?case using assms(6) by (auto simp: erase_ticks_def)
next
  case (Suc k)
  then obtain m1 where i: "(fw_step env)\<^sup>*\<^sup>* s \<lparr>mo = pumped b k o', mf = m1, mc = c, mfl = None\<rparr>" "slot_only b m m1"
    "erase_ticks env k (pumped b 0 o', m) = (pumped b k o', m1)" by auto
  have no: "\<not> s_fmc_owned m1" using i(2) assms(2) by (simp add: slot_only_def fmc_keep_def)
  obtain m2 where m2: "erase_ticks env (Suc k) (pumped b 0 o', m) = (pumped b (Suc k) o', m2)" "slot_only b m m2"
    using erase_ticks_pumped [OF assms(1,2) Suc.prems assms(4,5)] by blast
  then have "ota_erase_tick env (pumped b k o') m1 = (pumped b (Suc k) o', m2)"
    using i(3) by (simp add: erase_ticks_def)
  from reach_erase_tick [where s = "\<lparr>mo = pumped b k o', mf = m1, mc = c, mfl = None\<rparr>", simplified, OF no this]
  show ?case using m2 i(1) by (auto intro: rtranclp_trans)
qed

section \<open>A concrete run\<close>

text \<open>
  A part with zeroed flash and no metadata: BEGIN for an eight-byte image whose CRC is that of
  erased flash, then the erase pump.
\<close>

definition run_env :: hw_env where
  "run_env = good_hw Slot_A_build"

definition run_begin :: bytes where
  "run_begin = bytes32 8 @ bytes32 (ota_crc32 0 (replicate 8 0xFF))"

definition run_armed :: ota_st where
  "run_armed = armed Slot_A_build 8 (ota_crc32 0 (replicate 8 0xFF)) 0 (ota_reset Slot_A_build)"

definition run_0 :: mach where
  "run_0 = \<lparr>mo = ota_reset Slot_A_build, mf = fmc_reset (\<lambda>_. 0), mc = cfg_reset, mfl = None\<rparr>"

lemma zero_meta: "meta_read (\<lambda>_. 0) a = None"
  by (simp add: meta_read_def meta_of_bytes_head le32_at_def le32_def Let_def)

lemma zero_meta_current: "meta_current (\<lambda>_. 0) = None" "find_running_slot_record b (\<lambda>_. 0) = None"
  by (simp_all add: meta_current_def meta_pick_newest_def find_running_slot_record_def zero_meta)

lemma fmc_reset_simps [simp]: "flash (fmc_reset f) = f" "\<not> s_fmc_owned (fmc_reset f)"
  by (simp_all add: fmc_reset_def)

lemma run_env_simps [simp]: "env_build run_env = Slot_A_build" "hw_clean run_env" "hw_honest run_env"
  by (simp_all add: run_env_def)

lemma run_init: "mach_init run_env run_0"
  by (auto simp: mach_init_def run_0_def ota_boot_init_def zero_meta_current ota_fmc_supported_def ota_reset_def
      Let_def intro!: exI [of _ "fmc_reset (\<lambda>_. 0)"])

lemma run_begin_fields: "begin_fields run_begin = Some (8, ota_crc32 0 (replicate 8 0xFF), 0)"
  by (simp add: begin_fields_def run_begin_def rd_le32_def rd_def bytes32_def)

lemma run_begin_dispatch:
  "ota_dispatch run_env CMD_OTA_BEGIN run_begin 65 (mo run_0) (mf run_0) =
     Some (STATUS_OK, bytes16 OTA_CHUNK_MAX @ [OTA_SLOT_B], run_armed, mf run_0)"
proof -
  have "length run_begin = 8" by (simp add: run_begin_def)
  then show ?thesis
    by (simp add: ota_dispatch_def ota_fmc_supported_def h_begin_def run_begin_fields begin_session_eq
        begin_demote_def run_0_def zero_meta_current run_armed_def inactive_slot_def other_slot_def)
qed

definition run_1 :: mach where
  "run_1 = \<lparr>mo = run_armed, mf = fmc_reset (\<lambda>_. 0), mc = cfg_reset, mfl = None\<rparr>"

lemma run_step_1: "(fw_step run_env)\<^sup>*\<^sup>* run_0 run_1"
  using fw_step.isr_ota [OF run_begin_dispatch]
  by (auto simp: run_0_def run_1_def bump_def)

lemma run_armed_simps [simp]: "s_erase_end run_armed = ibase Slot_A_build + OTA_SLOT_SIZE" "s_erasing run_armed"
  "s_erase_at run_armed = ibase Slot_A_build" "pumped Slot_A_build 0 run_armed = run_armed"
  by (simp_all add: run_armed_def pumped_0) (simp_all add: armed_def begin_arm_def)

lemma run_ready: "\<exists>s. (fw_step run_env)\<^sup>*\<^sup>* run_0 s \<and> mo s = pumped Slot_A_build 108 run_armed"
proof -
  have "run_1 = \<lparr>mo = pumped Slot_A_build 0 run_armed, mf = fmc_reset (\<lambda>_. 0), mc = cfg_reset, mfl = None\<rparr>"
    by (simp add: run_1_def)
  from reach_erase_ticks [where k = 108, OF _ _ _ _ _ this, of run_env] obtain m1 where
    "(fw_step run_env)\<^sup>*\<^sup>* run_1 \<lparr>mo = pumped Slot_A_build 108 run_armed, mf = m1, mc = cfg_reset, mfl = None\<rparr>" by auto
  with rtranclp_trans [OF run_step_1] show ?thesis by fastforce
qed

section \<open>Properties\<close>

text \<open>
  C1: the session invariant, over every interleaving of opcode handlers with the two halves of the
  erase tick and with the confirm and configuration ticks.  READY means that a whole-slot erase has completed: no
  erase is pending, the announced length fits the slot and, on honest hardware, the slot reads
  erased from the high-water mark (rounded up to a flash double-word) to its end.  VERIFIED means that the
  bytes now in flash have the announced CRC.  BUSY always has an erase pending, so it ends.
\<close>

theorem ota_session_invariant:
  assumes "mach_init env s0" "(fw_step env)\<^sup>*\<^sup>* s0 s"
  shows "(s_state (mo s) = OTA_ST_READY \<longrightarrow>
            \<not> s_erasing (mo s) \<and> s_img_len (mo s) \<noteq> 0 \<and> s_img_len (mo s) \<le> OTA_SLOT_SIZE \<and>
            (\<forall>i. hw_honest env \<and> pad8 (unat (s_last_off (mo s))) \<le> i \<and> i < unat OTA_SLOT_SIZE \<longrightarrow>
               flash (mf s) (slot_addr (inactive_slot (env_build env)) + of_nat i) = 0xFF)) \<and>
         (s_state (mo s) = OTA_ST_VERIFIED \<longrightarrow>
            \<not> s_erasing (mo s) \<and> s_img_len (mo s) \<noteq> 0 \<and> s_img_len (mo s) \<le> OTA_SLOT_SIZE \<and>
            s_img_crc (mo s) = s_expected_crc (mo s) \<and>
            ota_crc32 0 (fbytes (flash (mf s)) (slot_addr (inactive_slot (env_build env))) (unat (s_img_len (mo s)))) =
              s_expected_crc (mo s)) \<and>
         (s_state (mo s) = OTA_ST_BUSY \<longrightarrow> s_erasing (mo s))"
  using mach_inv_reachable [OF assms(2,1)] by (auto simp: mach_inv_def sess_inv_def len_ok_def blank_def)

theorem ota_session_invariant_witness:
  "\<exists>s. (fw_step run_env)\<^sup>*\<^sup>* run_0 s \<and> s_state (mo s) = OTA_ST_READY \<and> s_img_len (mo s) = 8 \<and>
     flash (mf run_0) OTA_SLOT_B_BASE = 0 \<and> flash (mf s) OTA_SLOT_B_BASE = 0xFF"
proof -
  obtain s where r: "(fw_step run_env)\<^sup>*\<^sup>* run_0 s" and s: "mo s = pumped Slot_A_build 108 run_armed"
    using run_ready by blast
  have st: "s_state (mo s) = OTA_ST_READY" "s_img_len (mo s) = 8" "s_last_off (mo s) = 0"
    by (simp_all add: s pumped_def run_armed_def armed_def begin_arm_def)
  have "flash (mf s) OTA_SLOT_B_BASE = 0xFF"
    using ota_session_invariant [OF run_init r] st
    by (auto simp: inactive_slot_def other_slot_def slot_addr_def dest!: spec [of _ 0])
  then show ?thesis using r st by (intro exI [of _ s]) (simp add: run_0_def)
qed

text \<open>
  C2: flash safety.  On any hardware, whatever bytes the host sends and however the steps
  interleave, a flash byte that changes lies in the inactive slot, in the metadata pages or in the
  configuration pages; the bootloader and the running slot are never written.
\<close>

theorem ota_steps_spare_running_image:
  assumes "mach_init env s0" "(fw_step env)\<^sup>*\<^sup>* s0 s" "fw_step env s s'"
    and "flash (mf s') a \<noteq> flash (mf s) a"
  shows "(in_range (slot_addr (inactive_slot (env_build env))) (unat OTA_SLOT_SIZE) a \<or>
          in_range OTA_META_REC0 4096 a \<or> in_range OTA_CONFIG_REC0 4096 a) \<and>
         \<not> protected (env_build env) a"
proof -
  have "write_area (env_build env) a"
    using fw_step_area [OF assms(3) mach_inv_reachable [OF assms(2,1)]] assms(4) by blast
  then show ?thesis using write_area_not_protected by (simp add: write_area_def)
qed

theorem ota_steps_spare_running_image_witness:
  "\<exists>s s' a. (fw_step run_env)\<^sup>*\<^sup>* run_0 s \<and> fw_step run_env s s' \<and> flash (mf s') a \<noteq> flash (mf s) a \<and>
     \<not> protected Slot_A_build a"
proof -
  obtain s where r: "(fw_step run_env)\<^sup>*\<^sup>* run_0 s" and s: "mo s = pumped Slot_A_build 108 run_armed"
    using run_ready by blast
  have "blank True Slot_A_build (flash (mf s)) 0 0x36000"
    using mach_inv_reachable [OF r run_init]
    by (simp add: s mach_inv_def sess_inv_def pumped_def run_armed_def armed_def begin_arm_def)
  then have "flash (mf s) OTA_SLOT_B_BASE \<noteq> flash (mf run_0) OTA_SLOT_B_BASE"
    by (auto simp: blank_def inactive_slot_def other_slot_def slot_addr_def run_0_def dest!: spec [of _ 0])
  moreover have "\<exists>t t'. (fw_step run_env)\<^sup>*\<^sup>* run_0 t \<and> fw_step run_env t t' \<and> flash (mf t') a \<noteq> flash (mf t) a"
    if "(fw_step run_env)\<^sup>*\<^sup>* run_0 u" "flash (mf u) a \<noteq> flash (mf run_0) a" for u a
    using that by (induction rule: rtranclp_induct) (auto, metis)
  ultimately obtain t t' where "(fw_step run_env)\<^sup>*\<^sup>* run_0 t" "fw_step run_env t t'"
    "flash (mf t') OTA_SLOT_B_BASE \<noteq> flash (mf t) OTA_SLOT_B_BASE" using r by force
  then show ?thesis using ota_steps_spare_running_image [OF run_init] by fastforce
qed

text \<open>
  C11: a page erase that was under way when the host aborted the session or opened a new one
  publishes nothing when it ends: the new session keeps its own erase position and state, and an
  aborted session stays IDLE, whatever the erase returned.
\<close>

theorem stale_erase_tick_publishes_nothing:
  assumes "mach_init env s0" "(fw_step env)\<^sup>*\<^sup>* s0 s" "mfl s = Some (snap, n)" "Suc n < 2 ^ 32"
    and "ota_dispatch env cmd req cap (mo s) (mf s) = Some (STATUS_OK, rep, o1, m1)"
    and "cmd = CMD_OTA_ABORT \<or> cmd = CMD_OTA_BEGIN"
  shows "erase_publish snap r o1 = o1 \<and>
    (cmd = CMD_OTA_ABORT \<longrightarrow> s_state o1 = OTA_ST_IDLE \<and> \<not> s_erasing o1) \<and>
    (cmd = CMD_OTA_BEGIN \<longrightarrow> s_state o1 = OTA_ST_BUSY \<and> s_erasing o1 \<and>
       s_erase_at o1 = slot_addr (inactive_slot (env_build env)))"
proof -
  obtain ep at e where snap: "snap = (ep, at, e)" by (metis prod.exhaust)
  have "flight_inv (env_build env) (mo s) (mf s) (mfl s)"
    using mach_inv_reachable [OF assms(2,1)] by (simp add: mach_inv_def)
  then obtain j where j: "j \<le> n" "s_erase_epoch (mo s) = ep + of_nat j"
    using assms(3) snap by (auto simp: flight_inv_def)
  have "unat (of_nat (Suc j) :: u32) = Suc j"
    using j(1) assms(4) by (simp add: unat_of_nat take_bit_nat_eq_self del: of_nat_Suc)
  then have "(of_nat (Suc j) :: u32) \<noteq> 0" by (metis nat.distinct(1) unat_0)
  then have ne: "s_erase_epoch (mo s) + 1 \<noteq> ep" using j(2) by (simp add: algebra_simps)
  have o1: "cmd = CMD_OTA_ABORT \<and> o1 = h_abort (mo s) \<or> cmd = CMD_OTA_BEGIN \<and> opened (env_build env) (mo s) o1"
    using assms(5,6) h_begin_outcome [of env req cap "mo s" "mf s" STATUS_OK rep o1 m1]
    by (auto simp: ota_dispatch_def split: if_splits)
  then have "s_erase_epoch o1 = s_erase_epoch (mo s) + 1"
    by (auto simp: h_abort_def opened_def armed_def begin_arm_def)
  then have "erase_publish snap r o1 = o1" using ne snap by (simp add: erase_publish_def)
  then show ?thesis using o1 by (auto simp: h_abort_def opened_def armed_def begin_arm_def)
qed

theorem stale_erase_tick_publishes_nothing_witness:
  "\<exists>s snap. (fw_step run_env)\<^sup>*\<^sup>* run_0 s \<and> mfl s = Some (snap, 0) \<and> s_erasing (mo s) \<and>
     erase_publish snap OTA_FMC_RESULT_OK (h_abort (mo s)) = h_abort (mo s)"
proof -
  define snap where "snap = (s_erase_epoch run_armed, s_erase_at run_armed, s_erase_end run_armed)"
  define s where "s = run_1\<lparr>mf := (mf run_1)\<lparr>s_fmc_owned := True\<rparr>, mfl := Some (snap, 0)\<rparr>"
  have "fw_step run_env run_1 s"
    unfolding s_def by (rule fw_step.tick_start) (simp_all add: run_1_def erase_snapshot_def snap_def)
  then have r: "(fw_step run_env)\<^sup>*\<^sup>* run_0 s" using run_step_1 by auto
  have s: "mfl s = Some (snap, 0)" "mo s = run_armed" by (simp_all add: s_def run_1_def)
  have "ota_dispatch run_env CMD_OTA_ABORT [] 65 (mo s) (mf s) = Some (STATUS_OK, [], h_abort (mo s), mf s)"
    by (simp add: ota_dispatch_def ota_fmc_supported_def)
  from stale_erase_tick_publishes_nothing [OF run_init r s(1) _ this] show ?thesis
    using r s by (intro exI [of _ s] exI [of _ snap]) simp
qed

text \<open>
  C12: the erase that an accepted BEGIN arms completes on healthy hardware after exactly 108
  main-loop ticks: BUSY before, READY with the whole inactive slot erased after, and nothing
  outside the slot touched.
\<close>

theorem ota_erase_completes:
  assumes "h_begin env req cap o' m = Some (STATUS_OK, rep, o1, m1)" "hw_clean env" "hw_honest env" "\<not> s_fmc_owned m"
  shows "(\<forall>k < 108. s_state (fst (erase_ticks env k (o1, m1))) = OTA_ST_BUSY) \<and>
    (case erase_ticks env 108 (o1, m1) of (o2, m2) \<Rightarrow>
       s_state o2 = OTA_ST_READY \<and> \<not> s_erasing o2 \<and> s_last_off o2 = 0 \<and>
       (\<forall>i < unat OTA_SLOT_SIZE. flash m2 (slot_addr (inactive_slot (env_build env)) + of_nat i) = 0xFF) \<and>
       (\<forall>a. \<not> in_range (slot_addr (inactive_slot (env_build env))) (unat OTA_SLOT_SIZE) a \<longrightarrow> flash m2 a = flash m1 a))"
proof -
  let ?b = "env_build env"
  have "opened ?b o' o1" "meta_only m m1" using h_begin_outcome [OF assms(1)] by auto
  then obtain len crc fw where o1: "o1 = armed ?b len crc fw o'" and no: "\<not> s_fmc_owned m1"
    using assms(4) by (auto simp: opened_def meta_only_def fmc_keep_def)
  have p0: "pumped ?b 0 o1 = o1" and e: "s_erase_end o1 = ibase ?b + OTA_SLOT_SIZE" and l: "s_last_off o1 = 0"
    using o1 by (auto simp: pumped_0) (auto simp: armed_def begin_arm_def)
  note pk = erase_ticks_pumped [OF assms(2) no _ e refl, unfolded p0]
  have "s_state (fst (erase_ticks env k (o1, m1))) = OTA_ST_BUSY" if "k < 108" for k
    using pk [of k] that by (auto simp: pumped_def)
  moreover obtain m2 where "erase_ticks env 108 (o1, m1) = (pumped ?b 108 o1, m2)" "slot_only ?b m1 m2"
    "blank (hw_honest env) ?b (flash m2) 0 (2048 * 108)" using pk [of 108] by auto
  ultimately show ?thesis
    using l assms(3) by (auto simp: pumped_def blank_def slot_only_def same_outside_def)
qed

theorem ota_erase_completes_witness:
  "\<exists>o1 m1. h_begin run_env run_begin 65 (mo run_0) (mf run_0) =
       Some (STATUS_OK, bytes16 OTA_CHUNK_MAX @ [OTA_SLOT_B], o1, m1) \<and>
     s_state (fst (erase_ticks run_env 107 (o1, m1))) = OTA_ST_BUSY \<and>
     s_state (fst (erase_ticks run_env 108 (o1, m1))) = OTA_ST_READY"
proof -
  have h: "h_begin run_env run_begin 65 (mo run_0) (mf run_0) =
      Some (STATUS_OK, bytes16 OTA_CHUNK_MAX @ [OTA_SLOT_B], run_armed, mf run_0)"
    using run_begin_dispatch by (simp add: ota_dispatch_def ota_fmc_supported_def)
  show ?thesis
    using ota_erase_completes [OF h] h by (simp add: run_0_def case_prod_beta)
qed

end
