(* ===== verification/Hal.thy ===== *)
theory Hal
  imports Ota_Session
begin

text \<open>
  The peripheral interface of \<open>hal/bridge_hw.h\<close>.  A backend is a record of operations over a
  hardware state \<open>'h\<close>: each takes the C arguments and returns the C result code, the values
  written through its out-pointers, and the new state.  Output arrays are functions from
  the index; the caller knows the declared size and reads only below it.  The one backend
  whose source is silicon-free, \<open>hal/bridge_hw_stub.c\<close>, is given here in full; the \<open>gd32\<close> backend
  is a parameter of the protocol layer.
\<close>

section \<open>Result codes\<close>

abbreviation (input) "BRIDGE_HW_OK \<equiv> (0 :: int)"
abbreviation (input) "BRIDGE_HW_ERR_NOTIMPL \<equiv> (- 1 :: int)"
abbreviation (input) "BRIDGE_HW_ERR_INVAL \<equiv> (- 2 :: int)"
abbreviation (input) "BRIDGE_HW_ERR_RANGE \<equiv> (- 3 :: int)"
abbreviation (input) "BRIDGE_HW_ERR_IO \<equiv> (- 4 :: int)"
abbreviation (input) "BRIDGE_HW_ERR_BUSY \<equiv> (- 5 :: int)"
abbreviation (input) "BRIDGE_HW_ERR_NOT_READY \<equiv> (- 6 :: int)"

section \<open>Operations\<close>

record 'h hal =
  hw_reset_reason :: "'h \<Rightarrow> u8 \<times> 'h"
  hw_gpio_read :: "u32 \<Rightarrow> 'h \<Rightarrow> int \<times> u32 \<times> 'h"
  hw_gpio_write :: "u32 \<Rightarrow> u32 \<Rightarrow> 'h \<Rightarrow> int \<times> 'h"
  hw_pwm_set :: "u8 \<Rightarrow> u32 \<Rightarrow> u32 \<Rightarrow> 'h \<Rightarrow> int \<times> 'h"
  hw_pwm_get :: "u8 \<Rightarrow> 'h \<Rightarrow> int \<times> u32 \<times> u32 \<times> 'h"
  hw_adc_read :: "u8 \<Rightarrow> u8 \<Rightarrow> 'h \<Rightarrow> int \<times> (nat \<Rightarrow> u16) \<times> 'h"
  hw_pwm_configure :: "u8 \<Rightarrow> u8 \<Rightarrow> u32 \<Rightarrow> u8 \<Rightarrow> 'h \<Rightarrow> int \<times> 'h"
  hw_adc_configure :: "u8 \<Rightarrow> u16 \<Rightarrow> u16 \<Rightarrow> u8 \<Rightarrow> 'h \<Rightarrow> int \<times> 'h"
  hw_adc_stream_begin :: "u8 \<Rightarrow> u8 \<Rightarrow> u32 \<Rightarrow> 'h \<Rightarrow> int \<times> 'h"
  hw_adc_stream_read :: "u8 \<Rightarrow> u8 \<Rightarrow> 'h \<Rightarrow> int \<times> u8 \<times> (nat \<Rightarrow> u16) \<times> 'h"
  hw_adc_stream_end :: "u8 \<Rightarrow> 'h \<Rightarrow> int \<times> 'h"
  hw_adc_spectrum_read :: "u8 \<Rightarrow> u16 \<Rightarrow> u8 \<Rightarrow> 'h \<Rightarrow> int \<times> u32 \<times> u16 \<times> u8 \<times> (nat \<Rightarrow> u32) \<times> 'h"
  hw_trng_read :: "nat \<Rightarrow> 'h \<Rightarrow> int \<times> (nat \<Rightarrow> u8) \<times> 'h"
  hw_tmu_compute :: "u8 \<Rightarrow> u8 \<Rightarrow> u32 \<Rightarrow> u32 \<Rightarrow> 'h \<Rightarrow> int \<times> u32 \<times> 'h"
  hw_dac_set :: "u8 \<Rightarrow> u16 \<Rightarrow> 'h \<Rightarrow> int \<times> 'h"
  hw_dac_get :: "u8 \<Rightarrow> 'h \<Rightarrow> int \<times> u16 \<times> 'h"
  hw_qenc_read :: "u8 \<Rightarrow> 'h \<Rightarrow> int \<times> u32 \<times> 'h"
  hw_qenc_reset :: "u8 \<Rightarrow> 'h \<Rightarrow> int \<times> 'h"
  hw_counter_read :: "u8 \<Rightarrow> 'h \<Rightarrow> int \<times> u32 \<times> 'h"
  hw_da9292_status_cached :: "'h \<Rightarrow> u8 \<times> 'h"
  hw_se_reset :: "u8 \<Rightarrow> 'h \<Rightarrow> int \<times> 'h"
  hw_pwm_capture_begin :: "u8 \<Rightarrow> u8 \<Rightarrow> 'h \<Rightarrow> int \<times> 'h"
  hw_pwm_capture_read :: "u8 \<Rightarrow> 'h \<Rightarrow> int \<times> u32 \<times> u32 \<times> 'h"
  hw_pwm_capture_end :: "u8 \<Rightarrow> 'h \<Rightarrow> int \<times> 'h"
  hw_pwm_single_pulse :: "u8 \<Rightarrow> u32 \<Rightarrow> 'h \<Rightarrow> int \<times> 'h"
  hw_timer_sync :: "u8 \<Rightarrow> u8 \<Rightarrow> u8 \<Rightarrow> 'h \<Rightarrow> int \<times> 'h"
  hw_power_mode_set :: "u8 \<Rightarrow> u32 \<Rightarrow> u32 \<Rightarrow> 'h \<Rightarrow> int \<times> 'h"
  hw_adc_dsp_chain_open :: "'h \<Rightarrow> int \<times> u8 \<times> 'h"
  hw_adc_dsp_stage_push :: "u8 \<Rightarrow> u8 \<Rightarrow> u8 \<Rightarrow> u16 \<Rightarrow> u16 \<Rightarrow> bytes \<Rightarrow> 'h \<Rightarrow> int \<times> 'h"
  hw_adc_dsp_chain_bind :: "u8 \<Rightarrow> u8 \<Rightarrow> 'h \<Rightarrow> int \<times> 'h"

section \<open>The stub backend\<close>

text \<open>
  Every peripheral operation reports \<open>BRIDGE_HW_ERR_NOTIMPL\<close>.  It clears its outputs or leaves
  them at the zero the caller put there; the sample arrays, which no caller reads after an
  error, are zero in the model.
\<close>

definition stub_reset_reason :: "'h \<Rightarrow> u8 \<times> 'h" where
  "stub_reset_reason h = (0, h)"

definition stub_gpio_read :: "u32 \<Rightarrow> 'h \<Rightarrow> int \<times> u32 \<times> 'h" where
  "stub_gpio_read pins h = (BRIDGE_HW_ERR_NOTIMPL, 0, h)"

definition stub_gpio_write :: "u32 \<Rightarrow> u32 \<Rightarrow> 'h \<Rightarrow> int \<times> 'h" where
  "stub_gpio_write pins levels h = (BRIDGE_HW_ERR_NOTIMPL, h)"

definition stub_pwm_set :: "u8 \<Rightarrow> u32 \<Rightarrow> u32 \<Rightarrow> 'h \<Rightarrow> int \<times> 'h" where
  "stub_pwm_set channel period_ns duty_ns h = (BRIDGE_HW_ERR_NOTIMPL, h)"

definition stub_pwm_get :: "u8 \<Rightarrow> 'h \<Rightarrow> int \<times> u32 \<times> u32 \<times> 'h" where
  "stub_pwm_get channel h = (BRIDGE_HW_ERR_NOTIMPL, 0, 0, h)"

definition stub_adc_read :: "u8 \<Rightarrow> u8 \<Rightarrow> 'h \<Rightarrow> int \<times> (nat \<Rightarrow> u16) \<times> 'h" where
  "stub_adc_read channel samples h = (BRIDGE_HW_ERR_NOTIMPL, \<lambda>_. 0, h)"

definition stub_pwm_configure :: "u8 \<Rightarrow> u8 \<Rightarrow> u32 \<Rightarrow> u8 \<Rightarrow> 'h \<Rightarrow> int \<times> 'h" where
  "stub_pwm_configure channel align_mode dead_time_ns break_cfg h = (BRIDGE_HW_ERR_NOTIMPL, h)"

definition stub_adc_configure :: "u8 \<Rightarrow> u16 \<Rightarrow> u16 \<Rightarrow> u8 \<Rightarrow> 'h \<Rightarrow> int \<times> 'h" where
  "stub_adc_configure channel oversample_ratio sample_cycles resolution_bits h = (BRIDGE_HW_ERR_NOTIMPL, h)"

definition stub_adc_stream_begin :: "u8 \<Rightarrow> u8 \<Rightarrow> u32 \<Rightarrow> 'h \<Rightarrow> int \<times> 'h" where
  "stub_adc_stream_begin stream_id channel sample_rate_hz h = (BRIDGE_HW_ERR_NOTIMPL, h)"

definition stub_adc_stream_read :: "u8 \<Rightarrow> u8 \<Rightarrow> 'h \<Rightarrow> int \<times> u8 \<times> (nat \<Rightarrow> u16) \<times> 'h" where
  "stub_adc_stream_read stream_id max_samples h = (BRIDGE_HW_ERR_NOTIMPL, 0, \<lambda>_. 0, h)"

definition stub_adc_stream_end :: "u8 \<Rightarrow> 'h \<Rightarrow> int \<times> 'h" where
  "stub_adc_stream_end stream_id h = (BRIDGE_HW_ERR_NOTIMPL, h)"

definition stub_adc_spectrum_read :: "u8 \<Rightarrow> u16 \<Rightarrow> u8 \<Rightarrow> 'h \<Rightarrow> int \<times> u32 \<times> u16 \<times> u8 \<times> (nat \<Rightarrow> u32) \<times> 'h" where
  "stub_adc_spectrum_read stream_id bin_offset max_bins h = (BRIDGE_HW_ERR_NOTIMPL, 0, 0, 0, \<lambda>_. 0, h)"

definition stub_trng_read :: "nat \<Rightarrow> 'h \<Rightarrow> int \<times> (nat \<Rightarrow> u8) \<times> 'h" where
  "stub_trng_read len h = (BRIDGE_HW_ERR_NOTIMPL, \<lambda>_. 0, h)"

definition stub_tmu_compute :: "u8 \<Rightarrow> u8 \<Rightarrow> u32 \<Rightarrow> u32 \<Rightarrow> 'h \<Rightarrow> int \<times> u32 \<times> 'h" where
  "stub_tmu_compute fn format in_a in_b h = (BRIDGE_HW_ERR_NOTIMPL, 0, h)"

definition stub_dac_set :: "u8 \<Rightarrow> u16 \<Rightarrow> 'h \<Rightarrow> int \<times> 'h" where
  "stub_dac_set channel value_mv h = (BRIDGE_HW_ERR_NOTIMPL, h)"

definition stub_dac_get :: "u8 \<Rightarrow> 'h \<Rightarrow> int \<times> u16 \<times> 'h" where
  "stub_dac_get channel h = (BRIDGE_HW_ERR_NOTIMPL, 0, h)"

definition stub_qenc_read :: "u8 \<Rightarrow> 'h \<Rightarrow> int \<times> u32 \<times> 'h" where
  "stub_qenc_read encoder h = (BRIDGE_HW_ERR_NOTIMPL, 0, h)"

definition stub_qenc_reset :: "u8 \<Rightarrow> 'h \<Rightarrow> int \<times> 'h" where
  "stub_qenc_reset encoder h = (BRIDGE_HW_ERR_NOTIMPL, h)"

definition stub_counter_read :: "u8 \<Rightarrow> 'h \<Rightarrow> int \<times> u32 \<times> 'h" where
  "stub_counter_read counter h = (BRIDGE_HW_ERR_NOTIMPL, 0, h)"

definition stub_da9292_status_cached :: "'h \<Rightarrow> u8 \<times> 'h" where
  "stub_da9292_status_cached h = (0xFF, h)"

definition stub_se_reset :: "u8 \<Rightarrow> 'h \<Rightarrow> int \<times> 'h" where
  "stub_se_reset assert h = (BRIDGE_HW_ERR_NOTIMPL, h)"

definition stub_pwm_capture_begin :: "u8 \<Rightarrow> u8 \<Rightarrow> 'h \<Rightarrow> int \<times> 'h" where
  "stub_pwm_capture_begin channel edge h = (BRIDGE_HW_ERR_NOTIMPL, h)"

definition stub_pwm_capture_read :: "u8 \<Rightarrow> 'h \<Rightarrow> int \<times> u32 \<times> u32 \<times> 'h" where
  "stub_pwm_capture_read channel h = (BRIDGE_HW_ERR_NOTIMPL, 0, 0, h)"

definition stub_pwm_capture_end :: "u8 \<Rightarrow> 'h \<Rightarrow> int \<times> 'h" where
  "stub_pwm_capture_end channel h = (BRIDGE_HW_ERR_NOTIMPL, h)"

definition stub_pwm_single_pulse :: "u8 \<Rightarrow> u32 \<Rightarrow> 'h \<Rightarrow> int \<times> 'h" where
  "stub_pwm_single_pulse channel pulse_ns h = (BRIDGE_HW_ERR_NOTIMPL, h)"

definition stub_timer_sync :: "u8 \<Rightarrow> u8 \<Rightarrow> u8 \<Rightarrow> 'h \<Rightarrow> int \<times> 'h" where
  "stub_timer_sync master slave mode h = (BRIDGE_HW_ERR_NOTIMPL, h)"

definition stub_power_mode_set :: "u8 \<Rightarrow> u32 \<Rightarrow> u32 \<Rightarrow> 'h \<Rightarrow> int \<times> 'h" where
  "stub_power_mode_set mode wake_bitmap wake_after_ms h = (BRIDGE_HW_ERR_NOTIMPL, h)"

definition stub_adc_dsp_chain_open :: "'h \<Rightarrow> int \<times> u8 \<times> 'h" where
  "stub_adc_dsp_chain_open h = (BRIDGE_HW_ERR_NOTIMPL, 0, h)"

definition stub_adc_dsp_stage_push :: "u8 \<Rightarrow> u8 \<Rightarrow> u8 \<Rightarrow> u16 \<Rightarrow> u16 \<Rightarrow> bytes \<Rightarrow> 'h \<Rightarrow> int \<times> 'h" where
  "stub_adc_dsp_stage_push chain_id stage_index kind chunk_offset chunk_total_size chunk_data h = (BRIDGE_HW_ERR_NOTIMPL, h)"

definition stub_adc_dsp_chain_bind :: "u8 \<Rightarrow> u8 \<Rightarrow> 'h \<Rightarrow> int \<times> 'h" where
  "stub_adc_dsp_chain_bind chain_id stream_id h = (BRIDGE_HW_ERR_NOTIMPL, h)"

definition stub_hal :: "'h hal" where
  "stub_hal = \<lparr>hw_reset_reason = stub_reset_reason,
     hw_gpio_read = stub_gpio_read,
     hw_gpio_write = stub_gpio_write,
     hw_pwm_set = stub_pwm_set,
     hw_pwm_get = stub_pwm_get,
     hw_adc_read = stub_adc_read,
     hw_pwm_configure = stub_pwm_configure,
     hw_adc_configure = stub_adc_configure,
     hw_adc_stream_begin = stub_adc_stream_begin,
     hw_adc_stream_read = stub_adc_stream_read,
     hw_adc_stream_end = stub_adc_stream_end,
     hw_adc_spectrum_read = stub_adc_spectrum_read,
     hw_trng_read = stub_trng_read,
     hw_tmu_compute = stub_tmu_compute,
     hw_dac_set = stub_dac_set,
     hw_dac_get = stub_dac_get,
     hw_qenc_read = stub_qenc_read,
     hw_qenc_reset = stub_qenc_reset,
     hw_counter_read = stub_counter_read,
     hw_da9292_status_cached = stub_da9292_status_cached,
     hw_se_reset = stub_se_reset,
     hw_pwm_capture_begin = stub_pwm_capture_begin,
     hw_pwm_capture_read = stub_pwm_capture_read,
     hw_pwm_capture_end = stub_pwm_capture_end,
     hw_pwm_single_pulse = stub_pwm_single_pulse,
     hw_timer_sync = stub_timer_sync,
     hw_power_mode_set = stub_power_mode_set,
     hw_adc_dsp_chain_open = stub_adc_dsp_chain_open,
     hw_adc_dsp_stage_push = stub_adc_dsp_stage_push,
     hw_adc_dsp_chain_bind = stub_adc_dsp_chain_bind\<rparr>"

lemmas stub_defs = stub_hal_def stub_reset_reason_def stub_gpio_read_def stub_gpio_write_def stub_pwm_set_def stub_pwm_get_def stub_adc_read_def stub_pwm_configure_def stub_adc_configure_def stub_adc_stream_begin_def stub_adc_stream_read_def stub_adc_stream_end_def stub_adc_spectrum_read_def stub_trng_read_def stub_tmu_compute_def stub_dac_set_def stub_dac_get_def stub_qenc_read_def stub_qenc_reset_def stub_counter_read_def stub_da9292_status_cached_def stub_se_reset_def stub_pwm_capture_begin_def stub_pwm_capture_read_def stub_pwm_capture_end_def stub_pwm_single_pulse_def stub_timer_sync_def stub_power_mode_set_def stub_adc_dsp_chain_open_def stub_adc_dsp_stage_push_def stub_adc_dsp_chain_bind_def

end
