(* ===== verification/Protocol.thy ===== *)
theory Protocol
  imports Hal Ota_Machine Crc
begin

unbundle bit_operations_syntax

text \<open>
  The command layer of \<open>src/protocol.c\<close>: one definition per opcode handler, the opcode switch,
  the link-feature negotiation, the trial gate and the re-entrancy flag around them.

  A handler takes the request bytes, the reply capacity and the peripheral state, and returns
  status, reply bytes and new state, or \<open>None\<close> where the C code would read outside the request or
  outside an array.  The transports pass a zeroed reply length, so the paths that leave it
  alone reply with no bytes.
\<close>

section \<open>State\<close>

text \<open>What the build fixes: the flash hardware, the generated build identifier and the peripheral backend.\<close>

record 'h board =
  bd_env :: hw_env
  bd_build_id :: bytes
  bd_hal :: "'h hal"

text \<open>
  Everything a dispatch can reach: the per-link feature bytes (indexed by link), the in-flight
  flag, the update session, the flash controller, the boot configuration and the peripherals.
\<close>

record 'h fw =
  link_features :: bytes
  dispatch_in_flight :: bool
  fw_ota :: ota_st
  fw_fmc :: fmc_st
  fw_cfg :: cfg_st
  fw_hal :: 'h

abbreviation (input) "GD32_BRIDGE_LINK_SPI \<equiv> (0 :: nat)"
abbreviation (input) "GD32_BRIDGE_LINK_I2C \<equiv> (1 :: nat)"
abbreviation (input) "GD32_BRIDGE_LINK_COUNT \<equiv> (2 :: nat)"
abbreviation (input) "GD32_BRIDGE_LINK_FEAT_STATUS_SEQ \<equiv> (1 :: u8)"
abbreviation (input) "GD32_BRIDGE_BUILD_ID_LEN \<equiv> (20 :: nat)"
abbreviation (input) "GD32_BRIDGE_ADC_MAX_SAMPLES \<equiv> (8 :: nat)"
abbreviation (input) "GD32_BRIDGE_ADC_STREAM_COUNT \<equiv> (2 :: u8)"
abbreviation (input) "GD32_BRIDGE_ADC_STREAM_READ_MAX \<equiv> (32 :: nat)"
abbreviation (input) "GD32_BRIDGE_ADC_SPECTRUM_READ_MAX \<equiv> (14 :: nat)"
abbreviation (input) "PROTOCOL_VERSION_MAJOR \<equiv> (0 :: u8)"
abbreviation (input) "PROTOCOL_VERSION_MINOR \<equiv> (14 :: u8)"
abbreviation (input) "PROTOCOL_VERSION_PATCH \<equiv> (1 :: u8)"
abbreviation (input) "BRIDGE_TMU_FN__COUNT \<equiv> (12 :: u8)"
abbreviation (input) "BRIDGE_TMU_FMT__COUNT \<equiv> (2 :: u8)"

type_synonym 'h handler = "bytes \<Rightarrow> nat \<Rightarrow> 'h \<Rightarrow> (gd32_bridge_status \<times> bytes \<times> 'h) option"

section \<open>Helpers\<close>

definition get_le16 :: "bytes \<Rightarrow> nat \<Rightarrow> u16 option" where
  "get_le16 p k = do { a \<leftarrow> rd p k; b \<leftarrow> rd p (k + 1); Some (le16 a b) }"

definition get_le32 :: "bytes \<Rightarrow> nat \<Rightarrow> u32 option" where
  "get_le32 p k = do { a \<leftarrow> rd p k; b \<leftarrow> rd p (k + 1); c \<leftarrow> rd p (k + 2); d \<leftarrow> rd p (k + 3);
     Some (le32 a b c d) }"

definition put_le32 :: "u32 \<Rightarrow> bytes" where
  "put_le32 v = bytes32 v"

text \<open>The first \<open>n\<close> entries of an array declared with \<open>cap\<close> elements.\<close>

definition arr_take :: "nat \<Rightarrow> nat \<Rightarrow> (nat \<Rightarrow> 'a) \<Rightarrow> 'a list option" where
  "arr_take cap n f = (if n \<le> cap then Some (map f [0..<n]) else None)"

definition status_from_hw :: "int \<Rightarrow> gd32_bridge_status" where
  "status_from_hw rv =
     (if rv = BRIDGE_HW_OK then STATUS_OK
      else if rv = BRIDGE_HW_ERR_INVAL then STATUS_INVAL
      else if rv = BRIDGE_HW_ERR_RANGE then STATUS_OUT_OF_RANGE
      else if rv = BRIDGE_HW_ERR_NOTIMPL then STATUS_NOSUPPORT
      else if rv = BRIDGE_HW_ERR_BUSY then STATUS_BUSY
      else if rv = BRIDGE_HW_ERR_NOT_READY then STATUS_NOT_READY
      else STATUS_IO)"

text \<open>
  The older handlers decode a result with their own ladder of tests.  \<open>ladder errs rv\<close> is the
  status of the first test of the ladder that hits, \<open>STATUS_IO\<close> for any other negative
  code, and \<open>None\<close> when the handler goes on to its reply.
\<close>

fun ladder :: "(int \<times> gd32_bridge_status) list \<Rightarrow> int \<Rightarrow> gd32_bridge_status option" where
  "ladder [] rv = (if rv < 0 then Some STATUS_IO else None)"
| "ladder ((code, st) # errs) rv = (if rv = code then Some st else ladder errs rv)"

abbreviation (input) "on_inval \<equiv> (BRIDGE_HW_ERR_INVAL, STATUS_INVAL)"
abbreviation (input) "on_range \<equiv> (BRIDGE_HW_ERR_RANGE, STATUS_OUT_OF_RANGE)"
abbreviation (input) "on_notimpl \<equiv> (BRIDGE_HW_ERR_NOTIMPL, STATUS_NOSUPPORT)"
abbreviation (input) "on_busy \<equiv> (BRIDGE_HW_ERR_BUSY, STATUS_BUSY)"

definition answer :: "gd32_bridge_status option \<Rightarrow> bytes \<Rightarrow> 'h \<Rightarrow> gd32_bridge_status \<times> bytes \<times> 'h" where
  "answer e reply h = (case e of Some st \<Rightarrow> (st, [], h) | None \<Rightarrow> (STATUS_OK, reply, h))"

text \<open>The later handlers return \<open>status_from_hw rv\<close> and reply only when it is OK.\<close>

definition hw_error :: "int \<Rightarrow> gd32_bridge_status option" where
  "hw_error rv = (if status_from_hw rv = STATUS_OK then None else Some (status_from_hw rv))"

section \<open>Identity, reset cause, GPIO\<close>

definition handle_ping :: "'h handler" where
  "handle_ping req cap h =
     (if length req \<noteq> 0 then Some (STATUS_INVAL, [], h) else Some (STATUS_OK, [], h))"

definition handle_get_version :: "'h handler" where
  "handle_get_version req cap h =
     (if length req \<noteq> 0 then Some (STATUS_INVAL, [], h)
      else if cap < 3 then Some (STATUS_NOMEM, [], h)
      else Some (STATUS_OK, [PROTOCOL_VERSION_MAJOR, PROTOCOL_VERSION_MINOR, PROTOCOL_VERSION_PATCH], h))"

definition handle_get_build_id :: "bytes \<Rightarrow> 'h handler" where
  "handle_get_build_id build_id req cap h =
     (if length req \<noteq> 0 then Some (STATUS_INVAL, [], h)
      else if cap < GD32_BRIDGE_BUILD_ID_LEN then Some (STATUS_NOMEM, [], h)
      else if length build_id < GD32_BRIDGE_BUILD_ID_LEN then None
      else Some (STATUS_OK, take GD32_BRIDGE_BUILD_ID_LEN build_id, h))"

definition handle_reset_reason :: "'h hal \<Rightarrow> 'h handler" where
  "handle_reset_reason hal req cap h =
     (if length req \<noteq> 0 then Some (STATUS_INVAL, [], h)
      else if cap < 1 then Some (STATUS_NOMEM, [], h)
      else let (v, h') = hw_reset_reason hal h in Some (STATUS_OK, [v], h'))"

definition handle_gpio_read :: "'h hal \<Rightarrow> 'h handler" where
  "handle_gpio_read hal req cap h =
     (if length req \<noteq> 4 then Some (STATUS_INVAL, [], h)
      else if cap < 4 then Some (STATUS_NOMEM, [], h)
      else do {
        pins \<leftarrow> get_le32 req 0;
        let (rv, levels, h') = hw_gpio_read hal pins h;
        Some (answer (ladder [] rv) (put_le32 levels) h') })"

definition handle_gpio_write :: "'h hal \<Rightarrow> 'h handler" where
  "handle_gpio_write hal req cap h =
     (if length req \<noteq> 8 then Some (STATUS_INVAL, [], h)
      else do {
        pins \<leftarrow> get_le32 req 0;
        levels \<leftarrow> get_le32 req 4;
        let (rv, h') = hw_gpio_write hal pins levels h;
        Some (answer (ladder [] rv) [] h') })"

section \<open>PWM and ADC\<close>

definition handle_pwm_set :: "'h hal \<Rightarrow> 'h handler" where
  "handle_pwm_set hal req cap h =
     (if length req \<noteq> 10 then Some (STATUS_INVAL, [], h)
      else do {
        channel \<leftarrow> rd req 0;
        period_ns \<leftarrow> get_le32 req 2;
        duty_ns \<leftarrow> get_le32 req 6;
        if duty_ns > period_ns then Some (STATUS_INVAL, [], h)
        else let (rv, h') = hw_pwm_set hal channel period_ns duty_ns h
             in Some (answer (hw_error rv) [] h') })"

definition handle_pwm_get :: "'h hal \<Rightarrow> 'h handler" where
  "handle_pwm_get hal req cap h =
     (if length req \<noteq> 1 then Some (STATUS_INVAL, [], h)
      else if cap < 8 then Some (STATUS_NOMEM, [], h)
      else do {
        channel \<leftarrow> rd req 0;
        let (rv, period_ns, duty_ns, h') = hw_pwm_get hal channel h;
        Some (answer (hw_error rv) (put_le32 period_ns @ put_le32 duty_ns) h') })"

definition handle_adc_read :: "'h hal \<Rightarrow> 'h handler" where
  "handle_adc_read hal req cap h =
     (if length req \<noteq> 2 then Some (STATUS_INVAL, [], h)
      else do {
        channel \<leftarrow> rd req 0;
        samples \<leftarrow> rd req 1;
        if samples = 0 then Some (STATUS_INVAL, [], h)
        else if unat samples > GD32_BRIDGE_ADC_MAX_SAMPLES then Some (STATUS_OUT_OF_RANGE, [], h)
        else if cap < 1 + unat samples * 2 then Some (STATUS_NOMEM, [], h)
        else let (rv, mv, h') = hw_adc_read hal channel samples h
             in if rv \<noteq> BRIDGE_HW_OK then Some (status_from_hw rv, [], h')
                else do {
                  vs \<leftarrow> arr_take GD32_BRIDGE_ADC_MAX_SAMPLES (unat samples) mv;
                  Some (STATUS_OK, samples # concat (map bytes16 vs), h') } })"

definition handle_da9292_forward :: "'h hal \<Rightarrow> 'h handler" where
  "handle_da9292_forward hal req cap h =
     (if length req \<noteq> 0 then Some (STATUS_INVAL, [], h)
      else if cap < 1 then Some (STATUS_NOMEM, [], h)
      else let (v, h') = hw_da9292_status_cached hal h in Some (STATUS_OK, [v], h'))"

definition handle_se_reset :: "'h hal \<Rightarrow> 'h handler" where
  "handle_se_reset hal req cap h =
     (if length req \<noteq> 1 then Some (STATUS_INVAL, [], h)
      else do {
        assert \<leftarrow> rd req 0;
        if assert > 1 then Some (STATUS_INVAL, [], h)
        else let (rv, h') = hw_se_reset hal assert h
             in Some (answer (ladder [on_inval, on_notimpl] rv) [] h') })"

section \<open>Boot configuration\<close>

text \<open>
  The only handler that reads the update session and the flash controller.  It never writes flash:
  a SET is queued for the main loop.
\<close>

definition handle_boot_config ::
  "hw_env \<Rightarrow> ota_st \<Rightarrow> bytes \<Rightarrow> nat \<Rightarrow> cfg_st \<Rightarrow> (gd32_bridge_status \<times> bytes \<times> cfg_st) option" where
  "handle_boot_config env o' req cap c =
     (let reply = (\<lambda>c. Some (STATUS_OK, put_le32 (boot_config_flags c), c))
      in if length req \<noteq> 5 then Some (STATUS_INVAL, [], c)
         else if cap < 4 then Some (STATUS_NOMEM, [], c)
         else do {
           op \<leftarrow> rd req 0;
           if op > 1 then Some (STATUS_INVAL, [], c)
           else if \<not> ota_fmc_supported then Some (STATUS_NOSUPPORT, [], c)
           else if op = 1
           then do {
             flags \<leftarrow> get_le32 req 1;
             if flags AND NOT BOOT_CONFIG_KNOWN_FLAGS \<noteq> 0 then Some (STATUS_INVAL, [], c)
             else if flags \<noteq> boot_config_flags c \<and> \<not> ota_fmc_config_write_safe env
             then Some (STATUS_NOSUPPORT, [], c)
             else if flags \<noteq> boot_config_flags c \<and> (ota_session_active o' \<or> ota_erase_active o')
             then Some (STATUS_BUSY, [], c)
             else let (accepted, c') = boot_config_request flags c
                  in if \<not> accepted then Some (STATUS_BUSY, [], c') else reply c' }
           else reply c })"

section \<open>DAC, encoders, counters, tuning\<close>

definition handle_dac_set :: "'h hal \<Rightarrow> 'h handler" where
  "handle_dac_set hal req cap h =
     (if length req \<noteq> 4 then Some (STATUS_INVAL, [], h)
      else do {
        channel \<leftarrow> rd req 0;
        value_mv \<leftarrow> get_le16 req 2;
        let (rv, h') = hw_dac_set hal channel value_mv h;
        Some (answer (ladder [on_inval, on_range, on_notimpl] rv) [] h') })"

definition handle_dac_get :: "'h hal \<Rightarrow> 'h handler" where
  "handle_dac_get hal req cap h =
     (if length req \<noteq> 1 then Some (STATUS_INVAL, [], h)
      else if cap < 2 then Some (STATUS_NOMEM, [], h)
      else do {
        channel \<leftarrow> rd req 0;
        let (rv, value_mv, h') = hw_dac_get hal channel h;
        Some (answer (ladder [on_inval, on_notimpl] rv) (bytes16 value_mv) h') })"

definition handle_qenc_read :: "'h hal \<Rightarrow> 'h handler" where
  "handle_qenc_read hal req cap h =
     (if length req \<noteq> 1 then Some (STATUS_INVAL, [], h)
      else if cap < 4 then Some (STATUS_NOMEM, [], h)
      else do {
        encoder \<leftarrow> rd req 0;
        let (rv, position, h') = hw_qenc_read hal encoder h;
        Some (answer (ladder [on_inval, on_notimpl] rv) (put_le32 position) h') })"

definition handle_qenc_reset :: "'h hal \<Rightarrow> 'h handler" where
  "handle_qenc_reset hal req cap h =
     (if length req \<noteq> 1 then Some (STATUS_INVAL, [], h)
      else do {
        encoder \<leftarrow> rd req 0;
        let (rv, h') = hw_qenc_reset hal encoder h;
        Some (answer (ladder [on_inval, on_notimpl] rv) [] h') })"

definition handle_counter_read :: "'h hal \<Rightarrow> 'h handler" where
  "handle_counter_read hal req cap h =
     (if length req \<noteq> 1 then Some (STATUS_INVAL, [], h)
      else if cap < 4 then Some (STATUS_NOMEM, [], h)
      else do {
        counter \<leftarrow> rd req 0;
        let (rv, ticks, h') = hw_counter_read hal counter h;
        Some (answer (ladder [on_inval, on_notimpl] rv) (put_le32 ticks) h') })"

definition handle_pwm_configure :: "'h hal \<Rightarrow> 'h handler" where
  "handle_pwm_configure hal req cap h =
     (if length req \<noteq> 7 then Some (STATUS_INVAL, [], h)
      else do {
        channel \<leftarrow> rd req 0;
        align_mode \<leftarrow> rd req 1;
        dead_time_ns \<leftarrow> get_le32 req 2;
        break_cfg \<leftarrow> rd req 6;
        if align_mode > 3 then Some (STATUS_INVAL, [], h)
        else let (rv, h') = hw_pwm_configure hal channel align_mode dead_time_ns break_cfg h
             in Some (answer (ladder [on_inval, on_range, on_notimpl] rv) [] h') })"

definition handle_adc_configure :: "'h hal \<Rightarrow> 'h handler" where
  "handle_adc_configure hal req cap h =
     (if length req \<noteq> 7 then Some (STATUS_INVAL, [], h)
      else do {
        channel \<leftarrow> rd req 0;
        oversample_ratio \<leftarrow> get_le16 req 2;
        sample_cycles \<leftarrow> get_le16 req 4;
        resolution_bits \<leftarrow> rd req 6;
        if resolution_bits \<notin> {0, 6, 8, 10, 12, 14, 16} then Some (STATUS_INVAL, [], h)
        else let (rv, h') = hw_adc_configure hal channel oversample_ratio sample_cycles resolution_bits h
             in Some (answer (ladder [on_inval, on_range, on_notimpl] rv) [] h') })"

section \<open>ADC streaming\<close>

definition handle_adc_stream_begin :: "'h hal \<Rightarrow> 'h handler" where
  "handle_adc_stream_begin hal req cap h =
     (if length req \<noteq> 7 then Some (STATUS_INVAL, [], h)
      else do {
        stream_id \<leftarrow> rd req 0;
        channel \<leftarrow> rd req 1;
        sample_rate_hz \<leftarrow> get_le32 req 3;
        if stream_id \<ge> GD32_BRIDGE_ADC_STREAM_COUNT then Some (STATUS_INVAL, [], h)
        else if sample_rate_hz = 0 then Some (STATUS_INVAL, [], h)
        else let (rv, h') = hw_adc_stream_begin hal stream_id channel sample_rate_hz h
             in Some (answer (ladder [on_inval, on_range, on_notimpl] rv) [] h') })"

definition handle_adc_stream_read :: "'h hal \<Rightarrow> 'h handler" where
  "handle_adc_stream_read hal req cap h =
     (if length req \<noteq> 2 then Some (STATUS_INVAL, [], h)
      else do {
        stream_id \<leftarrow> rd req 0;
        max_samples \<leftarrow> rd req 1;
        if stream_id \<ge> GD32_BRIDGE_ADC_STREAM_COUNT then Some (STATUS_INVAL, [], h)
        else if max_samples = 0 then Some (STATUS_INVAL, [], h)
        else if unat max_samples > GD32_BRIDGE_ADC_STREAM_READ_MAX then Some (STATUS_OUT_OF_RANGE, [], h)
        else let (rv, got, mv, h') = hw_adc_stream_read hal stream_id max_samples h
             in if rv = BRIDGE_HW_ERR_NOTIMPL then Some (STATUS_NOSUPPORT, [], h')
                else if rv = BRIDGE_HW_ERR_BUSY then Some (STATUS_BUSY, [], h')
                else if rv \<noteq> BRIDGE_HW_OK then Some (status_from_hw rv, [], h')
                else if got > max_samples then Some (STATUS_IO, [], h')
                else if cap < 1 + unat max_samples * 2 then Some (STATUS_NOMEM, [], h')
                else do {
                  vs \<leftarrow> arr_take GD32_BRIDGE_ADC_STREAM_READ_MAX (unat got) mv;
                  Some (STATUS_OK,
                        got # concat (map bytes16 vs) @ replicate (2 * (unat max_samples - unat got)) 0, h') } })"

definition handle_adc_spectrum_read :: "'h hal \<Rightarrow> 'h handler" where
  "handle_adc_spectrum_read hal req cap h =
     (if length req \<noteq> 4 then Some (STATUS_INVAL, [], h)
      else do {
        stream_id \<leftarrow> rd req 0;
        bin_offset \<leftarrow> get_le16 req 1;
        max_bins \<leftarrow> rd req 3;
        if stream_id \<ge> GD32_BRIDGE_ADC_STREAM_COUNT then Some (STATUS_INVAL, [], h)
        else if max_bins = 0 then Some (STATUS_INVAL, [], h)
        else if unat max_bins > GD32_BRIDGE_ADC_SPECTRUM_READ_MAX then Some (STATUS_OUT_OF_RANGE, [], h)
        else let (rv, seq, total, got, bins, h') = hw_adc_spectrum_read hal stream_id bin_offset max_bins h
             in case ladder [on_notimpl, on_busy] rv of
                  Some st \<Rightarrow> Some (st, [], h')
                | None \<Rightarrow>
                    if got > max_bins then Some (STATUS_IO, [], h')
                    else if cap < 7 + unat max_bins * 4 then Some (STATUS_NOMEM, [], h')
                    else do {
                      bs \<leftarrow> arr_take GD32_BRIDGE_ADC_SPECTRUM_READ_MAX (unat got) bins;
                      Some (STATUS_OK,
                            put_le32 seq @ bytes16 total @ [got] @ concat (map put_le32 bs) @
                            replicate (4 * (unat max_bins - unat got)) 0, h') } })"

definition handle_adc_stream_end :: "'h hal \<Rightarrow> 'h handler" where
  "handle_adc_stream_end hal req cap h =
     (if length req \<noteq> 1 then Some (STATUS_INVAL, [], h)
      else do {
        stream_id \<leftarrow> rd req 0;
        if stream_id \<ge> GD32_BRIDGE_ADC_STREAM_COUNT then Some (STATUS_INVAL, [], h)
        else let (rv, h') = hw_adc_stream_end hal stream_id h
             in Some (answer (ladder [on_notimpl] rv) [] h') })"

section \<open>Random numbers and the math unit\<close>

definition handle_trng_read :: "'h hal \<Rightarrow> 'h handler" where
  "handle_trng_read hal req cap h =
     (if length req \<noteq> 1 then Some (STATUS_INVAL, [], h)
      else do {
        want \<leftarrow> rd req 0;
        if want = 0 \<or> unat want > 32 then Some (STATUS_INVAL, [], h)
        else if cap < unat want then Some (STATUS_NOMEM, [], h)
        else let (rv, dest, h') = hw_trng_read hal (unat want) h
             in if rv \<noteq> BRIDGE_HW_OK then Some (status_from_hw rv, [], h')
                else do { bs \<leftarrow> arr_take cap (unat want) dest; Some (STATUS_OK, bs, h') } })"

definition handle_tmu_compute :: "'h hal \<Rightarrow> 'h handler" where
  "handle_tmu_compute hal req cap h =
     (if length req \<noteq> 12 then Some (STATUS_INVAL, [], h)
      else if cap < 4 then Some (STATUS_NOMEM, [], h)
      else do {
        fn \<leftarrow> rd req 0;
        format \<leftarrow> rd req 1;
        in_a \<leftarrow> get_le32 req 4;
        in_b \<leftarrow> get_le32 req 8;
        if fn \<ge> BRIDGE_TMU_FN__COUNT then Some (STATUS_INVAL, [], h)
        else if format \<ge> BRIDGE_TMU_FMT__COUNT then Some (STATUS_INVAL, [], h)
        else let (rv, result, h') = hw_tmu_compute hal fn format in_a in_b h
             in Some (answer (ladder [on_inval, on_range, on_notimpl] rv) (put_le32 result) h') })"

section \<open>Timers and power\<close>

definition handle_pwm_capture_begin :: "'h hal \<Rightarrow> 'h handler" where
  "handle_pwm_capture_begin hal req cap h =
     (if length req \<noteq> 2 then Some (STATUS_INVAL, [], h)
      else do {
        channel \<leftarrow> rd req 0;
        edge \<leftarrow> rd req 1;
        if edge > 2 then Some (STATUS_INVAL, [], h)
        else let (rv, h') = hw_pwm_capture_begin hal channel edge h in Some (status_from_hw rv, [], h') })"

definition handle_pwm_capture_read :: "'h hal \<Rightarrow> 'h handler" where
  "handle_pwm_capture_read hal req cap h =
     (if length req \<noteq> 1 then Some (STATUS_INVAL, [], h)
      else if cap < 8 then Some (STATUS_NOMEM, [], h)
      else do {
        channel \<leftarrow> rd req 0;
        let (rv, period_ns, pulse_ns, h') = hw_pwm_capture_read hal channel h;
        Some (answer (hw_error rv) (put_le32 period_ns @ put_le32 pulse_ns) h') })"

definition handle_pwm_capture_end :: "'h hal \<Rightarrow> 'h handler" where
  "handle_pwm_capture_end hal req cap h =
     (if length req \<noteq> 1 then Some (STATUS_INVAL, [], h)
      else do {
        channel \<leftarrow> rd req 0;
        let (rv, h') = hw_pwm_capture_end hal channel h;
        Some (status_from_hw rv, [], h') })"

definition handle_pwm_single_pulse :: "'h hal \<Rightarrow> 'h handler" where
  "handle_pwm_single_pulse hal req cap h =
     (if length req \<noteq> 8 then Some (STATUS_INVAL, [], h)
      else do {
        channel \<leftarrow> rd req 0;
        pulse_ns \<leftarrow> get_le32 req 4;
        if pulse_ns = 0 then Some (STATUS_INVAL, [], h)
        else let (rv, h') = hw_pwm_single_pulse hal channel pulse_ns h in Some (status_from_hw rv, [], h') })"

definition handle_timer_sync :: "'h hal \<Rightarrow> 'h handler" where
  "handle_timer_sync hal req cap h =
     (if length req \<noteq> 3 then Some (STATUS_INVAL, [], h)
      else do {
        master \<leftarrow> rd req 0;
        slave \<leftarrow> rd req 1;
        mode \<leftarrow> rd req 2;
        let (rv, h') = hw_timer_sync hal master slave mode h;
        Some (status_from_hw rv, [], h') })"

definition handle_power_mode_set :: "'h hal \<Rightarrow> 'h handler" where
  "handle_power_mode_set hal req cap h =
     (if length req \<noteq> 10 then Some (STATUS_INVAL, [], h)
      else do {
        mode \<leftarrow> rd req 0;
        if mode > 3 then Some (STATUS_INVAL, [], h)
        else do {
          wake_bitmap \<leftarrow> get_le32 req 2;
          wake_after_ms \<leftarrow> get_le32 req 6;
          let (rv, h') = hw_power_mode_set hal mode wake_bitmap wake_after_ms h;
          Some (status_from_hw rv, [], h') } })"

section \<open>DSP chain upload\<close>

definition handle_adc_dsp_chain_open :: "'h hal \<Rightarrow> 'h handler" where
  "handle_adc_dsp_chain_open hal req cap h =
     (if length req \<noteq> 0 then Some (STATUS_INVAL, [], h)
      else if cap < 1 then Some (STATUS_NOMEM, [], h)
      else let (rv, chain_id, h') = hw_adc_dsp_chain_open hal h
           in Some (answer (hw_error rv) [chain_id] h'))"

definition handle_adc_dsp_stage_push :: "'h hal \<Rightarrow> 'h handler" where
  "handle_adc_dsp_stage_push hal req cap h =
     (if length req < 7 then Some (STATUS_INVAL, [], h)
      else do {
        chain_id \<leftarrow> rd req 0;
        stage_index \<leftarrow> rd req 1;
        kind \<leftarrow> rd req 2;
        if kind > 3 then Some (STATUS_INVAL, [], h)
        else do {
          chunk_offset \<leftarrow> get_le16 req 3;
          chunk_total_size \<leftarrow> get_le16 req 5;
          if unat chunk_offset + (length req - 7) > unat chunk_total_size
          then Some (STATUS_OUT_OF_RANGE, [], h)
          else let (rv, h') = hw_adc_dsp_stage_push hal chain_id stage_index kind chunk_offset
                                chunk_total_size (drop 7 req) h
               in Some (status_from_hw rv, [], h') } })"

definition handle_adc_dsp_chain_bind :: "'h hal \<Rightarrow> 'h handler" where
  "handle_adc_dsp_chain_bind hal req cap h =
     (if length req \<noteq> 2 then Some (STATUS_INVAL, [], h)
      else do {
        chain_id \<leftarrow> rd req 0;
        stream_id \<leftarrow> rd req 1;
        if stream_id \<ge> GD32_BRIDGE_ADC_STREAM_COUNT then Some (STATUS_INVAL, [], h)
        else let (rv, h') = hw_adc_dsp_chain_bind hal chain_id stream_id h in Some (status_from_hw rv, [], h') })"

section \<open>Link features\<close>

definition protocol_link_features :: "nat \<Rightarrow> bytes \<Rightarrow> u8 option" where
  "protocol_link_features link feats = (if link \<ge> GD32_BRIDGE_LINK_COUNT then Some 0 else rd feats link)"

definition handle_link_features ::
  "nat \<Rightarrow> bytes \<Rightarrow> nat \<Rightarrow> bytes \<Rightarrow> (gd32_bridge_status \<times> bytes \<times> bytes) option" where
  "handle_link_features link req cap feats =
     (if length req \<noteq> 1 then Some (STATUS_INVAL, [], feats)
      else if cap < 1 then Some (STATUS_NOMEM, [], feats)
      else if link \<ge> GD32_BRIDGE_LINK_COUNT then Some (STATUS_INVAL, [], feats)
      else do {
        want \<leftarrow> rd req 0;
        _ \<leftarrow> rd feats link;
        let feats' = feats[link := want AND GD32_BRIDGE_LINK_FEAT_STATUS_SEQ];
        granted \<leftarrow> rd feats' link;
        Some (STATUS_OK, [granted], feats') })"

section \<open>Dispatch\<close>

datatype gd32_bridge_cmd = CMD_PING | CMD_GET_VERSION | CMD_GET_BUILD_ID | CMD_RESET_REASON |
  CMD_GPIO_READ | CMD_GPIO_WRITE | CMD_PWM_SET | CMD_PWM_GET | CMD_PWM_CONFIGURE |
  CMD_PWM_CAPTURE_BEGIN | CMD_PWM_CAPTURE_READ | CMD_PWM_CAPTURE_END | CMD_PWM_SINGLE_PULSE |
  CMD_TIMER_SYNC | CMD_POWER_MODE_SET | CMD_ADC_READ | CMD_ADC_CONFIGURE | CMD_ADC_STREAM_BEGIN |
  CMD_ADC_STREAM_READ | CMD_ADC_STREAM_END | CMD_ADC_STREAM_CONFIGURE_DSP | CMD_ADC_DSP_CHAIN_OPEN |
  CMD_ADC_DSP_STAGE_PUSH | CMD_ADC_DSP_CHAIN_BIND | CMD_ADC_SPECTRUM_READ |
  CMD_DA9292_STATUS_FORWARD | CMD_SE_RESET | CMD_BOOT_CONFIG | CMD_DAC_SET | CMD_DAC_GET |
  CMD_QENC_READ | CMD_QENC_RESET | CMD_COUNTER_READ | CMD_TRNG_READ | CMD_LINK_FEATURES |
  CMD_TMU_COMPUTE

fun cmd_code :: "gd32_bridge_cmd \<Rightarrow> u8" where
  "cmd_code CMD_PING = 0x00"
| "cmd_code CMD_GET_VERSION = 0x01"
| "cmd_code CMD_GET_BUILD_ID = 0x02"
| "cmd_code CMD_RESET_REASON = 0x03"
| "cmd_code CMD_GPIO_READ = 0x10"
| "cmd_code CMD_GPIO_WRITE = 0x11"
| "cmd_code CMD_PWM_SET = 0x20"
| "cmd_code CMD_PWM_GET = 0x21"
| "cmd_code CMD_PWM_CONFIGURE = 0x22"
| "cmd_code CMD_PWM_CAPTURE_BEGIN = 0x23"
| "cmd_code CMD_PWM_CAPTURE_READ = 0x24"
| "cmd_code CMD_PWM_CAPTURE_END = 0x25"
| "cmd_code CMD_PWM_SINGLE_PULSE = 0x26"
| "cmd_code CMD_TIMER_SYNC = 0x27"
| "cmd_code CMD_POWER_MODE_SET = 0x28"
| "cmd_code CMD_ADC_READ = 0x30"
| "cmd_code CMD_ADC_CONFIGURE = 0x32"
| "cmd_code CMD_ADC_STREAM_BEGIN = 0x33"
| "cmd_code CMD_ADC_STREAM_READ = 0x34"
| "cmd_code CMD_ADC_STREAM_END = 0x35"
| "cmd_code CMD_ADC_STREAM_CONFIGURE_DSP = 0x36"
| "cmd_code CMD_ADC_DSP_CHAIN_OPEN = 0x37"
| "cmd_code CMD_ADC_DSP_STAGE_PUSH = 0x38"
| "cmd_code CMD_ADC_DSP_CHAIN_BIND = 0x39"
| "cmd_code CMD_ADC_SPECTRUM_READ = 0x3A"
| "cmd_code CMD_DA9292_STATUS_FORWARD = 0x40"
| "cmd_code CMD_SE_RESET = 0x41"
| "cmd_code CMD_BOOT_CONFIG = 0x42"
| "cmd_code CMD_DAC_SET = 0x50"
| "cmd_code CMD_DAC_GET = 0x51"
| "cmd_code CMD_QENC_READ = 0x60"
| "cmd_code CMD_QENC_RESET = 0x61"
| "cmd_code CMD_COUNTER_READ = 0x70"
| "cmd_code CMD_TRNG_READ = 0x80"
| "cmd_code CMD_LINK_FEATURES = 0x81"
| "cmd_code CMD_TMU_COMPUTE = 0x90"

definition all_cmds :: "gd32_bridge_cmd list" where
  "all_cmds = [CMD_PING, CMD_GET_VERSION, CMD_GET_BUILD_ID, CMD_RESET_REASON,
    CMD_GPIO_READ, CMD_GPIO_WRITE, CMD_PWM_SET, CMD_PWM_GET, CMD_PWM_CONFIGURE,
    CMD_PWM_CAPTURE_BEGIN, CMD_PWM_CAPTURE_READ, CMD_PWM_CAPTURE_END, CMD_PWM_SINGLE_PULSE,
    CMD_TIMER_SYNC, CMD_POWER_MODE_SET, CMD_ADC_READ, CMD_ADC_CONFIGURE, CMD_ADC_STREAM_BEGIN,
    CMD_ADC_STREAM_READ, CMD_ADC_STREAM_END, CMD_ADC_STREAM_CONFIGURE_DSP, CMD_ADC_DSP_CHAIN_OPEN,
    CMD_ADC_DSP_STAGE_PUSH, CMD_ADC_DSP_CHAIN_BIND, CMD_ADC_SPECTRUM_READ,
    CMD_DA9292_STATUS_FORWARD, CMD_SE_RESET, CMD_BOOT_CONFIG, CMD_DAC_SET, CMD_DAC_GET,
    CMD_QENC_READ, CMD_QENC_RESET, CMD_COUNTER_READ, CMD_TRNG_READ, CMD_LINK_FEATURES,
    CMD_TMU_COMPUTE]"

definition cmd_of :: "u8 \<Rightarrow> gd32_bridge_cmd option" where
  "cmd_of cmd = find (\<lambda>c. cmd_code c = cmd) all_cmds"

text \<open>
  The opcode switch: the handler of a peripheral opcode, as a function of the board.  The two
  opcodes with state of their own and the reserved ones have no entry here.
\<close>

fun cmd_handler :: "'h board \<Rightarrow> gd32_bridge_cmd \<Rightarrow> 'h handler option" where
  "cmd_handler bd CMD_PING = Some handle_ping"
| "cmd_handler bd CMD_GET_VERSION = Some handle_get_version"
| "cmd_handler bd CMD_GET_BUILD_ID = Some (handle_get_build_id (bd_build_id bd))"
| "cmd_handler bd CMD_RESET_REASON = Some (handle_reset_reason (bd_hal bd))"
| "cmd_handler bd CMD_GPIO_READ = Some (handle_gpio_read (bd_hal bd))"
| "cmd_handler bd CMD_GPIO_WRITE = Some (handle_gpio_write (bd_hal bd))"
| "cmd_handler bd CMD_PWM_SET = Some (handle_pwm_set (bd_hal bd))"
| "cmd_handler bd CMD_PWM_GET = Some (handle_pwm_get (bd_hal bd))"
| "cmd_handler bd CMD_PWM_CONFIGURE = Some (handle_pwm_configure (bd_hal bd))"
| "cmd_handler bd CMD_PWM_CAPTURE_BEGIN = Some (handle_pwm_capture_begin (bd_hal bd))"
| "cmd_handler bd CMD_PWM_CAPTURE_READ = Some (handle_pwm_capture_read (bd_hal bd))"
| "cmd_handler bd CMD_PWM_CAPTURE_END = Some (handle_pwm_capture_end (bd_hal bd))"
| "cmd_handler bd CMD_PWM_SINGLE_PULSE = Some (handle_pwm_single_pulse (bd_hal bd))"
| "cmd_handler bd CMD_TIMER_SYNC = Some (handle_timer_sync (bd_hal bd))"
| "cmd_handler bd CMD_POWER_MODE_SET = Some (handle_power_mode_set (bd_hal bd))"
| "cmd_handler bd CMD_ADC_READ = Some (handle_adc_read (bd_hal bd))"
| "cmd_handler bd CMD_ADC_CONFIGURE = Some (handle_adc_configure (bd_hal bd))"
| "cmd_handler bd CMD_ADC_STREAM_BEGIN = Some (handle_adc_stream_begin (bd_hal bd))"
| "cmd_handler bd CMD_ADC_STREAM_READ = Some (handle_adc_stream_read (bd_hal bd))"
| "cmd_handler bd CMD_ADC_STREAM_END = Some (handle_adc_stream_end (bd_hal bd))"
| "cmd_handler bd CMD_ADC_DSP_CHAIN_OPEN = Some (handle_adc_dsp_chain_open (bd_hal bd))"
| "cmd_handler bd CMD_ADC_DSP_STAGE_PUSH = Some (handle_adc_dsp_stage_push (bd_hal bd))"
| "cmd_handler bd CMD_ADC_DSP_CHAIN_BIND = Some (handle_adc_dsp_chain_bind (bd_hal bd))"
| "cmd_handler bd CMD_ADC_SPECTRUM_READ = Some (handle_adc_spectrum_read (bd_hal bd))"
| "cmd_handler bd CMD_DA9292_STATUS_FORWARD = Some (handle_da9292_forward (bd_hal bd))"
| "cmd_handler bd CMD_SE_RESET = Some (handle_se_reset (bd_hal bd))"
| "cmd_handler bd CMD_DAC_SET = Some (handle_dac_set (bd_hal bd))"
| "cmd_handler bd CMD_DAC_GET = Some (handle_dac_get (bd_hal bd))"
| "cmd_handler bd CMD_QENC_READ = Some (handle_qenc_read (bd_hal bd))"
| "cmd_handler bd CMD_QENC_RESET = Some (handle_qenc_reset (bd_hal bd))"
| "cmd_handler bd CMD_COUNTER_READ = Some (handle_counter_read (bd_hal bd))"
| "cmd_handler bd CMD_TRNG_READ = Some (handle_trng_read (bd_hal bd))"
| "cmd_handler bd CMD_TMU_COMPUTE = Some (handle_tmu_compute (bd_hal bd))"
| "cmd_handler bd _ = None"

definition bl_dispatch_ota :: "hw_env \<Rightarrow> u8 \<Rightarrow> bytes \<Rightarrow> nat \<Rightarrow> ota_st \<Rightarrow> fmc_st \<Rightarrow> ota_reply" where
  "bl_dispatch_ota env cmd req cap o' m = ota_dispatch env cmd req cap o' m"

type_synonym 'h fw_reply = "(gd32_bridge_status \<times> bytes \<times> 'h fw) option"

definition protocol_dispatch_inner :: "'h board \<Rightarrow> nat \<Rightarrow> u8 \<Rightarrow> bytes \<Rightarrow> nat \<Rightarrow> 'h fw \<Rightarrow> 'h fw_reply" where
  "protocol_dispatch_inner bd link cmd req cap s =
     (if ota_trial_unconfirmed (fw_ota s)
      then Some (STATUS_BUSY, [], s\<lparr>fw_ota := ota_note_frame (fw_ota s)\<rparr>)
      else case cmd_of cmd of
             Some CMD_LINK_FEATURES \<Rightarrow> do {
               (st, rep, feats) \<leftarrow> handle_link_features link req cap (link_features s);
               Some (st, rep, s\<lparr>link_features := feats\<rparr>) }
           | Some CMD_BOOT_CONFIG \<Rightarrow> do {
               (st, rep, c) \<leftarrow> handle_boot_config (bd_env bd) (fw_ota s) req cap (fw_cfg s);
               Some (st, rep, s\<lparr>fw_cfg := c\<rparr>) }
           | Some c \<Rightarrow>
               (case cmd_handler bd c of
                  Some handle \<Rightarrow> do {
                    (st, rep, h) \<leftarrow> handle req cap (fw_hal s);
                    Some (st, rep, s\<lparr>fw_hal := h\<rparr>) }
                | None \<Rightarrow> Some (STATUS_NOSUPPORT, [], s))
           | None \<Rightarrow>
               if cmd \<ge> CMD_OTA_BEGIN
               then do {
                 (st, rep, o1, m1) \<leftarrow> bl_dispatch_ota (bd_env bd) cmd req cap (fw_ota s) (fw_fmc s);
                 Some (st, rep, s\<lparr>fw_ota := o1, fw_fmc := m1\<rparr>) }
               else Some (STATUS_NOSUPPORT, [], s))"

definition protocol_dispatch :: "'h board \<Rightarrow> nat \<Rightarrow> u8 \<Rightarrow> bytes \<Rightarrow> nat \<Rightarrow> 'h fw \<Rightarrow> 'h fw_reply" where
  "protocol_dispatch bd link cmd req cap s =
     (if dispatch_in_flight s then Some (STATUS_BUSY, [], s)
      else do {
        (st, rep, s') \<leftarrow> protocol_dispatch_inner bd link cmd req cap (s\<lparr>dispatch_in_flight := True\<rparr>);
        Some (st, rep, s'\<lparr>dispatch_in_flight := False\<rparr>) })"

section \<open>The handler contract\<close>

text \<open>
  What the dispatcher and the transports rely on: every request has an outcome, the reply fits
  the caller's buffer and the wire envelope, only a successful command replies with bytes, and the
  status that belongs to the I2C transport is never produced.
\<close>

definition reply_ok :: "nat \<Rightarrow> (gd32_bridge_status \<times> bytes \<times> 'a) option \<Rightarrow> bool" where
  "reply_ok cap r = (case r of
     None \<Rightarrow> False
   | Some (st, rep, _) \<Rightarrow> length rep \<le> cap \<and> length rep \<le> GD32_BRIDGE_MAX_PAYLOAD_BYTES \<and> (st \<noteq> STATUS_OK \<longrightarrow> rep = []) \<and>
       st \<noteq> STATUS_NO_PENDING)"

locale wire_handler =
  fixes handle :: "'h handler"
  assumes contract: "reply_ok cap (handle req cap h)"
begin

lemma outcome:
  obtains st rep h' where "handle req cap h = Some (st, rep, h')" "length rep \<le> cap"
    "length rep \<le> GD32_BRIDGE_MAX_PAYLOAD_BYTES" "st \<noteq> STATUS_OK \<Longrightarrow> rep = []" "st \<noteq> STATUS_NO_PENDING"
  using contract [of cap req h] by (auto simp: reply_ok_def split: option.splits)

end

lemma reply_ok_simps [simp]:
  "reply_ok cap (Some (st, [], h)) \<longleftrightarrow> st \<noteq> STATUS_NO_PENDING"
  "reply_ok cap (Some (STATUS_OK, rep, h)) \<longleftrightarrow> length rep \<le> cap \<and> length rep \<le> 65"
  "\<not> reply_ok cap None"
  by (simp_all add: reply_ok_def)

lemma no_pending_unused [simp]:
  "status_from_hw rv \<noteq> STATUS_NO_PENDING" "hw_error rv \<noteq> Some STATUS_NO_PENDING"
  "(\<forall>e \<in> set errs. snd e \<noteq> STATUS_NO_PENDING) \<Longrightarrow> ladder errs rv \<noteq> Some STATUS_NO_PENDING"
  by (simp add: status_from_hw_def, simp add: hw_error_def status_from_hw_def,
      induction errs rv rule: ladder.induct, auto)

lemma reply_ok_answer [simp]:
  "e \<noteq> Some STATUS_NO_PENDING \<Longrightarrow> length rep \<le> cap \<Longrightarrow> length rep \<le> 65 \<Longrightarrow> reply_ok cap (Some (answer e rep h))"
  by (cases e) (simp_all add: reply_ok_def answer_def)

lemma reply_ok_prod [simp]:
  "reply_ok cap (case p of (a, b) \<Rightarrow> f a b) = (case p of (a, b) \<Rightarrow> reply_ok cap (f a b))"
  by (simp split: prod.split)

lemma get_le_in [simp, mem_safe]:
  "k + 1 < length p \<Longrightarrow> get_le16 p k = Some (le16 (p ! k) (p ! (k + 1)))"
  "k + 3 < length p \<Longrightarrow> get_le32 p k = Some (le32 (p ! k) (p ! (k + 1)) (p ! (k + 2)) (p ! (k + 3)))"
  by (simp_all add: get_le16_def get_le32_def)

lemma length_put_le32 [simp]: "length (put_le32 v) = 4"
  by (simp add: put_le32_def)

lemma arr_take_in [simp, mem_safe]: "n \<le> cap \<Longrightarrow> arr_take cap n f = Some (map f [0..<n])"
  by (simp add: arr_take_def)

lemma length_concat_bytes16 [simp]: "length (concat (map (\<lambda>i. bytes16 (f i)) is)) = 2 * length is"
  by (induction "is") auto

lemma length_concat_put_le32 [simp]: "length (concat (map (\<lambda>i. put_le32 (f i)) is)) = 4 * length is"
  by (induction "is") auto

interpretation ping: wire_handler handle_ping
  by unfold_locales (auto simp: handle_ping_def Let_def word_le_nat_alt word_less_nat_alt not_less comp_def split: option.split)

interpretation get_version: wire_handler handle_get_version
  by unfold_locales (auto simp: handle_get_version_def Let_def word_le_nat_alt word_less_nat_alt not_less comp_def split: option.split)

interpretation reset_reason: wire_handler "handle_reset_reason hal" for hal
  by unfold_locales (auto simp: handle_reset_reason_def Let_def word_le_nat_alt word_less_nat_alt not_less comp_def split: option.split)

interpretation gpio_read: wire_handler "handle_gpio_read hal" for hal
  by unfold_locales (auto simp: handle_gpio_read_def Let_def word_le_nat_alt word_less_nat_alt not_less comp_def split: option.split)

interpretation gpio_write: wire_handler "handle_gpio_write hal" for hal
  by unfold_locales (auto simp: handle_gpio_write_def Let_def word_le_nat_alt word_less_nat_alt not_less comp_def split: option.split)

interpretation pwm_set: wire_handler "handle_pwm_set hal" for hal
  by unfold_locales (auto simp: handle_pwm_set_def Let_def word_le_nat_alt word_less_nat_alt not_less comp_def split: option.split)

interpretation pwm_get: wire_handler "handle_pwm_get hal" for hal
  by unfold_locales (auto simp: handle_pwm_get_def Let_def word_le_nat_alt word_less_nat_alt not_less comp_def split: option.split)

interpretation adc_read: wire_handler "handle_adc_read hal" for hal
  by unfold_locales (auto simp: handle_adc_read_def Let_def word_le_nat_alt word_less_nat_alt not_less comp_def split: option.split)

interpretation da9292_forward: wire_handler "handle_da9292_forward hal" for hal
  by unfold_locales (auto simp: handle_da9292_forward_def Let_def word_le_nat_alt word_less_nat_alt not_less comp_def split: option.split)

interpretation se_reset: wire_handler "handle_se_reset hal" for hal
  by unfold_locales (auto simp: handle_se_reset_def Let_def word_le_nat_alt word_less_nat_alt not_less comp_def split: option.split)

interpretation dac_set: wire_handler "handle_dac_set hal" for hal
  by unfold_locales (auto simp: handle_dac_set_def Let_def word_le_nat_alt word_less_nat_alt not_less comp_def split: option.split)

interpretation dac_get: wire_handler "handle_dac_get hal" for hal
  by unfold_locales (auto simp: handle_dac_get_def Let_def word_le_nat_alt word_less_nat_alt not_less comp_def split: option.split)

interpretation qenc_read: wire_handler "handle_qenc_read hal" for hal
  by unfold_locales (auto simp: handle_qenc_read_def Let_def word_le_nat_alt word_less_nat_alt not_less comp_def split: option.split)

interpretation qenc_reset: wire_handler "handle_qenc_reset hal" for hal
  by unfold_locales (auto simp: handle_qenc_reset_def Let_def word_le_nat_alt word_less_nat_alt not_less comp_def split: option.split)

interpretation counter_read: wire_handler "handle_counter_read hal" for hal
  by unfold_locales (auto simp: handle_counter_read_def Let_def word_le_nat_alt word_less_nat_alt not_less comp_def split: option.split)

interpretation pwm_configure: wire_handler "handle_pwm_configure hal" for hal
  by unfold_locales (auto simp: handle_pwm_configure_def Let_def word_le_nat_alt word_less_nat_alt not_less comp_def split: option.split)

interpretation adc_configure: wire_handler "handle_adc_configure hal" for hal
  by unfold_locales (auto simp: handle_adc_configure_def Let_def word_le_nat_alt word_less_nat_alt not_less comp_def split: option.split)

interpretation adc_stream_begin: wire_handler "handle_adc_stream_begin hal" for hal
  by unfold_locales (auto simp: handle_adc_stream_begin_def Let_def word_le_nat_alt word_less_nat_alt not_less comp_def split: option.split)

interpretation adc_stream_read: wire_handler "handle_adc_stream_read hal" for hal
  by unfold_locales (auto simp: handle_adc_stream_read_def Let_def word_le_nat_alt word_less_nat_alt not_less comp_def split: option.split)

interpretation adc_spectrum_read: wire_handler "handle_adc_spectrum_read hal" for hal
  by unfold_locales (auto simp: handle_adc_spectrum_read_def Let_def word_le_nat_alt word_less_nat_alt not_less comp_def split: option.split)

interpretation adc_stream_end: wire_handler "handle_adc_stream_end hal" for hal
  by unfold_locales (auto simp: handle_adc_stream_end_def Let_def word_le_nat_alt word_less_nat_alt not_less comp_def split: option.split)

interpretation trng_read: wire_handler "handle_trng_read hal" for hal
  by unfold_locales (auto simp: handle_trng_read_def Let_def word_le_nat_alt word_less_nat_alt not_less comp_def split: option.split)

interpretation tmu_compute: wire_handler "handle_tmu_compute hal" for hal
  by unfold_locales (auto simp: handle_tmu_compute_def Let_def word_le_nat_alt word_less_nat_alt not_less comp_def split: option.split)

interpretation pwm_capture_begin: wire_handler "handle_pwm_capture_begin hal" for hal
  by unfold_locales (auto simp: handle_pwm_capture_begin_def Let_def word_le_nat_alt word_less_nat_alt not_less comp_def split: option.split)

interpretation pwm_capture_read: wire_handler "handle_pwm_capture_read hal" for hal
  by unfold_locales (auto simp: handle_pwm_capture_read_def Let_def word_le_nat_alt word_less_nat_alt not_less comp_def split: option.split)

interpretation pwm_capture_end: wire_handler "handle_pwm_capture_end hal" for hal
  by unfold_locales (auto simp: handle_pwm_capture_end_def Let_def word_le_nat_alt word_less_nat_alt not_less comp_def split: option.split)

interpretation pwm_single_pulse: wire_handler "handle_pwm_single_pulse hal" for hal
  by unfold_locales (auto simp: handle_pwm_single_pulse_def Let_def word_le_nat_alt word_less_nat_alt not_less comp_def split: option.split)

interpretation timer_sync: wire_handler "handle_timer_sync hal" for hal
  by unfold_locales (auto simp: handle_timer_sync_def Let_def word_le_nat_alt word_less_nat_alt not_less comp_def split: option.split)

interpretation power_mode_set: wire_handler "handle_power_mode_set hal" for hal
  by unfold_locales (auto simp: handle_power_mode_set_def Let_def word_le_nat_alt word_less_nat_alt not_less comp_def split: option.split)

interpretation adc_dsp_chain_open: wire_handler "handle_adc_dsp_chain_open hal" for hal
  by unfold_locales (auto simp: handle_adc_dsp_chain_open_def Let_def word_le_nat_alt word_less_nat_alt not_less comp_def split: option.split)

interpretation adc_dsp_stage_push: wire_handler "handle_adc_dsp_stage_push hal" for hal
proof unfold_locales
  fix cap req and h :: 'a
  have "7 \<le> length req \<Longrightarrow> rd req 0 = Some (req ! 0)" by (rule rd_in) linarith
  then show "reply_ok cap (handle_adc_dsp_stage_push hal req cap h)"
    by (auto simp: handle_adc_dsp_stage_push_def Let_def not_less)
qed

interpretation adc_dsp_chain_bind: wire_handler "handle_adc_dsp_chain_bind hal" for hal
  by unfold_locales (auto simp: handle_adc_dsp_chain_bind_def Let_def word_le_nat_alt word_less_nat_alt not_less comp_def split: option.split)

lemma wire_get_build_id:
  assumes "length bid = GD32_BRIDGE_BUILD_ID_LEN"
  shows "wire_handler (handle_get_build_id bid)"
  by unfold_locales (use assms in \<open>auto simp: handle_get_build_id_def\<close>)

lemmas wire_handlers =
  ping.wire_handler_axioms get_version.wire_handler_axioms reset_reason.wire_handler_axioms
  gpio_read.wire_handler_axioms gpio_write.wire_handler_axioms pwm_set.wire_handler_axioms
  pwm_get.wire_handler_axioms adc_read.wire_handler_axioms da9292_forward.wire_handler_axioms
  se_reset.wire_handler_axioms dac_set.wire_handler_axioms dac_get.wire_handler_axioms
  qenc_read.wire_handler_axioms qenc_reset.wire_handler_axioms counter_read.wire_handler_axioms
  pwm_configure.wire_handler_axioms adc_configure.wire_handler_axioms
  adc_stream_begin.wire_handler_axioms adc_stream_read.wire_handler_axioms
  adc_spectrum_read.wire_handler_axioms adc_stream_end.wire_handler_axioms
  trng_read.wire_handler_axioms tmu_compute.wire_handler_axioms
  pwm_capture_begin.wire_handler_axioms pwm_capture_read.wire_handler_axioms
  pwm_capture_end.wire_handler_axioms pwm_single_pulse.wire_handler_axioms
  timer_sync.wire_handler_axioms power_mode_set.wire_handler_axioms
  adc_dsp_chain_open.wire_handler_axioms adc_dsp_stage_push.wire_handler_axioms
  adc_dsp_chain_bind.wire_handler_axioms

lemma cmd_handler_wire:
  assumes "cmd_handler bd c = Some handle" "length (bd_build_id bd) = GD32_BRIDGE_BUILD_ID_LEN"
  shows "wire_handler handle"
  using assms(1) wire_handlers wire_get_build_id [OF assms(2)] by (cases c) auto

lemma link_features_contract: "length feats = 2 \<Longrightarrow> reply_ok cap (handle_link_features link req cap feats)"
  by (auto simp: handle_link_features_def Let_def)

lemma boot_config_contract: "reply_ok cap (handle_boot_config env o' req cap c)"
  by (auto simp: handle_boot_config_def Let_def)

lemma reply_ok_bind:
  assumes "reply_ok cap r"
  shows "reply_ok cap (do { (st, rep, x) \<leftarrow> r; Some (st, rep, f x) })"
  using assms by (auto simp: reply_ok_def split: option.splits)

section \<open>Invariant of the firmware state\<close>

text \<open>
  The feature array has one byte per link, the build identifier has its asserted length, the session's
  target is the slot the build does not run from, and stored metadata names a slot.
\<close>

definition fw_inv :: "'h board \<Rightarrow> 'h fw \<Rightarrow> bool" where
  "fw_inv bd s \<longleftrightarrow> length (link_features s) = GD32_BRIDGE_LINK_COUNT \<and>
     length (bd_build_id bd) = GD32_BRIDGE_BUILD_ID_LEN \<and>
     s_inactive (fw_ota s) = inactive_slot (env_build (bd_env bd)) \<and> meta_sane (flash (fw_fmc s))"

lemma ota_reply_contract:
  assumes "meta_sane (flash m)" "s_inactive o' = inactive_slot (env_build env)"
  shows "case bl_dispatch_ota env cmd req cap o' m of None \<Rightarrow> False
    | Some (st, rep, o1, m1) \<Rightarrow> length rep \<le> min cap 6 \<and> ota_effect env cmd req o' m st o1 m1"
  using ota_dispatch_defined [OF assms, of cmd req cap] ota_dispatch_effect [OF _ assms(2), of cmd req cap m]
  by (auto simp: bl_dispatch_ota_def split: option.splits)

lemma ota_error_empty:
  assumes "ota_dispatch env cmd req cap o' m = Some (st, rep, o1, m1)" "st \<noteq> STATUS_OK"
    and "s_inactive o' = inactive_slot (env_build env)"
  shows "rep = []"
proof -
  have b: "rep = []" if "h_begin env req cap o' m = Some (st, rep, o1, m1)"
  proof -
    have "rep = []" if "begin_session env len crc fw cap o' m = Some (st, rep, o1, m1)" for len crc fw
      using that assms(2) by (auto simp: begin_session_eq split: if_splits option.splits sum.splits)
    then show ?thesis using that by (auto simp: h_begin_def bind_eq_Some_conv split: if_splits)
  qed
  have w: "rep = []" if "h_write env req cap o' m = Some (st, rep, o1, m1)"
    using that assms(2) by (auto simp: h_write_eq write_chunk_def Let_def split: if_splits prod.splits)
  have v: "rep = []" if "h_verify cap o' m = Some (st, rep, o1, m1)"
    using that assms(2) by (auto simp: h_verify_def Let_def split: if_splits)
  have c: "rep = []" if "h_commit env o' m = Some (st, rep, o1, m1)"
    using that h_commit_effect [OF assms(3), of env m] by auto
  have r: "rep = []" if "h_rollback env o' m = Some (st, rep, o1, m1)"
    using that h_rollback_effect [of env o' m] by auto
  show ?thesis using assms(1,2) b w v c r
    by (auto simp: ota_dispatch_def h_get_state_def Let_def split: if_splits)
qed

lemma ota_no_pending:
  assumes "ota_dispatch env cmd req cap o' m = Some (st, rep, o1, m1)"
  shows "st \<noteq> STATUS_NO_PENDING"
proof -
  have b: "h_begin env req cap o' m = Some (STATUS_NO_PENDING, rep, o1, m1) \<Longrightarrow> False"
    by (auto simp: h_begin_def begin_session_eq begin_demote_def bind_eq_Some_conv
        split: if_splits option.splits sum.splits)
  have w: "h_write env req cap o' m = Some (STATUS_NO_PENDING, rep, o1, m1) \<Longrightarrow> False"
    by (auto simp: h_write_eq write_chunk_def Let_def split: if_splits prod.splits)
  have v: "h_verify cap o' m = Some (STATUS_NO_PENDING, rep, o1, m1) \<Longrightarrow> False"
    by (auto simp: h_verify_def Let_def split: if_splits)
  have c: "h_commit env o' m = Some (STATUS_NO_PENDING, rep, o1, m1) \<Longrightarrow> False"
    by (auto simp: h_commit_def Let_def bind_eq_Some_conv split: if_splits option.splits)
  have r: "h_rollback env o' m = Some (STATUS_NO_PENDING, rep, o1, m1) \<Longrightarrow> False"
    by (auto simp: h_rollback_def Let_def bind_eq_Some_conv split: if_splits option.splits)
  show ?thesis using assms b w v c r
    by (auto simp: ota_dispatch_def h_get_state_def Let_def split: if_splits)
qed

lemma ota_contract:
  assumes "meta_sane (flash m)" "s_inactive o' = inactive_slot (env_build env)"
  shows "reply_ok cap (bl_dispatch_ota env cmd req cap o' m)"
  using ota_reply_contract [OF assms, where cmd = cmd and req = req and cap = cap] ota_error_empty [OF _ _ assms(2)] ota_no_pending
  by (fastforce simp: reply_ok_def bl_dispatch_ota_def split: option.splits)

lemma cmd_of_code [simp]: "cmd_of (cmd_code c) = Some c"
  by (cases c) (simp_all add: cmd_of_def all_cmds_def)

lemma cmd_of_SomeD: "cmd_of cmd = Some c \<Longrightarrow> cmd = cmd_code c"
  by (auto simp: cmd_of_def find_Some_iff)

text \<open>The dispatcher's branches, for proofs by cases.\<close>

lemma dispatch_inner_cases:
  obtains (gated) "ota_trial_unconfirmed (fw_ota s)"
      "protocol_dispatch_inner bd link cmd req cap s =
         Some (STATUS_BUSY, [], s\<lparr>fw_ota := ota_note_frame (fw_ota s)\<rparr>)"
  | (features) "cmd = cmd_code CMD_LINK_FEATURES"
      "protocol_dispatch_inner bd link cmd req cap s =
         do { (st, rep, feats) \<leftarrow> handle_link_features link req cap (link_features s);
              Some (st, rep, s\<lparr>link_features := feats\<rparr>) }"
  | (config) "cmd = cmd_code CMD_BOOT_CONFIG"
      "protocol_dispatch_inner bd link cmd req cap s =
         do { (st, rep, c) \<leftarrow> handle_boot_config (bd_env bd) (fw_ota s) req cap (fw_cfg s);
              Some (st, rep, s\<lparr>fw_cfg := c\<rparr>) }"
  | (peripheral) c handle where "cmd = cmd_code c" "cmd_handler bd c = Some handle"
      "protocol_dispatch_inner bd link cmd req cap s =
         do { (st, rep, h) \<leftarrow> handle req cap (fw_hal s); Some (st, rep, s\<lparr>fw_hal := h\<rparr>) }"
  | (update) "cmd \<ge> CMD_OTA_BEGIN"
      "protocol_dispatch_inner bd link cmd req cap s =
         do { (st, rep, o1, m1) \<leftarrow> bl_dispatch_ota (bd_env bd) cmd req cap (fw_ota s) (fw_fmc s);
              Some (st, rep, s\<lparr>fw_ota := o1, fw_fmc := m1\<rparr>) }"
  | (unknown) "protocol_dispatch_inner bd link cmd req cap s = Some (STATUS_NOSUPPORT, [], s)"
proof (cases "ota_trial_unconfirmed (fw_ota s)")
  case True
  then show thesis by (rule gated) (simp add: protocol_dispatch_inner_def True)
next
  case nt: False
  show thesis
  proof (cases "cmd_of cmd")
    case None
    then show thesis using nt update unknown by (cases "cmd \<ge> CMD_OTA_BEGIN") (simp_all add: protocol_dispatch_inner_def)
  next
    case (Some c)
    then have cmd: "cmd = cmd_code c" by (rule cmd_of_SomeD)
    have ha: "\<exists>h. cmd_handler bd c = Some h" if "c \<noteq> CMD_LINK_FEATURES" "c \<noteq> CMD_BOOT_CONFIG"
      "c \<noteq> CMD_ADC_STREAM_CONFIGURE_DSP" using that by (cases c) simp_all
    consider "c = CMD_LINK_FEATURES" | "c = CMD_BOOT_CONFIG" | "c = CMD_ADC_STREAM_CONFIGURE_DSP"
      | h where "c \<noteq> CMD_LINK_FEATURES" "c \<noteq> CMD_BOOT_CONFIG" "cmd_handler bd c = Some h" using ha by blast
    then show thesis
    proof cases
      case (4 h)
      have "protocol_dispatch_inner bd link cmd req cap s =
         do { (st, rep, h) \<leftarrow> h req cap (fw_hal s); Some (st, rep, s\<lparr>fw_hal := h\<rparr>) }"
        using Some nt 4 by (cases c) (simp_all add: protocol_dispatch_inner_def)
      then show thesis using peripheral cmd 4 by blast
    qed (use Some nt cmd features config unknown in \<open>simp_all add: protocol_dispatch_inner_def\<close>)
  qed
qed

lemma dispatch_inner_contract:
  assumes "fw_inv bd s"
  shows "reply_ok cap (protocol_dispatch_inner bd link cmd req cap s)"
proof (cases rule: dispatch_inner_cases [of s bd link cmd req cap])
  case features
  have "reply_ok cap (handle_link_features link req cap (link_features s))"
    using link_features_contract assms by (simp add: fw_inv_def)
  from reply_ok_bind [OF this] show ?thesis using features(2) by simp
next
  case config
  then show ?thesis using reply_ok_bind [OF boot_config_contract] by simp
next
  case (peripheral c handle)
  have "wire_handler handle" using cmd_handler_wire peripheral(2) assms by (auto simp: fw_inv_def)
  from reply_ok_bind [OF wire_handler.contract [OF this]] show ?thesis by (simp add: peripheral(3))
next
  case update
  have "reply_ok cap (bl_dispatch_ota (bd_env bd) cmd req cap (fw_ota s) (fw_fmc s))"
    using ota_contract assms by (simp add: fw_inv_def)
  then show ?thesis unfolding update(2) by (auto simp: reply_ok_def split: option.splits)
qed simp_all

lemma dispatch_contract:
  assumes "fw_inv bd s"
  obtains st rep s' where "protocol_dispatch bd link cmd req cap s = Some (st, rep, s')" "length rep \<le> cap"
    "length rep \<le> GD32_BRIDGE_MAX_PAYLOAD_BYTES" "st \<noteq> STATUS_OK \<Longrightarrow> rep = []" "st \<noteq> STATUS_NO_PENDING"
    "dispatch_in_flight s' = dispatch_in_flight s"
proof (cases "dispatch_in_flight s")
  case True
  then show thesis by (intro that [of STATUS_BUSY "[]" s]) (simp_all add: protocol_dispatch_def)
next
  case False
  have "fw_inv bd (s\<lparr>dispatch_in_flight := True\<rparr>)" using assms by (simp add: fw_inv_def)
  from dispatch_inner_contract [OF this, of cap link cmd req] obtain st rep t where
    "protocol_dispatch_inner bd link cmd req cap (s\<lparr>dispatch_in_flight := True\<rparr>) = Some (st, rep, t)"
    "length rep \<le> cap" "length rep \<le> 65" "st \<noteq> STATUS_OK \<longrightarrow> rep = []" "st \<noteq> STATUS_NO_PENDING"
    by (auto simp: reply_ok_def split: option.splits)
  then show thesis using False
    by (intro that [of st rep "t\<lparr>dispatch_in_flight := False\<rparr>"]) (auto simp: protocol_dispatch_def)
qed

lemma dispatch_cases:
  assumes "protocol_dispatch bd link cmd req cap s = Some (st, rep, s')"
  obtains (nested) "dispatch_in_flight s" "st = STATUS_BUSY" "rep = []" "s' = s"
  | (run) t where "\<not> dispatch_in_flight s" "s' = t\<lparr>dispatch_in_flight := False\<rparr>"
      "protocol_dispatch_inner bd link cmd req cap (s\<lparr>dispatch_in_flight := True\<rparr>) = Some (st, rep, t)"
  using assms by (auto simp: protocol_dispatch_def bind_eq_Some_conv split: if_splits)

text \<open>
  A dispatch changes one part of the state: the features of the link it came on, the
  configuration queue, the peripherals, or the update session with its flash.  The trial gate
  also touches the session.
\<close>

definition confined :: "nat \<Rightarrow> u8 \<Rightarrow> 'h fw \<Rightarrow> 'h fw \<Rightarrow> bool" where
  "confined link cmd s s' \<longleftrightarrow> length (link_features s') = length (link_features s) \<and>
     (\<forall>l. l \<noteq> link \<longrightarrow> rd (link_features s') l = rd (link_features s) l) \<and>
     (cmd \<noteq> cmd_code CMD_LINK_FEATURES \<longrightarrow> link_features s' = link_features s) \<and>
     (cmd \<noteq> cmd_code CMD_BOOT_CONFIG \<longrightarrow> fw_cfg s' = fw_cfg s) \<and>
     (cmd < CMD_OTA_BEGIN \<longrightarrow> fw_fmc s' = fw_fmc s) \<and>
     (cmd < CMD_OTA_BEGIN \<and> \<not> ota_trial_unconfirmed (fw_ota s) \<longrightarrow> fw_ota s' = fw_ota s) \<and>
     (cmd \<ge> CMD_OTA_BEGIN \<longrightarrow> fw_hal s' = fw_hal s)"

lemma link_features_effect:
  "handle_link_features link req cap feats = Some (st, rep, feats') \<Longrightarrow>
   length feats' = length feats \<and> (l \<noteq> link \<longrightarrow> rd feats' l = rd feats l)"
  by (auto simp: handle_link_features_def Let_def bind_eq_Some_conv rd_def split: if_splits)

lemma cmd_code_lt_ota: "cmd_code c < CMD_OTA_BEGIN"
  by (cases c) simp_all

lemma dispatch_inner_confined:
  assumes "protocol_dispatch_inner bd link cmd req cap s = Some (st, rep, s')"
  shows "confined link cmd s s'"
proof (cases rule: dispatch_inner_cases [of s bd link cmd req cap])
  case gated
  then show ?thesis using assms by (auto simp: confined_def)
next
  case features
  then obtain feats where "handle_link_features link req cap (link_features s) = Some (st, rep, feats)"
    "s' = s\<lparr>link_features := feats\<rparr>" using assms by (auto simp: bind_eq_Some_conv)
  then show ?thesis using link_features_effect features(1) by (auto simp: confined_def)
next
  case config
  then show ?thesis using assms by (auto simp: confined_def bind_eq_Some_conv)
next
  case (peripheral c handle)
  then show ?thesis using assms cmd_code_lt_ota [of c] by (auto simp: confined_def bind_eq_Some_conv)
next
  case update
  obtain o1 m1 where "s' = s\<lparr>fw_ota := o1, fw_fmc := m1\<rparr>"
    using assms unfolding update(2) by (auto simp: bind_eq_Some_conv)
  then show ?thesis using update(1) by (auto simp: confined_def not_less)
next
  case unknown
  then show ?thesis using assms by (simp add: confined_def)
qed

lemma dispatch_confined:
  assumes "protocol_dispatch bd link cmd req cap s = Some (st, rep, s')"
  shows "confined link cmd s s'"
  using assms
proof (cases rule: dispatch_cases)
  case (run t)
  then show ?thesis using dispatch_inner_confined [OF run(3)] by (simp add: confined_def)
qed (simp add: confined_def)

lemmas handler_defs = handle_gpio_read_def handle_gpio_write_def handle_pwm_set_def
  handle_pwm_get_def handle_adc_read_def handle_se_reset_def handle_dac_set_def handle_dac_get_def
  handle_qenc_read_def handle_qenc_reset_def handle_counter_read_def handle_pwm_configure_def
  handle_adc_configure_def handle_adc_stream_begin_def handle_adc_stream_read_def
  handle_adc_spectrum_read_def handle_adc_stream_end_def handle_trng_read_def handle_tmu_compute_def
  handle_pwm_capture_begin_def handle_pwm_capture_read_def handle_pwm_capture_end_def
  handle_pwm_single_pulse_def handle_timer_sync_def handle_power_mode_set_def
  handle_adc_dsp_chain_open_def handle_adc_dsp_stage_push_def handle_adc_dsp_chain_bind_def

lemma dispatch_features_length:
  "protocol_dispatch bd link cmd req cap s = Some (st, rep, s') \<Longrightarrow> length (link_features s') = length (link_features s)"
  using dispatch_confined by (fastforce simp: confined_def)

section \<open>A concrete board\<close>

definition demo_board :: "unit board" where
  "demo_board = \<lparr>bd_env = good_hw Slot_A_build, bd_build_id = replicate 20 48, bd_hal = stub_hal\<rparr>"

definition demo_fw :: "unit fw" where
  "demo_fw = \<lparr>link_features = [0, 0], dispatch_in_flight = False, fw_ota = ota_reset Slot_A_build,
     fw_fmc = fmc_reset demo_flash, fw_cfg = cfg_reset, fw_hal = ()\<rparr>"

lemma demo_fw_inv: "fw_inv demo_board demo_fw"
  by (simp add: fw_inv_def demo_board_def demo_fw_def ota_reset_def inactive_slot_def meta_sane_def demo_records)
     (simp add: demo_record_def demo_body_def is_slot_def)

lemma demo_get_version:
  "protocol_dispatch demo_board link 0x01 [] 65 demo_fw = Some (STATUS_OK, [0, 14, 1], demo_fw)"
  using cmd_of_code [of CMD_GET_VERSION]
  by (simp add: protocol_dispatch_def protocol_dispatch_inner_def demo_fw_def ota_trial_unconfirmed_def
      ota_reset_def handle_get_version_def)

section \<open>Properties\<close>





text \<open>
  C37: confinement.  A dispatch changes at most one part of the firmware state.  Only
  \<open>CMD_LINK_FEATURES\<close> changes link features, and only those of the link it arrived on; only
  \<open>CMD_BOOT_CONFIG\<close> changes the configuration queue; only update opcodes reach the flash.
\<close>

theorem protocol_dispatch_confined:
  assumes "protocol_dispatch bd link cmd req cap s = Some (st, rep, s')"
  shows "(\<forall>l. l \<noteq> link \<longrightarrow> protocol_link_features l (link_features s') = protocol_link_features l (link_features s)) \<and>
    (cmd \<noteq> cmd_code CMD_LINK_FEATURES \<longrightarrow> link_features s' = link_features s) \<and>
    (cmd \<noteq> cmd_code CMD_BOOT_CONFIG \<longrightarrow> fw_cfg s' = fw_cfg s) \<and>
    (cmd < CMD_OTA_BEGIN \<longrightarrow> fw_fmc s' = fw_fmc s) \<and>
    (cmd < CMD_OTA_BEGIN \<and> \<not> ota_trial_unconfirmed (fw_ota s) \<longrightarrow> fw_ota s' = fw_ota s) \<and>
    (cmd \<ge> CMD_OTA_BEGIN \<longrightarrow> fw_hal s' = fw_hal s)"
  using dispatch_confined [OF assms] by (simp add: confined_def protocol_link_features_def)

theorem protocol_dispatch_confined_witness:
  "\<exists>s'. protocol_dispatch demo_board GD32_BRIDGE_LINK_I2C 0x81 [1] 65 demo_fw = Some (STATUS_OK, [1], s') \<and>
     protocol_link_features GD32_BRIDGE_LINK_SPI (link_features s') = Some 0 \<and>
     protocol_link_features GD32_BRIDGE_LINK_I2C (link_features s') = Some 1"
proof -
  let ?s = "demo_fw\<lparr>link_features := [0, 1]\<rparr>"
  have e: "protocol_dispatch demo_board GD32_BRIDGE_LINK_I2C 0x81 [1] 65 demo_fw = Some (STATUS_OK, [1], ?s)"
    using cmd_of_code [of CMD_LINK_FEATURES]
    by (simp add: protocol_dispatch_def protocol_dispatch_inner_def demo_fw_def ota_trial_unconfirmed_def
        ota_reset_def handle_link_features_def rd_def)
  show ?thesis
    using protocol_dispatch_confined [OF e] e by (auto simp: protocol_link_features_def demo_fw_def rd_def)
qed

text \<open>
  Opcodes the firmware does not implement, the tombstone 0x36 and the reserved update opcodes
  0xF7 to 0xFF included, are answered NOSUPPORT and change nothing.
\<close>

theorem unknown_opcode_nosupport:
  assumes "\<not> dispatch_in_flight s" "\<not> ota_trial_unconfirmed (fw_ota s)"
    and "cmd_of cmd = None \<and> (cmd < CMD_OTA_BEGIN \<or> cmd > CMD_OTA_ABORT) \<or> cmd = cmd_code CMD_ADC_STREAM_CONFIGURE_DSP"
  shows "protocol_dispatch bd link cmd req cap s = Some (STATUS_NOSUPPORT, [], s)"
proof (cases "cmd = cmd_code CMD_ADC_STREAM_CONFIGURE_DSP")
  case True
  then have "cmd_of cmd = Some CMD_ADC_STREAM_CONFIGURE_DSP" by (simp only: cmd_of_code)
  then show ?thesis using assms(1,2) by (simp add: protocol_dispatch_def protocol_dispatch_inner_def)
next
  case False
  then have n: "cmd_of cmd = None" and r: "cmd < CMD_OTA_BEGIN \<or> cmd > CMD_OTA_ABORT" using assms(3) by auto
  have "ota_dispatch (bd_env bd) cmd req cap o' m = Some (STATUS_NOSUPPORT, [], o', m)" if "cmd > CMD_OTA_ABORT" for o' m
    using that by (auto simp: ota_dispatch_def)
  then show ?thesis using assms(1,2) n r
    by (auto simp: protocol_dispatch_def protocol_dispatch_inner_def bl_dispatch_ota_def not_le)
qed

theorem unknown_opcode_nosupport_witness:
  "protocol_dispatch demo_board GD32_BRIDGE_LINK_SPI 0x36 [1, 2] 65 demo_fw = Some (STATUS_NOSUPPORT, [], demo_fw) \<and>
   protocol_dispatch demo_board GD32_BRIDGE_LINK_SPI 0xF9 [1, 2] 65 demo_fw = Some (STATUS_NOSUPPORT, [], demo_fw)"
  using unknown_opcode_nosupport [of demo_fw "0x36" demo_board GD32_BRIDGE_LINK_SPI "[1, 2]" 65]
    unknown_opcode_nosupport [of demo_fw "0xF9" demo_board GD32_BRIDGE_LINK_SPI "[1, 2]" 65]
  by (simp add: demo_fw_def ota_trial_unconfirmed_def ota_reset_def cmd_of_def all_cmds_def)

text \<open>
  On the stub backend no peripheral command succeeds: with a well-formed request each of them
  answers NOSUPPORT, except the two GPIO commands, which answer IO because their handlers do not
  pass the result code through \<open>status_from_hw\<close>.
\<close>

theorem stub_backend_statuses:
  assumes "cmd_handler (bd\<lparr>bd_hal := stub_hal\<rparr>) c = Some handle" "handle req cap h = Some (st, rep, h')"
    and "c \<notin> {CMD_PING, CMD_GET_VERSION, CMD_GET_BUILD_ID, CMD_RESET_REASON, CMD_DA9292_STATUS_FORWARD}"
  shows "rep = [] \<and> h' = h \<and>
    st \<in> {STATUS_INVAL, STATUS_NOMEM, STATUS_OUT_OF_RANGE,
           if c \<in> {CMD_GPIO_READ, CMD_GPIO_WRITE} then STATUS_IO else STATUS_NOSUPPORT}"
  using assms
  by (cases c) (auto simp: handler_defs stub_defs answer_def hw_error_def status_from_hw_def Let_def
      bind_eq_Some_conv split: if_splits)

theorem stub_backend_statuses_witness:
  "handle_gpio_read stub_hal [1, 0, 0, 0] 65 () = Some (STATUS_IO, [], ()) \<and>
   handle_dac_get stub_hal [0] 65 () = Some (STATUS_NOSUPPORT, [], ())"
proof -
  have g: "handle_gpio_read stub_hal [1, 0, 0, 0] 65 () = Some (STATUS_IO, [], ())"
    by (simp add: handle_gpio_read_def stub_defs answer_def get_le32_def rd_def)
  have d: "handle_dac_get stub_hal [0] 65 () = Some (STATUS_NOSUPPORT, [], ())"
    by (simp add: handle_dac_get_def stub_defs answer_def rd_def)
  show ?thesis
    using stub_backend_statuses [of demo_board CMD_GPIO_READ _ "[1, 0, 0, 0]" 65 "()"] g d by simp
qed

end
