(* ===== verification/Framing.thy ===== *)
theory Framing
  imports Crc Wire
begin

text \<open>
  What the two transports' frames have in common: a covered part followed by its CRC-16, low byte
  first.  A receiver splits off the last two bytes and compares.  Any damage within two consecutive
  bytes that does not straddle the two parts makes the comparison fail.
\<close>

definition crc_frame :: "bytes \<Rightarrow> bytes" where
  "crc_frame covered = covered @ bytes16 (crc16_ccitt_false covered)"

lemma length_crc_frame [simp]: "length (crc_frame covered) = length covered + 2"
  by (simp add: crc_frame_def)

lemma bytes16_le16 [simp]: "bytes16 (le16 d e) = [d, e]"
  by (simp add: bytes16_def)

lemma split_tail:
  assumes "xs @ t = ys @ zs" "length t \<le> length zs"
  shows "\<exists>mid. zs = mid @ t \<and> xs = ys @ mid"
proof -
  have "length ys \<le> length xs" using arg_cong [OF assms(1), of length] assms(2) by simp
  then show ?thesis using assms(1) by (auto simp: append_eq_append_conv2)
qed

lemma list_tail_two:
  assumes "2 \<le> length xs"
  obtains ys d e where "xs = ys @ [d, e]"
proof -
  obtain ws e where w: "xs = ws @ [e]" using assms by (cases xs rule: rev_cases) auto
  then obtain ys d where "ws = ys @ [d]" using assms by (cases ws rule: rev_cases) auto
  then show thesis using that [of ys d e] w by simp
qed

lemma crc_frame_corrupted:
  assumes "crc_frame covered = pre @ [a, b] @ post" "(a', b') \<noteq> (a, b)" "length post \<ge> 2 \<or> post = []"
  shows "\<exists>ys c0 c1. pre @ [a', b'] @ post = ys @ [c0, c1] \<and> le16 c0 c1 \<noteq> crc16_ccitt_false ys"
proof (cases "post = []")
  case True
  then obtain mid where m: "[a, b] = mid @ bytes16 (crc16_ccitt_false covered)" "covered = pre @ mid"
    using assms(1) split_tail [of covered "bytes16 (crc16_ccitt_false covered)" pre "[a, b]"]
    by (auto simp: crc_frame_def)
  have "mid = []" using arg_cong [OF m(1), of length] by simp
  then have e: "bytes16 (crc16_ccitt_false pre) = [a, b]" using m by simp
  have "bytes16 (le16 a' b') \<noteq> bytes16 (crc16_ccitt_false pre)" unfolding e using assms(2) by auto
  then have "le16 a' b' \<noteq> crc16_ccitt_false pre" by metis
  then show ?thesis using True by blast
next
  case False
  then obtain mid where post: "post = mid @ bytes16 (crc16_ccitt_false covered)" and cov: "covered = pre @ [a, b] @ mid"
    using assms split_tail [of covered "bytes16 (crc16_ccitt_false covered)" "pre @ [a, b]" post]
    by (auto simp: crc_frame_def)
  have "crc16_ccitt_false covered \<noteq> crc16_ccitt_false (pre @ [a', b'] @ mid)"
    using cov assms(2) crc16_detects_two_byte_burst [of pre a b mid a' b'] by auto
  then show ?thesis
    using post by (intro exI [of _ "pre @ [a', b'] @ mid"]) (auto simp: bytes16_def)
qed

end
