(* ===== verification/Transport_Spi.thy ===== *)
theory Transport_Spi
  imports Protocol Framing
begin

unbundle bit_operations_syntax

text \<open>
  The SPI slave framing of \<open>src/transport_spi.c\<close>.  A request is one chip-select transaction,
  \<open>SOF cmd payload crc16\<close>; the reply is staged for a later one.  The receive buffer is the list of
  bytes captured so far; the transmit buffer is the list of staged bytes with a cursor.  The
  timing probes of \<open>BRIDGE_TIMING_STATS\<close> builds have no effect on the framing and are left out.
\<close>

section \<open>State\<close>

abbreviation (input) "GD32_BRIDGE_SOF \<equiv> (0xA5 :: u8)"
abbreviation (input) "SPI_MAX_FRAME_BYTES \<equiv> (69 :: nat)"
abbreviation (input) "SPI_DRAIN_REWIND_BOUND \<equiv> (12 :: u8)"
abbreviation (input) "GD32_BRIDGE_STATUS_SEQ_SHIFT \<equiv> (4 :: nat)"
abbreviation (input) "GD32_BRIDGE_STATUS_CODE_MASK \<equiv> (0x0F :: u8)"

record spi_st =
  spi_rx :: bytes
  spi_tx :: bytes
  spi_tx_cursor :: nat
  spi_drain_streak :: u8
  spi_seq :: u8

definition transport_spi_init :: spi_st where
  "transport_spi_init = \<lparr>spi_rx = [], spi_tx = [], spi_tx_cursor = 0, spi_drain_streak = 0, spi_seq = 0\<rparr>"

section \<open>Staging\<close>

text \<open>\<open>None\<close> is a write past the transmit buffer.\<close>

definition spi_stage_reply :: "bytes \<Rightarrow> u8 \<Rightarrow> bytes \<Rightarrow> spi_st \<Rightarrow> spi_st option" where
  "spi_stage_reply feats status payload s = do {
     f \<leftarrow> protocol_link_features GD32_BRIDGE_LINK_SPI feats;
     let armed = (f AND GD32_BRIDGE_LINK_FEAT_STATUS_SEQ \<noteq> 0);
     let seq = (if armed then (spi_seq s + 1) AND 0x0F else spi_seq s);
     let status' = (if armed then status OR push_bit GD32_BRIDGE_STATUS_SEQ_SHIFT seq else status);
     let covered = [GD32_BRIDGE_SOF, status'] @ payload;
     if length covered + 2 > SPI_MAX_FRAME_BYTES then None
     else Some (s\<lparr>spi_tx := covered @ bytes16 (crc16_ccitt_false covered), spi_tx_cursor := 0,
                  spi_drain_streak := 0, spi_seq := seq\<rparr>) }"

definition stage_error_reply :: "bytes \<Rightarrow> gd32_bridge_status \<Rightarrow> spi_st \<Rightarrow> spi_st option" where
  "stage_error_reply feats status s = spi_stage_reply feats (status_code status) [] s"

text \<open>A transaction without a request: serve the staged reply again, up to the bound.\<close>

definition drain_rewind :: "bytes \<Rightarrow> spi_st \<Rightarrow> spi_st option" where
  "drain_rewind feats s =
     (let s1 = s\<lparr>spi_drain_streak := spi_drain_streak s + 1\<rparr>
      in if spi_drain_streak s1 > SPI_DRAIN_REWIND_BOUND then stage_error_reply feats STATUS_IO s1
         else Some (s1\<lparr>spi_tx_cursor := 0\<rparr>))"

section \<open>Decoding\<close>

definition decode_and_dispatch :: "'h board \<Rightarrow> spi_st \<Rightarrow> 'h fw \<Rightarrow> (spi_st \<times> 'h fw) option" where
  "decode_and_dispatch bd s f =
     (let rx = spi_rx s;
          error = do { s' \<leftarrow> stage_error_reply (link_features f) STATUS_IO s; Some (s', f) };
          drain = do { s' \<leftarrow> drain_rewind (link_features f) s; Some (s', f) }
      in if length rx = 0 then drain
         else do {
           sof \<leftarrow> rd rx 0;
           if sof \<noteq> GD32_BRIDGE_SOF
           then (if \<exists>b \<in> set rx. b \<noteq> 0 then error else drain)
           else if length rx < 4 then error
           else do {
             let payload_len = length rx - 4;
             c0 \<leftarrow> rd rx (2 + payload_len);
             c1 \<leftarrow> rd rx (2 + payload_len + 1);
             if le16 c0 c1 \<noteq> crc16_ccitt_false (take (2 + payload_len) rx) then error
             else do {
               cmd \<leftarrow> rd rx 1;
               (st, reply_pl, f') \<leftarrow> protocol_dispatch bd GD32_BRIDGE_LINK_SPI cmd
                                       (take payload_len (drop 2 rx)) GD32_BRIDGE_MAX_PAYLOAD_BYTES f;
               s' \<leftarrow> spi_stage_reply (link_features f') (status_code st) reply_pl s;
               Some (s', f') } } })"

section \<open>Interrupt hooks\<close>

definition spi_slave_cs_low :: "spi_st \<Rightarrow> spi_st" where
  "spi_slave_cs_low s = s\<lparr>spi_rx := []\<rparr>"

definition spi_slave_rx_byte :: "u8 \<Rightarrow> spi_st \<Rightarrow> spi_st" where
  "spi_slave_rx_byte b s =
     (if length (spi_rx s) < SPI_MAX_FRAME_BYTES then s\<lparr>spi_rx := spi_rx s @ [b]\<rparr> else s)"

definition spi_slave_cs_high :: "'h board \<Rightarrow> spi_st \<Rightarrow> 'h fw \<Rightarrow> (spi_st \<times> 'h fw) option" where
  "spi_slave_cs_high bd s f = decode_and_dispatch bd s f"

definition spi_slave_transport_error :: "'h fw \<Rightarrow> spi_st \<Rightarrow> spi_st option" where
  "spi_slave_transport_error f s = stage_error_reply (link_features f) STATUS_IO (s\<lparr>spi_rx := []\<rparr>)"

definition spi_slave_tx_next_byte :: "spi_st \<Rightarrow> u8 \<times> spi_st" where
  "spi_slave_tx_next_byte s =
     (if spi_tx_cursor s < length (spi_tx s)
      then (spi_tx s ! spi_tx_cursor s, s\<lparr>spi_tx_cursor := spi_tx_cursor s + 1\<rparr>)
      else (0xFF, s))"

definition spi_slave_tx_pending :: "spi_st \<Rightarrow> bool" where
  "spi_slave_tx_pending s \<longleftrightarrow> spi_tx_cursor s < length (spi_tx s)"

section \<open>Whole transactions\<close>

text \<open>One chip-select transaction that captures \<open>bs\<close>.\<close>

definition spi_transaction :: "'h board \<Rightarrow> bytes \<Rightarrow> spi_st \<Rightarrow> 'h fw \<Rightarrow> (spi_st \<times> 'h fw) option" where
  "spi_transaction bd bs s f = spi_slave_cs_high bd (fold spi_slave_rx_byte bs (spi_slave_cs_low s)) f"

text \<open>The backend's drain loop: clock out bytes while a reply is pending.\<close>

function spi_drain :: "spi_st \<Rightarrow> bytes \<times> spi_st" where
  "spi_drain s =
     (if spi_slave_tx_pending s
      then let (b, s1) = spi_slave_tx_next_byte s; (bs, s2) = spi_drain s1 in (b # bs, s2)
      else ([], s))"
  by auto
termination
  by (relation "measure (\<lambda>s. length (spi_tx s) - spi_tx_cursor s)")
     (auto simp: spi_slave_tx_pending_def spi_slave_tx_next_byte_def split: if_splits)

text \<open>The frame a host sends and the one it expects.\<close>

definition spi_frame :: "u8 \<Rightarrow> bytes \<Rightarrow> bytes" where
  "spi_frame tag payload = crc_frame ([GD32_BRIDGE_SOF, tag] @ payload)"

section \<open>Lemmas\<close>

lemma length_spi_frame [simp]: "length (spi_frame tag payload) = length payload + 4"
  by (simp add: spi_frame_def)

lemma spi_rx_fold:
  "length (spi_rx s) + length bs \<le> SPI_MAX_FRAME_BYTES \<Longrightarrow>
   fold spi_slave_rx_byte bs s = s\<lparr>spi_rx := spi_rx s @ bs\<rparr>"
  by (induction bs arbitrary: s) (auto simp: spi_slave_rx_byte_def)

lemma spi_rx_bound: "length (spi_rx s) \<le> 69 \<Longrightarrow> length (spi_rx (fold spi_slave_rx_byte bs s)) \<le> 69"
  by (induction bs arbitrary: s) (auto simp: spi_slave_rx_byte_def)

lemma spi_transaction_eq:
  "length bs \<le> SPI_MAX_FRAME_BYTES \<Longrightarrow> spi_transaction bd bs s f = decode_and_dispatch bd (s\<lparr>spi_rx := bs\<rparr>) f"
  by (simp add: spi_transaction_def spi_slave_cs_high_def spi_slave_cs_low_def spi_rx_fold)

declare spi_drain.simps [simp del]

lemma spi_drain_eq:
  "spi_tx_cursor s \<le> length (spi_tx s) \<Longrightarrow>
   spi_drain s = (drop (spi_tx_cursor s) (spi_tx s), s\<lparr>spi_tx_cursor := length (spi_tx s)\<rparr>)"
proof (induction s rule: spi_drain.induct)
  case (1 s)
  show ?case
  proof (cases "spi_slave_tx_pending s")
    case True
    then show ?thesis
      using "1.IH" [OF True prod.collapse]
      by (simp add: spi_drain.simps [of s] spi_slave_tx_pending_def spi_slave_tx_next_byte_def Cons_nth_drop_Suc)
  next
    case False
    then show ?thesis using 1(2) by (simp add: spi_drain.simps [of s] spi_slave_tx_pending_def)
  qed
qed

text \<open>The stamp and the status byte that staging puts on the wire.\<close>

definition seq_armed :: "'h fw \<Rightarrow> bool" where
  "seq_armed f \<longleftrightarrow> link_features f ! GD32_BRIDGE_LINK_SPI AND GD32_BRIDGE_LINK_FEAT_STATUS_SEQ \<noteq> 0"

definition next_seq :: "'h fw \<Rightarrow> spi_st \<Rightarrow> u8" where
  "next_seq f s = (if seq_armed f then (spi_seq s + 1) AND 0x0F else spi_seq s)"

definition wire_status :: "'h fw \<Rightarrow> spi_st \<Rightarrow> gd32_bridge_status \<Rightarrow> u8" where
  "wire_status f s st =
     (if seq_armed f then status_code st OR push_bit GD32_BRIDGE_STATUS_SEQ_SHIFT (next_seq f s) else status_code st)"

lemma spi_stage_reply_eq:
  assumes "length (link_features f) = 2" "length payload \<le> 65"
  shows "spi_stage_reply (link_features f) (status_code st) payload s =
    Some (s\<lparr>spi_tx := spi_frame (wire_status f s st) payload, spi_tx_cursor := 0, spi_drain_streak := 0,
            spi_seq := next_seq f s\<rparr>)"
  using assms
  by (simp add: spi_stage_reply_def protocol_link_features_def seq_armed_def next_seq_def wire_status_def
      spi_frame_def crc_frame_def Let_def)

lemma stage_error_eq:
  assumes "length (link_features f) = 2"
  shows "stage_error_reply (link_features f) st s =
    Some (s\<lparr>spi_tx := spi_frame (wire_status f s st) [], spi_tx_cursor := 0, spi_drain_streak := 0,
            spi_seq := next_seq f s\<rparr>)"
  using spi_stage_reply_eq [OF assms, of "[]"] by (simp add: stage_error_reply_def)

abbreviation (input) error_staged :: "'h fw \<Rightarrow> spi_st \<Rightarrow> spi_st" where
  "error_staged f s \<equiv> s\<lparr>spi_tx := spi_frame (wire_status f s STATUS_IO) [], spi_tx_cursor := 0,
     spi_drain_streak := 0, spi_seq := next_seq f s\<rparr>"

lemma decode_bad_crc:
  assumes "length (link_features f) = 2" "spi_rx s = [GD32_BRIDGE_SOF, cmd] @ payload @ [c0, c1]"
    and "le16 c0 c1 \<noteq> crc16_ccitt_false ([GD32_BRIDGE_SOF, cmd] @ payload)"
  shows "decode_and_dispatch bd s f = Some (error_staged f s, f)"
  using assms stage_error_eq [OF assms(1)] by (simp add: decode_and_dispatch_def Let_def rd_def nth_append)

lemma decode_good:
  assumes "spi_rx s = spi_frame cmd payload"
  shows "decode_and_dispatch bd s f =
    do { (st, reply_pl, f') \<leftarrow> protocol_dispatch bd GD32_BRIDGE_LINK_SPI cmd payload GD32_BRIDGE_MAX_PAYLOAD_BYTES f;
         s' \<leftarrow> spi_stage_reply (link_features f') (status_code st) reply_pl s;
         Some (s', f') }"
  using assms by (simp add: decode_and_dispatch_def spi_frame_def crc_frame_def Let_def rd_def nth_append bytes16_def)

lemma decode_no_sof:
  assumes "length (link_features f) = 2" "spi_rx s \<noteq> []" "hd (spi_rx s) \<noteq> GD32_BRIDGE_SOF"
  shows "decode_and_dispatch bd s f =
    (if \<exists>b \<in> set (spi_rx s). b \<noteq> 0 then Some (error_staged f s, f)
     else do { s' \<leftarrow> drain_rewind (link_features f) s; Some (s', f) })"
  using assms stage_error_eq [OF assms(1)]
  by (auto simp: decode_and_dispatch_def Let_def rd_def hd_conv_nth)

lemma drain_rewind_eq:
  assumes "length (link_features f) = 2"
  shows "drain_rewind (link_features f) s =
    Some (if spi_drain_streak s + 1 > 12 then error_staged f (s\<lparr>spi_drain_streak := spi_drain_streak s + 1\<rparr>)
          else s\<lparr>spi_drain_streak := spi_drain_streak s + 1, spi_tx_cursor := 0\<rparr>)"
  using stage_error_eq [OF assms] by (simp add: drain_rewind_def Let_def)

text \<open>A drain transaction: no bytes captured, or only the zero filler of a host read.\<close>

lemma transaction_drain:
  assumes "length (link_features f) = 2" "set bs \<subseteq> {0}" "length bs \<le> 69"
  shows "spi_transaction bd bs s f =
    do { s' \<leftarrow> drain_rewind (link_features f) (s\<lparr>spi_rx := bs\<rparr>); Some (s', f) }"
proof (cases "bs = []")
  case True
  then show ?thesis by (simp add: spi_transaction_eq decode_and_dispatch_def Let_def)
next
  case False
  then have "hd bs = 0" using assms(2) hd_in_set by fastforce
  then show ?thesis
    using decode_no_sof [OF assms(1), of "s\<lparr>spi_rx := bs\<rparr>"] False assms(2,3) by (auto simp: spi_transaction_eq)
qed

lemma status_nibble:
  assumes "st \<noteq> STATUS_NO_PENDING" "q AND 0x0F = (q :: u8)"
  shows "(status_code st OR push_bit 4 q) AND 0x0F = status_code st"
    and "drop_bit 4 (status_code st OR push_bit 4 q) = q"
proof -
  have m: "(0x0F :: u8) = mask 4" by (simp add: mask_eq_exp_minus_1)
  have c: "take_bit 4 (status_code st) = status_code st" "drop_bit 4 (status_code st) = 0"
    using assms(1) by (cases st; simp add: take_bit_eq_mod drop_bit_eq_div)+
  show "(status_code st OR push_bit 4 q) AND 0x0F = status_code st"
    unfolding m take_bit_eq_mask [symmetric] take_bit_or by (simp add: c take_bit_push_bit)
  have "take_bit 4 q = q" using assms(2) by (simp add: m take_bit_eq_mask)
  then have "drop_bit 4 (push_bit 4 q) = q"
    by (intro bit_word_eqI) (auto simp: bit_simps, metis bit_take_bit_iff)
  then show "drop_bit 4 (status_code st OR push_bit 4 q) = q" by (simp add: drop_bit_or c)
qed

lemma seq_nibble: "((q + 1) AND 0x0F) AND 0x0F = (q + 1) AND (0x0F :: u8)"
  by (simp add: and.assoc)

lemma next_seq_changes: "q < 16 \<Longrightarrow> (q + 1) AND 0x0F \<noteq> (q :: u8)"
proof
  assume q: "q < 16" and e: "(q + 1) AND 0x0F = q"
  have m: "(0x0F :: u8) = mask 4" by (simp add: mask_eq_exp_minus_1)
  have "unat ((q + 1) AND 0x0F) = (unat q + 1) mod 16"
    using q unfolding m take_bit_eq_mask [symmetric] unsigned_take_bit_eq
    by (simp add: take_bit_eq_mod unat_word_ariths(1) word_less_nat_alt)
  then show False using e q by (cases "unat q = 15") (auto simp: word_less_nat_alt)
qed

lemma wire_status_nibble:
  "st \<noteq> STATUS_NO_PENDING \<Longrightarrow> wire_status f s st AND GD32_BRIDGE_STATUS_CODE_MASK = status_code st"
  using status_nibble(1) [of st "(spi_seq s + 1) AND 0x0F"]
  by (cases st) (simp_all add: wire_status_def next_seq_def and.assoc)

lemma request_answered:
  assumes "fw_inv bd f" "length payload \<le> GD32_BRIDGE_MAX_PAYLOAD_BYTES"
  obtains st rep f' s' where
    "protocol_dispatch bd GD32_BRIDGE_LINK_SPI cmd payload GD32_BRIDGE_MAX_PAYLOAD_BYTES f = Some (st, rep, f')"
    "spi_transaction bd (spi_frame cmd payload) s f = Some (s', f')"
    "s' = s\<lparr>spi_rx := spi_frame cmd payload, spi_tx := spi_frame (wire_status f' s st) rep, spi_tx_cursor := 0,
          spi_drain_streak := 0, spi_seq := next_seq f' s\<rparr>"
    "length rep \<le> GD32_BRIDGE_MAX_PAYLOAD_BYTES" "st \<noteq> STATUS_NO_PENDING"
proof (rule dispatch_contract [OF assms(1), of GD32_BRIDGE_LINK_SPI cmd payload GD32_BRIDGE_MAX_PAYLOAD_BYTES])
  fix st rep f'
  assume d: "protocol_dispatch bd GD32_BRIDGE_LINK_SPI cmd payload GD32_BRIDGE_MAX_PAYLOAD_BYTES f = Some (st, rep, f')"
    and l: "length rep \<le> GD32_BRIDGE_MAX_PAYLOAD_BYTES" and n: "st \<noteq> STATUS_NO_PENDING"
  have "length (link_features f') = 2" using dispatch_features_length [OF d] assms(1) by (simp add: fw_inv_def)
  note stage = spi_stage_reply_eq [OF this l, of st "s\<lparr>spi_rx := spi_frame cmd payload\<rparr>"]
  have ws: "wire_status f' (s\<lparr>spi_rx := x\<rparr>) st = wire_status f' s st" "next_seq f' (s\<lparr>spi_rx := x\<rparr>) = next_seq f' s" for x
    by (simp_all add: wire_status_def next_seq_def)
  have "spi_transaction bd (spi_frame cmd payload) s f =
      Some (s\<lparr>spi_rx := spi_frame cmd payload, spi_tx := spi_frame (wire_status f' s st) rep, spi_tx_cursor := 0,
          spi_drain_streak := 0, spi_seq := next_seq f' s\<rparr>, f')"
    using assms(2) d stage decode_good [of "s\<lparr>spi_rx := spi_frame cmd payload\<rparr>" cmd payload bd f]
    by (simp add: spi_transaction_eq ws)
  then show thesis using that d l n by blast
qed

text \<open>A burst that leaves the leading byte intact breaks the CRC check.\<close>

lemma corrupted_frame:
  assumes "spi_frame cmd payload = pre @ [a, b] @ post" "(a', b') \<noteq> (a, b)" "length post \<ge> 2 \<or> post = []"
    and "hd (pre @ [a', b'] @ post) = GD32_BRIDGE_SOF"
  shows "\<exists>cmd' payload' c0 c1. pre @ [a', b'] @ post = [GD32_BRIDGE_SOF, cmd'] @ payload' @ [c0, c1] \<and>
    le16 c0 c1 \<noteq> crc16_ccitt_false ([GD32_BRIDGE_SOF, cmd'] @ payload')"
proof -
  obtain ys c0 c1 where ys: "pre @ [a', b'] @ post = ys @ [c0, c1]" "le16 c0 c1 \<noteq> crc16_ccitt_false ys"
    using crc_frame_corrupted [of "[GD32_BRIDGE_SOF, cmd] @ payload" pre a b post a' b'] assms(1-3)
    by (auto simp: spi_frame_def)
  have "length (ys @ [c0, c1]) = length payload + 4"
    using arg_cong [OF assms(1), of length] arg_cong [OF ys(1), of length] by simp
  then obtain cmd' payload' where "ys = [hd ys, cmd'] @ payload'"
    by (cases ys; cases "tl ys") auto
  moreover have "hd ys = GD32_BRIDGE_SOF" using assms(4) ys(1) calculation by (cases ys) auto
  ultimately show ?thesis using ys by (metis append_assoc)
qed

section \<open>Sessions\<close>

text \<open>
  The backend empties the transmit buffer into its DMA buffer after every transaction.  The
  model returns what it clocked out.
\<close>

fun spi_session :: "'h board \<Rightarrow> bytes list \<Rightarrow> spi_st \<Rightarrow> 'h fw \<Rightarrow> (bytes list \<times> spi_st \<times> 'h fw) option" where
  "spi_session bd [] s f = Some ([], s, f)"
| "spi_session bd (t # ts) s f = do {
     (s1, f1) \<leftarrow> spi_transaction bd t s f;
     let (out, s2) = spi_drain s1;
     (outs, s3, f3) \<leftarrow> spi_session bd ts s2 f1;
     Some (out # outs, s3, f3) }"

lemma session_drains:
  assumes "length (link_features f) = 2" "\<forall>t \<in> set ts. set t \<subseteq> {0} \<and> length t \<le> 69"
    and "unat (spi_drain_streak s) + length ts \<le> 12" "spi_tx_cursor s \<le> length (spi_tx s)"
  shows "\<exists>rx cur. spi_session bd ts s f =
    Some (replicate (length ts) (spi_tx s),
          s\<lparr>spi_rx := rx, spi_tx_cursor := cur, spi_drain_streak := spi_drain_streak s + of_nat (length ts)\<rparr>, f) \<and>
    cur \<le> length (spi_tx s)"
  using assms(2-4)
proof (induction ts arbitrary: s)
  case Nil
  have "s = s\<lparr>spi_rx := spi_rx s, spi_tx_cursor := spi_tx_cursor s, spi_drain_streak := spi_drain_streak s + of_nat 0\<rparr>"
    by simp
  then show ?case using Nil by (simp only: spi_session.simps list.size replicate_0) blast
next
  case (Cons t ts)
  let ?s1 = "s\<lparr>spi_rx := t, spi_drain_streak := spi_drain_streak s + 1, spi_tx_cursor := 0\<rparr>"
  let ?s2 = "?s1\<lparr>spi_tx_cursor := length (spi_tx s)\<rparr>"
  have u: "unat (spi_drain_streak s + 1) = unat (spi_drain_streak s) + 1"
    using Cons.prems(2) by (simp add: unat_word_ariths(1))
  then have nb: "\<not> spi_drain_streak s + 1 > 12" using Cons.prems(2) by (simp add: word_less_nat_alt)
  have tr: "spi_transaction bd t s f = Some (?s1, f)"
    using transaction_drain [OF assms(1), of t bd s] drain_rewind_eq [OF assms(1), of "s\<lparr>spi_rx := t\<rparr>"] nb Cons.prems(1)
    by simp
  have dr: "spi_drain ?s1 = (spi_tx s, ?s2)" using spi_drain_eq [of ?s1] by simp
  have "unat (spi_drain_streak ?s2) + length ts \<le> 12" using u Cons.prems(2) by simp
  from Cons.IH [of ?s2, OF _ this] Cons.prems(1) obtain rx cur where
    "spi_session bd ts ?s2 f = Some (replicate (length ts) (spi_tx s),
       ?s2\<lparr>spi_rx := rx, spi_tx_cursor := cur, spi_drain_streak := spi_drain_streak s + 1 + of_nat (length ts)\<rparr>, f)"
    "cur \<le> length (spi_tx s)" by auto
  then show ?case using tr dr by (auto simp: algebra_simps)
qed

lemma session_append:
  "spi_session bd (ts @ us) s f =
     do { (o1, s1, f1) \<leftarrow> spi_session bd ts s f;
          (o2, s2, f2) \<leftarrow> spi_session bd us s1 f1;
          Some (o1 @ o2, s2, f2) }"
proof (induction ts arbitrary: s f)
  case Nil
  then show ?case by (cases "spi_session bd us s f") auto
next
  case (Cons t ts)
  show ?case
    by (cases "spi_transaction bd t s f") (auto simp: Cons.IH Let_def bind_assoc split: prod.splits bind_splits)
qed

text \<open>A request and the drains that follow it.\<close>

lemma session_request:
  assumes "fw_inv bd f" "length payload \<le> GD32_BRIDGE_MAX_PAYLOAD_BYTES"
  obtains st rep f' s' where
    "protocol_dispatch bd GD32_BRIDGE_LINK_SPI cmd payload GD32_BRIDGE_MAX_PAYLOAD_BYTES f = Some (st, rep, f')"
    "spi_session bd [spi_frame cmd payload] s f = Some ([spi_tx s'], s', f')"
    "spi_tx s' = spi_frame (wire_status f' s st) rep" "spi_tx_cursor s' = length (spi_tx s')"
    "spi_drain_streak s' = 0" "spi_seq s' = next_seq f' s"
    "length rep \<le> GD32_BRIDGE_MAX_PAYLOAD_BYTES" "st \<noteq> STATUS_NO_PENDING" "length (link_features f') = 2"
proof (rule request_answered [OF assms, of cmd s])
  fix st rep f' s1
  assume r: "protocol_dispatch bd GD32_BRIDGE_LINK_SPI cmd payload GD32_BRIDGE_MAX_PAYLOAD_BYTES f = Some (st, rep, f')"
    "spi_transaction bd (spi_frame cmd payload) s f = Some (s1, f')"
    "s1 = s\<lparr>spi_rx := spi_frame cmd payload, spi_tx := spi_frame (wire_status f' s st) rep, spi_tx_cursor := 0,
          spi_drain_streak := 0, spi_seq := next_seq f' s\<rparr>"
    "length rep \<le> GD32_BRIDGE_MAX_PAYLOAD_BYTES" "st \<noteq> STATUS_NO_PENDING"
  let ?s' = "s1\<lparr>spi_tx_cursor := length (spi_tx s1)\<rparr>"
  have "spi_session bd [spi_frame cmd payload] s f = Some ([spi_tx ?s'], ?s', f')"
    using r(2,3) spi_drain_eq [of s1] by simp
  moreover have "length (link_features f') = 2"
    using dispatch_features_length [OF r(1)] assms(1) by (simp add: fw_inv_def)
  ultimately show thesis using that [of st rep f' ?s'] r by simp
qed

lemma session_error_drain:
  assumes "length (link_features f) = 2" "set t \<subseteq> {0}" "length t \<le> 69" "spi_drain_streak s = 12"
  shows "\<exists>s'. spi_session bd [t] s f = Some ([spi_frame (wire_status f s STATUS_IO) []], s', f)"
proof -
  have ws: "wire_status f (s\<lparr>spi_rx := t, spi_drain_streak := d\<rparr>) STATUS_IO = wire_status f s STATUS_IO" for d
    by (simp add: wire_status_def next_seq_def)
  have "drain_rewind (link_features f) (s\<lparr>spi_rx := t\<rparr>) = Some (error_staged f (s\<lparr>spi_rx := t, spi_drain_streak := 13\<rparr>))"
    using drain_rewind_eq [OF assms(1), of "s\<lparr>spi_rx := t\<rparr>"] assms(4) by simp
  then show ?thesis
    using transaction_drain [OF assms(1-3), of bd s] ws
      spi_drain_eq [of "error_staged f (s\<lparr>spi_rx := t, spi_drain_streak := 13\<rparr>)"] by simp
qed

lemma wire_status_seq:
  assumes "seq_armed f" "st \<noteq> STATUS_NO_PENDING"
  shows "drop_bit 4 (wire_status f s st) = next_seq f s"
  using assms status_nibble(2) [OF assms(2) seq_nibble, of "spi_seq s"] by (simp add: wire_status_def next_seq_def)

text \<open>A firmware state with the status-sequence feature negotiated on both links.\<close>

definition demo_seq_fw :: "unit fw" where
  "demo_seq_fw = demo_fw\<lparr>link_features := [1, 1]\<rparr>"

lemma demo_seq_inv: "fw_inv demo_board demo_seq_fw"
  using demo_fw_inv by (simp add: fw_inv_def demo_seq_fw_def)

lemma demo_seq_version:
  "protocol_dispatch demo_board link 0x01 [] 65 demo_seq_fw = Some (STATUS_OK, [0, 14, 1], demo_seq_fw)"
  using cmd_of_code [of CMD_GET_VERSION]
  by (simp add: protocol_dispatch_def protocol_dispatch_inner_def demo_seq_fw_def demo_fw_def ota_trial_unconfirmed_def
      ota_reset_def handle_get_version_def)

lemma demo_seq_session:
  "\<exists>s1. spi_session demo_board [spi_frame 0x01 []] s demo_seq_fw = Some ([spi_tx s1], s1, demo_seq_fw)"
proof (rule session_request [OF demo_seq_inv, of "[]" "0x01" s])
  fix st rep f' s'
  assume "protocol_dispatch demo_board GD32_BRIDGE_LINK_SPI 0x01 [] GD32_BRIDGE_MAX_PAYLOAD_BYTES demo_seq_fw = Some (st, rep, f')"
    and s: "spi_session demo_board [spi_frame 0x01 []] s demo_seq_fw = Some ([spi_tx s'], s', f')"
  then have "f' = demo_seq_fw" using demo_seq_version by simp
  with s show ?thesis by blast
qed simp

section \<open>Properties\<close>

text \<open>
  C38: SPI round trip.  A well-formed request frame is dispatched exactly once with its opcode and payload, and the
  bytes clocked out of the next drain are a frame with a valid CRC whose status nibble is the
  status the command returned and whose payload is its reply; the frame fits the transmit buffer.
\<close>

theorem spi_request_answered:
  assumes "fw_inv bd f" "length payload \<le> GD32_BRIDGE_MAX_PAYLOAD_BYTES"
  shows "\<exists>st rep f' s' tag.
    protocol_dispatch bd GD32_BRIDGE_LINK_SPI cmd payload GD32_BRIDGE_MAX_PAYLOAD_BYTES f = Some (st, rep, f') \<and>
    spi_transaction bd (spi_frame cmd payload) s f = Some (s', f') \<and>
    fst (spi_drain s') = spi_frame tag rep \<and> length (spi_frame tag rep) \<le> SPI_MAX_FRAME_BYTES \<and>
    tag AND GD32_BRIDGE_STATUS_CODE_MASK = status_code st"
proof (rule request_answered [OF assms, of cmd s])
  fix st rep f' s'
  assume r: "protocol_dispatch bd GD32_BRIDGE_LINK_SPI cmd payload GD32_BRIDGE_MAX_PAYLOAD_BYTES f = Some (st, rep, f')"
    "spi_transaction bd (spi_frame cmd payload) s f = Some (s', f')"
    "s' = s\<lparr>spi_rx := spi_frame cmd payload, spi_tx := spi_frame (wire_status f' s st) rep, spi_tx_cursor := 0,
          spi_drain_streak := 0, spi_seq := next_seq f' s\<rparr>"
    "length rep \<le> GD32_BRIDGE_MAX_PAYLOAD_BYTES" "st \<noteq> STATUS_NO_PENDING"
  have "fst (spi_drain s') = spi_frame (wire_status f' s st) rep" using spi_drain_eq [of s'] r(3) by simp
  then show ?thesis using r wire_status_nibble [OF r(5)] by (intro exI) auto
qed

theorem spi_request_answered_witness:
  "\<exists>s' tag. spi_transaction demo_board (spi_frame 0x01 []) transport_spi_init demo_fw = Some (s', demo_fw) \<and>
     fst (spi_drain s') = spi_frame tag [0, 14, 1] \<and> tag AND GD32_BRIDGE_STATUS_CODE_MASK = 0"
proof -
  have d: "protocol_dispatch demo_board GD32_BRIDGE_LINK_SPI 0x01 [] 65 demo_fw = Some (STATUS_OK, [0, 14, 1], demo_fw)"
    by (rule demo_get_version)
  then show ?thesis using spi_request_answered [OF demo_fw_inv, of "[]" "0x01" transport_spi_init] by auto
qed



text \<open>
  The drain ladder.  After a request, every drain transaction, whether it captures nothing or the
  zero filler of a host read, serves the same reply frame again, twelve times and
  without touching the firmware; the thirteenth drain stages the empty \<open>STATUS_IO\<close> envelope instead.
\<close>

theorem spi_drain_ladder:
  assumes "fw_inv bd f" "length payload \<le> GD32_BRIDGE_MAX_PAYLOAD_BYTES"
    and "length ts = 12" "\<forall>t \<in> set (ts @ [last_t]). set t \<subseteq> {0} \<and> length t \<le> SPI_MAX_FRAME_BYTES"
  shows "\<exists>st rep f' s' tag err.
    protocol_dispatch bd GD32_BRIDGE_LINK_SPI cmd payload GD32_BRIDGE_MAX_PAYLOAD_BYTES f = Some (st, rep, f') \<and>
    spi_session bd (spi_frame cmd payload # ts @ [last_t]) s f =
      Some (replicate 13 (spi_frame tag rep) @ [spi_frame err []], s', f') \<and>
    tag AND GD32_BRIDGE_STATUS_CODE_MASK = status_code st \<and>
    err AND GD32_BRIDGE_STATUS_CODE_MASK = status_code STATUS_IO"
proof (rule session_request [OF assms(1,2), of cmd s])
  fix st rep f' s1
  assume r: "protocol_dispatch bd GD32_BRIDGE_LINK_SPI cmd payload GD32_BRIDGE_MAX_PAYLOAD_BYTES f = Some (st, rep, f')"
    "spi_session bd [spi_frame cmd payload] s f = Some ([spi_tx s1], s1, f')"
    "spi_tx s1 = spi_frame (wire_status f' s st) rep" "spi_tx_cursor s1 = length (spi_tx s1)"
    "spi_drain_streak s1 = 0" "st \<noteq> STATUS_NO_PENDING" "length (link_features f') = 2"
  obtain rx cur where d: "spi_session bd ts s1 f' = Some (replicate 12 (spi_tx s1),
      s1\<lparr>spi_rx := rx, spi_tx_cursor := cur, spi_drain_streak := 12\<rparr>, f')"
    using session_drains [OF r(7), of ts s1 bd] assms(3,4) r(4,5) by auto
  let ?s2 = "s1\<lparr>spi_rx := rx, spi_tx_cursor := cur, spi_drain_streak := 12\<rparr>"
  obtain s3 where e: "spi_session bd [last_t] ?s2 f' = Some ([spi_frame (wire_status f' ?s2 STATUS_IO) []], s3, f')"
    using session_error_drain [OF r(7), of last_t ?s2 bd] assms(4) by auto
  have "spi_session bd ([spi_frame cmd payload] @ ts @ [last_t]) s f =
      Some (replicate 13 (spi_tx s1) @ [spi_frame (wire_status f' ?s2 STATUS_IO) []], s3, f')"
    unfolding session_append [of bd "[_]"] session_append [of bd ts] r(2)
    using d e by (simp add: numeral_eq_Suc del: spi_session.simps)
  then show ?thesis
    using r wire_status_nibble [OF r(6)] wire_status_nibble [of STATUS_IO f' ?s2]
    by (intro exI [of _ st] exI [of _ rep] exI [of _ f'] exI [of _ s3]) auto
qed

theorem spi_drain_ladder_witness:
  "\<exists>s' tag err. spi_session demo_board (spi_frame 0x01 [] # replicate 12 [0, 0, 0] @ [[]]) transport_spi_init demo_fw =
     Some (replicate 13 (spi_frame tag [0, 14, 1]) @ [spi_frame err []], s', demo_fw) \<and>
     tag AND GD32_BRIDGE_STATUS_CODE_MASK = 0 \<and> err AND GD32_BRIDGE_STATUS_CODE_MASK = status_code STATUS_IO"
proof -
  have d: "protocol_dispatch demo_board GD32_BRIDGE_LINK_SPI 0x01 [] 65 demo_fw = Some (STATUS_OK, [0, 14, 1], demo_fw)"
    by (rule demo_get_version)
  then show ?thesis
    using spi_drain_ladder [OF demo_fw_inv, of "[]" "replicate 12 [0, 0, 0]" "[]" "0x01" transport_spi_init] by auto
qed

text \<open>
  Stale replies are recognisable.  With the status-sequence feature negotiated, the replies to two
  consecutive requests carry different stamps in the high nibble of the status byte, the second
  one ahead of the first by one modulo sixteen.
\<close>

theorem spi_consecutive_stamps_differ:
  assumes "fw_inv bd f" "length p1 \<le> GD32_BRIDGE_MAX_PAYLOAD_BYTES" "length p2 \<le> GD32_BRIDGE_MAX_PAYLOAD_BYTES"
    and "spi_session bd [spi_frame c1 p1, spi_frame c2 p2] s f = Some (outs, s', f2)"
    and "protocol_dispatch bd GD32_BRIDGE_LINK_SPI c1 p1 GD32_BRIDGE_MAX_PAYLOAD_BYTES f = Some (st1, r1, f1)"
    and "fw_inv bd f1" "seq_armed f1" "seq_armed f2"
  shows "\<exists>t1 t2 r2. outs = [spi_frame t1 r1, spi_frame t2 r2] \<and>
    drop_bit 4 t2 = (drop_bit 4 t1 + 1) AND (0x0F :: u8) \<and> drop_bit 4 t2 \<noteq> drop_bit 4 t1"
proof -
  obtain s1 where a: "spi_session bd [spi_frame c1 p1] s f = Some ([spi_tx s1], s1, f1)"
    "spi_tx s1 = spi_frame (wire_status f1 s st1) r1" "spi_seq s1 = next_seq f1 s" "st1 \<noteq> STATUS_NO_PENDING"
    using session_request [OF assms(1,2), of c1 s] assms(5) by (metis option.inject prod.inject)
  obtain st2 r2 f2' s2 where b: "spi_session bd [spi_frame c2 p2] s1 f1 = Some ([spi_tx s2], s2, f2')"
    "spi_tx s2 = spi_frame (wire_status f2' s1 st2) r2" "st2 \<noteq> STATUS_NO_PENDING"
    using session_request [OF assms(6,3), of c2 s1] by metis
  have "spi_session bd ([spi_frame c1 p1] @ [spi_frame c2 p2]) s f = Some ([spi_tx s1, spi_tx s2], s2, f2')"
    unfolding session_append [of bd "[_]"] a(1) using b(1) by (simp del: spi_session.simps)
  then have o: "outs = [spi_tx s1, spi_tx s2]" "f2' = f2" using assms(4) by (simp_all del: spi_session.simps)
  have n1: "drop_bit 4 (wire_status f1 s st1) = (spi_seq s + 1) AND 0x0F"
    using wire_status_seq [OF assms(7) a(4), of s] assms(7) by (simp add: next_seq_def)
  have n2: "drop_bit 4 (wire_status f2 s1 st2) = (((spi_seq s + 1) AND 0x0F) + 1) AND 0x0F"
    using wire_status_seq [OF assms(8) b(3), of s1] assms(7,8) a(3) by (simp add: next_seq_def)
  have lt: "(spi_seq s + 1) AND 0x0F < (16 :: u8)"
    using word_and_le1 [of "spi_seq s + 1" "0x0F"] by (simp add: word_le_nat_alt word_less_nat_alt)
  show ?thesis
    using o a(2) b(2) n1 n2 next_seq_changes [OF lt]
    by (intro exI [of _ "wire_status f1 s st1"] exI [of _ "wire_status f2 s1 st2"] exI [of _ r2]) simp
qed

theorem spi_consecutive_stamps_differ_witness:
  "\<exists>t1 t2 r2 s'. spi_session demo_board [spi_frame 0x01 [], spi_frame 0x01 []] transport_spi_init demo_seq_fw =
     Some ([spi_frame t1 [0, 14, 1], spi_frame t2 r2], s', demo_seq_fw) \<and>
     drop_bit 4 t2 = (drop_bit 4 t1 + 1) AND (0x0F :: u8) \<and> drop_bit 4 t2 \<noteq> drop_bit 4 t1"
proof -
  have ar: "seq_armed demo_seq_fw" by (simp add: demo_seq_fw_def seq_armed_def)
  obtain s1 where 1: "spi_session demo_board [spi_frame 0x01 []] transport_spi_init demo_seq_fw =
      Some ([spi_tx s1], s1, demo_seq_fw)"
    using demo_seq_session by blast
  obtain s2 where 2: "spi_session demo_board [spi_frame 0x01 []] s1 demo_seq_fw = Some ([spi_tx s2], s2, demo_seq_fw)"
    using demo_seq_session by blast
  have s: "spi_session demo_board [spi_frame 0x01 [], spi_frame 0x01 []] transport_spi_init demo_seq_fw =
      Some ([spi_tx s1, spi_tx s2], s2, demo_seq_fw)"
    using session_append [of demo_board "[spi_frame 0x01 []]" "[spi_frame 0x01 []]"] 1 2 by (simp del: spi_session.simps)
  show ?thesis
    using spi_consecutive_stamps_differ [OF demo_seq_inv _ _ s demo_seq_version demo_seq_inv ar ar] s by auto
qed

text \<open>
  An over-long transaction.  Bytes beyond the receive buffer are dropped without a trace: a
  full-size request followed by any extra bytes is dispatched exactly as the request alone.
\<close>

theorem spi_overlong_request_accepted:
  assumes "length payload = GD32_BRIDGE_MAX_PAYLOAD_BYTES"
  shows "spi_transaction bd (spi_frame cmd payload @ junk) s f = spi_transaction bd (spi_frame cmd payload) s f"
proof -
  have full: "length (spi_rx s) = 69 \<Longrightarrow> fold spi_slave_rx_byte junk s = s" for s
    by (induction junk) (simp_all add: spi_slave_rx_byte_def)
  have "length (spi_rx (fold spi_slave_rx_byte (spi_frame cmd payload) (spi_slave_cs_low s))) = 69"
    using assms by (simp add: spi_rx_fold spi_slave_cs_low_def)
  from full [OF this] show ?thesis by (simp add: spi_transaction_def)
qed

theorem spi_overlong_request_accepted_witness:
  "spi_transaction demo_board (spi_frame 0x36 (replicate 65 0) @ [1, 2, 3]) transport_spi_init demo_fw =
   spi_transaction demo_board (spi_frame 0x36 (replicate 65 0)) transport_spi_init demo_fw"
  by (rule spi_overlong_request_accepted) simp

end
