(* ===== verification/Bus_Spi.thy ===== *)
theory Bus_Spi
  imports Transport_Spi
begin

unbundle bit_operations_syntax

text \<open>
  The SPI half of \<open>hal/transport_hw_gd32.c\<close>: two DMA channels that move bytes between the controller and two
  staging buffers, their error interrupts, and the chip-select interrupt that frames a transaction and drives the
  portable hooks of \<open>src/transport_spi.c\<close>.  Register read-backs that may disagree with what was written are
  answers of the environment.
\<close>

section \<open>State\<close>

abbreviation (input) "BRIDGE_SPI_DMA_BUF_LEN \<equiv> (72 :: nat)"
abbreviation (input) "BRIDGE_SPI_DMA_DISABLE_SPINS \<equiv> (64 :: nat)"
abbreviation (input) "BRIDGE_SPI_RX_FIFO_FRAMES \<equiv> (4 :: nat)"
abbreviation (input) "EXTI_5_9 \<equiv> (0x3E0 :: u32)"

datatype dma_channel = SPI_RX_CH | SPI_TX_CH

text \<open>A DMA channel: enabled, transfers left, position in its staging buffer, error flag.\<close>

record dma_ch =
  chen :: bool
  chcnt :: nat
  maddr :: nat
  errif :: bool

text \<open>The receive FIFO and the overrun flag belong to the controller; the rest is the file's own state.\<close>

record spi_hw =
  rx_ch :: dma_ch
  tx_ch :: dma_ch
  rx_fifo :: bytes
  rxorerr :: bool
  exti_pd0 :: u32
  spi_rx_dma_buf :: bytes
  spi_tx_dma_buf :: bytes
  spi_dma_rx_error_count :: u32
  spi_dma_tx_error_count :: u32
  spi_dma_error_pending :: bool
  spi_dma_rx_arm_fail_count :: u32
  spi_dma_tx_arm_fail_count :: u32

section \<open>Channels\<close>

fun spi_dma_latch_error :: "dma_channel \<Rightarrow> spi_hw \<Rightarrow> spi_hw" where
  "spi_dma_latch_error SPI_RX_CH h =
     (if \<not> errif (rx_ch h) then h
      else h\<lparr>rx_ch := (rx_ch h)\<lparr>errif := False\<rparr>, spi_dma_rx_error_count := spi_dma_rx_error_count h + 1,
             spi_dma_error_pending := True\<rparr>)"
| "spi_dma_latch_error SPI_TX_CH h =
     (if \<not> errif (tx_ch h) then h
      else h\<lparr>tx_ch := (tx_ch h)\<lparr>errif := False\<rparr>, spi_dma_tx_error_count := spi_dma_tx_error_count h + 1,
             spi_dma_error_pending := True\<rparr>)"

definition DMA0_Channel2_IRQHandler :: "spi_hw \<Rightarrow> spi_hw" where
  "DMA0_Channel2_IRQHandler h = spi_dma_latch_error SPI_TX_CH h"

definition DMA0_Channel3_IRQHandler :: "spi_hw \<Rightarrow> spi_hw" where
  "DMA0_Channel3_IRQHandler h = spi_dma_latch_error SPI_RX_CH h"

definition spi_dma_error_consume :: "spi_hw \<Rightarrow> bool \<times> spi_hw" where
  "spi_dma_error_consume h =
     (let h2 = spi_dma_latch_error SPI_TX_CH (spi_dma_latch_error SPI_RX_CH h)
      in if \<not> spi_dma_error_pending h2 then (False, h2) else (True, h2\<lparr>spi_dma_error_pending := False\<rparr>))"

text \<open>A disable is confirmed once a read-back shows the channel off; \<open>held k\<close> is whether the \<open>k\<close>-th read-back of an
  enabled channel still shows it on.  An unconfirmed channel may still be running.\<close>

fun spi_dma_disable_confirm :: "(nat \<Rightarrow> bool) \<Rightarrow> dma_channel \<Rightarrow> spi_hw \<Rightarrow> bool \<times> spi_hw" where
  "spi_dma_disable_confirm held SPI_RX_CH h =
     (if list_ex (\<lambda>k. \<not> (chen (rx_ch h) \<and> held k)) [0..<BRIDGE_SPI_DMA_DISABLE_SPINS]
      then (True, h\<lparr>rx_ch := (rx_ch h)\<lparr>chen := False\<rparr>\<rparr>) else (False, h))"
| "spi_dma_disable_confirm held SPI_TX_CH h =
     (if list_ex (\<lambda>k. \<not> (chen (tx_ch h) \<and> held k)) [0..<BRIDGE_SPI_DMA_DISABLE_SPINS]
      then (True, h\<lparr>tx_ch := (tx_ch h)\<lparr>chen := False\<rparr>\<rparr>) else (False, h))"

text \<open>\<open>spi_dma_arm_record_confirm_fail\<close> on either counter.\<close>

fun spi_dma_arm_record_confirm_fail :: "dma_channel \<Rightarrow> spi_hw \<Rightarrow> spi_hw" where
  "spi_dma_arm_record_confirm_fail SPI_RX_CH h =
     h\<lparr>spi_dma_rx_arm_fail_count := spi_dma_rx_arm_fail_count h + 1, spi_dma_error_pending := True\<rparr>"
| "spi_dma_arm_record_confirm_fail SPI_TX_CH h =
     h\<lparr>spi_dma_tx_arm_fail_count := spi_dma_tx_arm_fail_count h + 1, spi_dma_error_pending := True\<rparr>"

definition spi_dma_arm_rx :: "(nat \<Rightarrow> bool) \<Rightarrow> spi_hw \<Rightarrow> bool \<times> spi_hw" where
  "spi_dma_arm_rx held h =
     (let (ok, h1) = spi_dma_disable_confirm held SPI_RX_CH h
      in if \<not> ok then (False, spi_dma_arm_record_confirm_fail SPI_RX_CH h1)
         else (True, h1\<lparr>rx_ch := (rx_ch h1)\<lparr>maddr := 0, chcnt := BRIDGE_SPI_DMA_BUF_LEN, chen := True\<rparr>\<rparr>))"

definition spi_dma_arm_tx :: "(nat \<Rightarrow> bool) \<Rightarrow> nat \<Rightarrow> spi_hw \<Rightarrow> bool \<times> spi_hw" where
  "spi_dma_arm_tx held len h =
     (let (ok, h1) = spi_dma_disable_confirm held SPI_TX_CH h
      in if \<not> ok then (False, spi_dma_arm_record_confirm_fail SPI_TX_CH h1)
         else if len = 0 then (True, h1)
         else (True, h1\<lparr>tx_ch := (tx_ch h1)\<lparr>maddr := 0, chcnt := len, chen := True\<rparr>\<rparr>))"

section \<open>Chip select\<close>

text \<open>The reset pulse and \<open>bridge_spi_periph_config\<close>: the controller comes back empty.\<close>

definition spi_flush :: "spi_hw \<Rightarrow> spi_hw" where
  "spi_flush h = h\<lparr>rx_fifo := [], rxorerr := False\<rparr>"

text \<open>The loop that empties the receive FIFO behind the DMA data; the result counts the bytes received.\<close>

function drain_fifo :: "nat \<Rightarrow> nat \<Rightarrow> spi_hw \<Rightarrow> nat \<times> spi_hw" where
  "drain_fifo frame received h =
     (if frame < BRIDGE_SPI_RX_FIFO_FRAMES \<and> received < BRIDGE_SPI_DMA_BUF_LEN \<and> rx_fifo h \<noteq> []
      then drain_fifo (frame + 1) (received + 1)
             (h\<lparr>spi_rx_dma_buf := (spi_rx_dma_buf h)[received := hd (rx_fifo h)], rx_fifo := tl (rx_fifo h)\<rparr>)
      else (received, h))"
  by auto
termination
  by (relation "measure (\<lambda>(frame, _, _). 4 - frame)") auto

text \<open>The loop that moves the staged reply into the transmit buffer.\<close>

function fill_reply :: "nat \<Rightarrow> spi_st \<Rightarrow> bytes \<Rightarrow> nat \<times> spi_st \<times> bytes" where
  "fill_reply reply_len s buf =
     (if spi_slave_tx_pending s \<and> reply_len < BRIDGE_SPI_DMA_BUF_LEN
      then let (b, s') = spi_slave_tx_next_byte s in fill_reply (reply_len + 1) s' (buf[reply_len := b])
      else (reply_len, s, buf))"
  by auto
termination
  by (relation "measure (\<lambda>(n, _, _). 72 - n)") auto

declare drain_fifo.simps [simp del] fill_reply.simps [simp del]

text \<open>The read-backs of the four channel operations of one rising edge, and what the bus and the DMA do while the
  command runs.\<close>

record spi_env =
  rx_quiesce :: "nat \<Rightarrow> bool"
  tx_quiesce :: "nat \<Rightarrow> bool"
  rx_arm :: "nat \<Rightarrow> bool"
  tx_arm :: "nat \<Rightarrow> bool"
  meanwhile :: "spi_hw \<Rightarrow> spi_hw"

definition cs_falling :: "spi_env \<Rightarrow> spi_hw \<Rightarrow> spi_st \<Rightarrow> spi_hw \<times> spi_st" where
  "cs_falling e h s = (snd (spi_dma_arm_rx (rx_arm e) h), spi_slave_cs_low s)"

definition stage_and_arm :: "(nat \<Rightarrow> bool) \<Rightarrow> spi_hw \<Rightarrow> spi_st \<Rightarrow> spi_hw \<times> spi_st" where
  "stage_and_arm held h s =
     (let (reply_len, s', buf) = fill_reply 0 s (spi_tx_dma_buf h)
      in (snd (spi_dma_arm_tx held reply_len (h\<lparr>spi_tx_dma_buf := buf\<rparr>)), s'))"

definition cs_rising :: "'h board \<Rightarrow> spi_env \<Rightarrow> spi_hw \<Rightarrow> spi_st \<Rightarrow> 'h fw \<Rightarrow> (spi_hw \<times> spi_st \<times> 'h fw) option" where
  "cs_rising bd e h s f =
     (let (rx_quiesced, h1) = spi_dma_disable_confirm (rx_quiesce e) SPI_RX_CH h;
          (tx_quiesced, h2) = spi_dma_disable_confirm (tx_quiesce e) SPI_TX_CH h1
      in if \<not> rx_quiesced \<or> \<not> tx_quiesced then Some (spi_flush h2, spi_slave_cs_low s, f)
         else
           let rx_overrun = rxorerr h2;
               (dma_error, h3) = spi_dma_error_consume h2
           in if dma_error \<or> rx_overrun
              then do {
                s1 \<leftarrow> spi_slave_transport_error f s;
                let (reply_len, s2, buf) = fill_reply 0 s1 (spi_tx_dma_buf h3);
                let h4 = snd (spi_dma_arm_rx (rx_arm e) ((spi_flush h3)\<lparr>spi_tx_dma_buf := buf\<rparr>));
                Some (snd (spi_dma_arm_tx (tx_arm e) reply_len h4), s2, f) }
              else
                let remaining = chcnt (rx_ch h3);
                    (received, h4) = drain_fifo 0 (if remaining \<le> BRIDGE_SPI_DMA_BUF_LEN then BRIDGE_SPI_DMA_BUF_LEN - remaining else 0) h3;
                    h5 = spi_flush h4;
                    s1 = fold spi_slave_rx_byte (take received (spi_rx_dma_buf h5)) (spi_slave_cs_low s);
                    h6 = snd (spi_dma_arm_rx (rx_arm e) h5)
                in do {
                  (s2, f') \<leftarrow> spi_slave_cs_high bd s1 f;
                  let (h7, s3) = stage_and_arm (tx_arm e) (meanwhile e h6) s2;
                  Some (h7, s3, f') })"

text \<open>The interrupt: lines 5 to 9 share it, and every line pending at entry is cleared at the end.\<close>

definition BRIDGE_SPI_CS_EXTI_HANDLER ::
  "'h board \<Rightarrow> spi_env \<Rightarrow> bool \<Rightarrow> spi_hw \<times> spi_st \<times> 'h fw \<Rightarrow> (spi_hw \<times> spi_st \<times> 'h fw) option" where
  "BRIDGE_SPI_CS_EXTI_HANDLER bd e nss_low = (\<lambda>(h, s, f).
     let group_pd = exti_pd0 h AND EXTI_5_9
     in do {
       (h', s', f') \<leftarrow>
         (if group_pd AND push_bit 8 1 = 0 then Some (h, s, f)
          else if nss_low then (let (h', s') = cs_falling e h s in Some (h', s', f))
          else cs_rising bd e h s f);
       Some (h'\<lparr>exti_pd0 := exti_pd0 h' AND NOT group_pd\<rparr>, s', f') })"

definition bridge_transport_spi_hw_init :: "(nat \<Rightarrow> bool) \<Rightarrow> spi_hw \<Rightarrow> spi_hw" where
  "bridge_transport_spi_hw_init held h =
     (let h1 = h\<lparr>spi_dma_rx_error_count := 0, spi_dma_tx_error_count := 0, spi_dma_error_pending := False,
                 spi_dma_rx_arm_fail_count := 0, spi_dma_tx_arm_fail_count := 0\<rparr>;
          h2 = h1\<lparr>rx_ch := \<lparr>chen = False, chcnt = BRIDGE_SPI_DMA_BUF_LEN, maddr = 0, errif = False\<rparr>,
                  tx_ch := \<lparr>chen = False, chcnt = 0, maddr = 0, errif = False\<rparr>\<rparr>;
          h3 = snd (spi_dma_arm_rx held h2)
      in h3\<lparr>exti_pd0 := exti_pd0 h3 AND NOT (push_bit 8 1)\<rparr>)"

section \<open>The bus\<close>

text \<open>The host clocks \<open>bs\<close> through the controller: the enabled receive channel stores all but the last \<open>lag\<close> bytes it has
  room for, the rest stays in the FIFO, four bytes deep; the enabled transmit channel supplies the bytes read.\<close>

definition clocked_in :: "nat \<Rightarrow> bytes \<Rightarrow> spi_hw \<Rightarrow> spi_hw" where
  "clocked_in lag bs h =
     (let ch = rx_ch h; moved = (if chen ch then min (chcnt ch) (length bs - lag) else 0); rest = rx_fifo h @ drop moved bs
      in h\<lparr>spi_rx_dma_buf := take (maddr ch) (spi_rx_dma_buf h) @ take moved bs @ drop (maddr ch + moved) (spi_rx_dma_buf h),
           rx_ch := ch\<lparr>chcnt := chcnt ch - moved, maddr := maddr ch + moved\<rparr>,
           rx_fifo := take BRIDGE_SPI_RX_FIFO_FRAMES rest,
           rxorerr := (rxorerr h \<or> length rest > BRIDGE_SPI_RX_FIFO_FRAMES)\<rparr>)"

definition clocked_out :: "nat \<Rightarrow> spi_hw \<Rightarrow> bytes \<times> spi_hw" where
  "clocked_out n h =
     (let ch = tx_ch h; moved = (if chen ch then min (chcnt ch) n else 0)
      in (take moved (drop (maddr ch) (spi_tx_dma_buf h)), h\<lparr>tx_ch := ch\<lparr>chcnt := chcnt ch - moved, maddr := maddr ch + moved\<rparr>\<rparr>))"

text \<open>A transaction on the bus: select, full-duplex transfer, release; each edge marks line 8 pending.\<close>

definition edge :: "spi_hw \<Rightarrow> spi_hw" where
  "edge h = h\<lparr>exti_pd0 := exti_pd0 h OR push_bit 8 1\<rparr>"

fun bus_session ::
  "'h board \<Rightarrow> spi_env \<Rightarrow> (bool \<times> nat \<times> bytes) list \<Rightarrow> spi_hw \<times> spi_st \<times> 'h fw \<Rightarrow> (bytes list \<times> spi_hw \<times> spi_st \<times> 'h fw) option" where
  "bus_session bd e [] st = Some ([], st)"
| "bus_session bd e ((select_seen, lag, bs) # ts) (h, s, f) = do {
     (h1, s1, f1) \<leftarrow> (if select_seen then BRIDGE_SPI_CS_EXTI_HANDLER bd e True (edge h, s, f) else Some (h, s, f));
     let (read, h2) = clocked_out (length bs) (clocked_in lag bs h1);
     st3 \<leftarrow> BRIDGE_SPI_CS_EXTI_HANDLER bd e False (edge h2, s1, f1);
     (reads, st4) \<leftarrow> bus_session bd e ts st3;
     Some (read # reads, st4) }"

section \<open>Loops\<close>

lemma drain_fifo_eq:
  fixes frame :: nat
  assumes "length (spi_rx_dma_buf h) = 72" "received \<le> 72"
  defines "k \<equiv> min (min (4 - frame) (72 - received)) (length (rx_fifo h))"
  shows "drain_fifo frame received h = (received + k,
    h\<lparr>spi_rx_dma_buf := take received (spi_rx_dma_buf h) @ take k (rx_fifo h) @ drop (received + k) (spi_rx_dma_buf h),
      rx_fifo := drop k (rx_fifo h)\<rparr>)"
  using assms(1,2) unfolding k_def
proof (induction frame received h rule: drain_fifo.induct)
  case (1 frame received h)
  show ?case
  proof (cases "frame < 4 \<and> received < 72 \<and> rx_fifo h \<noteq> []")
    case True
    then obtain b bs where f: "rx_fifo h = b # bs" by (cases "rx_fifo h") auto
    define m where "m = min (min (3 - frame) (71 - received)) (length bs)"
    have k: "min (min (4 - frame) (72 - received)) (length (rx_fifo h)) = Suc m"
      "min (min (4 - (frame + 1)) (72 - (received + 1))) (length bs) = m"
      using True by (auto simp: f m_def min_def)
    let ?h = "h\<lparr>spi_rx_dma_buf := (spi_rx_dma_buf h)[received := b], rx_fifo := bs\<rparr>"
    have "drain_fifo frame received h = drain_fifo (frame + 1) (received + 1) ?h"
      using True f by (simp add: drain_fifo.simps [of frame])
    also have "\<dots> = (received + Suc m, h\<lparr>spi_rx_dma_buf := take (received + 1) ((spi_rx_dma_buf h)[received := b]) @ take m bs @
        drop (received + Suc m) ((spi_rx_dma_buf h)[received := b]), rx_fifo := drop m bs\<rparr>)"
      using "1.IH" [OF True] True "1.prems" f k(2) by simp
    also have "take (received + 1) ((spi_rx_dma_buf h)[received := b]) = take received (spi_rx_dma_buf h) @ [b]"
      using True "1.prems"(1) by (simp add: take_Suc_conv_app_nth)
    finally show ?thesis using True f k(1) by simp
  next
    case False
    have "drain_fifo frame received h = (received, h)"
      unfolding drain_fifo.simps [of frame received h] using False by (rule if_not_P)
    moreover have "min (min (4 - frame) (72 - received)) (length (rx_fifo h)) = 0" using False by auto
    ultimately show ?thesis using "1.prems" by simp
  qed
qed

text \<open>What staging needs of the portable state: the cursor is inside the reply and the reply is a frame.\<close>

definition tx_ok :: "spi_st \<Rightarrow> bool" where
  "tx_ok s \<longleftrightarrow> spi_tx_cursor s \<le> length (spi_tx s) \<and> length (spi_tx s) \<le> SPI_MAX_FRAME_BYTES"

lemma fill_reply_eq:
  assumes "spi_tx_cursor s \<le> length (spi_tx s)" "length buf = 72" "n + (length (spi_tx s) - spi_tx_cursor s) \<le> 72"
  defines "rest \<equiv> drop (spi_tx_cursor s) (spi_tx s)"
  shows "fill_reply n s buf = (n + length rest, s\<lparr>spi_tx_cursor := length (spi_tx s)\<rparr>,
    take n buf @ rest @ drop (n + length rest) buf)"
  using assms(1-3) unfolding rest_def
proof (induction n s buf rule: fill_reply.induct)
  case (1 n s buf)
  show ?case
  proof (cases "spi_tx_cursor s < length (spi_tx s)")
    case True
    let ?s = "s\<lparr>spi_tx_cursor := spi_tx_cursor s + 1\<rparr>" and ?b = "spi_tx s ! spi_tx_cursor s"
    have p: "spi_slave_tx_pending s \<and> n < 72" and b: "spi_slave_tx_next_byte s = (?b, ?s)"
      using True "1.prems" by (simp_all add: spi_slave_tx_pending_def spi_slave_tx_next_byte_def)
    have "fill_reply n s buf = fill_reply (n + 1) ?s (buf[n := ?b])"
      using p b by (simp add: fill_reply.simps [of n])
    also have "\<dots> = (n + 1 + length (drop (spi_tx_cursor s + 1) (spi_tx s)), s\<lparr>spi_tx_cursor := length (spi_tx s)\<rparr>,
        take (n + 1) (buf[n := ?b]) @ drop (spi_tx_cursor s + 1) (spi_tx s) @
        drop (n + 1 + length (drop (spi_tx_cursor s + 1) (spi_tx s))) (buf[n := ?b]))"
      using "1.IH" [OF p b [symmetric]] True "1.prems" by simp
    also have "take (n + 1) (buf[n := ?b]) = take n buf @ [?b]"
      using p "1.prems"(2) by (simp add: take_Suc_conv_app_nth)
    finally show ?thesis
      using True Cons_nth_drop_Suc [OF True, symmetric] by (simp add: Suc_diff_Suc)
  next
    case False
    then have "fill_reply n s buf = (n, s, buf)" by (simp add: fill_reply.simps [of n] spi_slave_tx_pending_def)
    then show ?thesis using False "1.prems" by simp
  qed
qed

text \<open>Transactions keep that, and the bytes past the frame limit do not matter.\<close>

lemma stage_tx_ok: "spi_stage_reply feats st pl s = Some s' \<Longrightarrow> tx_ok s'"
  by (auto simp: spi_stage_reply_def tx_ok_def bind_eq_Some_conv Let_def split: if_splits)

lemma fold_rx_shape: "\<exists>r. fold spi_slave_rx_byte bs t = t\<lparr>spi_rx := r\<rparr>"
proof (induction bs arbitrary: t)
  case Nil
  have "t = t\<lparr>spi_rx := spi_rx t\<rparr>" by simp
  then show ?case unfolding fold_simps id_apply by (rule exI)
next
  case (Cons b bs)
  obtain r where "fold spi_slave_rx_byte bs (spi_slave_rx_byte b t) = (spi_slave_rx_byte b t)\<lparr>spi_rx := r\<rparr>"
    using Cons by blast
  moreover have "(spi_slave_rx_byte b t)\<lparr>spi_rx := r\<rparr> = t\<lparr>spi_rx := r\<rparr>" for r
    by (simp add: spi_slave_rx_byte_def)
  ultimately show ?case by auto
qed

lemma transaction_tx_ok:
  assumes "spi_transaction bd bs s f = Some (s', f')" "tx_ok s"
  shows "tx_ok s'"
proof -
  obtain r where r: "decode_and_dispatch bd (s\<lparr>spi_rx := r\<rparr>) f = Some (s', f')"
    using assms(1) fold_rx_shape [of bs "spi_slave_cs_low s"]
    by (auto simp: spi_transaction_def spi_slave_cs_high_def spi_slave_cs_low_def)
  have t: "tx_ok (s\<lparr>spi_rx := r\<rparr>)" using assms(2) by (simp add: tx_ok_def)
  have d: "drain_rewind feats u = Some u' \<Longrightarrow> tx_ok u \<Longrightarrow> tx_ok u'" for feats u u'
    using stage_tx_ok by (auto simp: drain_rewind_def stage_error_reply_def Let_def tx_ok_def split: if_splits)
  show ?thesis
    using r t d stage_tx_ok unfolding decode_and_dispatch_def stage_error_reply_def Let_def
    by (auto simp: bind_eq_Some_conv split: if_splits prod.splits)
qed

lemma rx_byte_full: "length (spi_rx s) = 69 \<Longrightarrow> fold spi_slave_rx_byte bs s = s"
  by (induction bs) (simp_all add: spi_slave_rx_byte_def)

lemma transaction_take:
  assumes "69 \<le> n"
  shows "spi_transaction bd (take n bs) s f = spi_transaction bd bs s f"
proof (cases "length bs \<le> n")
  case False
  have "length (spi_rx (fold spi_slave_rx_byte (take n bs) (spi_slave_cs_low s))) = 69"
  proof -
    have "take n bs = take 69 bs @ take (n - 69) (drop 69 bs)" using assms by (metis le_add_diff_inverse take_add)
    moreover have "length (spi_rx (fold spi_slave_rx_byte (take 69 bs) (spi_slave_cs_low s))) = 69"
      using False assms by (simp add: spi_rx_fold spi_slave_cs_low_def)
    ultimately show ?thesis using rx_byte_full by simp
  qed
  then have "fold spi_slave_rx_byte (drop n bs) (fold spi_slave_rx_byte (take n bs) (spi_slave_cs_low s)) =
      fold spi_slave_rx_byte (take n bs) (spi_slave_cs_low s)" by (rule rx_byte_full)
  then show ?thesis unfolding spi_transaction_def by (metis append_take_drop_id fold_append comp_apply)
qed simp

section \<open>One interrupt\<close>

definition confirms :: "(nat \<Rightarrow> bool) \<Rightarrow> bool" where
  "confirms held \<longleftrightarrow> (\<exists>k < BRIDGE_SPI_DMA_DISABLE_SPINS. \<not> held k)"

lemma disable_confirm_eq:
  "spi_dma_disable_confirm held SPI_RX_CH h = (if \<not> chen (rx_ch h) \<or> confirms held
     then (True, h\<lparr>rx_ch := (rx_ch h)\<lparr>chen := False\<rparr>\<rparr>) else (False, h))"
  "spi_dma_disable_confirm held SPI_TX_CH h = (if \<not> chen (tx_ch h) \<or> confirms held
     then (True, h\<lparr>tx_ch := (tx_ch h)\<lparr>chen := False\<rparr>\<rparr>) else (False, h))"
proof -
  have l: "list_ex (\<lambda>k. \<not> (c \<and> held k)) [0..<64] \<longleftrightarrow> \<not> c \<or> confirms held" for c
    by (auto simp: list_ex_iff confirms_def intro: bexI [of _ 0])
  show "spi_dma_disable_confirm held SPI_RX_CH h = (if \<not> chen (rx_ch h) \<or> confirms held
     then (True, h\<lparr>rx_ch := (rx_ch h)\<lparr>chen := False\<rparr>\<rparr>) else (False, h))"
    "spi_dma_disable_confirm held SPI_TX_CH h = (if \<not> chen (tx_ch h) \<or> confirms held
     then (True, h\<lparr>tx_ch := (tx_ch h)\<lparr>chen := False\<rparr>\<rparr>) else (False, h))"
    by (simp_all only: spi_dma_disable_confirm.simps l)
qed

declare spi_dma_disable_confirm.simps [simp del]

text \<open>An environment in which every disable is confirmed.\<close>

definition env_confirms :: "spi_env \<Rightarrow> bool" where
  "env_confirms e \<longleftrightarrow> confirms (rx_quiesce e) \<and> confirms (tx_quiesce e) \<and> confirms (rx_arm e) \<and> confirms (tx_arm e)"

text \<open>The buffers, no fault recorded, and a receive channel whose position and count agree.\<close>

definition hw_clean :: "spi_hw \<Rightarrow> bool" where
  "hw_clean h \<longleftrightarrow> length (spi_rx_dma_buf h) = 72 \<and> length (spi_tx_dma_buf h) = 72 \<and> \<not> errif (rx_ch h) \<and> \<not> errif (tx_ch h) \<and>
     \<not> rxorerr h \<and> \<not> spi_dma_error_pending h \<and> length (rx_fifo h) \<le> 4 \<and> chcnt (rx_ch h) \<le> 72 \<and>
     maddr (rx_ch h) + chcnt (rx_ch h) = 72"

text \<open>The bytes a rising edge decodes, and the channels after it.\<close>

definition captured :: "spi_hw \<Rightarrow> bytes" where
  "captured h = take 72 (take (maddr (rx_ch h)) (spi_rx_dma_buf h) @ rx_fifo h)"

definition rx_armed :: "spi_hw \<Rightarrow> bool" where
  "rx_armed h \<longleftrightarrow> rx_ch h = \<lparr>chen = True, chcnt = 72, maddr = 0, errif = False\<rparr> \<and> rx_fifo h = []"

definition tx_holds :: "bytes \<Rightarrow> spi_hw \<Rightarrow> bool" where
  "tx_holds out h \<longleftrightarrow> (if out = [] then \<not> chen (tx_ch h)
     else chen (tx_ch h) \<and> chcnt (tx_ch h) = length out \<and> maddr (tx_ch h) = 0 \<and> take (length out) (spi_tx_dma_buf h) = out)"

lemma consume_clean: "hw_clean h \<Longrightarrow> spi_dma_error_consume h = (False, h)"
  by (simp add: hw_clean_def spi_dma_error_consume_def Let_def)

lemma arm_rx_confirmed:
  assumes "confirms held"
  shows "spi_dma_arm_rx held h = (True, h\<lparr>rx_ch := (rx_ch h)\<lparr>maddr := 0, chcnt := 72, chen := True\<rparr>\<rparr>)"
  using assms by (simp add: spi_dma_arm_rx_def disable_confirm_eq)

lemma stage_and_arm_holds:
  assumes "confirms held" "tx_ok s" "length (spi_tx_dma_buf h) = 72"
  defines "out \<equiv> fst (spi_drain s)"
  shows "\<exists>h'. stage_and_arm held h s = (h', snd (spi_drain s)) \<and> tx_holds out h' \<and> length (spi_tx_dma_buf h') = 72 \<and>
    rx_ch h' = rx_ch h \<and> rx_fifo h' = rx_fifo h \<and> rxorerr h' = rxorerr h \<and> exti_pd0 h' = exti_pd0 h \<and>
    spi_rx_dma_buf h' = spi_rx_dma_buf h \<and> spi_dma_error_pending h' = spi_dma_error_pending h \<and> errif (tx_ch h') = errif (tx_ch h)"
proof -
  have c: "spi_tx_cursor s \<le> length (spi_tx s)" "length (spi_tx s) \<le> 69" using assms(2) by (simp_all add: tx_ok_def)
  have d: "spi_drain s = (drop (spi_tx_cursor s) (spi_tx s), s\<lparr>spi_tx_cursor := length (spi_tx s)\<rparr>)"
    by (rule spi_drain_eq [OF c(1)])
  have f: "fill_reply 0 s (spi_tx_dma_buf h) = (length out, snd (spi_drain s), out @ drop (length out) (spi_tx_dma_buf h))"
    using fill_reply_eq [OF c(1) assms(3), of 0] c by (simp add: out_def d)
  show ?thesis
    using assms(1,3) c unfolding stage_and_arm_def f
    by (auto simp: spi_dma_arm_tx_def disable_confirm_eq tx_holds_def out_def d)
qed

lemma cs_rising_clean:
  assumes "env_confirms e" "hw_clean h"
  defines "h5 \<equiv> h\<lparr>rx_ch := \<lparr>chen = True, chcnt = 72, maddr = 0, errif = False\<rparr>, tx_ch := (tx_ch h)\<lparr>chen := False\<rparr>, rx_fifo := [],
      rxorerr := False, spi_rx_dma_buf := captured h @ drop (length (captured h)) (spi_rx_dma_buf h)\<rparr>"
  shows "cs_rising bd e h s f = do {
    (s2, f') \<leftarrow> spi_transaction bd (captured h) s f;
    let (h7, s3) = stage_and_arm (tx_arm e) (meanwhile e h5) s2;
    Some (h7, s3, f') }"
proof -
  let ?h = "h\<lparr>rx_ch := (rx_ch h)\<lparr>chen := False\<rparr>, tx_ch := (tx_ch h)\<lparr>chen := False\<rparr>\<rparr>"
  let ?n = "maddr (rx_ch h)"
  define k where "k = min (min 4 (72 - ?n)) (length (rx_fifo h))"
  have conf: "confirms (rx_quiesce e)" "confirms (tx_quiesce e)" "confirms (rx_arm e)" "confirms (tx_arm e)"
    using assms(1) by (simp_all add: env_confirms_def)
  have cl: "hw_clean ?h" using assms(2) by (simp add: hw_clean_def)
  have n: "72 - chcnt (rx_ch h) = ?n" "?n \<le> 72" "length (rx_fifo h) \<le> 4" "length (spi_rx_dma_buf h) = 72" "chcnt (rx_ch h) \<le> 72"
    using assms(2) by (auto simp: hw_clean_def)
  have cap: "captured h = take ?n (spi_rx_dma_buf h) @ take k (rx_fifo h)" "length (captured h) = ?n + k"
    using n by (auto simp: captured_def k_def min_def)
  have dr: "drain_fifo 0 ?n ?h = (?n + k, ?h\<lparr>spi_rx_dma_buf := captured h @ drop (?n + k) (spi_rx_dma_buf h), rx_fifo := drop k (rx_fifo h)\<rparr>)"
    using drain_fifo_eq [of ?h ?n 0] n cap(1) by (simp add: k_def)
  have rx: "(rx_ch h)\<lparr>maddr := 0, chcnt := 72, chen := True\<rparr> = \<lparr>chen = True, chcnt = 72, maddr = 0, errif = False\<rparr>"
    using assms(2) by (cases "rx_ch h") (simp add: hw_clean_def)
  have h5: "snd (spi_dma_arm_rx (rx_arm e) (spi_flush (snd (drain_fifo 0 ?n ?h)))) = h5"
    using rx cap(2) unfolding dr arm_rx_confirmed [OF conf(3)] by (intro spi_hw.equality) (simp_all add: h5_def spi_flush_def)
  have q: "spi_dma_disable_confirm (rx_quiesce e) SPI_RX_CH h = (True, h\<lparr>rx_ch := (rx_ch h)\<lparr>chen := False\<rparr>\<rparr>)"
    "spi_dma_disable_confirm (tx_quiesce e) SPI_TX_CH (h\<lparr>rx_ch := (rx_ch h)\<lparr>chen := False\<rparr>\<rparr>) = (True, ?h)"
    using conf by (simp_all add: disable_confirm_eq)
  have tk: "take (?n + k) (captured h @ drop (?n + k) (spi_rx_dma_buf h)) = captured h" using cap(2) by simp
  show ?thesis
    unfolding cs_rising_def q Let_def prod.case consume_clean [OF cl]
    using cl n h5 tk dr
    by (simp add: hw_clean_def spi_transaction_def spi_flush_def)
qed

text \<open>The state between transactions: clean, receiving into an empty window, a reply ready.\<close>

definition bus_ready :: "bytes \<Rightarrow> spi_hw \<Rightarrow> spi_st \<Rightarrow> bool" where
  "bus_ready out h s \<longleftrightarrow> hw_clean h \<and> rx_armed h \<and> tx_holds out h \<and> tx_ok s"

lemma edge_pending: "(exti_pd0 (edge h) AND EXTI_5_9) AND push_bit 8 1 \<noteq> 0"
proof
  assume z: "(exti_pd0 (edge h) AND EXTI_5_9) AND push_bit 8 1 = 0"
  have "bit ((exti_pd0 (edge h) AND EXTI_5_9) AND push_bit 8 1) 8" by (simp add: edge_def bit_simps bit_numeral_rec)
  then show False unfolding z by simp
qed

lemma edge_unclean [simp]: "hw_clean (edge h) = hw_clean h" "captured (edge h) = captured h" "rx_armed (edge h) = rx_armed h"
  "tx_holds out (edge h) = tx_holds out h" "tx_ch (edge h) = tx_ch h" "rx_ch (edge h) = rx_ch h" "rx_fifo (edge h) = rx_fifo h"
  "spi_rx_dma_buf (edge h) = spi_rx_dma_buf h" "spi_tx_dma_buf (edge h) = spi_tx_dma_buf h"
  by (simp_all add: edge_def hw_clean_def captured_def rx_armed_def tx_holds_def)

lemma select_step:
  assumes "env_confirms e" "bus_ready out h s"
  shows "\<exists>h'. BRIDGE_SPI_CS_EXTI_HANDLER bd e True (edge h, s, f) = Some (h', spi_slave_cs_low s, f) \<and> bus_ready out h' (spi_slave_cs_low s)"
proof -
  have "spi_dma_arm_rx (rx_arm e) (edge h) = (True, edge h)"
    using assms by (simp add: arm_rx_confirmed env_confirms_def bus_ready_def rx_armed_def edge_def)
  then have "cs_falling e (edge h) s = (edge h, spi_slave_cs_low s)" by (simp add: cs_falling_def)
  then have "BRIDGE_SPI_CS_EXTI_HANDLER bd e True (edge h, s, f) =
      Some ((edge h)\<lparr>exti_pd0 := exti_pd0 (edge h) AND NOT (exti_pd0 (edge h) AND EXTI_5_9)\<rparr>, spi_slave_cs_low s, f)"
    using edge_pending [of h] by (simp add: BRIDGE_SPI_CS_EXTI_HANDLER_def Let_def del: push_bit_of_1)
  then show ?thesis
    using assms(2)
    by (auto simp: bus_ready_def hw_clean_def rx_armed_def tx_holds_def tx_ok_def spi_slave_cs_low_def edge_def)
qed

lemma clocked_in_captured:
  assumes "hw_clean h" "rx_armed h" "lag \<le> 4" "length bs \<le> 76"
  shows "hw_clean (clocked_in lag bs h)" "captured (clocked_in lag bs h) = take 72 bs"
proof -
  have r: "rx_ch h = \<lparr>chen = True, chcnt = 72, maddr = 0, errif = False\<rparr>" "rx_fifo h = []" "length (spi_rx_dma_buf h) = 72"
    using assms(1,2) by (simp_all add: rx_armed_def hw_clean_def)
  define moved where "moved = min 72 (length bs - lag)"
  have m: "moved \<le> 72" "moved \<le> length bs" "length bs - moved \<le> 4" using assms(3,4) by (auto simp: moved_def)
  show "hw_clean (clocked_in lag bs h)" "captured (clocked_in lag bs h) = take 72 bs"
    using assms(1) r m unfolding hw_clean_def captured_def clocked_in_def Let_def moved_def [symmetric]
    by (simp_all add: moved_def [symmetric])
qed

lemma clocked_captured:
  assumes "bus_ready out h s" "lag \<le> 4" "length bs \<le> 76"
  defines "x \<equiv> clocked_out (length bs) (clocked_in lag bs h)"
  shows "hw_clean (snd x)" "captured (snd x) = take 72 bs" "fst x = take (length bs) out"
proof -
  have "hw_clean h" "rx_armed h" using assms(1) by (simp_all add: bus_ready_def)
  note hw = clocked_in_captured [OF this assms(2,3)]
  show "hw_clean (snd x)" "captured (snd x) = take 72 bs"
    using hw by (simp_all add: x_def clocked_out_def Let_def hw_clean_def captured_def)
  have "tx_ch (clocked_in lag bs h) = tx_ch h" "spi_tx_dma_buf (clocked_in lag bs h) = spi_tx_dma_buf h"
    by (simp_all add: clocked_in_def Let_def)
  then show "fst x = take (length bs) out"
    using assms(1) unfolding x_def clocked_out_def Let_def
    by (auto simp: bus_ready_def tx_holds_def min_def split: if_splits) (metis take_all_iff take_take min.absorb_iff2 min_def nat_le_linear)+
qed

lemma cleared_lines: "(x AND NOT (x AND m)) AND m = 0" for x m :: u32
  by (rule bit_word_eqI) (auto simp: bit_simps)

lemma handler_rising:
  assumes "bit (exti_pd0 h) 8" "cs_rising bd e h s f = Some (h', s', f')"
  obtains p where "BRIDGE_SPI_CS_EXTI_HANDLER bd e False (h, s, f) = Some (h'\<lparr>exti_pd0 := p\<rparr>, s', f')"
    "exti_pd0 h' = exti_pd0 h \<Longrightarrow> p AND EXTI_5_9 = 0"
proof -
  have "(exti_pd0 h AND EXTI_5_9) AND push_bit 8 1 \<noteq> 0"
  proof
    assume z: "(exti_pd0 h AND EXTI_5_9) AND push_bit 8 1 = 0"
    have "bit ((exti_pd0 h AND EXTI_5_9) AND push_bit 8 1) 8" using assms(1) by (simp add: bit_simps bit_numeral_rec)
    then show False unfolding z by simp
  qed
  then have "BRIDGE_SPI_CS_EXTI_HANDLER bd e False (h, s, f) =
      Some (h'\<lparr>exti_pd0 := exti_pd0 h' AND NOT (exti_pd0 h AND EXTI_5_9)\<rparr>, s', f')"
    using assms(2) by (simp add: BRIDGE_SPI_CS_EXTI_HANDLER_def Let_def del: push_bit_of_1)
  then show thesis by (rule that) (metis cleared_lines)
qed

lemma release_general:
  assumes "env_confirms e" "hw_clean h" "spi_transaction bd (captured h) s f = Some (s1, f1)" "tx_ok s"
    "\<And>x. hw_clean x \<Longrightarrow> rx_armed x \<Longrightarrow> hw_clean (meanwhile e x)"
  shows "\<exists>h5 h'. BRIDGE_SPI_CS_EXTI_HANDLER bd e False (edge h, s, f) = Some (h', snd (spi_drain s1), f1) \<and>
    hw_clean h5 \<and> rx_armed h5 \<and> hw_clean h' \<and> tx_holds (fst (spi_drain s1)) h' \<and> tx_ok (snd (spi_drain s1)) \<and>
    rx_ch h' = rx_ch (meanwhile e h5) \<and> rx_fifo h' = rx_fifo (meanwhile e h5) \<and> captured h' = captured (meanwhile e h5)"
proof -
  have t: "tx_ok s1" using transaction_tx_ok assms(3,4) by blast
  then have t2: "tx_ok (snd (spi_drain s1))" by (simp add: tx_ok_def spi_drain_eq)
  define h5 where "h5 = (edge h)\<lparr>rx_ch := \<lparr>chen = True, chcnt = 72, maddr = 0, errif = False\<rparr>, tx_ch := (tx_ch h)\<lparr>chen := False\<rparr>, rx_fifo := [],
      rxorerr := False, spi_rx_dma_buf := captured h @ drop (length (captured h)) (spi_rx_dma_buf h)\<rparr>"
  have c5: "hw_clean h5" "rx_armed h5"
    using assms(2) by (auto simp: h5_def hw_clean_def rx_armed_def edge_def captured_def)
  obtain h7 where h7: "stage_and_arm (tx_arm e) (meanwhile e h5) s1 = (h7, snd (spi_drain s1))" "tx_holds (fst (spi_drain s1)) h7"
    "hw_clean h7" "rx_ch h7 = rx_ch (meanwhile e h5)" "rx_fifo h7 = rx_fifo (meanwhile e h5)" "captured h7 = captured (meanwhile e h5)"
    using stage_and_arm_holds [of "tx_arm e" s1 "meanwhile e h5"] assms(1) assms(5) [OF c5] t
    by (auto simp: env_confirms_def hw_clean_def captured_def)
  have r: "cs_rising bd e (edge h) s f = Some (h7, snd (spi_drain s1), f1)"
    using cs_rising_clean [OF assms(1), of "edge h" bd s f] assms(2,3) h7(1) by (simp add: h5_def)
  have e: "bit (exti_pd0 (edge h)) 8" by (simp add: edge_def bit_simps)
  obtain p where "BRIDGE_SPI_CS_EXTI_HANDLER bd e False (edge h, s, f) = Some (h7\<lparr>exti_pd0 := p\<rparr>, snd (spi_drain s1), f1)"
    using handler_rising [OF e r] by blast
  then show ?thesis
    using h7(2-6) t2 c5 by (auto simp: hw_clean_def tx_holds_def captured_def)
qed

lemma release_step:
  assumes "env_confirms e" "meanwhile e = id" "hw_clean h" "spi_transaction bd (captured h) s f = Some (s1, f1)" "tx_ok s"
  shows "\<exists>h'. BRIDGE_SPI_CS_EXTI_HANDLER bd e False (edge h, s, f) = Some (h', snd (spi_drain s1), f1) \<and>
    bus_ready (fst (spi_drain s1)) h' (snd (spi_drain s1))"
  using release_general [OF assms(1,3-5)] assms(2) by (auto simp: bus_ready_def rx_armed_def)

lemma bus_step:
  assumes "env_confirms e" "meanwhile e = id" "bus_ready out h s" "lag \<le> 4" "length bs \<le> 76"
    "spi_transaction bd bs s f = Some (s1, f1)"
  shows "\<exists>h'. bus_session bd e ((seen, lag, bs) # ts) (h, s, f) =
      do { (reads, st) \<leftarrow> bus_session bd e ts (h', snd (spi_drain s1), f1); Some (take (length bs) out # reads, st) } \<and>
    bus_ready (fst (spi_drain s1)) h' (snd (spi_drain s1))"
proof -
  obtain h1 s0 where sel: "(if seen then BRIDGE_SPI_CS_EXTI_HANDLER bd e True (edge h, s, f) else Some (h, s, f)) = Some (h1, s0, f)"
    "bus_ready out h1 s0" "s0 = s \<or> s0 = spi_slave_cs_low s"
    using select_step [OF assms(1,3), of bd f] assms(3) by (cases seen) auto
  obtain h2 where x: "clocked_out (length bs) (clocked_in lag bs h1) = (take (length bs) out, h2)" "hw_clean h2" "captured h2 = take 72 bs"
    using clocked_captured [OF sel(2) assms(4,5)] by (metis prod.collapse)
  have "spi_transaction bd (captured h2) s0 f = Some (s1, f1)"
    using sel(3) assms(6) x(3) transaction_take [of 72 bd bs s f] transaction_take [of 72 bd bs "spi_slave_cs_low s" f]
    by (auto simp: spi_transaction_def spi_slave_cs_low_def)
  from release_step [OF assms(1,2) x(2) this] sel(2) obtain h' where
    "BRIDGE_SPI_CS_EXTI_HANDLER bd e False (edge h2, s0, f) = Some (h', snd (spi_drain s1), f1)"
    "bus_ready (fst (spi_drain s1)) h' (snd (spi_drain s1))" by (auto simp: bus_ready_def)
  then show ?thesis using sel(1) x(1) by auto
qed

lemma init_ready:
  assumes "confirms held" "length (spi_rx_dma_buf h) = 72" "length (spi_tx_dma_buf h) = 72" "rx_fifo h = []" "\<not> rxorerr h"
  shows "bus_ready [] (bridge_transport_spi_hw_init held h) transport_spi_init"
  using assms arm_rx_confirmed [OF assms(1)]
  by (simp add: bridge_transport_spi_hw_init_def Let_def bus_ready_def hw_clean_def rx_armed_def tx_holds_def tx_ok_def
      transport_spi_init_def)

section \<open>Faults\<close>

lemma latch_error_fields:
  "rxorerr (spi_dma_latch_error c h) = rxorerr h" "spi_tx_dma_buf (spi_dma_latch_error c h) = spi_tx_dma_buf h"
  "exti_pd0 (spi_dma_latch_error c h) = exti_pd0 h" "chen (rx_ch (spi_dma_latch_error c h)) = chen (rx_ch h)"
  "chen (tx_ch (spi_dma_latch_error c h)) = chen (tx_ch h)"
  by (cases c; simp)+

lemma consume_fields:
  assumes "spi_dma_error_consume h = (err, h')"
  shows "err = (errif (rx_ch h) \<or> errif (tx_ch h) \<or> spi_dma_error_pending h)" "\<not> errif (rx_ch h')" "\<not> errif (tx_ch h')"
    "\<not> spi_dma_error_pending h'" "rxorerr h' = rxorerr h" "spi_tx_dma_buf h' = spi_tx_dma_buf h" "exti_pd0 h' = exti_pd0 h"
    "chen (rx_ch h') = chen (rx_ch h)" "chen (tx_ch h') = chen (tx_ch h)"
  using assms by (auto simp: spi_dma_error_consume_def Let_def split: if_splits)

lemma spi_frame_nonempty: "spi_frame tag payload \<noteq> []"
  by (simp add: spi_frame_def crc_frame_def)

lemma fault_reply:
  fixes s :: spi_st
  assumes "length (link_features f) = 2" "length (spi_tx_dma_buf h) = 72"
  defines "frame \<equiv> spi_frame (wire_status f s STATUS_IO) []"
  obtains s1 s2 where "spi_slave_transport_error f s = Some s1"
    "fill_reply 0 s1 (spi_tx_dma_buf h) = (length frame, s2, frame @ drop (length frame) (spi_tx_dma_buf h))" "spi_tx s2 = frame"
    "tx_ok s2"
proof -
  have ws: "wire_status f (s\<lparr>spi_rx := []\<rparr>) STATUS_IO = wire_status f s STATUS_IO" by (simp add: wire_status_def next_seq_def)
  have e: "spi_slave_transport_error f s = Some (error_staged f (s\<lparr>spi_rx := []\<rparr>))"
    using stage_error_eq [OF assms(1), of STATUS_IO "s\<lparr>spi_rx := []\<rparr>"] by (simp add: spi_slave_transport_error_def)
  let ?t = "error_staged f (s\<lparr>spi_rx := []\<rparr>)"
  have "fill_reply 0 ?t (spi_tx_dma_buf h) =
      (length frame, ?t\<lparr>spi_tx_cursor := length frame\<rparr>, frame @ drop (length frame) (spi_tx_dma_buf h))"
    using fill_reply_eq [of ?t "spi_tx_dma_buf h" 0] assms(2) ws by (simp add: frame_def)
  from that [OF e this] show thesis using ws by (simp add: frame_def tx_ok_def)
qed

text \<open>A controller out of reset, an environment without faults, and a demonstration session.\<close>

definition demo_hw :: spi_hw where
  "demo_hw = bridge_transport_spi_hw_init (\<lambda>_. False)
     \<lparr>rx_ch = \<lparr>chen = False, chcnt = 0, maddr = 0, errif = False\<rparr>, tx_ch = \<lparr>chen = False, chcnt = 0, maddr = 0, errif = False\<rparr>,
      rx_fifo = [], rxorerr = False, exti_pd0 = 0, spi_rx_dma_buf = replicate 72 0, spi_tx_dma_buf = replicate 72 0,
      spi_dma_rx_error_count = 0, spi_dma_tx_error_count = 0, spi_dma_error_pending = False, spi_dma_rx_arm_fail_count = 0,
      spi_dma_tx_arm_fail_count = 0\<rparr>"

abbreviation (input) quiet_env :: spi_env where
  "quiet_env \<equiv> \<lparr>rx_quiesce = \<lambda>_. False, tx_quiesce = \<lambda>_. False, rx_arm = \<lambda>_. False, tx_arm = \<lambda>_. False, meanwhile = id\<rparr>"

lemma demo_ready: "bus_ready [] demo_hw transport_spi_init"
  unfolding demo_hw_def by (rule init_ready) (auto simp: confirms_def intro: exI [of _ 0])

lemma quiet_confirms: "env_confirms (quiet_env\<lparr>meanwhile := m\<rparr>)" "env_confirms quiet_env"
  by (auto simp: env_confirms_def confirms_def intro: exI [of _ 0])

lemma demo_session:
  "\<exists>tag s'. spi_session demo_board [spi_frame 0x01 [], replicate 7 0] transport_spi_init demo_fw =
     Some ([spi_frame tag [0, 14, 1], spi_frame tag [0, 14, 1]], s', demo_fw)"
proof (rule session_request [OF demo_fw_inv, of "[]" "0x01" transport_spi_init])
  fix st rep f' s1
  assume d: "protocol_dispatch demo_board GD32_BRIDGE_LINK_SPI 0x01 [] GD32_BRIDGE_MAX_PAYLOAD_BYTES demo_fw = Some (st, rep, f')"
    and s: "spi_session demo_board [spi_frame 0x01 []] transport_spi_init demo_fw = Some ([spi_tx s1], s1, f')"
      "spi_tx s1 = spi_frame (wire_status f' transport_spi_init st) rep" "spi_tx_cursor s1 = length (spi_tx s1)" "spi_drain_streak s1 = 0"
      "length (link_features f') = 2"
  have r: "rep = [0, 14, 1]" "f' = demo_fw" using d demo_get_version by simp_all
  obtain s' where t: "spi_session demo_board [replicate 7 0] s1 f' = Some ([spi_tx s1], s', f')"
    using session_drains [OF s(5), of "[replicate 7 0]" s1 demo_board] s(3,4) by (auto simp del: spi_session.simps)
  have "spi_session demo_board ([spi_frame 0x01 []] @ [replicate 7 0]) transport_spi_init demo_fw = Some ([spi_tx s1, spi_tx s1], s', f')"
    using session_append [of demo_board "[spi_frame 0x01 []]" "[replicate 7 0]" transport_spi_init demo_fw] s(1) t
    by (simp del: spi_session.simps)
  then show ?thesis using s(2) r by (auto simp del: spi_session.simps)
qed simp

section \<open>Properties\<close>

text \<open>
  C8: The interrupt and DMA layer implements the portable framing.  From a ready controller, for any sequence of
  transactions of at most 76 bytes, whether or not their select edge is seen and however many of the last bytes are still
  in the FIFO when the release edge arrives, the framing state and the firmware go through exactly the transactions of
  \<open>spi_session\<close>, the host reads in each transaction as much as it clocks of the reply to the one before, and the
  controller is ready again.
\<close>

theorem spi_bus_refines:
  assumes "env_confirms e" "meanwhile e = id" "bus_ready out h s"
    and "\<forall>(seen, lag, bs) \<in> set ts. lag \<le> BRIDGE_SPI_RX_FIFO_FRAMES \<and> length bs \<le> BRIDGE_SPI_DMA_BUF_LEN + BRIDGE_SPI_RX_FIFO_FRAMES"
    and "spi_session bd (map (\<lambda>(seen, lag, bs). bs) ts) s f = Some (outs, s', f')"
  shows "\<exists>h'. bus_session bd e ts (h, s, f) =
      Some (map (\<lambda>((seen, lag, bs), reply). take (length bs) reply) (zip ts (out # outs)), h', s', f') \<and>
    bus_ready (last (out # outs)) h' s'"
  using assms(3-5)
proof (induction ts arbitrary: out h s f outs)
  case (Cons t ts)
  obtain seen lag bs where t: "t = (seen, lag, bs)" by (cases t)
  obtain s1 f1 outs1 where u: "spi_transaction bd bs s f = Some (s1, f1)"
    "spi_session bd (map (\<lambda>(seen, lag, bs). bs) ts) (snd (spi_drain s1)) f1 = Some (outs1, s', f')" "outs = fst (spi_drain s1) # outs1"
    using Cons.prems(3) by (auto simp: t bind_eq_Some_conv Let_def case_prod_unfold)
  obtain h1 where b: "bus_session bd e ((seen, lag, bs) # ts) (h, s, f) =
      do { (reads, st) \<leftarrow> bus_session bd e ts (h1, snd (spi_drain s1), f1); Some (take (length bs) out # reads, st) }"
    "bus_ready (fst (spi_drain s1)) h1 (snd (spi_drain s1))"
    using bus_step [OF assms(1,2) Cons.prems(1) _ _ u(1), of lag seen ts] Cons.prems(2) by (auto simp: t)
  from Cons.IH [OF b(2) _ u(2)] Cons.prems(2) obtain h' where
    "bus_session bd e ts (h1, snd (spi_drain s1), f1) =
      Some (map (\<lambda>((seen, lag, bs), reply). take (length bs) reply) (zip ts (fst (spi_drain s1) # outs1)), h', s', f')"
    "bus_ready (last (fst (spi_drain s1) # outs1)) h' s'" by auto
  then show ?case using b(1) u(3) by (simp add: t)
qed auto

theorem spi_bus_refines_witness:
  "\<exists>tag h' s'. bus_session demo_board quiet_env [(True, 3, spi_frame 0x01 []), (False, 0, replicate 7 0)] (demo_hw, transport_spi_init, demo_fw) =
     Some ([[], spi_frame tag [0, 14, 1]], h', s', demo_fw)"
proof -
  obtain tag s' where "spi_session demo_board [spi_frame 0x01 [], replicate 7 0] transport_spi_init demo_fw =
     Some ([spi_frame tag [0, 14, 1], spi_frame tag [0, 14, 1]], s', demo_fw)" using demo_session by blast
  then show ?thesis
    using spi_bus_refines [OF quiet_confirms(2) _ demo_ready, of "[(True, 3, spi_frame 0x01 []), (False, 0, replicate 7 0)]" demo_board demo_fw]
    by (auto simp del: spi_session.simps bus_session.simps)
qed

text \<open>
  C27: A transport fault never reaches a command.  If on a release edge a channel cannot be stopped, either channel has a
  pending error, an earlier arm failed, or the controller overran, the handler returns with the firmware untouched and
  no line of its group pending.  When the channels were stopped, it stages the \<open>STATUS_IO\<close> frame, consumes every recorded
  fault, and leaves the receiver open and exactly that frame ready to be read.
\<close>

theorem spi_bus_fault_contained:
  fixes e :: spi_env
  assumes "bit (exti_pd0 h) 8" "length (link_features f) = GD32_BRIDGE_LINK_COUNT" "length (spi_tx_dma_buf h) = BRIDGE_SPI_DMA_BUF_LEN"
  defines "stopped \<equiv> (\<not> chen (rx_ch h) \<or> confirms (rx_quiesce e)) \<and> (\<not> chen (tx_ch h) \<or> confirms (tx_quiesce e))"
  assumes "\<not> stopped \<or> errif (rx_ch h) \<or> errif (tx_ch h) \<or> spi_dma_error_pending h \<or> rxorerr h"
  shows "\<exists>h' s'. BRIDGE_SPI_CS_EXTI_HANDLER bd e False (h, s, f) = Some (h', s', f) \<and> exti_pd0 h' AND EXTI_5_9 = 0 \<and> rx_fifo h' = [] \<and>
    \<not> rxorerr h' \<and>
    (stopped \<longrightarrow> spi_tx s' = spi_frame (wire_status f s STATUS_IO) [] \<and> \<not> errif (rx_ch h') \<and> \<not> errif (tx_ch h') \<and>
       \<not> spi_dma_error_pending h' \<and> tx_holds (spi_tx s') h' \<and> rx_armed h')"
proof (cases stopped)
  case False
  let ?h = "snd (spi_dma_disable_confirm (tx_quiesce e) SPI_TX_CH (snd (spi_dma_disable_confirm (rx_quiesce e) SPI_RX_CH h)))"
  have "cs_rising bd e h s f = Some (spi_flush ?h, spi_slave_cs_low s, f)"
    using False by (auto simp: cs_rising_def stopped_def disable_confirm_eq)
  moreover have "exti_pd0 ?h = exti_pd0 h" by (simp add: disable_confirm_eq)
  ultimately obtain p where "BRIDGE_SPI_CS_EXTI_HANDLER bd e False (h, s, f) = Some ((spi_flush ?h)\<lparr>exti_pd0 := p\<rparr>, spi_slave_cs_low s, f)"
    "p AND EXTI_5_9 = 0" by (auto simp: spi_flush_def elim!: handler_rising [OF assms(1)])
  then show ?thesis using False by (simp add: spi_flush_def)
next
  case True
  let ?h = "h\<lparr>rx_ch := (rx_ch h)\<lparr>chen := False\<rparr>, tx_ch := (tx_ch h)\<lparr>chen := False\<rparr>\<rparr>"
  obtain err h3 where c: "spi_dma_error_consume ?h = (err, h3)" by fastforce
  note cf = consume_fields [OF c]
  have fault: "err \<or> rxorerr ?h" using assms(5) True cf(1) by auto
  obtain s1 s2 where r: "spi_slave_transport_error f s = Some s1"
    "fill_reply 0 s1 (spi_tx_dma_buf h3) = (length (spi_tx s2), s2, spi_tx s2 @ drop (length (spi_tx s2)) (spi_tx_dma_buf h3))"
    "spi_tx s2 = spi_frame (wire_status f s STATUS_IO) []"
  proof (rule fault_reply [OF assms(2), of h3 s])
    fix s1 s2
    assume "spi_slave_transport_error f s = Some s1" "spi_tx s2 = spi_frame (wire_status f s STATUS_IO) []"
      "fill_reply 0 s1 (spi_tx_dma_buf h3) = (length (spi_frame (wire_status f s STATUS_IO) []), s2,
        spi_frame (wire_status f s STATUS_IO) [] @ drop (length (spi_frame (wire_status f s STATUS_IO) [])) (spi_tx_dma_buf h3))"
    then show thesis by (intro that [of s1 s2]) (simp_all only:)
  qed (use cf(6) assms(3) in simp)
  define h4 where "h4 = (spi_flush h3)\<lparr>spi_tx_dma_buf := spi_tx s2 @ drop (length (spi_tx s2)) (spi_tx_dma_buf h3)\<rparr>"
  have off: "\<not> chen (rx_ch h4)" "\<not> chen (tx_ch h4)" using cf(8,9) by (simp_all add: h4_def spi_flush_def)
  define h5 where "h5 = h4\<lparr>rx_ch := (rx_ch h4)\<lparr>chen := False, maddr := 0, chcnt := 72, chen := True\<rparr>\<rparr>"
  define h6 where "h6 = h5\<lparr>tx_ch := (tx_ch h5)\<lparr>chen := False, maddr := 0, chcnt := length (spi_tx s2), chen := True\<rparr>\<rparr>"
  have a: "spi_dma_arm_rx (rx_arm e) h4 = (True, h5)" using off by (simp add: spi_dma_arm_rx_def disable_confirm_eq h5_def)
  have a2: "spi_dma_arm_tx (tx_arm e) (length (spi_tx s2)) h5 = (True, h6)"
    using off r(3) by (simp add: spi_dma_arm_tx_def disable_confirm_eq h6_def h5_def)
  have "cs_rising bd e h s f = Some (h6, s2, f)"
    using True fault a a2 r c unfolding cs_rising_def stopped_def
    by (simp add: disable_confirm_eq Let_def h4_def)
  moreover have "exti_pd0 h6 = exti_pd0 h" using cf(7) by (simp add: h6_def h5_def h4_def spi_flush_def)
  ultimately obtain p where p: "BRIDGE_SPI_CS_EXTI_HANDLER bd e False (h, s, f) = Some (h6\<lparr>exti_pd0 := p\<rparr>, s2, f)"
    "p AND EXTI_5_9 = 0" by (auto elim!: handler_rising [OF assms(1)])
  have "rx_fifo h6 = []" "\<not> rxorerr h6" "\<not> errif (rx_ch h6)" "\<not> errif (tx_ch h6)" "\<not> spi_dma_error_pending h6"
    "tx_holds (spi_tx s2) h6" "rx_armed h6"
    using cf(2-4) r(3) spi_frame_nonempty by (simp_all add: h6_def h5_def h4_def spi_flush_def tx_holds_def rx_armed_def)
  moreover have "tx_holds (spi_tx s2) (h6\<lparr>exti_pd0 := p\<rparr>) = tx_holds (spi_tx s2) h6" "rx_armed (h6\<lparr>exti_pd0 := p\<rparr>) = rx_armed h6"
    by (simp_all add: tx_holds_def rx_armed_def)
  ultimately show ?thesis using p r(3) by (intro exI [of _ "h6\<lparr>exti_pd0 := p\<rparr>"] exI [of _ s2]) simp
qed

theorem spi_bus_fault_contained_witness:
  "\<exists>h' s'. BRIDGE_SPI_CS_EXTI_HANDLER demo_board quiet_env False ((edge demo_hw)\<lparr>rxorerr := True\<rparr>, transport_spi_init, demo_fw) =
     Some (h', s', demo_fw) \<and> \<not> rxorerr h' \<and> tx_holds (spi_frame (wire_status demo_fw transport_spi_init STATUS_IO) []) h' \<and> rx_armed h'"
proof -
  let ?h = "(edge demo_hw)\<lparr>rxorerr := True\<rparr>"
  have "bit (exti_pd0 ?h) 8" "length (spi_tx_dma_buf ?h) = 72" "length (link_features demo_fw) = GD32_BRIDGE_LINK_COUNT"
    using demo_ready demo_fw_inv by (simp_all add: edge_def bit_simps bus_ready_def hw_clean_def fw_inv_def)
  moreover have "confirms (rx_quiesce quiet_env)" "confirms (tx_quiesce quiet_env)" using quiet_confirms(2) by (simp_all only: env_confirms_def)
  ultimately show ?thesis
    using spi_bus_fault_contained [of ?h demo_fw quiet_env demo_board transport_spi_init] by auto
qed



text \<open>An edge that arrives between entry and exit is cleared with the one being served.\<close>

lemma edge_during_handler_lost:
  assumes "bit (exti_pd0 h) 8" "BRIDGE_SPI_CS_EXTI_HANDLER bd e nss (h, s, f) = Some (h', s', f')"
  shows "\<not> bit (exti_pd0 h') 8"
  using assms by (auto simp: BRIDGE_SPI_CS_EXTI_HANDLER_def Let_def bind_eq_Some_conv bit_simps bit_numeral_rec
      split: if_splits)

end
