(* ===== verification/Transport_I2c.thy ===== *)
theory Transport_I2c
  imports Protocol Framing
begin

unbundle bit_operations_syntax

text \<open>
  The I2C slave framing of \<open>src/transport_i2c.c\<close>.  A request is one addressed write,
  \<open>reg cmd payload crc16\<close>; its reply is read back by an addressed read.  The interrupt handlers call
  \<open>i2c_slave_write_end\<close> from more than one place, so a sequence of hook calls is a list of events.
\<close>

section \<open>State\<close>

abbreviation (input) "GD32_BRIDGE_I2C_REG_CMD \<equiv> (0x00 :: u8)"
abbreviation (input) "I2C_MAX_WRITE_BYTES \<equiv> (69 :: nat)"
abbreviation (input) "I2C_MAX_READ_BYTES \<equiv> (68 :: nat)"

record bridge_i2c_rx_diag =
  prev_rx_len :: u16
  fail_rx_len :: u16
  fail_got_crc :: u16
  fail_expect_crc :: u16
  fail_count :: u32

record i2c_st =
  i2c_rx :: bytes
  i2c_tx :: bytes
  i2c_tx_cursor :: nat
  pending_reply_valid :: bool
  frame_rejected :: bool
  i2c_diag :: bridge_i2c_rx_diag

text \<open>\<open>transport_i2c_init\<close> leaves the diagnostics alone.\<close>

definition transport_i2c_init :: "i2c_st \<Rightarrow> i2c_st" where
  "transport_i2c_init s =
     s\<lparr>i2c_rx := [], i2c_tx := [], i2c_tx_cursor := 0, pending_reply_valid := False, frame_rejected := False\<rparr>"

definition i2c_reset :: i2c_st where
  "i2c_reset = \<lparr>i2c_rx = [], i2c_tx = [], i2c_tx_cursor = 0, pending_reply_valid = False, frame_rejected = False,
     i2c_diag = \<lparr>prev_rx_len = 0, fail_rx_len = 0, fail_got_crc = 0, fail_expect_crc = 0, fail_count = 0\<rparr>\<rparr>"

section \<open>Staging\<close>

definition stage_no_pending :: "i2c_st \<Rightarrow> i2c_st" where
  "stage_no_pending s =
     (let covered = [status_code STATUS_NO_PENDING]
      in s\<lparr>i2c_tx := covered @ bytes16 (crc16_ccitt_false covered), i2c_tx_cursor := 0\<rparr>)"

text \<open>\<open>None\<close> is a write past the transmit buffer.\<close>

definition i2c_stage_reply :: "u8 \<Rightarrow> bytes \<Rightarrow> i2c_st \<Rightarrow> i2c_st option" where
  "i2c_stage_reply status payload s =
     (let covered = [status] @ payload
      in if length covered + 2 > I2C_MAX_READ_BYTES then None
         else Some (s\<lparr>i2c_tx := covered @ bytes16 (crc16_ccitt_false covered), i2c_tx_cursor := 0\<rparr>))"

section \<open>Interrupt hooks\<close>

definition i2c_slave_write_start :: "i2c_st \<Rightarrow> i2c_st" where
  "i2c_slave_write_start s =
     s\<lparr>i2c_diag := (i2c_diag s)\<lparr>prev_rx_len := of_nat (length (i2c_rx s))\<rparr>, i2c_rx := [],
       pending_reply_valid := False, frame_rejected := False\<rparr>"

definition i2c_slave_tx_abort :: "i2c_st \<Rightarrow> i2c_st" where
  "i2c_slave_tx_abort s = s\<lparr>i2c_tx := [], i2c_tx_cursor := 0\<rparr>"

definition i2c_slave_rx_byte :: "u8 \<Rightarrow> i2c_st \<Rightarrow> i2c_st" where
  "i2c_slave_rx_byte b s =
     (if length (i2c_rx s) < I2C_MAX_WRITE_BYTES then s\<lparr>i2c_rx := i2c_rx s @ [b]\<rparr> else s)"

text \<open>A frame that fails the length or register check.\<close>

definition reject_short :: "i2c_st \<Rightarrow> i2c_st" where
  "reject_short s =
     stage_no_pending
       ((if length (i2c_rx s) \<noteq> 0
         then s\<lparr>i2c_diag := (i2c_diag s)\<lparr>fail_rx_len := of_nat (length (i2c_rx s)),
                                          fail_count := fail_count (i2c_diag s) + 1\<rparr>\<rparr>
         else s)\<lparr>frame_rejected := True\<rparr>)"

text \<open>A frame that fails the CRC check.\<close>

definition reject_crc :: "u16 \<Rightarrow> u16 \<Rightarrow> i2c_st \<Rightarrow> i2c_st" where
  "reject_crc got expect s =
     stage_no_pending
       (s\<lparr>i2c_diag := (i2c_diag s)\<lparr>fail_rx_len := of_nat (length (i2c_rx s)), fail_got_crc := got,
            fail_expect_crc := expect, fail_count := fail_count (i2c_diag s) + 1\<rparr>,
          frame_rejected := True\<rparr>)"

text \<open>The result carries the returned boolean.\<close>

definition i2c_slave_write_end :: "'h board \<Rightarrow> i2c_st \<Rightarrow> 'h fw \<Rightarrow> (bool \<times> i2c_st \<times> 'h fw) option" where
  "i2c_slave_write_end bd s f =
     (if pending_reply_valid s \<or> frame_rejected s
      then Some (pending_reply_valid s,
                 (if frame_rejected s \<or> i2c_tx_cursor s \<ge> length (i2c_tx s) then stage_no_pending s else s), f)
      else if length (i2c_rx s) < 4 \<or> rd (i2c_rx s) 0 \<noteq> Some GD32_BRIDGE_I2C_REG_CMD
      then Some (False, reject_short s, f)
      else do {
        let rx = i2c_rx s;
        let payload_len = length rx - 4;
        c0 \<leftarrow> rd rx (2 + payload_len);
        c1 \<leftarrow> rd rx (2 + payload_len + 1);
        let got_crc = le16 c0 c1;
        let expect_crc = crc16_ccitt_false (take (1 + payload_len) (drop 1 rx));
        if got_crc \<noteq> expect_crc then Some (False, reject_crc got_crc expect_crc s, f)
        else do {
          cmd \<leftarrow> rd rx 1;
          (st, reply_pl, f') \<leftarrow> protocol_dispatch bd GD32_BRIDGE_LINK_I2C cmd
                                  (take payload_len (drop 2 rx)) GD32_BRIDGE_MAX_PAYLOAD_BYTES f;
          s' \<leftarrow> i2c_stage_reply (status_code st) reply_pl s;
          Some (True, s'\<lparr>pending_reply_valid := True\<rparr>, f') } })"

definition i2c_slave_tx_next_byte :: "i2c_st \<Rightarrow> u8 \<times> i2c_st" where
  "i2c_slave_tx_next_byte s =
     (let s1 = (if \<not> pending_reply_valid s \<and> i2c_tx_cursor s = 0 then stage_no_pending s else s)
      in if i2c_tx_cursor s1 < length (i2c_tx s1)
         then (i2c_tx s1 ! i2c_tx_cursor s1, s1\<lparr>i2c_tx_cursor := i2c_tx_cursor s1 + 1\<rparr>)
         else (0xFF, s1))"

section \<open>Event sequences\<close>

datatype i2c_event = Write_Start | Rx_Byte u8 | Write_End | Tx_Byte | Tx_Abort

text \<open>One hook call; the list is the byte clocked out, if any.\<close>

fun i2c_event_step :: "'h board \<Rightarrow> i2c_event \<Rightarrow> i2c_st \<Rightarrow> 'h fw \<Rightarrow> (bytes \<times> i2c_st \<times> 'h fw) option" where
  "i2c_event_step bd Write_Start s f = Some ([], i2c_slave_write_start s, f)"
| "i2c_event_step bd (Rx_Byte b) s f = Some ([], i2c_slave_rx_byte b s, f)"
| "i2c_event_step bd Write_End s f = do { (ok, s', f') \<leftarrow> i2c_slave_write_end bd s f; Some ([], s', f') }"
| "i2c_event_step bd Tx_Byte s f = (let (b, s') = i2c_slave_tx_next_byte s in Some ([b], s', f))"
| "i2c_event_step bd Tx_Abort s f = Some ([], i2c_slave_tx_abort s, f)"

fun i2c_run :: "'h board \<Rightarrow> i2c_event list \<Rightarrow> i2c_st \<Rightarrow> 'h fw \<Rightarrow> (bytes \<times> i2c_st \<times> 'h fw) option" where
  "i2c_run bd [] s f = Some ([], s, f)"
| "i2c_run bd (e # es) s f = do {
     (o1, s1, f1) \<leftarrow> i2c_event_step bd e s f;
     (o2, s2, f2) \<leftarrow> i2c_run bd es s1 f1;
     Some (o1 @ o2, s2, f2) }"

text \<open>The frame a host sends and the one it expects, and the events of a write and of a read.\<close>

definition i2c_frame :: "u8 \<Rightarrow> bytes \<Rightarrow> bytes" where
  "i2c_frame tag payload = crc_frame ([tag] @ payload)"

definition i2c_write :: "bytes \<Rightarrow> i2c_event list" where
  "i2c_write bs = Write_Start # map Rx_Byte (GD32_BRIDGE_I2C_REG_CMD # bs)"

text \<open>A repeated-start read: the handler ends the write, clocks bytes out, and ends again on STOP.\<close>

definition i2c_read :: "nat \<Rightarrow> i2c_event list" where
  "i2c_read n = Write_End # replicate n Tx_Byte @ [Write_End]"

section \<open>Lemmas\<close>

lemma length_i2c_frame [simp]: "length (i2c_frame tag payload) = length payload + 3"
  by (simp add: i2c_frame_def)

abbreviation (input) no_pending_frame :: bytes where
  "no_pending_frame \<equiv> i2c_frame (status_code STATUS_NO_PENDING) []"

lemma stage_no_pending_eq: "stage_no_pending s = s\<lparr>i2c_tx := no_pending_frame, i2c_tx_cursor := 0\<rparr>"
  by (simp add: stage_no_pending_def i2c_frame_def crc_frame_def Let_def)

lemma i2c_run_append:
  "i2c_run bd (es @ gs) s f =
     do { (o1, s1, f1) \<leftarrow> i2c_run bd es s f;
          (o2, s2, f2) \<leftarrow> i2c_run bd gs s1 f1;
          Some (o1 @ o2, s2, f2) }"
proof (induction es arbitrary: s f)
  case Nil
  then show ?case by (cases "i2c_run bd gs s f") auto
next
  case (Cons e es)
  show ?case by (auto simp: Cons.IH bind_assoc split: prod.splits bind_splits)
qed

lemma i2c_run_rx:
  "length (i2c_rx s) + length bs \<le> I2C_MAX_WRITE_BYTES \<Longrightarrow>
   i2c_run bd (map Rx_Byte bs) s f = Some ([], s\<lparr>i2c_rx := i2c_rx s @ bs\<rparr>, f)"
  by (induction bs arbitrary: s) (auto simp: i2c_slave_rx_byte_def)

lemma i2c_run_write:
  "length bs \<le> 68 \<Longrightarrow> i2c_run bd (i2c_write bs) s f =
     Some ([], (i2c_slave_write_start s)\<lparr>i2c_rx := GD32_BRIDGE_I2C_REG_CMD # bs\<rparr>, f)"
  using i2c_run_rx [of "i2c_slave_write_start s" "GD32_BRIDGE_I2C_REG_CMD # bs" bd f]
  by (simp add: i2c_write_def i2c_slave_write_start_def)

text \<open>Reading with a reply or a rejection staged: the rest of the reply, then idle bytes.\<close>

lemma i2c_run_tx:
  assumes "pending_reply_valid s \<or> i2c_tx_cursor s \<noteq> 0"
  shows "i2c_run bd (replicate n Tx_Byte) s f =
    Some (take n (drop (i2c_tx_cursor s) (i2c_tx s)) @ replicate (n - (length (i2c_tx s) - i2c_tx_cursor s)) 0xFF,
          s\<lparr>i2c_tx_cursor := (if i2c_tx_cursor s \<le> length (i2c_tx s)
                               then min (length (i2c_tx s)) (i2c_tx_cursor s + n) else i2c_tx_cursor s)\<rparr>, f)"
  using assms
proof (induction n arbitrary: s)
  case (Suc n)
  show ?case
  proof (cases "i2c_tx_cursor s < length (i2c_tx s)")
    case True
    let ?s = "s\<lparr>i2c_tx_cursor := Suc (i2c_tx_cursor s)\<rparr>"
    have e: "i2c_slave_tx_next_byte s = (i2c_tx s ! i2c_tx_cursor s, ?s)"
      using Suc.prems True by (auto simp: i2c_slave_tx_next_byte_def)
    have "drop (i2c_tx_cursor s) (i2c_tx s) = i2c_tx s ! i2c_tx_cursor s # drop (Suc (i2c_tx_cursor s)) (i2c_tx s)"
      using True by (rule Cons_nth_drop_Suc [symmetric])
    then show ?thesis using e Suc.IH [of ?s] True by simp
  next
    case False
    then have e: "i2c_slave_tx_next_byte s = (0xFF, s)"
      using Suc.prems by (auto simp: i2c_slave_tx_next_byte_def)
    then show ?thesis using Suc.IH [OF Suc.prems] False by (auto simp: Suc_diff_le)
  qed
qed simp

lemma i2c_run_tx_idle:
  assumes "\<not> pending_reply_valid s" "i2c_tx_cursor s = 0" "0 < n"
  shows "i2c_run bd (replicate n Tx_Byte) s f = i2c_run bd (replicate n Tx_Byte) (stage_no_pending s) f"
proof -
  have "i2c_slave_tx_next_byte s = i2c_slave_tx_next_byte (stage_no_pending s)"
    using assms by (simp add: i2c_slave_tx_next_byte_def stage_no_pending_def Let_def)
  then show ?thesis using assms(3) by (cases n) simp_all
qed

lemma write_end_good:
  assumes "fw_inv bd f" "length payload \<le> GD32_BRIDGE_MAX_PAYLOAD_BYTES"
    and "\<not> pending_reply_valid s" "\<not> frame_rejected s" "i2c_rx s = GD32_BRIDGE_I2C_REG_CMD # i2c_frame cmd payload"
  obtains st rep f' where
    "protocol_dispatch bd GD32_BRIDGE_LINK_I2C cmd payload GD32_BRIDGE_MAX_PAYLOAD_BYTES f = Some (st, rep, f')"
    "i2c_slave_write_end bd s f = Some (True,
       s\<lparr>i2c_tx := i2c_frame (status_code st) rep, i2c_tx_cursor := 0, pending_reply_valid := True\<rparr>, f')"
    "length rep \<le> GD32_BRIDGE_MAX_PAYLOAD_BYTES"
proof (rule dispatch_contract [OF assms(1), of GD32_BRIDGE_LINK_I2C cmd payload GD32_BRIDGE_MAX_PAYLOAD_BYTES])
  fix st rep f'
  assume d: "protocol_dispatch bd GD32_BRIDGE_LINK_I2C cmd payload GD32_BRIDGE_MAX_PAYLOAD_BYTES f = Some (st, rep, f')"
    and l: "length rep \<le> GD32_BRIDGE_MAX_PAYLOAD_BYTES"
  have "i2c_slave_write_end bd s f = Some (True,
       s\<lparr>i2c_tx := i2c_frame (status_code st) rep, i2c_tx_cursor := 0, pending_reply_valid := True\<rparr>, f')"
    using assms(2-5) d l
    by (simp add: i2c_slave_write_end_def i2c_frame_def crc_frame_def i2c_stage_reply_def rd_def nth_append bytes16_def
        Let_def)
  then show thesis using that d l by blast
qed

lemma write_end_bad:
  assumes "\<not> pending_reply_valid s" "\<not> frame_rejected s" "i2c_rx s = reg # ys @ [c0, c1]" "ys \<noteq> []"
    and "le16 c0 c1 \<noteq> crc16_ccitt_false ys"
  shows "i2c_slave_write_end bd s f =
    Some (False, if reg = GD32_BRIDGE_I2C_REG_CMD then reject_crc (le16 c0 c1) (crc16_ccitt_false ys) s else reject_short s, f)"
  using assms by (cases ys) (simp_all add: i2c_slave_write_end_def rd_def nth_append)

lemma write_end_decided:
  assumes "pending_reply_valid s \<or> frame_rejected s"
  shows "i2c_slave_write_end bd s f = Some (pending_reply_valid s,
    (if frame_rejected s \<or> i2c_tx_cursor s \<ge> length (i2c_tx s) then stage_no_pending s else s), f)"
  using assms by (simp add: i2c_slave_write_end_def)

lemma write_end_decides:
  assumes "i2c_slave_write_end bd s f = Some (ok, s', f')"
  shows "pending_reply_valid s' \<or> frame_rejected s'"
  using assms
  by (auto simp: i2c_slave_write_end_def reject_short_def reject_crc_def stage_no_pending_eq bind_eq_Some_conv Let_def
      split: if_splits)

text \<open>A decided write stays decided, and nothing but a new write reaches a command.\<close>

lemma decided_step:
  assumes "pending_reply_valid s \<or> frame_rejected s" "e \<noteq> Write_Start"
  shows "\<exists>out s'. i2c_event_step bd e s f = Some (out, s', f) \<and>
    pending_reply_valid s' = pending_reply_valid s \<and> frame_rejected s' = frame_rejected s"
proof (cases e)
  case Write_End
  then show ?thesis using write_end_decided [OF assms(1), of bd f] by (simp add: stage_no_pending_eq)
qed (use assms in \<open>auto simp: i2c_slave_rx_byte_def i2c_slave_tx_abort_def i2c_slave_tx_next_byte_def
  stage_no_pending_eq Let_def\<close>)

lemma decided_run:
  assumes "pending_reply_valid s \<or> frame_rejected s" "Write_Start \<notin> set es"
  shows "\<exists>out s'. i2c_run bd es s f = Some (out, s', f) \<and>
    pending_reply_valid s' = pending_reply_valid s \<and> frame_rejected s' = frame_rejected s"
  using assms
proof (induction es arbitrary: s)
  case (Cons e es)
  obtain out s1 where "i2c_event_step bd e s f = Some (out, s1, f)"
    "pending_reply_valid s1 = pending_reply_valid s" "frame_rejected s1 = frame_rejected s"
    using decided_step [of s e bd f] Cons.prems by auto
  then show ?case using Cons.IH [of s1] Cons.prems by fastforce
qed simp

text \<open>What a read of \<open>n\<close> bytes gives when \<open>tx\<close> is staged.\<close>

abbreviation (input) clocked :: "nat \<Rightarrow> bytes \<Rightarrow> bytes" where
  "clocked n tx \<equiv> take n tx @ replicate (n - length tx) 0xFF"

lemma read_pending:
  assumes "pending_reply_valid s" "\<not> frame_rejected s" "i2c_tx_cursor s = 0" "i2c_tx s \<noteq> []"
  shows "i2c_run bd (i2c_read n) s f = Some (clocked n (i2c_tx s),
    (if n < length (i2c_tx s) then s\<lparr>i2c_tx_cursor := n\<rparr> else stage_no_pending s), f)"
proof -
  let ?s = "s\<lparr>i2c_tx_cursor := min (length (i2c_tx s)) n\<rparr>"
  have "i2c_run bd [Write_End] s f = Some ([], s, f)" using write_end_decided [of s bd f] assms by simp
  moreover have "i2c_run bd (replicate n Tx_Byte) s f = Some (clocked n (i2c_tx s), ?s, f)"
    using i2c_run_tx [of s bd n f] assms by simp
  moreover have "i2c_run bd [Write_End] ?s f =
      Some ([], if n < length (i2c_tx s) then s\<lparr>i2c_tx_cursor := n\<rparr> else stage_no_pending s, f)"
    using write_end_decided [of ?s bd f] assms by (auto simp: stage_no_pending_eq min_def)
  ultimately show ?thesis
    using i2c_run_append [of bd "[Write_End]" "replicate n Tx_Byte @ [Write_End]" s f]
      i2c_run_append [of bd "replicate n Tx_Byte" "[Write_End]" s f]
    by (simp add: i2c_read_def del: i2c_run.simps)
qed

text \<open>A read that continues one, and a read of a rejected write.\<close>

lemma read_resumed:
  assumes "pending_reply_valid s" "\<not> frame_rejected s" "i2c_tx_cursor s < length (i2c_tx s)"
  shows "\<exists>s'. i2c_run bd (i2c_read n) s f = Some (clocked n (drop (i2c_tx_cursor s) (i2c_tx s)), s', f)"
proof -
  obtain s1 where "i2c_run bd (replicate n Tx_Byte) s f = Some (clocked n (drop (i2c_tx_cursor s) (i2c_tx s)), s1, f)"
    "pending_reply_valid s1" using i2c_run_tx [of s bd n f] assms by auto
  then show ?thesis
    using i2c_run_append [of bd "replicate n Tx_Byte" "[Write_End]" s f] write_end_decided [of s bd f]
      write_end_decided [of s1 bd f] assms by (simp add: i2c_read_def)
qed

lemma read_rejected:
  assumes "frame_rejected s" "\<not> pending_reply_valid s"
  shows "\<exists>s'. i2c_run bd (i2c_read n) s f = Some (clocked n no_pending_frame, s', f) \<and> i2c_diag s' = i2c_diag s"
proof -
  let ?s = "stage_no_pending s"
  have "\<exists>s1. i2c_run bd (replicate n Tx_Byte) ?s f = Some (clocked n no_pending_frame, s1, f) \<and>
      frame_rejected s1 \<and> i2c_diag s1 = i2c_diag s"
  proof (cases n)
    case (Suc k)
    let ?s1 = "?s\<lparr>i2c_tx_cursor := 1\<rparr>"
    obtain h tl where fr: "no_pending_frame = h # tl" by (cases no_pending_frame) (auto dest: arg_cong [of _ _ length])
    have tl: "length tl = 2" using arg_cong [OF fr, of length] by simp
    have "i2c_slave_tx_next_byte ?s = (h, ?s1)"
      using assms fr by (simp add: i2c_slave_tx_next_byte_def stage_no_pending_eq)
    then show ?thesis using Suc i2c_run_tx [of ?s1 bd k f] fr tl assms by (simp add: stage_no_pending_eq)
  qed (use assms in \<open>simp add: stage_no_pending_eq\<close>)
  then obtain s1 where "i2c_run bd (replicate n Tx_Byte) ?s f = Some (clocked n no_pending_frame, s1, f)"
    "frame_rejected s1" "i2c_diag s1 = i2c_diag s" by blast
  then show ?thesis
    using i2c_run_append [of bd "replicate n Tx_Byte" "[Write_End]" ?s f] write_end_decided [of s bd f]
      write_end_decided [of s1 bd f] assms by (simp add: i2c_read_def stage_no_pending_eq)
qed

text \<open>A write of a well-formed request and its repeated-start read.\<close>

lemma write_then_read:
  assumes "fw_inv bd f" "length payload \<le> GD32_BRIDGE_MAX_PAYLOAD_BYTES"
  obtains st rep f' s1 where
    "protocol_dispatch bd GD32_BRIDGE_LINK_I2C cmd payload GD32_BRIDGE_MAX_PAYLOAD_BYTES f = Some (st, rep, f')"
    "i2c_run bd (i2c_write (i2c_frame cmd payload) @ i2c_read n) s f =
       Some (clocked n (i2c_frame (status_code st) rep),
         (if n < length rep + 3 then s1\<lparr>i2c_tx_cursor := n\<rparr> else stage_no_pending s1), f')"
    "i2c_tx s1 = i2c_frame (status_code st) rep" "pending_reply_valid s1" "\<not> frame_rejected s1"
proof -
  let ?s = "(i2c_slave_write_start s)\<lparr>i2c_rx := GD32_BRIDGE_I2C_REG_CMD # i2c_frame cmd payload\<rparr>"
  have np: "\<not> pending_reply_valid ?s" "\<not> frame_rejected ?s" by (simp_all add: i2c_slave_write_start_def)
  show thesis
  proof (rule write_end_good [OF assms np, of cmd])
    fix st rep f'
    let ?s1 = "?s\<lparr>i2c_tx := i2c_frame (status_code st) rep, i2c_tx_cursor := 0, pending_reply_valid := True\<rparr>"
    assume d: "protocol_dispatch bd GD32_BRIDGE_LINK_I2C cmd payload GD32_BRIDGE_MAX_PAYLOAD_BYTES f = Some (st, rep, f')"
      and e: "i2c_slave_write_end bd ?s f = Some (True, ?s1, f')"
    have ne: "i2c_frame (status_code st) rep \<noteq> []" using length_i2c_frame by (metis length_0_conv add_is_0 zero_neq_numeral)
    have "i2c_run bd (i2c_read n) ?s f = i2c_run bd (i2c_read n) ?s1 f'"
      using e write_end_decided [of ?s1 bd f'] ne np by (simp add: i2c_read_def)
    also have "\<dots> = Some (clocked n (i2c_frame (status_code st) rep),
         (if n < length rep + 3 then ?s1\<lparr>i2c_tx_cursor := n\<rparr> else stage_no_pending ?s1), f')"
      using read_pending [of ?s1 bd n f'] np ne by simp
    finally show thesis
      using that [of st rep f' ?s1] d np i2c_run_append [of bd "i2c_write (i2c_frame cmd payload)"]
        i2c_run_write [of "i2c_frame cmd payload" bd s f] assms(2) by simp
  qed simp
qed

section \<open>Properties\<close>

text \<open>
  C40: I2C round trip.  A write of a well-formed request followed by a repeated-start read of any length runs the
  command exactly once, although the handler ends the write twice, and clocks out the status and
  reply of that command with a valid CRC, then idle bytes.
\<close>

theorem i2c_request_answered:
  assumes "fw_inv bd f" "length payload \<le> GD32_BRIDGE_MAX_PAYLOAD_BYTES"
  shows "\<exists>st rep f' s'.
    protocol_dispatch bd GD32_BRIDGE_LINK_I2C cmd payload GD32_BRIDGE_MAX_PAYLOAD_BYTES f = Some (st, rep, f') \<and>
    i2c_run bd (i2c_write (i2c_frame cmd payload) @ i2c_read n) s f =
      Some (clocked n (i2c_frame (status_code st) rep), s', f')"
proof -
  obtain st rep f' s' where "protocol_dispatch bd GD32_BRIDGE_LINK_I2C cmd payload GD32_BRIDGE_MAX_PAYLOAD_BYTES f = Some (st, rep, f')"
    "i2c_run bd (i2c_write (i2c_frame cmd payload) @ i2c_read n) s f =
      Some (clocked n (i2c_frame (status_code st) rep), s', f')"
    using write_then_read [OF assms, of cmd n s] by metis
  then show ?thesis by blast
qed

theorem i2c_request_answered_witness:
  "\<exists>s'. i2c_run demo_board (i2c_write (i2c_frame 0x01 []) @ i2c_read 8) i2c_reset demo_fw =
     Some (i2c_frame 0 [0, 14, 1] @ [0xFF, 0xFF], s', demo_fw)"
proof -
  have d: "protocol_dispatch demo_board GD32_BRIDGE_LINK_I2C 0x01 [] 65 demo_fw = Some (STATUS_OK, [0, 14, 1], demo_fw)"
    by (rule demo_get_version)
  then show ?thesis
    using i2c_request_answered [OF demo_fw_inv, of "[]" "0x01" 8 i2c_reset] by (auto simp: numeral_eq_Suc)
qed

text \<open>
  At most one dispatch per addressed write.  Once a write has been ended, accepted or
  rejected, no sequence of further hook calls in the same write phase, however many times the handler ends the
  write again, runs a command or changes the firmware.
\<close>

theorem i2c_dispatch_at_most_once:
  assumes "i2c_slave_write_end bd s f = Some (ok, s1, f1)" "Write_Start \<notin> set es"
  shows "\<exists>out s'. i2c_run bd es s1 f1 = Some (out, s', f1)"
  using decided_run [OF write_end_decides [OF assms(1)] assms(2)] by blast

theorem i2c_dispatch_at_most_once_witness:
  "\<exists>out s'. i2c_run demo_board [Write_End, Tx_Byte, Tx_Abort, Write_End, Rx_Byte 7, Write_End]
     (reject_short i2c_reset) demo_fw = Some (out, s', demo_fw)"
proof -
  have "i2c_slave_write_end demo_board i2c_reset demo_fw = Some (False, reject_short i2c_reset, demo_fw)"
    by (simp add: i2c_slave_write_end_def i2c_reset_def)
  then show ?thesis by (rule i2c_dispatch_at_most_once) simp
qed

text \<open>
  A drained reply is not replayed.  After a read that clocked the whole reply out, a second
  read with no write in between gets the \<open>STATUS_NO_PENDING\<close> envelope, and a second read
  after a partial one continues where the first stopped; neither runs a command.
\<close>

theorem i2c_reread:
  assumes "fw_inv bd f" "length payload \<le> GD32_BRIDGE_MAX_PAYLOAD_BYTES"
  shows "\<exists>st rep f' s'.
    protocol_dispatch bd GD32_BRIDGE_LINK_I2C cmd payload GD32_BRIDGE_MAX_PAYLOAD_BYTES f = Some (st, rep, f') \<and>
    i2c_run bd (i2c_write (i2c_frame cmd payload) @ i2c_read n @ i2c_read m) s f =
      Some (clocked n (i2c_frame (status_code st) rep) @
            (if n < length rep + 3 then clocked m (drop n (i2c_frame (status_code st) rep)) else clocked m no_pending_frame),
            s', f')"
proof (rule write_then_read [OF assms, of cmd n s])
  fix st rep f' s1
  let ?fr = "i2c_frame (status_code st) rep"
  let ?s2 = "if n < length rep + 3 then s1\<lparr>i2c_tx_cursor := n\<rparr> else stage_no_pending s1"
  assume r: "protocol_dispatch bd GD32_BRIDGE_LINK_I2C cmd payload GD32_BRIDGE_MAX_PAYLOAD_BYTES f = Some (st, rep, f')"
    "i2c_run bd (i2c_write (i2c_frame cmd payload) @ i2c_read n) s f = Some (clocked n ?fr, ?s2, f')"
    "i2c_tx s1 = ?fr" "pending_reply_valid s1" "\<not> frame_rejected s1"
  have "\<exists>s'. i2c_run bd (i2c_read m) ?s2 f' =
      Some (if n < length rep + 3 then clocked m (drop n ?fr) else clocked m no_pending_frame, s', f')"
    using read_resumed [of "s1\<lparr>i2c_tx_cursor := n\<rparr>" bd m f'] read_resumed [of "stage_no_pending s1" bd m f'] r(3-5)
    by (auto simp: stage_no_pending_eq)
  then obtain s' where "i2c_run bd (i2c_read m) ?s2 f' =
      Some (if n < length rep + 3 then clocked m (drop n ?fr) else clocked m no_pending_frame, s', f')" by blast
  then have "i2c_run bd ((i2c_write (i2c_frame cmd payload) @ i2c_read n) @ i2c_read m) s f =
      Some (clocked n ?fr @ (if n < length rep + 3 then clocked m (drop n ?fr) else clocked m no_pending_frame), s', f')"
    unfolding i2c_run_append [of bd "i2c_write (i2c_frame cmd payload) @ i2c_read n"] r(2) by simp
  then show ?thesis using r(1) by (simp only: append_assoc) blast
qed

theorem i2c_reread_witness:
  "\<exists>s'. i2c_run demo_board (i2c_write (i2c_frame 0x01 []) @ i2c_read 6 @ i2c_read 3) i2c_reset demo_fw =
     Some (i2c_frame 0 [0, 14, 1] @ i2c_frame 0x80 [], s', demo_fw)"
proof -
  have d: "protocol_dispatch demo_board GD32_BRIDGE_LINK_I2C 0x01 [] 65 demo_fw = Some (STATUS_OK, [0, 14, 1], demo_fw)"
    by (rule demo_get_version)
  then show ?thesis
    using i2c_reread [OF demo_fw_inv, of "[]" "0x01" 6 3 i2c_reset] by auto
qed

text \<open>
  A corrupted write never reaches a command.  A request damaged inside two consecutive bytes before the
  CRC field, or in the CRC field, leaves the firmware untouched, is counted, and its
  read gets the \<open>STATUS_NO_PENDING\<close> envelope.
\<close>

theorem i2c_corrupted_write_dropped:
  assumes "length payload \<le> GD32_BRIDGE_MAX_PAYLOAD_BYTES"
    and "i2c_frame cmd payload = pre @ [a, b] @ post" "(a', b') \<noteq> (a, b)" "length post \<ge> 2 \<or> post = []"
  shows "\<exists>s'. i2c_run bd (i2c_write (pre @ [a', b'] @ post) @ i2c_read n) s f =
      Some (clocked n no_pending_frame, s', f) \<and>
    fail_count (i2c_diag s') = fail_count (i2c_diag s) + 1"
proof -
  let ?rx = "pre @ [a', b'] @ post"
  let ?s = "(i2c_slave_write_start s)\<lparr>i2c_rx := GD32_BRIDGE_I2C_REG_CMD # ?rx\<rparr>"
  have len: "length ?rx = length payload + 3" using arg_cong [OF assms(2), of length] by simp
  obtain ys c0 c1 where ys: "?rx = ys @ [c0, c1]" "le16 c0 c1 \<noteq> crc16_ccitt_false ys"
    using crc_frame_corrupted [of "[cmd] @ payload" pre a b post a' b'] assms(2-4) by (auto simp: i2c_frame_def)
  have ne: "ys \<noteq> []" using len arg_cong [OF ys(1), of length] by auto
  let ?s1 = "reject_crc (le16 c0 c1) (crc16_ccitt_false ys) ?s"
  have e: "i2c_slave_write_end bd ?s f = Some (False, ?s1, f)"
    using write_end_bad [of ?s GD32_BRIDGE_I2C_REG_CMD ys c0 c1 bd f] ys ne by (simp add: i2c_slave_write_start_def)
  have s1: "i2c_tx ?s1 = no_pending_frame" "i2c_tx_cursor ?s1 = 0" "frame_rejected ?s1" "\<not> pending_reply_valid ?s1"
    "fail_count (i2c_diag ?s1) = fail_count (i2c_diag s) + 1"
    by (simp_all add: reject_crc_def stage_no_pending_eq i2c_slave_write_start_def)
  obtain s' where "i2c_run bd (i2c_read n) ?s1 f = Some (clocked n no_pending_frame, s', f)"
    "fail_count (i2c_diag s') = fail_count (i2c_diag s) + 1"
    using read_rejected [OF s1(3,4), of bd n f] s1(1,5) by auto
  moreover have "stage_no_pending ?s1 = ?s1" by (simp add: reject_crc_def stage_no_pending_eq)
  then have "i2c_run bd (i2c_read n) ?s f = i2c_run bd (i2c_read n) ?s1 f"
    using e write_end_decided [of ?s1 bd f] s1 by (simp add: i2c_read_def)
  ultimately show ?thesis
    using i2c_run_append [of bd "i2c_write ?rx" "i2c_read n" s f] i2c_run_write [of ?rx bd s f] len assms(1) by simp
qed

theorem i2c_corrupted_write_dropped_witness:
  "\<exists>s'. i2c_run demo_board (i2c_write ([0x11, 1] @ drop 2 (i2c_frame 0x10 [1, 0, 0, 0])) @ i2c_read 3) i2c_reset demo_fw =
     Some (i2c_frame 0x80 [], s', demo_fw) \<and> fail_count (i2c_diag s') = 1"
proof -
  have "i2c_frame 0x10 [1, 0, 0, 0] = [] @ [0x10, 1] @ drop 2 (i2c_frame 0x10 [1, 0, 0, 0])"
    by (simp add: i2c_frame_def crc_frame_def)
  from i2c_corrupted_write_dropped [OF _ this, of "0x11" 1 demo_board 3 i2c_reset demo_fw]
  show ?thesis by (auto simp: i2c_reset_def)
qed

end
