(* ===== verification/Bus_I2c.thy ===== *)
theory Bus_I2c
  imports Transport_I2c
begin

unbundle bit_operations_syntax

text \<open>
  The I2C half of \<open>hal/transport_hw_gd32.c\<close> with \<open>hal/gd32/i2c_event_priority.c\<close>, \<open>i2c_timeout.c\<close> and \<open>i2c_recovery.h\<close>:
  bring-up and timing, the event and error interrupts that drive the hooks of \<open>src/transport_i2c.c\<close>, the bounded bus
  release, and the poll for a stuck data line.
\<close>

section \<open>Timing\<close>

abbreviation (input) "I2C_TIMING_FIELD_MAX \<equiv> (15 :: nat)"
abbreviation (input) "I2C_APB1_MIN_HZ_FAST_MODE \<equiv> (4000000 :: nat)"
abbreviation (input) "BRIDGE_I2C_STRETCH_TIMEOUT_US \<equiv> (25000 :: nat)"
abbreviation (input) "I2C_TIMEOUT_COUNTER_SCALE \<equiv> (2048 :: nat)"
abbreviation (input) "I2C_TIMEOUT_RELOAD_MAX \<equiv> (4095 :: nat)"
abbreviation (input) "I2C_TIMEOUT_MAX_US \<equiv> (35000 :: nat)"

text \<open>The clock is a 32-bit count of hertz; every product below fits the 64 bits it is computed in.\<close>

definition i2c_timing_derive :: "u32 \<Rightarrow> (nat \<times> nat \<times> nat) option" where
  "i2c_timing_derive apb1_hz =
     (let hz = unat apb1_hz
      in if hz < I2C_APB1_MIN_HZ_FAST_MODE then None
         else
           let p0 = hz div 8000000;
               p1 = (if p0 > 0 then p0 - 1 else p0);
               p = (if p1 > I2C_TIMING_FIELD_MAX then I2C_TIMING_FIELD_MAX else p1);
               t_i2cclk_ps = 1000000000000 div hz;
               t_psc_ps = (p + 1) * t_i2cclk_ps;
               tr_max_ps = 300000; tsu_dat_min_ps = 100000; tf_max_ps = 300000;
               dnf3_term_ps = 3 * t_i2cclk_ps;
               scldely_q = (tr_max_ps + tsu_dat_min_ps + t_psc_ps - 1) div t_psc_ps;
               scl = (if scldely_q > 0 then scldely_q - 1 else 0);
               sda = (if tf_max_ps > dnf3_term_ps then (tf_max_ps - dnf3_term_ps + t_psc_ps - 1) div t_psc_ps else 0)
           in if p > I2C_TIMING_FIELD_MAX \<or> scl > I2C_TIMING_FIELD_MAX \<or> sda > I2C_TIMING_FIELD_MAX then None
              else Some (p, scl, sda))"

definition bridge_i2c_stretch_timeout_reload :: "u32 \<Rightarrow> u16 option" where
  "bridge_i2c_stretch_timeout_reload i2c_clk_hz =
     (let hz = unat i2c_clk_hz
      in if hz = 0 then None
         else
           let units0 = (hz * BRIDGE_I2C_STRETCH_TIMEOUT_US) div (I2C_TIMEOUT_COUNTER_SCALE * 1000000);
               units = (if units0 * I2C_TIMEOUT_COUNTER_SCALE * 1000000 < hz * BRIDGE_I2C_STRETCH_TIMEOUT_US then units0 + 1 else units0)
           in if units = 0 then None
              else if units > I2C_TIMEOUT_RELOAD_MAX + 1 then None
              else if units * I2C_TIMEOUT_COUNTER_SCALE * 1000000 > hz * I2C_TIMEOUT_MAX_US then None
              else Some (of_nat (units - 1)))"

section \<open>Peripheral\<close>

text \<open>Status flags, the two data registers, the interrupt enables that vary, the programmed timing, and the counters
  of this file.\<close>

record i2c_hw =
  rdata :: "u8 option"
  stat_addsend :: bool
  stat_tr :: bool
  stat_stpdet :: bool
  tdata :: "u8 option"
  stat_nack :: bool
  stat_berr :: bool
  stat_ouerr :: bool
  stat_timeout :: bool
  stat_other :: bool
  int_main :: bool
  int_ti :: bool
  i2cen :: bool
  timing :: "(nat \<times> nat \<times> nat \<times> u16) option"
  bridge_i2c_timeout_recoveries :: u32
  bridge_i2c_reset_escalations :: u32
  bridge_i2c_stuck_sda_escalations :: u32
  diag_berr :: u32
  diag_ouerr :: u32
  diag_timeout :: u32
  diag_stuck_release :: u32
  i2c_sda_low_ticks :: u8

text \<open>The transmit flag: addressed for reading and nothing to send.\<close>

definition stat_ti :: "i2c_hw \<Rightarrow> bool" where
  "stat_ti h \<longleftrightarrow> stat_tr h \<and> tdata h = None"

text \<open>Bring-up at the kernel clock the clock tree reports.\<close>

definition bridge_transport_i2c_hw_init :: "u32 \<Rightarrow> i2c_hw \<Rightarrow> int \<times> i2c_hw" where
  "bridge_transport_i2c_hw_init apb1_hz h =
     (case (i2c_timing_derive apb1_hz, bridge_i2c_stretch_timeout_reload apb1_hz) of
        (Some (psc, scl, sda), Some reload) \<Rightarrow>
          (BRIDGE_HW_OK, h\<lparr>timing := Some (psc, scl, sda, reload), int_main := True, i2cen := True\<rparr>)
      | _ \<Rightarrow> (BRIDGE_HW_ERR_RANGE, h))"

text \<open>The reset pulse clears the peripheral's registers.\<close>

definition i2c_ops_rcu_reset :: "i2c_hw \<Rightarrow> i2c_hw" where
  "i2c_ops_rcu_reset h =
     h\<lparr>rdata := None, stat_addsend := False, stat_tr := False, stat_stpdet := False, tdata := None, stat_nack := False, stat_berr := False,
       stat_ouerr := False, stat_timeout := False, stat_other := False, int_main := False, int_ti := False, i2cen := False, timing := None\<rparr>"

section \<open>Bus release\<close>

abbreviation (input) "BRIDGE_I2C_EN_CLEAR_SPIN_LIMIT \<equiv> (64 :: nat)"

definition bridge_i2c_en_clear_spin_exhausted :: "nat \<Rightarrow> bool" where
  "bridge_i2c_en_clear_spin_exhausted spins_taken \<longleftrightarrow> spins_taken \<ge> BRIDGE_I2C_EN_CLEAR_SPIN_LIMIT"

text \<open>The read-back loop; \<open>en k\<close> is whether the \<open>k\<close>-th read-back still shows the enable bit.  The result says whether the
  limit was reached, and how many read-backs were made.\<close>

function release_spin :: "(nat \<Rightarrow> bool) \<Rightarrow> nat \<Rightarrow> bool \<times> nat" where
  "release_spin en spins =
     (if en spins
      then (if bridge_i2c_en_clear_spin_exhausted (spins + 1) then (True, spins + 1) else release_spin en (spins + 1))
      else (False, spins + 1))"
  by auto
termination
  by (relation "measure (\<lambda>(_, n). 64 - n)") (auto simp: bridge_i2c_en_clear_spin_exhausted_def)

declare release_spin.simps [simp del]

definition bridge_i2c_bus_release :: "(nat \<Rightarrow> bool) \<Rightarrow> u32 \<Rightarrow> i2c_hw \<Rightarrow> bool \<times> i2c_hw" where
  "bridge_i2c_bus_release en apb1_hz h =
     (let h1 = h\<lparr>i2cen := False\<rparr>
      in if fst (release_spin en 0)
         then (True, snd (bridge_transport_i2c_hw_init apb1_hz (i2c_ops_rcu_reset h1)))
         else (False, h1\<lparr>i2cen := True\<rparr>))"

definition bridge_i2c_timeout_service :: "(nat \<Rightarrow> bool) \<Rightarrow> u32 \<Rightarrow> i2c_hw \<Rightarrow> bool \<times> i2c_hw" where
  "bridge_i2c_timeout_service en apb1_hz h =
     (if \<not> stat_timeout h then (False, h)
      else let h1 = h\<lparr>stat_timeout := False, bridge_i2c_timeout_recoveries := bridge_i2c_timeout_recoveries h + 1\<rparr>;
               (escalated, h2) = bridge_i2c_bus_release en apb1_hz h1
           in (True, if escalated then h2\<lparr>bridge_i2c_reset_escalations := bridge_i2c_reset_escalations h2 + 1\<rparr> else h2))"

definition bridge_i2c_force_bus_release :: "(nat \<Rightarrow> bool) \<Rightarrow> u32 \<Rightarrow> i2c_hw \<Rightarrow> i2c_hw" where
  "bridge_i2c_force_bus_release en apb1_hz h =
     (let (escalated, h1) = bridge_i2c_bus_release en apb1_hz h
      in if escalated then h1\<lparr>bridge_i2c_stuck_sda_escalations := bridge_i2c_stuck_sda_escalations h1 + 1\<rparr> else h1)"

section \<open>Events\<close>

datatype bridge_i2c_event = I2C_EVENT_NONE | I2C_EVENT_RBNE | I2C_EVENT_ADDSEND | I2C_EVENT_STPDET | I2C_EVENT_TI

definition bridge_i2c_event_select :: "bool \<Rightarrow> bool \<Rightarrow> bool \<Rightarrow> bool \<Rightarrow> bridge_i2c_event" where
  "bridge_i2c_event_select rbne addsend stpdet ti =
     (if rbne then I2C_EVENT_RBNE else if stpdet then I2C_EVENT_STPDET else if addsend then I2C_EVENT_ADDSEND
      else if ti then I2C_EVENT_TI else I2C_EVENT_NONE)"

text \<open>An interrupt flag reads as set when the status flag is set and its interrupt is enabled.\<close>

definition i2c_event_pending :: "i2c_hw \<Rightarrow> bridge_i2c_event" where
  "i2c_event_pending h = bridge_i2c_event_select (int_main h \<and> rdata h \<noteq> None) (int_main h \<and> stat_addsend h) (int_main h \<and> stat_stpdet h) (int_ti h \<and> stat_ti h)"

definition BRIDGE_I2C_EV_HANDLER :: "'h board \<Rightarrow> i2c_hw \<times> i2c_st \<times> 'h fw \<Rightarrow> (i2c_hw \<times> i2c_st \<times> 'h fw) option" where
  "BRIDGE_I2C_EV_HANDLER bd = (\<lambda>(h, s, f).
     case i2c_event_pending h of
       I2C_EVENT_RBNE \<Rightarrow> Some (h\<lparr>rdata := None\<rparr>, i2c_slave_rx_byte (the (rdata h)) s, f)
     | I2C_EVENT_ADDSEND \<Rightarrow>
         (let is_transmitter = stat_tr h; h1 = h\<lparr>stat_addsend := False\<rparr>
          in if is_transmitter
             then do {
               let h2 = h1\<lparr>tdata := None\<rparr>;
               (ok, s', f') \<leftarrow> i2c_slave_write_end bd s f;
               Some (h2\<lparr>int_ti := True\<rparr>, s', f') }
             else Some (h1, i2c_slave_write_start s, f))
     | I2C_EVENT_STPDET \<Rightarrow> do {
         let h1 = h\<lparr>stat_stpdet := False, stat_nack := False, int_ti := False, tdata := None\<rparr>;
         (ok, s', f') \<leftarrow> i2c_slave_write_end bd s f;
         Some (h1, s', f') }
     | I2C_EVENT_TI \<Rightarrow>
         (let (b, s') = i2c_slave_tx_next_byte s in Some (h\<lparr>tdata := Some b\<rparr>, s', f))
     | I2C_EVENT_NONE \<Rightarrow> Some (h\<lparr>stat_nack := False\<rparr>, s, f))"

text \<open>The error interrupt.  The snapshot of the status register decides what the final clear covers; address match and
  stop are not in its mask.\<close>

definition BRIDGE_I2C_ER_HANDLER :: "(nat \<Rightarrow> bool) \<Rightarrow> u32 \<Rightarrow> i2c_hw \<times> i2c_st \<Rightarrow> i2c_hw \<times> i2c_st" where
  "BRIDGE_I2C_ER_HANDLER en apb1_hz = (\<lambda>(h, s).
     let h1 = (if stat_berr h then h\<lparr>stat_berr := False, diag_berr := diag_berr h + 1\<rparr> else h);
         h2 = (if stat_ouerr h1 then h1\<lparr>stat_ouerr := False, diag_ouerr := diag_ouerr h1 + 1\<rparr> else h1);
         (timed_out, h3) = bridge_i2c_timeout_service en apb1_hz h2;
         h4 = (if timed_out then h3\<lparr>diag_timeout := diag_timeout h3 + 1\<rparr> else h3);
         bus_error = (stat_berr h \<or> stat_ouerr h \<or> timed_out);
         h5 = h4\<lparr>stat_nack := (stat_nack h4 \<and> \<not> stat_nack h), stat_berr := (stat_berr h4 \<and> \<not> stat_berr h), stat_ouerr := (stat_ouerr h4 \<and> \<not> stat_ouerr h),
                 stat_timeout := (stat_timeout h4 \<and> \<not> stat_timeout h), stat_other := (stat_other h4 \<and> \<not> stat_other h)\<rparr>
     in if bus_error then (h5\<lparr>int_ti := False\<rparr>, i2c_slave_tx_abort (i2c_slave_write_start s)) else (h5, s))"

section \<open>Stuck data line\<close>

abbreviation (input) "BRIDGE_I2C_STUCK_SAMPLES \<equiv> (4 :: nat)"

text \<open>One poll: \<open>wire k\<close> is the level of the data and clock lines at the \<open>k\<close>-th sample.\<close>

definition bridge_transport_i2c_stuck_poll ::
  "(nat \<Rightarrow> bool \<times> bool) \<Rightarrow> (nat \<Rightarrow> bool) \<Rightarrow> u32 \<Rightarrow> i2c_hw \<times> i2c_st \<Rightarrow> i2c_hw \<times> i2c_st" where
  "bridge_transport_i2c_stuck_poll wire en apb1_hz = (\<lambda>(h, s).
     let all_low = list_all (\<lambda>k. \<not> (fst (wire k) \<or> \<not> snd (wire k))) [0..<BRIDGE_I2C_STUCK_SAMPLES]
     in if \<not> all_low then (h\<lparr>i2c_sda_low_ticks := 0\<rparr>, s)
        else let h1 = h\<lparr>i2c_sda_low_ticks := i2c_sda_low_ticks h + 1\<rparr>
             in if i2c_sda_low_ticks h1 < 2 then (h1, s)
                else let h2 = h1\<lparr>i2c_sda_low_ticks := 0, diag_stuck_release := diag_stuck_release h1 + 1\<rparr>
                     in (bridge_i2c_force_bus_release en apb1_hz h2, i2c_slave_tx_abort s))"

section \<open>The bus\<close>

text \<open>What the master does, and an invocation of the event interrupt.  The slave holds the clock low while a byte or an
  address match is unserved, and while it has nothing to send.\<close>

datatype i2c_act = Act_Write | Act_Read | Act_Byte u8 | Act_Shift | Act_Stop | Act_Ev

fun act_ok :: "i2c_act \<Rightarrow> i2c_hw \<Rightarrow> bool" where
  "act_ok Act_Write h \<longleftrightarrow> \<not> stat_addsend h"
| "act_ok Act_Read h \<longleftrightarrow> \<not> stat_addsend h"
| "act_ok (Act_Byte b) h \<longleftrightarrow> rdata h = None \<and> \<not> stat_addsend h \<and> \<not> stat_stpdet h"
| "act_ok Act_Shift h \<longleftrightarrow> rdata h = None \<and> \<not> stat_addsend h \<and> \<not> stat_stpdet h \<and> stat_tr h \<and> tdata h \<noteq> None"
| "act_ok Act_Stop h \<longleftrightarrow> \<not> stat_addsend h \<and> \<not> stat_stpdet h"
| "act_ok Act_Ev h \<longleftrightarrow> True"

fun bus_effect :: "i2c_act \<Rightarrow> i2c_hw \<Rightarrow> i2c_hw" where
  "bus_effect Act_Write h = h\<lparr>stat_addsend := True, stat_tr := False\<rparr>"
| "bus_effect Act_Read h = h\<lparr>stat_addsend := True, stat_tr := True\<rparr>"
| "bus_effect (Act_Byte b) h = h\<lparr>rdata := Some b\<rparr>"
| "bus_effect Act_Shift h = h\<lparr>tdata := None\<rparr>"
| "bus_effect Act_Stop h = h\<lparr>stat_stpdet := True, stat_nack := True\<rparr>"
| "bus_effect Act_Ev h = h"

text \<open>The hook an invocation of the event interrupt calls, and the hooks still owed for what is pending, oldest first.\<close>

definition hook_due :: "i2c_hw \<Rightarrow> i2c_event list" where
  "hook_due h = (case i2c_event_pending h of
       I2C_EVENT_RBNE \<Rightarrow> [Rx_Byte (the (rdata h))]
     | I2C_EVENT_ADDSEND \<Rightarrow> [if stat_tr h then Write_End else Write_Start]
     | I2C_EVENT_STPDET \<Rightarrow> [Write_End]
     | I2C_EVENT_TI \<Rightarrow> [Tx_Byte]
     | I2C_EVENT_NONE \<Rightarrow> [])"

definition hooks_owed :: "i2c_hw \<Rightarrow> i2c_event list" where
  "hooks_owed h = (case rdata h of Some b \<Rightarrow> [Rx_Byte b] | None \<Rightarrow> []) @ (if stat_stpdet h then [Write_End] else []) @
     (if stat_addsend h then [if stat_tr h then Write_End else Write_Start] else [])"

text \<open>A trace of actions: the bytes the master reads, the hooks called, and the final state; \<open>None\<close> if the bus does not allow it.\<close>

fun i2c_bus_run ::
  "'h board \<Rightarrow> i2c_act list \<Rightarrow> i2c_hw \<times> i2c_st \<times> 'h fw \<Rightarrow> (bytes \<times> i2c_event list \<times> i2c_hw \<times> i2c_st \<times> 'h fw) option" where
  "i2c_bus_run bd [] (h, s, f) = Some ([], [], h, s, f)"
| "i2c_bus_run bd (a # as) (h, s, f) =
     (if \<not> act_ok a h then None
      else do {
        (h1, s1, f1) \<leftarrow> (if a = Act_Ev then BRIDGE_I2C_EV_HANDLER bd (h, s, f) else Some (bus_effect a h, s, f));
        (out, hooks, st) \<leftarrow> i2c_bus_run bd as (h1, s1, f1);
        Some ((if a = Act_Shift then the (tdata h) # out else out), (if a = Act_Ev then hook_due h else []) @ hooks, st) })"

text \<open>The hook each action of the master calls for, in the order of the bus.\<close>

fun hooks_for :: "i2c_act \<Rightarrow> i2c_event list" where
  "hooks_for Act_Write = [Write_Start]"
| "hooks_for Act_Read = [Write_End]"
| "hooks_for (Act_Byte b) = [Rx_Byte b]"
| "hooks_for Act_Stop = [Write_End]"
| "hooks_for _ = []"

section \<open>Lemmas\<close>

lemma hooks_owed_Nil: "hooks_owed h = [] \<longleftrightarrow> rdata h = None \<and> \<not> stat_stpdet h \<and> \<not> stat_addsend h"
  by (auto simp: hooks_owed_def split: option.splits)

text \<open>An interrupt performs the hook that is due, on the hook's own terms.\<close>

lemma ev_handler_hook:
  assumes "BRIDGE_I2C_EV_HANDLER bd (h, s, f) = Some (h', s', f')"
  shows "\<exists>out. i2c_run bd (hook_due h) s f = Some (out, s', f') \<and>
    (hook_due h = [Tx_Byte] \<longrightarrow> h' = h\<lparr>tdata := Some (hd out)\<rparr> \<and> length out = 1) \<and> (hook_due h \<noteq> [Tx_Byte] \<longrightarrow> out = [])"
  using assms unfolding BRIDGE_I2C_EV_HANDLER_def hook_due_def
  by (cases "i2c_event_pending h") (auto simp: bind_eq_Some_conv Let_def split: prod.splits if_splits)

text \<open>It takes the oldest hook owed; a byte is fetched only when nothing is owed.\<close>

lemma ev_handler_owed:
  assumes "BRIDGE_I2C_EV_HANDLER bd (h, s, f) = Some (h', s', f')" "int_main h"
  shows "int_main h'" "hook_due h \<noteq> [Tx_Byte] \<Longrightarrow> hooks_owed h = hook_due h @ hooks_owed h'"
    "hook_due h = [Tx_Byte] \<Longrightarrow> hooks_owed h = [] \<and> hooks_owed h' = []" "hooks_owed h = [] \<Longrightarrow> hook_due h \<noteq> [] \<Longrightarrow> hook_due h = [Tx_Byte]"
  using assms unfolding BRIDGE_I2C_EV_HANDLER_def hook_due_def hooks_owed_def i2c_event_pending_def bridge_i2c_event_select_def
  by (auto simp: bind_eq_Some_conv Let_def split: prod.splits if_splits option.splits)

lemma bus_effect_owed:
  assumes "act_ok a h" "a \<noteq> Act_Ev"
  shows "hooks_owed (bus_effect a h) = hooks_owed h @ hooks_for a" "int_main (bus_effect a h) = int_main h"
  using assms by (cases a; simp add: hooks_owed_def)+

lemma bus_run_owed:
  assumes "i2c_bus_run bd as (h, s, f) = Some (out, hooks, h', s', f')" "int_main h"
  shows "filter (\<lambda>e. e \<noteq> Tx_Byte) hooks @ hooks_owed h' = hooks_owed h @ concat (map hooks_for as) \<and> int_main h'"
  using assms
proof (induction "as" arbitrary: h s f out hooks)
  case (Cons a "as")
  obtain h1 s1 f1 out1 hooks1 where ok: "act_ok a h" and
    r: "i2c_bus_run bd as (h1, s1, f1) = Some (out1, hooks1, h', s', f')" and
    one: "(if a = Act_Ev then BRIDGE_I2C_EV_HANDLER bd (h, s, f) else Some (bus_effect a h, s, f)) = Some (h1, s1, f1)" and
    hooks: "hooks = (if a = Act_Ev then hook_due h else []) @ hooks1"
    using Cons.prems(1) by (auto simp: bind_eq_Some_conv split: if_splits)
  show ?case
  proof (cases "a = Act_Ev")
    case True
    then have ev: "BRIDGE_I2C_EV_HANDLER bd (h, s, f) = Some (h1, s1, f1)" using one by simp
    note o = ev_handler_owed [OF ev Cons.prems(2)]
    have "filter (\<lambda>e. e \<noteq> Tx_Byte) (hook_due h) = (if hook_due h = [Tx_Byte] then [] else hook_due h)"
      by (simp add: hook_due_def split: bridge_i2c_event.splits)
    then show ?thesis using Cons.IH [OF r o(1)] o(2,3) True hooks by (cases "hook_due h = [Tx_Byte]") auto
  next
    case False
    then have "h1 = bus_effect a h" using one by simp
    then show ?thesis
      using Cons.IH [OF r] bus_effect_owed [OF ok False] Cons.prems(2) False hooks by simp
  qed
qed simp

lemma bus_run_hooks:
  assumes "i2c_bus_run bd as (h, s, f) = Some (out, hooks, h', s', f')"
  shows "\<exists>bs. i2c_run bd hooks s f = Some (bs, s', f')"
  using assms
proof (induction "as" arbitrary: h s f out hooks)
  case (Cons a "as")
  obtain h1 s1 f1 out1 hooks1 where
    r: "i2c_bus_run bd as (h1, s1, f1) = Some (out1, hooks1, h', s', f')" and
    one: "(if a = Act_Ev then BRIDGE_I2C_EV_HANDLER bd (h, s, f) else Some (bus_effect a h, s, f)) = Some (h1, s1, f1)" and
    hooks: "hooks = (if a = Act_Ev then hook_due h else []) @ hooks1"
    using Cons.prems(1) by (auto simp: bind_eq_Some_conv split: if_splits)
  obtain bs1 where b: "i2c_run bd hooks1 s1 f1 = Some (bs1, s', f')" using Cons.IH [OF r] by blast
  show ?case
  proof (cases "a = Act_Ev")
    case True
    then obtain o1 where "i2c_run bd (hook_due h) s f = Some (o1, s1, f1)"
      using ev_handler_hook one by (metis (no_types, lifting))
    then show ?thesis using b hooks True by (simp add: i2c_run_append)
  qed (use one b hooks in auto)
qed simp

text \<open>Phases of a combined write and read.  While the slave is addressed for writing nothing is sent.\<close>

abbreviation (input) td :: "i2c_hw \<Rightarrow> bytes" where
  "td h \<equiv> (case tdata h of Some b \<Rightarrow> [b] | None \<Rightarrow> [])"

lemma bus_run_Cons:
  assumes "i2c_bus_run bd (a # as) (h, s, f) = Some (out, hooks, h', s', f')"
  obtains h1 s1 f1 out1 hooks1 where "act_ok a h" "i2c_bus_run bd as (h1, s1, f1) = Some (out1, hooks1, h', s', f')"
    "a = Act_Ev \<Longrightarrow> BRIDGE_I2C_EV_HANDLER bd (h, s, f) = Some (h1, s1, f1)" "a \<noteq> Act_Ev \<Longrightarrow> h1 = bus_effect a h \<and> s1 = s \<and> f1 = f"
    "hooks = (if a = Act_Ev then hook_due h else []) @ hooks1" "out = (if a = Act_Shift then the (tdata h) # out1 else out1)"
  using assms by (cases "a = Act_Ev") (auto simp: bind_eq_Some_conv split: if_splits)

lemma bus_run_Ev:
  assumes "i2c_bus_run bd (Act_Ev # as) (h, s, f) = Some (out, hooks, h', s', f')"
  obtains h1 s1 f1 hooks1 where "i2c_bus_run bd as (h1, s1, f1) = Some (out, hooks1, h', s', f')"
    "BRIDGE_I2C_EV_HANDLER bd (h, s, f) = Some (h1, s1, f1)" "hooks = hook_due h @ hooks1"
  using assms by (auto simp: bind_eq_Some_conv)

lemma bus_run_append:
  assumes "i2c_bus_run bd (as @ bs) (h, s, f) = Some (out, hooks, st)"
  obtains out1 hooks1 h1 s1 f1 out2 hooks2 where "i2c_bus_run bd as (h, s, f) = Some (out1, hooks1, h1, s1, f1)"
    "i2c_bus_run bd bs (h1, s1, f1) = Some (out2, hooks2, st)" "out = out1 @ out2" "hooks = hooks1 @ hooks2"
proof -
  have "\<exists>out1 hooks1 h1 s1 f1 out2 hooks2. i2c_bus_run bd as (h, s, f) = Some (out1, hooks1, h1, s1, f1) \<and>
    i2c_bus_run bd bs (h1, s1, f1) = Some (out2, hooks2, st) \<and> out = out1 @ out2 \<and> hooks = hooks1 @ hooks2"
    using assms
  proof (induction "as" arbitrary: h s f out hooks)
    case (Cons a "as")
    obtain h' s' f' out' hooks' where r: "act_ok a h" "i2c_bus_run bd (as @ bs) (h', s', f') = Some (out', hooks', st)" and
      one: "(if a = Act_Ev then BRIDGE_I2C_EV_HANDLER bd (h, s, f) else Some (bus_effect a h, s, f)) = Some (h', s', f')" and
      eq: "hooks = (if a = Act_Ev then hook_due h else []) @ hooks'" "out = (if a = Act_Shift then the (tdata h) # out' else out')"
      using Cons.prems by (auto simp: bind_eq_Some_conv split: if_splits)
    from Cons.IH [OF r(2)] show ?case using r(1) one eq by fastforce
  qed auto
  then show thesis using that by blast
qed

lemma ev_step_fields:
  assumes "BRIDGE_I2C_EV_HANDLER bd (h, s, f) = Some (h', s', f')"
  shows "stat_tr h' = stat_tr h" "hook_due h = [] \<Longrightarrow> h' = h\<lparr>stat_nack := False\<rparr> \<and> s' = s \<and> f' = f"
    "hook_due h = [Tx_Byte] \<Longrightarrow> tdata h = None \<and> stat_tr h \<and> int_ti h"
  using assms unfolding BRIDGE_I2C_EV_HANDLER_def hook_due_def i2c_event_pending_def bridge_i2c_event_select_def
  by (auto simp: bind_eq_Some_conv Let_def stat_ti_def split: prod.splits if_splits)

lemma bus_run_write_phase:
  assumes "i2c_bus_run bd as (h, s, f) = Some (out, hooks, h', s', f')" "\<not> stat_tr h" "Act_Read \<notin> set as"
  shows "out = [] \<and> Tx_Byte \<notin> set hooks \<and> \<not> stat_tr h'"
  using assms
proof (induction "as" arbitrary: h s f out hooks)
  case (Cons a "as")
  from bus_run_Cons [OF Cons.prems(1)] obtain h1 s1 f1 out1 hooks1 where c: "act_ok a h"
    "i2c_bus_run bd as (h1, s1, f1) = Some (out1, hooks1, h', s', f')"
    "a = Act_Ev \<Longrightarrow> BRIDGE_I2C_EV_HANDLER bd (h, s, f) = Some (h1, s1, f1)" "a \<noteq> Act_Ev \<Longrightarrow> h1 = bus_effect a h \<and> s1 = s \<and> f1 = f"
    "hooks = (if a = Act_Ev then hook_due h else []) @ hooks1" "out = (if a = Act_Shift then the (tdata h) # out1 else out1)" by blast
  have "a \<noteq> Act_Shift" using c(1) Cons.prems(2) by auto
  moreover have "\<not> stat_tr h1"
    using c(4) Cons.prems(2,3) ev_step_fields(1) [OF c(3)] by (cases a) auto
  moreover have "a = Act_Ev \<Longrightarrow> Tx_Byte \<notin> set (hook_due h)"
    using Cons.prems(2) by (auto simp: hook_due_def i2c_event_pending_def bridge_i2c_event_select_def stat_ti_def split: if_splits)
  ultimately show ?case using Cons.IH [OF c(2)] Cons.prems(3) c(5,6) by auto
qed simp

text \<open>While the slave is addressed for reading with nothing owed, the bytes fetched are the bytes shifted out and the one in the
  data register.\<close>

lemma bus_run_read_phase:
  assumes "i2c_bus_run bd as (h, s, f) = Some (out, hooks, h', s', f')" "int_main h" "hooks_owed h = []" "set as \<subseteq> {Act_Ev, Act_Shift}"
  shows "\<exists>m bs. hooks = replicate m Tx_Byte \<and> i2c_run bd hooks s f = Some (bs, s', f') \<and> td h @ bs = out @ td h' \<and>
    hooks_owed h' = [] \<and> int_main h' \<and> length out = length (filter (\<lambda>a. a = Act_Shift) as)"
  using assms
proof (induction "as" arbitrary: h s f out hooks)
  case (Cons a "as")
  from bus_run_Cons [OF Cons.prems(1)] obtain h1 s1 f1 out1 hooks1 where c: "act_ok a h"
    "i2c_bus_run bd as (h1, s1, f1) = Some (out1, hooks1, h', s', f')"
    "a = Act_Ev \<Longrightarrow> BRIDGE_I2C_EV_HANDLER bd (h, s, f) = Some (h1, s1, f1)" "a \<noteq> Act_Ev \<Longrightarrow> h1 = bus_effect a h \<and> s1 = s \<and> f1 = f"
    "hooks = (if a = Act_Ev then hook_due h else []) @ hooks1" "out = (if a = Act_Shift then the (tdata h) # out1 else out1)" by blast
  show ?case
  proof (cases "a = Act_Ev")
    case False
    then have a: "a = Act_Shift" using Cons.prems(4) by auto
    then obtain b where b: "tdata h = Some b" using c(1) by auto
    have h1: "h1 = h\<lparr>tdata := None\<rparr>" "s1 = s" "f1 = f" using c(4) a by auto
    have "hooks_owed h1 = []" "int_main h1" using Cons.prems(2,3) h1 by (simp_all add: hooks_owed_Nil)
    from Cons.IH [OF c(2) this(2,1)] show ?thesis using Cons.prems(4) c(5,6) a b h1 by auto
  next
    case True
    note ev = c(3) [OF True]
    note o = ev_handler_owed [OF ev Cons.prems(2)]
    show ?thesis
    proof (cases "hook_due h = [Tx_Byte]")
      case tx: True
      obtain x where x: "i2c_run bd [Tx_Byte] s f = Some ([x], s1, f1)" "h1 = h\<lparr>tdata := Some x\<rparr>"
        using ev_handler_hook [OF ev] tx by (auto simp: length_Suc_conv simp del: i2c_run.simps)
      have n: "tdata h = None" using ev_step_fields(3) [OF ev tx] by simp
      from Cons.IH [OF c(2) o(1)] o(3) tx Cons.prems(4) obtain m bs where ih: "hooks1 = replicate m Tx_Byte"
        "i2c_run bd hooks1 s1 f1 = Some (bs, s', f')" "td h1 @ bs = out1 @ td h'" "hooks_owed h' = []" "int_main h'"
        "length out1 = length (filter (\<lambda>a. a = Act_Shift) as)" by auto
      have "i2c_run bd ([Tx_Byte] @ hooks1) s f = Some ([x] @ bs, s', f')"
        using x(1) ih(2) by (simp only: i2c_run_append) simp
      then show ?thesis
        using ih c(5,6) True tx x(2) n by (intro exI [of _ "Suc m"] exI [of _ "[x] @ bs"]) simp
    next
      case False
      then have e: "hook_due h = []" using o(4) Cons.prems(3) by blast
      then have h1: "h1 = h\<lparr>stat_nack := False\<rparr>" "s1 = s" "f1 = f" using ev_step_fields(2) [OF ev] by auto
      have "hooks_owed h1 = []" "int_main h1" using Cons.prems(2,3) h1 by (simp_all add: hooks_owed_Nil)
      from Cons.IH [OF c(2) this(2,1)] show ?thesis using Cons.prems(4) c(5,6) True e h1 by auto
    qed
  qed
qed simp

text \<open>With the read address still owed: either it stays owed, or everything owed is served first.\<close>

lemma bus_run_read_start:
  assumes "i2c_bus_run bd as (h, s, f) = Some (out, hooks, h', s', f')" "int_main h" "stat_addsend h" "stat_tr h"
    "set as \<subseteq> {Act_Ev, Act_Shift}"
  shows "stat_addsend h' \<or> (\<exists>m bs. hooks = hooks_owed h @ replicate m Tx_Byte \<and> i2c_run bd hooks s f = Some (bs, s', f') \<and>
    bs = out @ td h' \<and> hooks_owed h' = [] \<and> int_main h' \<and> length out = length (filter (\<lambda>a. a = Act_Shift) as))"
  using assms
proof (induction "as" arbitrary: h s f out hooks)
  case (Cons a "as")
  from bus_run_Cons [OF Cons.prems(1)] obtain h1 s1 f1 out1 hooks1 where c: "act_ok a h"
    "i2c_bus_run bd as (h1, s1, f1) = Some (out1, hooks1, h', s', f')"
    "a = Act_Ev \<Longrightarrow> BRIDGE_I2C_EV_HANDLER bd (h, s, f) = Some (h1, s1, f1)" "a \<noteq> Act_Ev \<Longrightarrow> h1 = bus_effect a h \<and> s1 = s \<and> f1 = f"
    "hooks = (if a = Act_Ev then hook_due h else []) @ hooks1" "out = (if a = Act_Shift then the (tdata h) # out1 else out1)" by blast
  have a: "a = Act_Ev" using c(1) Cons.prems(3,5) by auto
  note ev = c(3) [OF a]
  note o = ev_handler_owed [OF ev Cons.prems(2)]
  have nt: "hook_due h \<noteq> [Tx_Byte]" using o(3) Cons.prems(3) by (auto simp: hooks_owed_def)
  obtain bs0 where r0: "i2c_run bd (hook_due h) s f = Some ([], s1, f1)" using ev_handler_hook [OF ev] nt by auto
  have tr: "stat_tr h1" using ev_step_fields(1) [OF ev] Cons.prems(4) by simp
  have owed: "hooks_owed h = hook_due h @ hooks_owed h1" by (rule o(2) [OF nt])
  have comb: "i2c_run bd (hook_due h @ hooks1) s f = Some (bs, s', f')" if "i2c_run bd hooks1 s1 f1 = Some (bs, s', f')" for bs
    using r0 that by (simp only: i2c_run_append) simp
  show ?case
  proof (cases "stat_addsend h1")
    case True
    from Cons.IH [OF c(2) o(1) True tr] Cons.prems(5) show ?thesis
      using c(5,6) a owed comb by auto
  next
    case False
    then have d: "tdata h1 = None" "hooks_owed h1 = []"
      using ev Cons.prems(2-4) unfolding BRIDGE_I2C_EV_HANDLER_def i2c_event_pending_def bridge_i2c_event_select_def hooks_owed_def
      by (auto simp: bind_eq_Some_conv Let_def split: prod.splits if_splits)
    from bus_run_read_phase [OF c(2) o(1) d(2)] Cons.prems(5) show ?thesis
      using c(5,6) a owed comb d by auto
  qed
qed simp

text \<open>After a stop the interrupt ends the transaction once and then only idles.\<close>

lemma bus_run_idle:
  assumes "i2c_bus_run bd (replicate k Act_Ev) (h, s, f) = Some (out, hooks, h', s', f')" "hooks_owed h = []" "\<not> int_ti h" "int_main h"
  shows "hooks = [] \<and> out = [] \<and> s' = s \<and> f' = f \<and> hooks_owed h' = [] \<and> \<not> int_ti h' \<and> tdata h' = tdata h"
  using assms
proof (induction k arbitrary: h s f out hooks)
  case (Suc k)
  obtain h1 s1 f1 hooks1 where c: "i2c_bus_run bd (replicate k Act_Ev) (h1, s1, f1) = Some (out, hooks1, h', s', f')"
    "BRIDGE_I2C_EV_HANDLER bd (h, s, f) = Some (h1, s1, f1)" "hooks = hook_due h @ hooks1"
    by (rule bus_run_Ev [OF Suc.prems(1) [unfolded replicate_Suc]])
  have "hook_due h = []"
    using ev_handler_owed(4) [OF c(2) Suc.prems(4,2)] ev_step_fields(3) [OF c(2)] Suc.prems(3) by blast
  then show ?case
    using ev_step_fields(2) [OF c(2)] Suc.IH [OF c(1)] Suc.prems(2-4) c(3) by (simp add: hooks_owed_Nil)
qed simp

lemma bus_run_stop:
  assumes "i2c_bus_run bd (replicate k Act_Ev) (h, s, f) = Some (out, hooks, h', s', f')" "stat_stpdet h" "\<not> stat_addsend h" "rdata h = None"
    "int_main h" "hooks_owed h' = []"
  shows "hooks = [Write_End] \<and> out = [] \<and> tdata h' = None \<and> \<not> int_ti h'"
proof (cases k)
  case 0
  then show ?thesis using assms by (simp add: hooks_owed_def)
next
  case (Suc j)
  obtain h1 s1 f1 hooks1 where c: "i2c_bus_run bd (replicate j Act_Ev) (h1, s1, f1) = Some (out, hooks1, h', s', f')"
    "BRIDGE_I2C_EV_HANDLER bd (h, s, f) = Some (h1, s1, f1)" "hooks = hook_due h @ hooks1"
    by (rule bus_run_Ev [OF assms(1) [unfolded Suc replicate_Suc]])
  have "hook_due h = [Write_End]" "tdata h1 = None" "\<not> int_ti h1" "hooks_owed h1 = []" "int_main h1"
    using c(2) assms(2-5) unfolding BRIDGE_I2C_EV_HANDLER_def i2c_event_pending_def bridge_i2c_event_select_def hooks_owed_def hook_due_def
    by (auto simp: bind_eq_Some_conv Let_def)
  then show ?thesis using bus_run_idle [OF c(1)] c(3) by auto
qed

section \<open>Timing\<close>

lemma ceil_div:
  fixes a b :: nat
  assumes "0 < b"
  shows "a \<le> (a + b - 1) div b * b"
proof -
  have "a + b - 1 = (a + b - 1) div b * b + (a + b - 1) mod b" by simp
  moreover have "(a + b - 1) mod b < b" using assms by simp
  ultimately show ?thesis using assms by linarith
qed

lemma timing_scaled:
  fixes t hz k c :: nat
  assumes "t * hz \<le> 1000000000000" "c \<le> k * t"
  shows "c * hz \<le> k * 1000000000000"
proof -
  have "c * hz \<le> k * t * hz" using assms(2) by (rule mult_right_mono) simp
  also have "\<dots> \<le> k * 1000000000000" using assms(1) by (simp add: mult.assoc)
  finally show ?thesis .
qed

lemma timing_derive_cases:
  assumes "unat hz \<ge> 4000000"
  obtains p t scl sda where "t = 1000000000000 div unat hz" "0 < t" "t * unat hz \<le> 1000000000000" "p \<le> 15"
    "400000 \<le> (scl + 1) * ((p + 1) * t)" "300000 \<le> sda * ((p + 1) * t) + 3 * t"
    "i2c_timing_derive hz = (if scl > 15 \<or> sda > 15 then None else Some (p, scl, sda))"
    "p = min 15 (unat hz div 8000000 - 1)" "scl = (400000 + (p + 1) * t - 1) div ((p + 1) * t) - 1"
    "sda = (if 300000 > 3 * t then (300000 - 3 * t + (p + 1) * t - 1) div ((p + 1) * t) else 0)"
proof -
  define t where "t = 1000000000000 div unat hz"
  define p where "p = min 15 (unat hz div 8000000 - 1)"
  define q where "q = (p + 1) * t"
  define scl where "scl = (400000 + q - 1) div q - 1"
  define sda where "sda = (if 300000 > 3 * t then (300000 - 3 * t + q - 1) div q else 0)"
  have hz: "unat hz < 4294967296" using unsigned_less [of hz] by simp
  have t: "0 < t" "t * unat hz \<le> 1000000000000"
    using hz assms div_times_less_eq_dividend [of 1000000000000 "unat hz"] by (simp_all add: t_def div_greater_zero_iff)
  then have q: "0 < q" by (simp add: q_def)
  have c: "400000 \<le> (scl + 1) * q"
  proof -
    have "400000 \<le> (400000 + q - 1) div q * q" by (rule ceil_div [OF q])
    moreover have "0 < (400000 + q - 1) div q" using q by (simp add: div_greater_zero_iff)
    ultimately show ?thesis by (simp add: scl_def)
  qed
  have d: "300000 \<le> sda * q + 3 * t"
    using ceil_div [OF q, of "300000 - 3 * t"] unfolding sda_def by (simp only: split: if_split) linarith
  have e: "i2c_timing_derive hz = (if scl > 15 \<or> sda > 15 then None else Some (p, scl, sda))"
  proof -
    have p': "(if (if 0 < unat hz div 8000000 then unat hz div 8000000 - 1 else unat hz div 8000000) > 15 then 15
        else if 0 < unat hz div 8000000 then unat hz div 8000000 - 1 else unat hz div 8000000) = p"
      unfolding p_def min_def by (simp split: if_split)
    have scl': "(if 0 < (300000 + 100000 + q - 1) div q then (300000 + 100000 + q - 1) div q - 1 else 0) = scl"
      unfolding scl_def by simp
    have "\<not> unat hz < 4000000" "\<not> p > 15" using assms by (simp_all add: p_def)
    then show ?thesis
      unfolding i2c_timing_derive_def Let_def p' t_def [symmetric] q_def [symmetric] scl' sda_def [symmetric]
      by (simp only: if_False simp_thms)
  qed
  show thesis by (rule that [OF t_def t _ c [unfolded q_def] d [unfolded q_def] e p_def]) (simp_all add: p_def scl_def sda_def q_def)
qed

lemma units_bounds:
  fixes x :: nat
  defines "u \<equiv> (if x div 2048000000 * 2048 * 1000000 < x then x div 2048000000 + 1 else x div 2048000000)"
  shows "x \<le> u * 2048000000" "u * 2048000000 < x + 2048000000"
proof -
  have "x = x div 2048000000 * 2048000000 + x mod 2048000000" "x mod 2048000000 < 2048000000" by simp_all
  then show "x \<le> u * 2048000000" "u * 2048000000 < x + 2048000000" unfolding u_def by (auto simp: algebra_simps)
qed

text \<open>The tick is never finer than 25 ns up to 216 MHz, so the fields fit.\<close>

lemma tick_coarse:
  fixes hz t :: nat
  assumes "0 < hz" "hz \<le> 216000000" "t = 1000000000000 div hz" "p = min 15 (hz div 8000000 - 1)"
  shows "25000 \<le> (p + 1) * t"
proof -
  have lt: "1000000000000 < (t + 1) * hz" using assms(1,3) by (simp add: dividend_less_div_times [of hz 1000000000000])
  have t: "1 \<le> t" using assms(1-3) by (simp add: div_greater_zero_iff Suc_le_eq)
  show ?thesis
  proof (cases "hz < (p + 2) * 8000000")
    case True
    have "1000000000000 < (t + 1) * ((p + 2) * 8000000)" using lt mult_le_mono2 [of hz "(p + 2) * 8000000" "t + 1"] True by linarith
    then have "125000 * 8000000 < ((t + 1) * (p + 2)) * 8000000" by (simp only: mult.assoc)
    then have "125000 < (t + 1) * (p + 2)" by (simp only: mult_less_cancel2)
    moreover have "(t + 1) * (p + 2) \<le> (2 * t) * (2 * (p + 1))" using t by (intro mult_le_mono) simp_all
    ultimately show ?thesis by (simp add: algebra_simps)
  next
    case False
    have p: "p = 15"
    proof (rule ccontr)
      assume "p \<noteq> 15"
      then have "p = hz div 8000000 - 1" "hz div 8000000 \<le> p + 1" using assms(4) by auto
      then have "hz < (p + 2) * 8000000" using dividend_less_div_times [of 8000000 hz] by simp
      then show False using False by simp
    qed
    have "1000000000000 < (t + 1) * 216000000" using lt mult_le_mono2 [OF assms(2), of "t + 1"] by linarith
    then show ?thesis using p by simp
  qed
qed

lemma fields_fit:
  fixes q t :: nat
  assumes "25000 \<le> q"
  shows "(400000 + q - 1) div q - 1 \<le> 15" "(if 300000 > 3 * t then (300000 - 3 * t + q - 1) div q else 0) \<le> 15"
proof -
  have "(400000 + q - 1) div q < 17" "(300000 - 3 * t + q - 1) div q < 16" using assms by (auto intro!: less_mult_imp_div_less)
  then show "(400000 + q - 1) div q - 1 \<le> 15" "(if 300000 > 3 * t then (300000 - 3 * t + q - 1) div q else 0) \<le> 15" by auto
qed

lemma reload_eq:
  fixes hz :: u32
  defines "x \<equiv> unat hz * 25000"
  defines "u \<equiv> (if x div 2048000000 * 2048 * 1000000 < x then x div 2048000000 + 1 else x div 2048000000)"
  shows "bridge_i2c_stretch_timeout_reload hz =
      (if unat hz = 0 \<or> u = 0 \<or> u > 4096 \<or> u * 2048 * 1000000 > unat hz * 35000 then None else Some (of_nat (u - 1)))"
    "x \<le> u * 2048000000" "u * 2048000000 < x + 2048000000"
proof -
  have scale: "2048 * 1000000 = (2048000000 :: nat)" "4095 + 1 = (4096 :: nat)" by simp_all
  show "bridge_i2c_stretch_timeout_reload hz =
      (if unat hz = 0 \<or> u = 0 \<or> u > 4096 \<or> u * 2048 * 1000000 > unat hz * 35000 then None else Some (of_nat (u - 1)))"
    unfolding bridge_i2c_stretch_timeout_reload_def Let_def scale x_def [symmetric] u_def [symmetric] by auto
  show "x \<le> u * 2048000000" "u * 2048000000 < x + 2048000000" unfolding u_def by (rule units_bounds)+
qed

lemma timing_derive_sound:
  assumes d: "i2c_timing_derive hz = Some (psc, scl, sda)"
  shows "psc \<le> 15 \<and> scl \<le> 15 \<and> sda \<le> 15 \<and>
      400000 * unat hz \<le> (scl + 1) * (psc + 1) * 1000000000000 \<and> 300000 * unat hz \<le> (sda * (psc + 1) + 3) * 1000000000000"
proof -
  have "unat hz \<ge> 4000000" using d by (auto simp: i2c_timing_derive_def Let_def split: if_splits)
  then obtain p t scl' sda' where t: "t * unat hz \<le> 1000000000000" "p \<le> 15" "400000 \<le> (scl' + 1) * ((p + 1) * t)"
    "300000 \<le> sda' * ((p + 1) * t) + 3 * t" "i2c_timing_derive hz = (if scl' > 15 \<or> sda' > 15 then None else Some (p, scl', sda'))"
    by (rule timing_derive_cases)
  then have e: "psc = p" "scl = scl'" "sda = sda'" "scl' \<le> 15" "sda' \<le> 15" using d by (auto split: if_splits)
  have "400000 \<le> ((scl' + 1) * (p + 1)) * t" "300000 \<le> (sda' * (p + 1) + 3) * t" using t(3,4) by (simp_all add: algebra_simps)
  from timing_scaled [OF t(1) this(1)] timing_scaled [OF t(1) this(2)] show ?thesis using t(2) e by simp
qed

lemma reload_sound:
  assumes "bridge_i2c_stretch_timeout_reload hz = Some reload"
  shows "unat reload \<le> 4095 \<and> 25000 * unat hz \<le> (unat reload + 1) * 2048 * 1000000 \<and> (unat reload + 1) * 2048 * 1000000 \<le> 35000 * unat hz"
proof -
  obtain u where u: "unat hz * 25000 \<le> u * 2048000000" "u \<noteq> 0" "u \<le> 4096" "u * 2048 * 1000000 \<le> unat hz * 35000" "reload = of_nat (u - 1)"
    using assms reload_eq [of hz] by (simp split: if_splits)
  have "unat (of_nat k :: u16) = k" if "k < 65536" for k using that by (simp add: unat_of_nat)
  then have "unat reload = u - 1" unfolding u(5) using u(3) by simp
  then have "unat reload + 1 = u" using u(2) by simp
  then show ?thesis using u by simp
qed

lemma timing_accepts:
  assumes "4000000 \<le> unat hz" "unat hz \<le> 216000000"
  shows "fst (bridge_transport_i2c_hw_init hz h) = BRIDGE_HW_OK"
proof -
  obtain u where "unat hz * 25000 \<le> u * 2048000000" "u * 2048000000 < unat hz * 25000 + 2048000000"
    "bridge_i2c_stretch_timeout_reload hz =
      (if unat hz = 0 \<or> u = 0 \<or> u > 4096 \<or> u * 2048 * 1000000 > unat hz * 35000 then None else Some (of_nat (u - 1)))"
    using reload_eq [of hz] by blast
  then have r: "bridge_i2c_stretch_timeout_reload hz = Some (of_nat (u - 1))" using assms by auto
  obtain p t scl sda where t: "t = 1000000000000 div unat hz" "i2c_timing_derive hz = (if scl > 15 \<or> sda > 15 then None else Some (p, scl, sda))"
    "p = min 15 (unat hz div 8000000 - 1)" "scl = (400000 + (p + 1) * t - 1) div ((p + 1) * t) - 1"
    "sda = (if 300000 > 3 * t then (300000 - 3 * t + (p + 1) * t - 1) div ((p + 1) * t) else 0)"
    by (rule timing_derive_cases [OF assms(1)])
  have "25000 \<le> (p + 1) * t" by (rule tick_coarse [OF _ assms(2) t(1,3)]) (use assms in simp)
  from fields_fit [OF this] have "scl \<le> 15" "sda \<le> 15" unfolding t(4,5) by blast+
  then show ?thesis using r t(2) by (simp add: bridge_transport_i2c_hw_init_def)
qed

section \<open>Errors\<close>

lemma release_spin_bound:
  assumes "k < 64"
  shows "(fst (release_spin en k) \<longleftrightarrow> (\<forall>j. k \<le> j \<and> j < 64 \<longrightarrow> en j)) \<and> snd (release_spin en k) \<le> 64"
  using assms
proof (induction en k rule: release_spin.induct)
  case (1 en k)
  have split: "(\<forall>j. k \<le> j \<and> j < 64 \<longrightarrow> en j) \<longleftrightarrow> en k \<and> (\<forall>j. k + 1 \<le> j \<and> j < 64 \<longrightarrow> en j)"
    using "1.prems" by (metis Suc_eq_plus1 le_refl not_less_eq_eq le_antisym Suc_leD)
  show ?case
  proof (cases "en k \<and> k + 1 < 64")
    case True
    then have nx: "\<not> bridge_i2c_en_clear_spin_exhausted (k + 1)" by (simp add: bridge_i2c_en_clear_spin_exhausted_def)
    show ?thesis
      using "1.IH" [OF conjunct1 [OF True] nx] True nx unfolding split by (simp add: release_spin.simps [of en k])
  next
    case False
    then show ?thesis
      using "1.prems" unfolding split by (auto simp: release_spin.simps [of en k] bridge_i2c_en_clear_spin_exhausted_def)
  qed
qed

lemma hw_init_fields:
  "stat_addsend (snd (bridge_transport_i2c_hw_init hz h)) = stat_addsend h" "stat_stpdet (snd (bridge_transport_i2c_hw_init hz h)) = stat_stpdet h"
  "rdata (snd (bridge_transport_i2c_hw_init hz h)) = rdata h" "int_ti (snd (bridge_transport_i2c_hw_init hz h)) = int_ti h"
  "stat_berr (snd (bridge_transport_i2c_hw_init hz h)) = stat_berr h" "stat_ouerr (snd (bridge_transport_i2c_hw_init hz h)) = stat_ouerr h"
  "stat_timeout (snd (bridge_transport_i2c_hw_init hz h)) = stat_timeout h" "stat_other (snd (bridge_transport_i2c_hw_init hz h)) = stat_other h"
  "stat_nack (snd (bridge_transport_i2c_hw_init hz h)) = stat_nack h"
  "bridge_i2c_reset_escalations (snd (bridge_transport_i2c_hw_init hz h)) = bridge_i2c_reset_escalations h"
  by (simp_all add: bridge_transport_i2c_hw_init_def split: option.split prod.split)

text \<open>A read after a resynchronisation gets the empty envelope, and never the rest of an old reply.\<close>

lemma read_after_resync:
  fixes s :: i2c_st
  defines "s0 \<equiv> i2c_slave_tx_abort (i2c_slave_write_start s)"
  shows "\<exists>s'. i2c_run bd (i2c_read n) s0 f = Some (clocked n no_pending_frame, s', f)"
proof -
  have "i2c_slave_write_end bd s0 f = Some (False, reject_short s0, f)"
    by (simp add: s0_def i2c_slave_write_end_def i2c_slave_tx_abort_def i2c_slave_write_start_def)
  moreover have "i2c_slave_write_end bd (reject_short s0) f = Some (False, reject_short s0, f)"
    using write_end_decided [of "reject_short s0" bd f]
    by (simp add: reject_short_def stage_no_pending_eq s0_def i2c_slave_tx_abort_def i2c_slave_write_start_def)
  ultimately have "i2c_run bd (i2c_read n) s0 f = i2c_run bd (i2c_read n) (reject_short s0) f"
    by (simp add: i2c_read_def)
  moreover have "frame_rejected (reject_short s0)" "\<not> pending_reply_valid (reject_short s0)"
    by (simp_all add: reject_short_def stage_no_pending_eq s0_def i2c_slave_tx_abort_def i2c_slave_write_start_def)
  ultimately show ?thesis using read_rejected [of "reject_short s0" bd n f] by auto
qed

lemma run_without_tx:
  assumes "i2c_run bd es s f = Some (out, s', f')" "Tx_Byte \<notin> set es"
  shows "out = []"
  using assms
proof (induction es arbitrary: s f out)
  case (Cons e es)
  obtain o1 s1 f1 o2 where r: "i2c_event_step bd e s f = Some (o1, s1, f1)" "i2c_run bd es s1 f1 = Some (o2, s', f')" "out = o1 @ o2"
    using Cons.prems(1) by (auto simp: bind_eq_Some_conv)
  have "o1 = []" using r(1) Cons.prems(2) by (cases e) (auto simp: bind_eq_Some_conv)
  then show ?case using Cons.IH [OF r(2)] Cons.prems(2) r(3) by simp
qed simp

text \<open>The hooks of a whole combined transaction, and the bytes they give.\<close>

lemma combined_hooks:
  assumes "int_main h" "hooks_owed h = []"
    and "filter (\<lambda>a. a \<noteq> Act_Ev) w = map Act_Byte (GD32_BRIDGE_I2C_REG_CMD # frame)" "set r \<subseteq> {Act_Ev, Act_Shift}"
    and "i2c_bus_run bd (Act_Write # w @ Act_Read # r @ Act_Stop # replicate k Act_Ev) (h, s, f) = Some (out, hooks, h', s', f')"
    and "hooks_owed h' = []"
  obtains m rest where "i2c_run bd (i2c_write frame @ i2c_read m) s f = Some (out @ rest, s', f')"
    "length out = length (filter (\<lambda>a. a = Act_Shift) r)" "tdata h' = None" "\<not> int_ti h'"
proof -
  let ?h0 = "h\<lparr>stat_addsend := True, stat_tr := False\<rparr>"
  have run: "i2c_bus_run bd (w @ Act_Read # r @ Act_Stop # replicate k Act_Ev) (?h0, s, f) = Some (out, hooks, h', s', f')"
    using assms(5) by (auto simp: bind_eq_Some_conv split: if_splits)
  obtain out1 hooks1 h1 s1 f1 out2 hooks2 where w: "i2c_bus_run bd w (?h0, s, f) = Some (out1, hooks1, h1, s1, f1)"
    "i2c_bus_run bd (Act_Read # r @ Act_Stop # replicate k Act_Ev) (h1, s1, f1) = Some (out2, hooks2, h', s', f')"
    "out = out1 @ out2" "hooks = hooks1 @ hooks2" by (rule bus_run_append [OF run])
  let ?h1 = "h1\<lparr>stat_addsend := True, stat_tr := True\<rparr>"
  have run2: "i2c_bus_run bd (r @ Act_Stop # replicate k Act_Ev) (?h1, s1, f1) = Some (out2, hooks2, h', s', f')"
    using w(2) by (auto simp: bind_eq_Some_conv split: if_splits)
  have na: "\<not> stat_addsend h1" using w(2) by (auto split: if_splits)
  obtain out3 hooks3 h2 s2 f2 out4 hooks4 where r: "i2c_bus_run bd r (?h1, s1, f1) = Some (out3, hooks3, h2, s2, f2)"
    "i2c_bus_run bd (Act_Stop # replicate k Act_Ev) (h2, s2, f2) = Some (out4, hooks4, h', s', f')"
    "out2 = out3 @ out4" "hooks2 = hooks3 @ hooks4" by (rule bus_run_append [OF run2])
  have st: "\<not> stat_addsend h2" "i2c_bus_run bd (replicate k Act_Ev) (h2\<lparr>stat_stpdet := True, stat_nack := True\<rparr>, s2, f2) = Some (out4, hooks4, h', s', f')"
    using r(2) by (auto simp: bind_eq_Some_conv split: if_splits)
  have nr: "Act_Read \<notin> set w"
  proof
    assume "Act_Read \<in> set w"
    then have "Act_Read \<in> set (filter (\<lambda>a. a \<noteq> Act_Ev) w)" by simp
    then show False unfolding assms(3) by auto
  qed
  have w0: "out1 = []" "Tx_Byte \<notin> set hooks1" using bus_run_write_phase [OF w(1) _ nr] by simp_all
  have cf: "concat (map hooks_for w) = map Rx_Byte (GD32_BRIDGE_I2C_REG_CMD # frame)"
  proof -
    have "concat (map hooks_for w) = concat (map hooks_for (filter (\<lambda>a. a \<noteq> Act_Ev) w))" by (induction w) auto
    also have "\<dots> = map Rx_Byte (GD32_BRIDGE_I2C_REG_CMD # frame)" unfolding assms(3) by (simp add: comp_def)
    finally show ?thesis .
  qed
  have "hooks_owed ?h0 = [Write_Start]" using assms(2) by (auto simp: hooks_owed_Nil hooks_owed_def)
  moreover have "filter (\<lambda>e. e \<noteq> Tx_Byte) hooks1 = hooks1" using w0(2) by (auto simp: filter_id_conv)
  ultimately have hw: "hooks1 @ hooks_owed h1 = i2c_write frame" and m1: "int_main h1"
    using bus_run_owed [OF w(1)] assms(1) cf by (simp_all add: i2c_write_def)
  have ow: "hooks_owed ?h1 = hooks_owed h1 @ [Write_End]" using na by (simp add: hooks_owed_def)
  obtain m bs where rd: "hooks3 = hooks_owed ?h1 @ replicate m Tx_Byte" "i2c_run bd hooks3 s1 f1 = Some (bs, s2, f2)"
    "bs = out3 @ td h2" "hooks_owed h2 = []" "int_main h2" "length out3 = length (filter (\<lambda>a. a = Act_Shift) r)"
    using bus_run_read_start [OF r(1) _ _ _ assms(4)] m1 st(1) by auto
  have sp: "hooks4 = [Write_End]" "out4 = []" "tdata h' = None" "\<not> int_ti h'"
    using bus_run_stop [OF st(2) _ _ _ _ assms(6)] rd(4,5) by (simp_all add: hooks_owed_Nil)
  have all: "hooks1 @ hooks3 @ hooks4 = i2c_write frame @ i2c_read m"
    using rd(1) sp(1) ow hw by (simp add: i2c_read_def)
  obtain b1 where b1: "i2c_run bd hooks1 s f = Some (b1, s1, f1)" using bus_run_hooks [OF w(1)] by blast
  then have "b1 = []" using run_without_tx w0(2) by blast
  obtain b4 where b4: "i2c_run bd hooks4 s2 f2 = Some (b4, s', f')" using bus_run_hooks [OF st(2)] by blast
  then have "b4 = []" using run_without_tx [OF b4] sp(1) by simp
  have "i2c_run bd (hooks1 @ hooks3 @ hooks4) s f = Some (bs, s', f')"
    using b1 b4 rd(2) \<open>b1 = []\<close> \<open>b4 = []\<close> by (simp add: i2c_run_append)
  then show thesis unfolding all using that [of m "td h2"] rd(3,6) sp w0(1) w(3) r(3) by simp
qed

text \<open>A served peripheral and a demonstration trace in which every action is served at once.\<close>

definition demo_i2c :: i2c_hw where
  "demo_i2c = \<lparr>rdata = None, stat_addsend = False, stat_tr = False, stat_stpdet = False, tdata = None, stat_nack = False, stat_berr = False,
     stat_ouerr = False, stat_timeout = False, stat_other = False, int_main = True, int_ti = False, i2cen = True, timing = None,
     bridge_i2c_timeout_recoveries = 0, bridge_i2c_reset_escalations = 0, bridge_i2c_stuck_sda_escalations = 0, diag_berr = 0,
     diag_ouerr = 0, diag_timeout = 0, diag_stuck_release = 0, i2c_sda_low_ticks = 0\<rparr>"

lemma bus_byte_served:
  assumes "rdata h = None" "\<not> stat_addsend h" "\<not> stat_stpdet h" "int_main h"
  shows "i2c_bus_run bd (Act_Byte b # Act_Ev # as) (h, s, f) =
    do { (out, hooks, st) \<leftarrow> i2c_bus_run bd as (h, i2c_slave_rx_byte b s, f); Some (out, Rx_Byte b # hooks, st) }"
  using assms
  by (cases h) (simp add: BRIDGE_I2C_EV_HANDLER_def i2c_event_pending_def bridge_i2c_event_select_def hook_due_def bind_assoc case_prod_unfold)

lemma bus_bytes_served:
  assumes "rdata h = None" "\<not> stat_addsend h" "\<not> stat_stpdet h" "int_main h"
  shows "i2c_bus_run bd (concat (map (\<lambda>b. [Act_Byte b, Act_Ev]) bs) @ as) (h, s, f) =
    do { (out, hooks, st) \<leftarrow> i2c_bus_run bd as (h, fold i2c_slave_rx_byte bs s, f); Some (out, map Rx_Byte bs @ hooks, st) }"
proof (induction bs arbitrary: s)
  case Nil
  then show ?case by (simp add: case_prod_unfold)
next
  case (Cons b bs)
  then show ?case by (simp add: bus_byte_served [OF assms] bind_assoc case_prod_unfold del: i2c_bus_run.simps)
qed

lemma demo_i2c_trace:
  "\<exists>hooks h' s'. i2c_bus_run demo_board (Act_Write # (Act_Ev # concat (map (\<lambda>b. [Act_Byte b, Act_Ev]) (0 # i2c_frame 0x01 []))) @
       Act_Read # [Act_Ev, Act_Ev, Act_Shift, Act_Ev] @ Act_Stop # replicate 2 Act_Ev) (demo_i2c, i2c_reset, demo_fw) =
     Some ([0], hooks, h', s', demo_fw) \<and> hooks_owed h' = []"
proof -
  let ?s = "i2c_slave_write_start i2c_reset" and ?rx = "0 # i2c_frame 0x01 []"
  have rx: "fold i2c_slave_rx_byte ?rx ?s = ?s\<lparr>i2c_rx := ?rx\<rparr>"
    using i2c_run_rx [of ?s ?rx] by (simp add: i2c_slave_write_start_def i2c_reset_def i2c_frame_def crc_frame_def bytes16_def i2c_slave_rx_byte_def)
  have d: "protocol_dispatch demo_board GD32_BRIDGE_LINK_I2C 0x01 [] 65 demo_fw = Some (STATUS_OK, [0, 14, 1], demo_fw)"
    by (rule demo_get_version)
  let ?s1 = "?s\<lparr>i2c_rx := ?rx, i2c_tx := i2c_frame 0 [0, 14, 1], i2c_tx_cursor := 0, pending_reply_valid := True\<rparr>"
  have e: "i2c_slave_write_end demo_board (?s\<lparr>i2c_rx := ?rx\<rparr>) demo_fw = Some (True, ?s1, demo_fw)"
    using write_end_good [OF demo_fw_inv, of "[]" "?s\<lparr>i2c_rx := ?rx\<rparr>" "0x01"] d
    by (auto simp: i2c_slave_write_start_def i2c_reset_def)
  have fr: "i2c_frame 0 [0, 14, 1] = 0 # 0 # 14 # 1 # bytes16 (crc16_ccitt_false [0, 0, 14, 1])"
    by (simp add: i2c_frame_def crc_frame_def)
  have w: "i2c_bus_run demo_board (concat (map (\<lambda>b. [Act_Byte b, Act_Ev]) ?rx) @ as) (demo_i2c, ?s, demo_fw) =
      do { (out, hooks, st) \<leftarrow> i2c_bus_run demo_board as (demo_i2c, ?s\<lparr>i2c_rx := ?rx\<rparr>, demo_fw); Some (out, map Rx_Byte ?rx @ hooks, st) }" for as
    using bus_bytes_served [of demo_i2c demo_board ?rx "as" ?s demo_fw] rx by (simp add: demo_i2c_def)
  note ev = BRIDGE_I2C_EV_HANDLER_def i2c_event_pending_def bridge_i2c_event_select_def hook_due_def stat_ti_def
  have r: "\<exists>hooks h' s'. i2c_bus_run demo_board ([Act_Read] @ [Act_Ev, Act_Ev, Act_Shift, Act_Ev] @ Act_Stop # replicate 2 Act_Ev)
      (demo_i2c, ?s\<lparr>i2c_rx := ?rx\<rparr>, demo_fw) = Some ([0], hooks, h', s', demo_fw) \<and> hooks_owed h' = []"
    using e by (simp add: ev demo_i2c_def fr numeral_2_eq_2 i2c_slave_tx_next_byte_def hooks_owed_def i2c_slave_write_end_def)
  have st: "i2c_bus_run demo_board (Act_Write # Act_Ev # as) (demo_i2c, i2c_reset, demo_fw) =
      do { (out, hooks, st) \<leftarrow> i2c_bus_run demo_board as (demo_i2c, ?s, demo_fw); Some (out, Write_Start # hooks, st) }" for as
    by (simp add: ev demo_i2c_def bind_assoc case_prod_unfold)
  show ?thesis using r w st by (auto simp del: i2c_bus_run.simps)
qed

section \<open>Properties\<close>

text \<open>
  C9: The event interrupt serves the bus in order.  Along any sequence of the master's actions that clock stretching
  allows, interleaved in any way with invocations of the interrupt, the framing hooks it has called, followed by those still
  owed for pending flags, are those the master's actions call for, in the order of the bus; the framing state and the
  firmware are what those hooks make of them.  So no late invocation drops the last byte of a write at a repeated start
  or lets a stop overtake the next address.
\<close>

theorem i2c_hooks_in_bus_order:
  assumes "i2c_bus_run bd as (h, s, f) = Some (out, hooks, h', s', f')" "int_main h" "hooks_owed h = []"
  shows "filter (\<lambda>e. e \<noteq> Tx_Byte) hooks @ hooks_owed h' = concat (map hooks_for as) \<and> (\<exists>bs. i2c_run bd hooks s f = Some (bs, s', f'))"
  using bus_run_owed [OF assms(1,2)] bus_run_hooks [OF assms(1)] assms(3) by simp

theorem i2c_hooks_in_bus_order_witness:
  "\<exists>hooks h' s'. i2c_bus_run demo_board [Act_Write, Act_Ev, Act_Byte 7, Act_Stop, Act_Write, Act_Ev, Act_Ev] (demo_i2c, i2c_reset, demo_fw) =
       Some ([], hooks, h', s', demo_fw) \<and>
     filter (\<lambda>e. e \<noteq> Tx_Byte) hooks @ hooks_owed h' = [Write_Start, Rx_Byte 7, Write_End, Write_Start] \<and> hooks_owed h' = [Write_Start]"
proof -
  note ev = BRIDGE_I2C_EV_HANDLER_def i2c_event_pending_def bridge_i2c_event_select_def hook_due_def stat_ti_def
  obtain hooks h' s' where r: "i2c_bus_run demo_board [Act_Write, Act_Ev, Act_Byte 7, Act_Stop, Act_Write, Act_Ev, Act_Ev]
      (demo_i2c, i2c_reset, demo_fw) = Some ([], hooks, h', s', demo_fw)" "hooks_owed h' = [Write_Start]"
    by (simp add: ev demo_i2c_def i2c_reset_def i2c_slave_write_start_def i2c_slave_rx_byte_def i2c_slave_write_end_def hooks_owed_def)
  have "int_main demo_i2c" "hooks_owed demo_i2c = []" by (simp_all add: demo_i2c_def hooks_owed_def)
  from i2c_hooks_in_bus_order [OF r(1) this] r show ?thesis by (auto simp del: i2c_bus_run.simps)
qed

text \<open>
  C29: I2C round trip on the bus.  For a write of a request frame followed by a repeated-start read of any number of bytes and a
  stop, with the interrupt running at any moments the bus allows, as long as everything has been served at the end, the
  master reads the status and reply of exactly that command with a valid CRC, then idle bytes; no fetched byte
  is left behind for the next read.
\<close>

theorem i2c_bus_roundtrip:
  assumes "fw_inv bd f" "length payload \<le> GD32_BRIDGE_MAX_PAYLOAD_BYTES" "int_main h" "hooks_owed h = []"
    and "filter (\<lambda>a. a \<noteq> Act_Ev) w = map Act_Byte (GD32_BRIDGE_I2C_REG_CMD # i2c_frame cmd payload)" "set r \<subseteq> {Act_Ev, Act_Shift}"
    and "i2c_bus_run bd (Act_Write # w @ Act_Read # r @ Act_Stop # replicate k Act_Ev) (h, s, f) = Some (out, hooks, h', s', f')"
    and "hooks_owed h' = []"
  shows "\<exists>st rep. protocol_dispatch bd GD32_BRIDGE_LINK_I2C cmd payload GD32_BRIDGE_MAX_PAYLOAD_BYTES f = Some (st, rep, f') \<and>
    out = clocked (length (filter (\<lambda>a. a = Act_Shift) r)) (i2c_frame (status_code st) rep) \<and> tdata h' = None \<and> \<not> int_ti h'"
proof -
  obtain m rest where c: "i2c_run bd (i2c_write (i2c_frame cmd payload) @ i2c_read m) s f = Some (out @ rest, s', f')"
    "length out = length (filter (\<lambda>a. a = Act_Shift) r)" "tdata h' = None" "\<not> int_ti h'"
    by (rule combined_hooks [OF assms(3-8)])
  obtain st rep f'' s3 where d: "protocol_dispatch bd GD32_BRIDGE_LINK_I2C cmd payload GD32_BRIDGE_MAX_PAYLOAD_BYTES f = Some (st, rep, f'')"
    "i2c_run bd (i2c_write (i2c_frame cmd payload) @ i2c_read m) s f = Some (clocked m (i2c_frame (status_code st) rep), s3, f'')"
    using write_then_read [OF assms(1,2), of cmd m s] by metis
  have bs: "out @ rest = clocked m (i2c_frame (status_code st) rep)" "f'' = f'" using c(1) d(2) by simp_all
  have "length out \<le> m" using arg_cong [OF bs(1), of length] by simp
  then have "out = clocked (length out) (i2c_frame (status_code st) rep)"
    using arg_cong [OF bs(1), of "take (length out)"] by (simp add: min_def split: if_splits)
  then show ?thesis using d(1) bs(2) c(2-4) by auto
qed

theorem i2c_bus_roundtrip_witness:
  "\<exists>hooks h' s'. i2c_bus_run demo_board (Act_Write # (Act_Ev # concat (map (\<lambda>b. [Act_Byte b, Act_Ev]) (0 # i2c_frame 0x01 []))) @
       Act_Read # [Act_Ev, Act_Ev, Act_Shift, Act_Ev] @ Act_Stop # replicate 2 Act_Ev) (demo_i2c, i2c_reset, demo_fw) =
     Some (take 1 (i2c_frame 0 [0, 14, 1]), hooks, h', s', demo_fw) \<and> tdata h' = None"
proof -
  obtain hooks h' s' where r: "i2c_bus_run demo_board (Act_Write # (Act_Ev # concat (map (\<lambda>b. [Act_Byte b, Act_Ev]) (0 # i2c_frame 0x01 []))) @
       Act_Read # [Act_Ev, Act_Ev, Act_Shift, Act_Ev] @ Act_Stop # replicate 2 Act_Ev) (demo_i2c, i2c_reset, demo_fw) =
     Some ([0], hooks, h', s', demo_fw)" "hooks_owed h' = []" using demo_i2c_trace by blast
  have q: "int_main demo_i2c" "hooks_owed demo_i2c = []" by (simp_all add: demo_i2c_def hooks_owed_def)
  have w: "filter (\<lambda>a. a \<noteq> Act_Ev) (Act_Ev # concat (map (\<lambda>b. [Act_Byte b, Act_Ev]) bs)) = map Act_Byte bs" for bs
    by (induction bs) auto
  have d: "protocol_dispatch demo_board GD32_BRIDGE_LINK_I2C 0x01 [] 65 demo_fw = Some (STATUS_OK, [0, 14, 1], demo_fw)"
    by (rule demo_get_version)
  from i2c_bus_roundtrip [OF demo_fw_inv _ q w _ r(1,2)] d show ?thesis
    using r(1) by (auto simp del: i2c_bus_run.simps)
qed



text \<open>
  C33: The I2C timing registers are right for the clock they were derived from.  Whenever the derivation succeeds its fields fit
  their four bits and, with the exact clock period, the data set-up delay covers 400 ns and the hold delay with the
  three-cycle filter term covers 300 ns, in spite of the truncated picosecond arithmetic; the stretch
  timeout it programs lies between 25 ms and 35 ms.  Both succeed at every clock from 4 MHz to 216 MHz, which covers
  the wake-up clock, so bring-up does not refuse there; below 4 MHz it refuses and leaves the peripheral as it was.
\<close>

theorem i2c_timing_sound:
  "(\<forall>psc scl sda. i2c_timing_derive hz = Some (psc, scl, sda) \<longrightarrow>
      psc \<le> I2C_TIMING_FIELD_MAX \<and> scl \<le> I2C_TIMING_FIELD_MAX \<and> sda \<le> I2C_TIMING_FIELD_MAX \<and>
      400000 * unat hz \<le> (scl + 1) * (psc + 1) * 1000000000000 \<and> 300000 * unat hz \<le> (sda * (psc + 1) + 3) * 1000000000000) \<and>
   (\<forall>reload. bridge_i2c_stretch_timeout_reload hz = Some reload \<longrightarrow> unat reload \<le> I2C_TIMEOUT_RELOAD_MAX \<and>
      25000 * unat hz \<le> (unat reload + 1) * 2048 * 1000000 \<and> (unat reload + 1) * 2048 * 1000000 \<le> 35000 * unat hz) \<and>
   (unat hz < I2C_APB1_MIN_HZ_FAST_MODE \<longrightarrow> bridge_transport_i2c_hw_init hz h = (BRIDGE_HW_ERR_RANGE, h)) \<and>
   (4000000 \<le> unat hz \<and> unat hz \<le> 216000000 \<longrightarrow> fst (bridge_transport_i2c_hw_init hz h) = BRIDGE_HW_OK)"
  using timing_derive_sound reload_sound timing_accepts
  by (auto simp: bridge_transport_i2c_hw_init_def i2c_timing_derive_def simp del: One_nat_def)

theorem i2c_timing_sound_witness:
  "i2c_timing_derive 216000000 = Some (15, 5, 4) \<and> 400000 * 216000000 \<le> (5 + 1) * (15 + 1) * (1000000000000 :: nat) \<and>
   i2c_timing_derive 8000000 = Some (0, 3, 0) \<and> fst (bridge_transport_i2c_hw_init 8000000 demo_i2c) = BRIDGE_HW_OK \<and>
   bridge_transport_i2c_hw_init 3999999 demo_i2c = (BRIDGE_HW_ERR_RANGE, demo_i2c)"
proof -
  have d: "i2c_timing_derive 216000000 = Some (15, 5, 4)" "i2c_timing_derive 8000000 = Some (0, 3, 0)" by (simp_all add: i2c_timing_derive_def)
  with i2c_timing_sound [of "216000000" demo_i2c] i2c_timing_sound [of "8000000" demo_i2c] i2c_timing_sound [of "3999999" demo_i2c]
  show ?thesis by simp
qed

text \<open>
  The stuck-line poll.  Without two successive polls that find the data line low under a high clock in all four samples it
  touches neither the peripheral nor a staged reply; after two it releases the bus and drops the reply.
\<close>

abbreviation (input) stuck :: "(nat \<Rightarrow> bool \<times> bool) \<Rightarrow> bool" where
  "stuck wire \<equiv> list_all (\<lambda>k. \<not> (fst (wire k) \<or> \<not> snd (wire k))) [0..<BRIDGE_I2C_STUCK_SAMPLES]"

lemma stuck_poll_confirms:
  assumes "i2c_sda_low_ticks h = 0" "successively (\<lambda>v w. \<not> (stuck v \<and> stuck w)) ws"
  shows "fold (\<lambda>w. bridge_transport_i2c_stuck_poll w en hz) ws (h, s) =
    (h\<lparr>i2c_sda_low_ticks := if ws \<noteq> [] \<and> stuck (last ws) then 1 else 0\<rparr>, s)"
  using assms(2)
proof (induction ws rule: rev_induct)
  case Nil
  then show ?case using assms(1) by simp
next
  case (snoc w ws)
  have "fold (\<lambda>w. bridge_transport_i2c_stuck_poll w en hz) ws (h, s) =
      (h\<lparr>i2c_sda_low_ticks := if ws \<noteq> [] \<and> stuck (last ws) then 1 else 0\<rparr>, s)"
    using snoc by (simp add: successively_append_iff)
  moreover have "\<not> (ws \<noteq> [] \<and> stuck (last ws) \<and> stuck w)" using snoc.prems by (auto simp: successively_append_iff)
  ultimately show ?case by (auto simp: bridge_transport_i2c_stuck_poll_def Let_def simp del: upt_rec_numeral)
qed

lemma stuck_twice_releases:
  assumes "i2c_sda_low_ticks h = 0" "stuck v" "stuck w"
  shows "bridge_transport_i2c_stuck_poll w en hz (bridge_transport_i2c_stuck_poll v en hz (h, s)) =
    (bridge_i2c_force_bus_release en hz (h\<lparr>i2c_sda_low_ticks := 0, diag_stuck_release := diag_stuck_release h + 1\<rparr>), i2c_slave_tx_abort s)"
  using assms by (simp add: bridge_transport_i2c_stuck_poll_def Let_def del: upt_rec_numeral)

end
