(* ===== verification/Dsp_Chain.thy ===== *)
theory Dsp_Chain
  imports Hal
begin

unbundle bit_operations_syntax

text \<open>
  The DSP-chain pool of \<open>hal/gd32/adc_dsp_chain.c\<close>: chunked upload of stage blobs, validation of
  a chain against what the filter and FFT blocks can realise, and its attachment to a stream.
  Accesses to a stage's coverage bitmap and data buffer are bounds-checked; \<open>None\<close> is an access
  outside the arrays.  Stage indices and the sentinel \<open>BRIDGE_DSP_MAX_STAGES\<close> are naturals.
\<close>

section \<open>State\<close>

abbreviation (input) "BRIDGE_DSP_MAX_CHAINS \<equiv> (4 :: nat)"
abbreviation (input) "BRIDGE_DSP_MAX_STAGES \<equiv> (4 :: nat)"
abbreviation (input) "BRIDGE_DSP_MAX_STAGE_BYTES \<equiv> (260 :: nat)"
abbreviation (input) "BRIDGE_DSP_STAGE_COVERAGE_BYTES \<equiv> (33 :: nat)"
abbreviation (input) "BRIDGE_DSP_KIND_MAX \<equiv> (3 :: u8)"
abbreviation (input) "BRIDGE_DSP_MAX_FIR_TAPS \<equiv> (64 :: u8)"
abbreviation (input) "BRIDGE_DSP_MAX_IIR_SECTIONS \<equiv> (8 :: u8)"
abbreviation (input) "BRIDGE_DSP_MIN_FFT_POINTS \<equiv> (32 :: u16)"
abbreviation (input) "BRIDGE_DSP_MAX_FFT_POINTS \<equiv> (1024 :: u16)"
abbreviation (input) "BRIDGE_DSP_COEFF_FMT_MAX \<equiv> (1 :: u8)"
abbreviation (input) "BRIDGE_DSP_WINDOW_SHAPE_MAX \<equiv> (3 :: u8)"
abbreviation (input) "BRIDGE_DSP_FFT_OUT_FMT_MAX \<equiv> (2 :: u8)"
abbreviation (input) "BRIDGE_DSP_STAGE_HDR_BYTES \<equiv> (4 :: u16)"
abbreviation (input) "BRIDGE_ADC_STREAM_COUNT \<equiv> (2 :: nat)"
abbreviation (input) "KIND_FIR \<equiv> (0 :: u8)"
abbreviation (input) "KIND_IIR \<equiv> (1 :: u8)"
abbreviation (input) "KIND_WINDOW \<equiv> (2 :: u8)"
abbreviation (input) "KIND_FFT \<equiv> (3 :: u8)"

record adc_dsp_stage =
  kind :: u8
  total_size :: u16
  bytes_received :: u16
  complete :: bool
  coverage :: bytes
  data :: bytes

record adc_dsp_chain =
  chain_in_use :: bool
  chain_bound :: bool
  stages :: "adc_dsp_stage list"

text \<open>The per-consumer position tracker and the stream slot of \<open>hal/gd32/gd32_common.h\<close>; the
  DMA controller, channel and pacing timer of a slot are functions of its index.\<close>

record adc_dma_pos =
  pos_laps :: u32
  pos_w :: u16
  pos_valid :: bool

record adc_stream_state =
  in_use :: bool
  channel :: u8
  full_scale :: u16
  ring :: "u16 list"
  read_idx :: u16
  lap_count :: u32
  dma_error_count :: u32
  total_read :: u32
  rd_pos :: adc_dma_pos
  pump_pos :: adc_dma_pos
  dsp_chain_id :: u8
  dsp_bound :: bool
  proc_ring :: "u16 list"
  proc_write :: u32
  proc_read :: u32
  proc_gap :: bool
  pump_raw_read :: u32
  dsp_terminal :: u8
  dsp_cfg_bad :: bool
  dsp_sat :: bool

definition zero_stage :: adc_dsp_stage where
  "zero_stage = \<lparr>kind = 0, total_size = 0, bytes_received = 0, complete = False,
     coverage = replicate BRIDGE_DSP_STAGE_COVERAGE_BYTES 0, data = replicate BRIDGE_DSP_MAX_STAGE_BYTES 0\<rparr>"

section \<open>Allocation\<close>

definition adc_dsp_chain_release :: "u8 \<Rightarrow> adc_dsp_chain list \<Rightarrow> adc_dsp_chain list" where
  "adc_dsp_chain_release chain_id pool =
     (if unat chain_id \<ge> BRIDGE_DSP_MAX_CHAINS then pool
      else pool[unat chain_id := (pool ! unat chain_id)\<lparr>chain_bound := False, chain_in_use := False\<rparr>])"

definition adc_dsp_chain_open :: "adc_dsp_chain list \<Rightarrow> int \<times> u8 \<times> adc_dsp_chain list" where
  "adc_dsp_chain_open pool =
     (case find (\<lambda>i. \<not> chain_in_use (pool ! i)) [0..<BRIDGE_DSP_MAX_CHAINS] of
        Some i \<Rightarrow> (BRIDGE_HW_OK, of_nat i,
          pool[i := \<lparr>chain_in_use = True, chain_bound = False, stages = replicate BRIDGE_DSP_MAX_STAGES zero_stage\<rparr>])
      | None \<Rightarrow> (BRIDGE_HW_ERR_NOTIMPL, 0, pool))"

section \<open>Stage blobs\<close>

definition adc_dsp_stage_blob_valid :: "adc_dsp_stage \<Rightarrow> bool option" where
  "adc_dsp_stage_blob_valid st =
     (if total_size st < BRIDGE_DSP_STAGE_HDR_BYTES then Some False
      else do {
        d0 \<leftarrow> rd (data st) 0;
        d1 \<leftarrow> rd (data st) 1;
        d2 \<leftarrow> rd (data st) 2;
        Some (if kind st = KIND_FIR then
                \<not> d0 > BRIDGE_DSP_COEFF_FMT_MAX \<and> \<not> (d1 = 0 \<or> d1 > BRIDGE_DSP_MAX_FIR_TAPS) \<and>
                total_size st = BRIDGE_DSP_STAGE_HDR_BYTES + ucast d1 * 4
              else if kind st = KIND_IIR then
                \<not> d0 > BRIDGE_DSP_COEFF_FMT_MAX \<and> \<not> (d1 = 0 \<or> d1 > BRIDGE_DSP_MAX_IIR_SECTIONS) \<and>
                total_size st = BRIDGE_DSP_STAGE_HDR_BYTES + ucast d1 * 5 * 4
              else if kind st = KIND_WINDOW then
                \<not> d0 > BRIDGE_DSP_WINDOW_SHAPE_MAX \<and> total_size st = BRIDGE_DSP_STAGE_HDR_BYTES
              else if kind st = KIND_FFT then
                (let n_points = le16 d0 d1
                 in \<not> d2 > BRIDGE_DSP_FFT_OUT_FMT_MAX \<and>
                    \<not> (n_points < BRIDGE_DSP_MIN_FFT_POINTS \<or> n_points > BRIDGE_DSP_MAX_FFT_POINTS) \<and>
                    n_points AND (n_points - 1) = 0 \<and> total_size st = BRIDGE_DSP_STAGE_HDR_BYTES)
              else False) })"

definition adc_dsp_stage_byte_received :: "adc_dsp_stage \<Rightarrow> nat \<Rightarrow> bool option" where
  "adc_dsp_stage_byte_received st offset =
     do { c \<leftarrow> rd (coverage st) (offset div 8); Some (c AND push_bit (offset mod 8) 1 \<noteq> 0) }"

definition adc_dsp_stage_mark_byte_received :: "adc_dsp_stage \<Rightarrow> nat \<Rightarrow> adc_dsp_stage option" where
  "adc_dsp_stage_mark_byte_received st offset =
     do { c \<leftarrow> rd (coverage st) (offset div 8);
          Some (st\<lparr>coverage := (coverage st)[offset div 8 := c OR push_bit (offset mod 8) 1]\<rparr>) }"

text \<open>The overlap check: is some byte of the chunk already received with another value?\<close>

fun conflicting_overlap :: "adc_dsp_stage \<Rightarrow> nat \<Rightarrow> bytes \<Rightarrow> bool option" where
  "conflicting_overlap st offset [] = Some False"
| "conflicting_overlap st offset (b # bs) = do {
     r \<leftarrow> adc_dsp_stage_byte_received st offset;
     differs \<leftarrow> (if r then do { d \<leftarrow> rd (data st) offset; Some (d \<noteq> b) } else Some False);
     if differs then Some True else conflicting_overlap st (Suc offset) bs }"

fun store_chunk :: "adc_dsp_stage \<Rightarrow> nat \<Rightarrow> bytes \<Rightarrow> adc_dsp_stage option" where
  "store_chunk st offset [] = Some st"
| "store_chunk st offset (b # bs) = do {
     r \<leftarrow> adc_dsp_stage_byte_received st offset;
     if r then store_chunk st (Suc offset) bs
     else if offset \<ge> length (data st) then None
     else do {
       st1 \<leftarrow> adc_dsp_stage_mark_byte_received (st\<lparr>data := (data st)[offset := b]\<rparr>) offset;
       store_chunk (st1\<lparr>bytes_received := bytes_received st1 + 1\<rparr>) (Suc offset) bs } }"

text \<open>What a push does to its stage once the arguments, the chain and its state have been checked.\<close>

definition restarted_stage :: "u8 \<Rightarrow> u16 \<Rightarrow> adc_dsp_stage" where
  "restarted_stage k tot = zero_stage\<lparr>kind := k, total_size := tot\<rparr>"

definition stage_accept :: "u8 \<Rightarrow> u16 \<Rightarrow> u16 \<Rightarrow> bytes \<Rightarrow> adc_dsp_stage \<Rightarrow> (int \<times> adc_dsp_stage) option" where
  "stage_accept k off tot chunk st =
     (if total_size st \<noteq> 0 \<and> (kind st \<noteq> k \<or> total_size st \<noteq> tot) \<and> off \<noteq> 0
      then Some (BRIDGE_HW_ERR_INVAL, st)
      else do {
        let st1 = (if total_size st = 0
                   then st\<lparr>kind := k, total_size := tot, bytes_received := 0, complete := False\<rparr>
                   else if kind st \<noteq> k \<or> total_size st \<noteq> tot then restarted_stage k tot else st);
        conflict \<leftarrow> conflicting_overlap st1 (unat off) chunk;
        if conflict \<and> (off \<noteq> 0 \<or> length chunk \<noteq> unat tot) then Some (BRIDGE_HW_ERR_INVAL, st1)
        else do {
          let st2 = (if conflict then restarted_stage k tot else st1);
          st3 \<leftarrow> store_chunk st2 (unat off) chunk;
          Some (BRIDGE_HW_OK, st3\<lparr>complete := (bytes_received st3 = total_size st3)\<rparr>) } })"

definition adc_dsp_stage_push ::
  "u8 \<Rightarrow> u8 \<Rightarrow> u8 \<Rightarrow> u16 \<Rightarrow> u16 \<Rightarrow> bytes \<Rightarrow> adc_dsp_chain list \<Rightarrow> (int \<times> adc_dsp_chain list) option" where
  "adc_dsp_stage_push chain_id stage_index k off tot chunk pool =
     (if unat chain_id \<ge> BRIDGE_DSP_MAX_CHAINS then Some (BRIDGE_HW_ERR_RANGE, pool)
      else if unat stage_index \<ge> BRIDGE_DSP_MAX_STAGES then Some (BRIDGE_HW_ERR_RANGE, pool)
      else if k > BRIDGE_DSP_KIND_MAX then Some (BRIDGE_HW_ERR_INVAL, pool)
      else if tot = 0 then Some (BRIDGE_HW_ERR_INVAL, pool)
      else if unat tot > BRIDGE_DSP_MAX_STAGE_BYTES then Some (BRIDGE_HW_ERR_RANGE, pool)
      else if length chunk = 0 then Some (BRIDGE_HW_ERR_INVAL, pool)
      else if off > tot then Some (BRIDGE_HW_ERR_RANGE, pool)
      else if length chunk > unat tot - unat off then Some (BRIDGE_HW_ERR_RANGE, pool)
      else let chain = pool ! unat chain_id
           in if \<not> chain_in_use chain then Some (BRIDGE_HW_ERR_INVAL, pool)
              else if chain_bound chain then Some (BRIDGE_HW_ERR_INVAL, pool)
              else do {
                (rc, st) \<leftarrow> stage_accept k off tot chunk (stages chain ! unat stage_index);
                Some (rc, pool[unat chain_id := chain\<lparr>stages := (stages chain)[unat stage_index := st]\<rparr>]) })"

section \<open>Binding\<close>

definition adc_dsp_filter_stream_busy :: "nat \<Rightarrow> adc_stream_state list \<Rightarrow> bool" where
  "adc_dsp_filter_stream_busy except_stream streams \<longleftrightarrow>
     (\<exists>i \<in> set [0..<BRIDGE_ADC_STREAM_COUNT]. i \<noteq> except_stream \<and>
        in_use (streams ! i) \<and> dsp_bound (streams ! i) \<and> dsp_terminal (streams ! i) \<noteq> KIND_FFT)"

definition adc_dsp_fft_stream_busy :: "nat \<Rightarrow> adc_stream_state list \<Rightarrow> bool" where
  "adc_dsp_fft_stream_busy except_stream streams \<longleftrightarrow>
     (\<exists>i \<in> set [0..<BRIDGE_ADC_STREAM_COUNT]. i \<noteq> except_stream \<and>
        in_use (streams ! i) \<and> dsp_bound (streams ! i) \<and> dsp_terminal (streams ! i) = KIND_FFT)"

abbreviation (input) populated :: "adc_dsp_stage \<Rightarrow> bool" where
  "populated st \<equiv> total_size st \<noteq> 0"

text \<open>The first loop of the capability check: the index of the last FFT stage.\<close>

fun scan_fft :: "adc_dsp_stage list \<Rightarrow> nat \<Rightarrow> nat \<Rightarrow> nat" where
  "scan_fft [] i fft = fft"
| "scan_fft (st # sts) i fft = scan_fft sts (Suc i) (if populated st \<and> kind st = KIND_FFT then i else fft)"

text \<open>The second loop: every populated blob is valid.\<close>

fun blobs_valid :: "adc_dsp_stage list \<Rightarrow> bool option" where
  "blobs_valid [] = Some True"
| "blobs_valid (st # sts) =
     (if \<not> populated st then blobs_valid sts
      else do { ok \<leftarrow> adc_dsp_stage_blob_valid st; if ok then blobs_valid sts else Some False })"

text \<open>The last loop: a populated IIR stage has one section.\<close>

fun single_biquads :: "adc_dsp_stage list \<Rightarrow> bool option" where
  "single_biquads [] = Some True"
| "single_biquads (st # sts) =
     (if populated st \<and> kind st = KIND_IIR
      then do { n_sec \<leftarrow> rd (data st) 1; if n_sec \<noteq> 1 then Some False else single_biquads sts }
      else single_biquads sts)"

definition adc_dsp_chain_p1_capable :: "adc_dsp_chain \<Rightarrow> bool option" where
  "adc_dsp_chain_p1_capable chain =
     (let sts = stages chain; fft_index = scan_fft sts 0 BRIDGE_DSP_MAX_STAGES
      in do {
        ok \<leftarrow> blobs_valid sts;
        if \<not> ok then Some False
        else if fft_index \<noteq> BRIDGE_DSP_MAX_STAGES then
          (if \<exists>st \<in> set sts. populated st \<and> kind st \<noteq> KIND_FFT \<and> kind st \<noteq> KIND_WINDOW then Some False
           else do {
             d0 \<leftarrow> rd (data (sts ! fft_index)) 0;
             d1 \<leftarrow> rd (data (sts ! fft_index)) 1;
             Some (\<not> (le16 d0 d1 < BRIDGE_DSP_MIN_FFT_POINTS \<or> le16 d0 d1 > BRIDGE_DSP_MAX_FFT_POINTS)) })
        else if length (filter populated sts) \<noteq> 1 then Some False
        else single_biquads sts })"

text \<open>The structural loop of a bind: the error, or the indices of the FFT, the window and the last stage.\<close>

fun bind_scan :: "adc_dsp_stage list \<Rightarrow> nat \<Rightarrow> nat \<Rightarrow> nat \<Rightarrow> nat \<Rightarrow> (int + nat \<times> nat \<times> nat) option" where
  "bind_scan [] i fft win last_pop = Some (Inr (fft, win, last_pop))"
| "bind_scan (st # sts) i fft win last_pop =
     (if \<not> populated st then bind_scan sts (Suc i) fft win last_pop
      else if \<not> complete st then Some (Inl BRIDGE_HW_ERR_INVAL)
      else do {
        ok \<leftarrow> adc_dsp_stage_blob_valid st;
        if \<not> ok then Some (Inl BRIDGE_HW_ERR_INVAL)
        else if last_pop \<noteq> BRIDGE_DSP_MAX_STAGES \<and> i - last_pop \<noteq> 1 then Some (Inl BRIDGE_HW_ERR_INVAL)
        else if kind st = KIND_FFT then
          (if fft \<noteq> BRIDGE_DSP_MAX_STAGES then Some (Inl BRIDGE_HW_ERR_INVAL) else bind_scan sts (Suc i) i win i)
        else if kind st = KIND_WINDOW then
          (if win \<noteq> BRIDGE_DSP_MAX_STAGES then Some (Inl BRIDGE_HW_ERR_INVAL) else bind_scan sts (Suc i) fft i i)
        else bind_scan sts (Suc i) fft win i })"

definition bind_shape :: "adc_dsp_chain \<Rightarrow> (int + nat) option" where
  "bind_shape chain = do {
     r \<leftarrow> bind_scan (stages chain) 0 BRIDGE_DSP_MAX_STAGES BRIDGE_DSP_MAX_STAGES BRIDGE_DSP_MAX_STAGES;
     case r of
       Inl e \<Rightarrow> Some (Inl e)
     | Inr (fft, win, last_pop) \<Rightarrow>
         Some (if last_pop = BRIDGE_DSP_MAX_STAGES then Inl BRIDGE_HW_ERR_INVAL
               else if fft \<noteq> BRIDGE_DSP_MAX_STAGES then
                 (if fft \<noteq> last_pop then Inl BRIDGE_HW_ERR_INVAL
                  else if win \<noteq> BRIDGE_DSP_MAX_STAGES \<and> (fft = 0 \<or> win \<noteq> fft - 1) then Inl BRIDGE_HW_ERR_INVAL
                  else Inr last_pop)
               else if win \<noteq> BRIDGE_DSP_MAX_STAGES then Inl BRIDGE_HW_ERR_INVAL
               else Inr last_pop) }"

definition attach :: "u8 \<Rightarrow> u8 \<Rightarrow> adc_stream_state \<Rightarrow> adc_stream_state" where
  "attach chain_id terminal_kind s =
     s\<lparr>dsp_terminal := terminal_kind, proc_write := 0, proc_read := 0, proc_gap := False,
       pump_raw_read := total_read s, dsp_chain_id := chain_id, dsp_bound := True\<rparr>"

definition adc_dsp_chain_bind ::
  "u8 \<Rightarrow> u8 \<Rightarrow> adc_dsp_chain list \<Rightarrow> adc_stream_state list \<Rightarrow> (int \<times> adc_dsp_chain list \<times> adc_stream_state list) option" where
  "adc_dsp_chain_bind chain_id stream_id pool streams =
     (if unat chain_id \<ge> BRIDGE_DSP_MAX_CHAINS then Some (BRIDGE_HW_ERR_RANGE, pool, streams)
      else if unat stream_id \<ge> BRIDGE_ADC_STREAM_COUNT then Some (BRIDGE_HW_ERR_RANGE, pool, streams)
      else let chain = pool ! unat chain_id; s = streams ! unat stream_id
           in if \<not> chain_in_use chain then Some (BRIDGE_HW_ERR_INVAL, pool, streams)
              else if chain_bound chain then Some (BRIDGE_HW_ERR_INVAL, pool, streams)
              else do {
                shape \<leftarrow> bind_shape chain;
                case shape of
                  Inl e \<Rightarrow> Some (e, pool, streams)
                | Inr last_pop \<Rightarrow>
                    if \<not> in_use s then Some (BRIDGE_HW_ERR_INVAL, pool, streams)
                    else if dsp_bound s then Some (BRIDGE_HW_ERR_INVAL, pool, streams)
                    else do {
                      capable \<leftarrow> adc_dsp_chain_p1_capable chain;
                      if \<not> capable
                      then Some (BRIDGE_HW_ERR_NOTIMPL, adc_dsp_chain_release chain_id pool, streams)
                      else let terminal_kind = kind (stages chain ! last_pop)
                           in if (if terminal_kind = KIND_FFT then adc_dsp_fft_stream_busy (unat stream_id) streams
                                  else adc_dsp_filter_stream_busy (unat stream_id) streams)
                              then Some (BRIDGE_HW_ERR_NOTIMPL, pool, streams)
                              else Some (BRIDGE_HW_OK,
                                     pool[unat chain_id := chain\<lparr>chain_bound := True\<rparr>],
                                     streams[unat stream_id := attach chain_id terminal_kind s]) } })"

section \<open>Reassembly\<close>

definition covered :: "adc_dsp_stage \<Rightarrow> nat set" where
  "covered st = {i. i < 8 * length (coverage st) \<and> bit (coverage st ! (i div 8)) (i mod 8)}"

definition sized :: "adc_dsp_stage \<Rightarrow> bool" where
  "sized st \<longleftrightarrow> length (coverage st) = BRIDGE_DSP_STAGE_COVERAGE_BYTES \<and> length (data st) = BRIDGE_DSP_MAX_STAGE_BYTES"

text \<open>Invariant of a stage slot.\<close>

definition stage_ok :: "adc_dsp_stage \<Rightarrow> bool" where
  "stage_ok st \<longleftrightarrow> sized st \<and> kind st \<le> BRIDGE_DSP_KIND_MAX \<and> unat (total_size st) \<le> BRIDGE_DSP_MAX_STAGE_BYTES \<and>
     covered st \<subseteq> {..<unat (total_size st)} \<and> unat (bytes_received st) = card (covered st) \<and>
     (complete st \<longleftrightarrow> total_size st \<noteq> 0 \<and> bytes_received st = total_size st)"

lemma byte_received:
  "offset < 8 * length (coverage st) \<Longrightarrow> adc_dsp_stage_byte_received st offset = Some (offset \<in> covered st)"
  by (simp add: adc_dsp_stage_byte_received_def covered_def bit_iff_and_push_bit_not_eq_0 less_mult_imp_div_less mult.commute)

lemma covered_zero_stage [simp]: "covered (restarted_stage k tot) = {}" "sized (restarted_stage k tot)"
  by (auto simp: covered_def sized_def restarted_stage_def zero_stage_def)

lemma covered_mark:
  assumes "offset < 8 * length (coverage st)" "adc_dsp_stage_mark_byte_received st offset = Some st'"
  shows "covered st' = insert offset (covered st)" "length (coverage st') = length (coverage st)"
proof -
  let ?c = "coverage st ! (offset div 8)"
  have d: "offset div 8 < length (coverage st)" using assms(1) by (simp add: less_mult_imp_div_less mult.commute)
  have st': "st' = st\<lparr>coverage := (coverage st)[offset div 8 := ?c OR push_bit (offset mod 8) 1]\<rparr>"
    using assms(2) d by (simp add: adc_dsp_stage_mark_byte_received_def)
  show "length (coverage st') = length (coverage st)" by (simp add: st')
  have b: "bit (?c OR push_bit (offset mod 8) 1) (i mod 8) \<longleftrightarrow> bit ?c (i mod 8) \<or> i mod 8 = offset mod 8" for i
    by (auto simp: bit_simps)
  have "i \<in> covered st' \<longleftrightarrow> i = offset \<or> i \<in> covered st" for i
  proof (cases "i div 8 = offset div 8")
    case True
    then have "i mod 8 = offset mod 8 \<longleftrightarrow> i = offset" by (metis div_mult_mod_eq)
    then show ?thesis using True b [of i] assms(1) d by (auto simp: covered_def st')
  qed (auto simp: covered_def st' nth_list_update)
  then show "covered st' = insert offset (covered st)" by blast
qed

lemma store_chunk:
  assumes "sized st" "offset + length bs \<le> BRIDGE_DSP_MAX_STAGE_BYTES"
  obtains st' where "store_chunk st offset bs = Some st'" "sized st'"
    "kind st' = kind st" "total_size st' = total_size st" "complete st' = complete st"
    "covered st' = covered st \<union> {offset..<offset + length bs}"
    "\<And>i. data st' ! i = (if i \<notin> covered st \<and> offset \<le> i \<and> i < offset + length bs then bs ! (i - offset) else data st ! i)"
    "bytes_received st' = bytes_received st + of_nat (card ({offset..<offset + length bs} - covered st))"
  using assms
proof (induction bs arbitrary: st offset thesis)
  case Nil
  show ?case by (rule Nil.prems(1) [of st]) (use Nil.prems(2) in auto)
next
  case (Cons b bs)
  let ?r = "{Suc offset..<Suc offset + length bs}"
  have lt: "offset < 8 * length (coverage st)" "offset < length (data st)"
    using Cons.prems(2,3) by (simp_all add: sized_def)
  have rng: "{offset..<offset + length (b # bs)} = insert offset ?r" by auto
  show ?case
  proof (cases "offset \<in> covered st")
    case True
    show ?thesis
    proof (rule Cons.IH [of st "Suc offset"])
      fix st' assume "store_chunk st (Suc offset) bs = Some st'" "sized st'"
        "kind st' = kind st" "total_size st' = total_size st" "complete st' = complete st"
        "covered st' = covered st \<union> ?r"
        "\<And>i. data st' ! i = (if i \<notin> covered st \<and> Suc offset \<le> i \<and> i < Suc offset + length bs
           then bs ! (i - Suc offset) else data st ! i)"
        "bytes_received st' = bytes_received st + of_nat (card (?r - covered st))"
      moreover have "insert offset ?r - covered st = ?r - covered st" using True by auto
      moreover have "covered st \<union> ?r = covered st \<union> insert offset ?r" using True by auto
      moreover have "data st' ! i = (if i \<notin> covered st \<and> offset \<le> i \<and> i < offset + length (b # bs)
          then (b # bs) ! (i - offset) else data st ! i)" for i
        using calculation(7) [of i] True by (cases "i = offset") (auto simp: nth_Cons')
      ultimately show thesis
        using Cons.prems(1) [of st'] byte_received [OF lt(1)] True unfolding rng by simp
    qed (use Cons.prems(2,3) in auto)
  next
    case False
    let ?s0 = "st\<lparr>data := (data st)[offset := b]\<rparr>"
    obtain s1 where m: "adc_dsp_stage_mark_byte_received ?s0 offset = Some s1"
      using lt by (auto simp: adc_dsp_stage_mark_byte_received_def less_mult_imp_div_less mult.commute)
    have c0: "covered ?s0 = covered st" by (simp add: covered_def)
    have c1: "covered s1 = insert offset (covered st)" "length (coverage s1) = length (coverage st)"
      using covered_mark [OF _ m] lt(1) c0 by simp_all
    have f1: "data s1 = (data st)[offset := b]" "kind s1 = kind st" "total_size s1 = total_size st"
      "complete s1 = complete st" "bytes_received s1 = bytes_received st"
      using m by (auto simp: adc_dsp_stage_mark_byte_received_def bind_eq_Some_conv)
    let ?s1 = "s1\<lparr>bytes_received := bytes_received s1 + 1\<rparr>"
    have c1': "covered ?s1 = insert offset (covered st)" using c1(1) by (simp add: covered_def)
    show ?thesis
    proof (rule Cons.IH [of ?s1 "Suc offset"])
      show "sized ?s1" using Cons.prems(2) c1(2) f1(1) by (simp add: sized_def)
      fix st' assume a: "store_chunk ?s1 (Suc offset) bs = Some st'" "sized st'"
        "kind st' = kind ?s1" "total_size st' = total_size ?s1" "complete st' = complete ?s1"
        "covered st' = covered ?s1 \<union> ?r"
        "\<And>i. data st' ! i = (if i \<notin> covered ?s1 \<and> Suc offset \<le> i \<and> i < Suc offset + length bs
           then bs ! (i - Suc offset) else data ?s1 ! i)"
        "bytes_received st' = bytes_received ?s1 + of_nat (card (?r - covered ?s1))"
      have cd: "card (insert offset ?r - covered st) = Suc (card (?r - covered st))"
        using False by (subst insert_Diff_if) simp
      have r': "?r - insert offset (covered st) = ?r - covered st" by auto
      have "data st' ! i = (if i \<notin> covered st \<and> offset \<le> i \<and> i < offset + length (b # bs)
          then (b # bs) ! (i - offset) else data st ! i)" for i
        using a(7) [of i] False f1(1) lt(2) unfolding c1' by (cases "i = offset") (auto simp: nth_Cons')
      moreover have "store_chunk st offset (b # bs) = Some st'"
        using byte_received [OF lt(1)] False lt(2) m a(1) by simp
      moreover have "bytes_received st' = bytes_received st + of_nat (card (insert offset ?r - covered st))"
        using a(8) unfolding c1' r' cd by (simp add: f1(5))
      ultimately show thesis
        using Cons.prems(1) [of st'] a(2-6) f1 c1' unfolding rng by simp
    qed (use Cons.prems(3) in auto)
  qed
qed

lemma conflicting_overlap:
  assumes "sized st" "offset + length bs \<le> BRIDGE_DSP_MAX_STAGE_BYTES"
  shows "conflicting_overlap st offset bs =
    Some (\<exists>i < length bs. offset + i \<in> covered st \<and> data st ! (offset + i) \<noteq> bs ! i)"
  using assms
proof (induction bs arbitrary: offset)
  case (Cons b bs)
  have lt: "offset < 8 * length (coverage st)" "offset < length (data st)"
    using Cons.prems by (simp_all add: sized_def)
  have ex: "(\<exists>i < length (b # bs). P i) \<longleftrightarrow> P 0 \<or> (\<exists>i < length bs. P (Suc i))" for P
    by (auto simp: less_Suc_eq_0_disj)
  show ?case
    using Cons.IH [of "Suc offset"] Cons.prems byte_received [OF lt(1)] lt(2) unfolding ex by auto
qed simp

text \<open>
  The contract of an upload: a stage slot is empty, or holds a kind, a size and the bytes received
  so far.  A chunk that agrees with what is there is merged; one with other metadata at offset
  zero, or a whole blob, replaces it; anything else is refused and changes nothing.
\<close>

type_synonym upload_spec = "(u8 \<times> u16 \<times> (nat \<rightharpoonup> u8)) option"

definition stage_abs :: "adc_dsp_stage \<Rightarrow> upload_spec" where
  "stage_abs st = (if total_size st = 0 then None
     else Some (kind st, total_size st, \<lambda>i. if i \<in> covered st then Some (data st ! i) else None))"

lemma stage_abs_complete [simp]: "stage_abs (st\<lparr>complete := b\<rparr>) = stage_abs st"
  by (simp add: stage_abs_def covered_def cong: if_cong)

definition chunk_map :: "nat \<Rightarrow> bytes \<Rightarrow> nat \<rightharpoonup> u8" where
  "chunk_map offset chunk = (\<lambda>i. if offset \<le> i \<and> i < offset + length chunk then Some (chunk ! (i - offset)) else None)"

definition agree :: "('a \<rightharpoonup> 'b) \<Rightarrow> ('a \<rightharpoonup> 'b) \<Rightarrow> bool" where
  "agree m c \<longleftrightarrow> (\<forall>i x y. m i = Some x \<longrightarrow> c i = Some y \<longrightarrow> x = y)"

definition push_spec :: "u8 \<Rightarrow> u16 \<Rightarrow> u16 \<Rightarrow> bytes \<Rightarrow> upload_spec \<Rightarrow> int \<times> upload_spec" where
  "push_spec k off tot chunk a =
     (let c = chunk_map (unat off) chunk
      in case a of
           None \<Rightarrow> (BRIDGE_HW_OK, Some (k, tot, c))
         | Some (k', tot', m) \<Rightarrow>
             if k' \<noteq> k \<or> tot' \<noteq> tot
             then if off = 0 then (BRIDGE_HW_OK, Some (k, tot, c)) else (BRIDGE_HW_ERR_INVAL, a)
             else if agree m c then (BRIDGE_HW_OK, Some (k, tot, m ++ c))
             else if off = 0 \<and> length chunk = unat tot then (BRIDGE_HW_OK, Some (k, tot, c))
             else (BRIDGE_HW_ERR_INVAL, a))"

definition chunk_fits :: "u8 \<Rightarrow> u16 \<Rightarrow> u16 \<Rightarrow> bytes \<Rightarrow> bool" where
  "chunk_fits k off tot chunk \<longleftrightarrow> k \<le> BRIDGE_DSP_KIND_MAX \<and> tot \<noteq> 0 \<and> unat tot \<le> BRIDGE_DSP_MAX_STAGE_BYTES \<and>
     chunk \<noteq> [] \<and> unat off + length chunk \<le> unat tot"

lemma total_size_restarted [simp]: "total_size (restarted_stage k tot) = tot"
  by (simp add: restarted_stage_def)

lemma stage_ok_restarted: "k \<le> 3 \<Longrightarrow> unat tot \<le> 260 \<Longrightarrow> tot \<noteq> 0 \<Longrightarrow> stage_ok (restarted_stage k tot)"
  using covered_zero_stage [of k tot] by (auto simp: stage_ok_def restarted_stage_def zero_stage_def)

text \<open>Storing a chunk that does not conflict.\<close>

lemma store_agreeing:
  assumes "stage_ok st" "total_size st = tot" "chunk_fits k off tot chunk"
  obtains st' where "store_chunk st (unat off) chunk = Some st'"
    "stage_ok (st'\<lparr>complete := (bytes_received st' = total_size st')\<rparr>)"
    "kind st' = kind st" "total_size st' = tot"
    "\<And>m. stage_abs st = Some (k, tot, m) \<Longrightarrow> agree m (chunk_map (unat off) chunk) \<Longrightarrow>
       stage_abs (st'\<lparr>complete := (bytes_received st' = total_size st')\<rparr>) = Some (k, tot, m ++ chunk_map (unat off) chunk)"
proof -
  let ?r = "{unat off..<unat off + length chunk}"
  have sz: "sized st" "unat off + length chunk \<le> 260" and t: "tot \<noteq> 0" "unat tot \<le> 260" "unat off + length chunk \<le> unat tot"
    and c: "covered st \<subseteq> {..<unat tot}" "unat (bytes_received st) = card (covered st)"
    using assms by (auto simp: stage_ok_def chunk_fits_def)
  obtain st' where s: "store_chunk st (unat off) chunk = Some st'" "sized st'"
    "kind st' = kind st" "total_size st' = total_size st" "covered st' = covered st \<union> ?r"
    "\<And>i. data st' ! i = (if i \<notin> covered st \<and> unat off \<le> i \<and> i < unat off + length chunk
       then chunk ! (i - unat off) else data st ! i)"
    "bytes_received st' = bytes_received st + of_nat (card (?r - covered st))"
    using store_chunk [OF sz] by metis
  let ?st = "st'\<lparr>complete := (bytes_received st' = total_size st')\<rparr>"
  have fin: "finite (covered st)" using c(1) finite_subset by blast
  have sub: "covered st' \<subseteq> {..<unat tot}" using c(1) t(3) s(5) by auto
  have card: "card (covered st') = card (covered st) + card (?r - covered st)"
    unfolding s(5) using fin by (metis Un_Diff_cancel card_Un_disjoint Diff_disjoint finite_Diff finite_atLeastLessThan)
  have "card (covered st') \<le> 260" using card_mono [OF _ sub] t(2) by simp
  then have un: "unat (bytes_received st') = card (covered st')"
    using c(2) card unfolding s(7) by (simp add: unat_word_ariths(1) unat_of_nat)
  have "covered ?st = covered st'" by (simp add: covered_def)
  then have ok: "stage_ok ?st"
    using assms(1,2) s(2,3,4) sub un t by (auto simp: stage_ok_def sized_def)
  have abs: "stage_abs ?st = Some (k, tot, m ++ chunk_map (unat off) chunk)"
    if m: "stage_abs st = Some (k, tot, m)" "agree m (chunk_map (unat off) chunk)" for m
  proof -
    have m': "m = (\<lambda>i. if i \<in> covered st then Some (data st ! i) else None)" "kind st = k"
      using m(1) assms(2) by (auto simp: stage_abs_def split: if_splits)
    have e: "(if i \<in> covered st' then Some (data st' ! i) else None) = (m ++ chunk_map (unat off) chunk) i" for i
      using m(2) [unfolded agree_def, rule_format, of i] unfolding s(5) s(6) [of i]
      by (auto simp: m' map_add_def chunk_map_def split: option.splits)
    have "(\<lambda>i. if i \<in> covered st' then Some (data st' ! i) else None) = m ++ chunk_map (unat off) chunk"
      by (rule ext) (rule e)
    then show ?thesis
      using s(3,4) m'(2) assms(2) t(1) by (simp add: stage_abs_def [of st'])
  qed
  show thesis by (rule that [OF s(1) ok s(3)]) (use s(4) assms(2) abs in auto)
qed

lemma conflict_iff_disagree:
  assumes "stage_ok st" "stage_abs st = Some (k, tot, m)" "chunk_fits k off tot chunk"
  shows "conflicting_overlap st (unat off) chunk = Some (\<not> agree m (chunk_map (unat off) chunk))"
proof -
  have m: "m = (\<lambda>i. if i \<in> covered st then Some (data st ! i) else None)"
    using assms(2) by (auto simp: stage_abs_def split: if_splits)
  have "(\<exists>i < length chunk. unat off + i \<in> covered st \<and> data st ! (unat off + i) \<noteq> chunk ! i) \<longleftrightarrow>
      \<not> agree m (chunk_map (unat off) chunk)"
  proof
    assume "\<not> agree m (chunk_map (unat off) chunk)"
    then obtain i where "i \<in> covered st" "unat off \<le> i" "i < unat off + length chunk" "data st ! i \<noteq> chunk ! (i - unat off)"
      by (auto simp: agree_def m chunk_map_def split: if_splits)
    then show "\<exists>i < length chunk. unat off + i \<in> covered st \<and> data st ! (unat off + i) \<noteq> chunk ! i"
      by (intro exI [of _ "i - unat off"]) auto
  next
    assume "\<exists>i < length chunk. unat off + i \<in> covered st \<and> data st ! (unat off + i) \<noteq> chunk ! i"
    then obtain i where i: "i < length chunk" "unat off + i \<in> covered st" "data st ! (unat off + i) \<noteq> chunk ! i" by blast
    then have "m (unat off + i) = Some (data st ! (unat off + i))"
      "chunk_map (unat off) chunk (unat off + i) = Some (chunk ! i)" by (simp_all add: m chunk_map_def)
    then show "\<not> agree m (chunk_map (unat off) chunk)" using i(3) unfolding agree_def by blast
  qed
  moreover have "sized st" "unat off + length chunk \<le> 260" using assms(1,3) by (auto simp: stage_ok_def chunk_fits_def)
  ultimately show ?thesis by (simp add: conflicting_overlap)
qed

lemma agree_empty [simp]: "agree Map.empty c"
  by (simp add: agree_def)

lemma stage_abs_empty:
  assumes "stage_ok st" "total_size st = 0" "tot \<noteq> 0" "unat tot \<le> 260" "k \<le> 3"
  defines "st1 \<equiv> st\<lparr>kind := k, total_size := tot, bytes_received := 0, complete := False\<rparr>"
  shows "stage_ok st1" "stage_abs st1 = Some (k, tot, Map.empty)"
proof -
  have "covered st1 = covered st" by (simp add: st1_def covered_def)
  moreover have "covered st = {}" using assms(1,2) by (simp add: stage_ok_def)
  ultimately show "stage_ok st1" "stage_abs st1 = Some (k, tot, Map.empty)"
    using assms(1,3-5) by (auto simp: stage_ok_def sized_def st1_def stage_abs_def)
qed

lemma stage_abs_restarted: "tot \<noteq> 0 \<Longrightarrow> stage_abs (restarted_stage k tot) = Some (k, tot, Map.empty)"
  using covered_zero_stage(1) [of k tot] by (simp add: stage_abs_def restarted_stage_def zero_stage_def)

text \<open>The concrete push implements the contract and keeps the invariant.\<close>

lemma stage_accept_refines:
  assumes "stage_ok st" "chunk_fits k off tot chunk"
  obtains rc st' where "stage_accept k off tot chunk st = Some (rc, st')" "stage_ok st'"
    "push_spec k off tot chunk (stage_abs st) = (rc, stage_abs st')"
proof -
  let ?c = "chunk_map (unat off) chunk"
  have t: "tot \<noteq> 0" "unat tot \<le> 260" "k \<le> 3" using assms(2) by (auto simp: chunk_fits_def)
  have rok: "stage_ok (restarted_stage k tot)" using stage_ok_restarted t by blast
  have body: "\<exists>rc st'. (do {
        conflict \<leftarrow> conflicting_overlap st1 (unat off) chunk;
        if conflict \<and> (off \<noteq> 0 \<or> length chunk \<noteq> unat tot) then Some (BRIDGE_HW_ERR_INVAL, st1)
        else do {
          let st2 = (if conflict then restarted_stage k tot else st1);
          st3 \<leftarrow> store_chunk st2 (unat off) chunk;
          Some (BRIDGE_HW_OK, st3\<lparr>complete := (bytes_received st3 = total_size st3)\<rparr>) } }) = Some (rc, st') \<and> stage_ok st' \<and>
      (rc, stage_abs st') = (if agree m ?c then (BRIDGE_HW_OK, Some (k, tot, m ++ ?c))
        else if off = 0 \<and> length chunk = unat tot then (BRIDGE_HW_OK, Some (k, tot, ?c))
        else (BRIDGE_HW_ERR_INVAL, Some (k, tot, m)))"
    if st1: "stage_ok st1" "stage_abs st1 = Some (k, tot, m)" for st1 m
  proof -
    have cf: "conflicting_overlap st1 (unat off) chunk = Some (\<not> agree m ?c)"
      by (rule conflict_iff_disagree [OF st1 assms(2)])
    have ts: "total_size st1 = tot" using st1(2) by (auto simp: stage_abs_def split: if_splits)
    obtain a where a: "store_chunk st1 (unat off) chunk = Some a"
      "stage_ok (a\<lparr>complete := (bytes_received a = total_size a)\<rparr>)"
      "agree m ?c \<Longrightarrow> stage_abs (a\<lparr>complete := (bytes_received a = total_size a)\<rparr>) = Some (k, tot, m ++ ?c)"
      using store_agreeing [OF st1(1) ts assms(2)] st1(2) by metis
    obtain b where b: "store_chunk (restarted_stage k tot) (unat off) chunk = Some b"
      "stage_ok (b\<lparr>complete := (bytes_received b = total_size b)\<rparr>)"
      "stage_abs (b\<lparr>complete := (bytes_received b = total_size b)\<rparr>) = Some (k, tot, Map.empty ++ ?c)"
      using store_agreeing [OF rok total_size_restarted assms(2)] stage_abs_restarted [OF t(1), of k] agree_empty by metis
    show ?thesis using cf a b st1 by (cases "agree m ?c") auto
  qed
  show thesis
  proof (cases "stage_abs st")
    case None
    then have z: "total_size st = 0" by (auto simp: stage_abs_def split: if_splits)
    obtain rc st' where "stage_accept k off tot chunk st = Some (rc, st')" "stage_ok st'"
      "(rc, stage_abs st') = (BRIDGE_HW_OK, Some (k, tot, ?c))"
      using body [OF stage_abs_empty [OF assms(1) z t]] z by (auto simp: stage_accept_def)
    then show thesis using that None by (simp add: push_spec_def)
  next
    case (Some a)
    obtain m where a: "a = (kind st, total_size st, m)" and nz: "total_size st \<noteq> 0"
      using Some by (auto simp: stage_abs_def split: if_splits)
    show thesis
    proof (cases "kind st = k \<and> total_size st = tot")
      case True
      then show thesis
        using body [OF assms(1), of m] Some a nz that by (fastforce simp: stage_accept_def push_spec_def Let_def)
    next
      case diff: False
      show thesis
      proof (cases "off = 0")
        case True
        obtain rc st' where "stage_accept k off tot chunk st = Some (rc, st')" "stage_ok st'"
          "(rc, stage_abs st') = (BRIDGE_HW_OK, Some (k, tot, ?c))"
          using body [OF rok stage_abs_restarted [OF t(1)]] diff True nz by (auto simp: stage_accept_def)
        then show thesis using that Some a diff True by (simp add: push_spec_def)
      next
        case False
        then show thesis
          using that [of BRIDGE_HW_ERR_INVAL st] Some a nz diff assms(1) by (auto simp: push_spec_def stage_accept_def)
      qed
    qed
  qed
qed

section \<open>Uploads in any order\<close>

text \<open>A sequence of pushes and their result codes.\<close>

fun push_all :: "(u16 \<Rightarrow> bytes \<Rightarrow> 's \<Rightarrow> (int \<times> 's) option) \<Rightarrow> (u16 \<times> bytes) list \<Rightarrow> 's \<Rightarrow> (int list \<times> 's) option" where
  "push_all push [] s = Some ([], s)"
| "push_all push ((off, chunk) # cs) s = do {
     (rc, s1) \<leftarrow> push off chunk s;
     (rcs, s2) \<leftarrow> push_all push cs s1;
     Some (rc # rcs, s2) }"

definition slice_of :: "bytes \<Rightarrow> u16 \<times> bytes \<Rightarrow> bool" where
  "slice_of blob oc \<longleftrightarrow> snd oc \<noteq> [] \<and> unat (fst oc) + length (snd oc) \<le> length blob \<and>
     take (length (snd oc)) (drop (unat (fst oc)) blob) = snd oc"

definition spans :: "(u16 \<times> bytes) list \<Rightarrow> nat set" where
  "spans cs = (\<Union>(off, c) \<in> set cs. {unat off..<unat off + length c})"

lemma spans_simps [simp]: "spans [] = {}" "spans ((off, c) # cs) = {unat off..<unat off + length c} \<union> spans cs"
  by (simp_all add: spans_def)

lemma slice_map:
  assumes "slice_of blob (off, c)"
  shows "chunk_map (unat off) c = chunk_map 0 blob |` {unat off..<unat off + length c}"
proof -
  have "c ! (i - unat off) = blob ! i" if "unat off \<le> i" "i < unat off + length c" for i
  proof -
    have "c ! (i - unat off) = take (length c) (drop (unat off) blob) ! (i - unat off)"
      using assms by (simp add: slice_of_def)
    then show ?thesis using that assms by (simp add: slice_of_def)
  qed
  then show ?thesis using assms by (auto simp: chunk_map_def restrict_map_def slice_of_def fun_eq_iff)
qed

locale reassembly =
  fixes ok :: "'s \<Rightarrow> bool" and slot :: "'s \<Rightarrow> upload_spec"
    and push :: "u8 \<Rightarrow> u16 \<Rightarrow> u16 \<Rightarrow> bytes \<Rightarrow> 's \<Rightarrow> (int \<times> 's) option"
  assumes refines: "ok s \<Longrightarrow> chunk_fits k off tot chunk \<Longrightarrow>
    \<exists>rc s'. push k off tot chunk s = Some (rc, s') \<and> ok s' \<and> push_spec k off tot chunk (slot s) = (rc, slot s')"
begin

lemma push_slice:
  assumes "ok s" "chunk_fits k off tot chunk" "slice_of blob (off, chunk)"
    and "slot s = None \<and> R = {} \<or> slot s = Some (k, tot, chunk_map 0 blob |` R)"
  shows "\<exists>s'. push k off tot chunk s = Some (BRIDGE_HW_OK, s') \<and> ok s' \<and>
    slot s' = Some (k, tot, chunk_map 0 blob |` (R \<union> {unat off..<unat off + length chunk}))"
proof -
  let ?B = "chunk_map 0 blob" and ?r = "{unat off..<unat off + length chunk}"
  have "agree (?B |` R) (?B |` ?r)" by (auto simp: agree_def restrict_map_def split: if_splits)
  moreover have "?B |` R ++ ?B |` ?r = ?B |` (R \<union> ?r)"
    by (auto simp: map_add_def restrict_map_def fun_eq_iff split: option.splits)
  ultimately have "push_spec k off tot chunk (slot s) = (BRIDGE_HW_OK, Some (k, tot, ?B |` (R \<union> ?r)))"
    using assms(4) slice_map [OF assms(3)] by (auto simp: push_spec_def Let_def)
  then show ?thesis using refines [OF assms(1,2)] by auto
qed

lemma push_slices:
  assumes "ok s" "\<And>off c. (off, c) \<in> set cs \<Longrightarrow> chunk_fits k off tot c \<and> slice_of blob (off, c)"
    and "slot s = Some (k, tot, chunk_map 0 blob |` R)"
  shows "\<exists>s'. push_all (\<lambda>off c. push k off tot c) cs s = Some (replicate (length cs) BRIDGE_HW_OK, s') \<and> ok s' \<and>
    slot s' = Some (k, tot, chunk_map 0 blob |` (R \<union> spans cs))"
  using assms
proof (induction cs arbitrary: s R)
  case (Cons oc cs)
  obtain off c where oc: "oc = (off, c)" by (cases oc)
  obtain s1 where s1: "push k off tot c s = Some (BRIDGE_HW_OK, s1)" "ok s1"
    "slot s1 = Some (k, tot, chunk_map 0 blob |` (R \<union> {unat off..<unat off + length c}))"
    using push_slice [of s k off tot c blob R] Cons.prems oc by auto
  from Cons.IH [OF s1(2) _ s1(3)] Cons.prems(2)
  obtain s2 where "push_all (\<lambda>off c. push k off tot c) cs s1 = Some (replicate (length cs) BRIDGE_HW_OK, s2)" "ok s2"
    "slot s2 = Some (k, tot, chunk_map 0 blob |` (R \<union> {unat off..<unat off + length c} \<union> spans cs))" by auto
  then show ?case using s1(1) oc by (simp add: Un_assoc)
qed simp

lemma upload:
  assumes "ok s" "slot s = None" "cs \<noteq> []"
    and "\<And>off c. (off, c) \<in> set cs \<Longrightarrow> chunk_fits k off tot c \<and> slice_of blob (off, c)"
  shows "\<exists>s'. push_all (\<lambda>off c. push k off tot c) cs s = Some (replicate (length cs) BRIDGE_HW_OK, s') \<and> ok s' \<and>
    slot s' = Some (k, tot, chunk_map 0 blob |` spans cs)"
proof -
  obtain off c cs' where cs: "cs = (off, c) # cs'" using assms(3) by (cases cs) auto
  obtain s1 where s1: "push k off tot c s = Some (BRIDGE_HW_OK, s1)" "ok s1"
    "slot s1 = Some (k, tot, chunk_map 0 blob |` {unat off..<unat off + length c})"
    using push_slice [of s k off tot c blob "{}"] assms cs by auto
  have "\<exists>s'. push_all (\<lambda>off c. push k off tot c) cs' s1 = Some (replicate (length cs') BRIDGE_HW_OK, s') \<and> ok s' \<and>
      slot s' = Some (k, tot, chunk_map 0 blob |` ({unat off..<unat off + length c} \<union> spans cs'))"
    by (rule push_slices [OF s1(2) _ s1(3)]) (use assms(4) cs in auto)
  then show ?thesis using s1(1) cs by auto
qed

end

interpretation stage_slot: reassembly stage_ok stage_abs stage_accept
proof
  fix st k off tot chunk
  assume "stage_ok st" "chunk_fits k off tot chunk"
  then show "\<exists>rc st'. stage_accept k off tot chunk st = Some (rc, st') \<and> stage_ok st' \<and>
      push_spec k off tot chunk (stage_abs st) = (rc, stage_abs st')"
    by (rule stage_accept_refines) blast
qed

section \<open>The pool\<close>

definition pool_ok :: "adc_dsp_chain list \<Rightarrow> bool" where
  "pool_ok pool \<longleftrightarrow> length pool = BRIDGE_DSP_MAX_CHAINS \<and>
     (\<forall>c \<in> set pool. length (stages c) = BRIDGE_DSP_MAX_STAGES \<and> (\<forall>st \<in> set (stages c). stage_ok st) \<and>
        (chain_bound c \<longrightarrow> chain_in_use c))"

text \<open>A slot open for uploads.\<close>

definition open_slot :: "nat \<Rightarrow> adc_dsp_chain list \<Rightarrow> bool" where
  "open_slot cid pool \<longleftrightarrow> pool_ok pool \<and> cid < BRIDGE_DSP_MAX_CHAINS \<and> chain_in_use (pool ! cid) \<and> \<not> chain_bound (pool ! cid)"

lemma pool_okD:
  assumes "pool_ok pool" "i < 4"
  shows "length pool = 4" "length (stages (pool ! i)) = 4" "j < 4 \<Longrightarrow> stage_ok (stages (pool ! i) ! j)"
    "chain_bound (pool ! i) \<Longrightarrow> chain_in_use (pool ! i)" "\<forall>st \<in> set (stages (pool ! i)). stage_ok st"
proof -
  show l: "length pool = 4" using assms by (simp add: pool_ok_def)
  then have "pool ! i \<in> set pool" using assms by simp
  then show st: "length (stages (pool ! i)) = 4" "\<forall>st \<in> set (stages (pool ! i)). stage_ok st"
    "chain_bound (pool ! i) \<Longrightarrow> chain_in_use (pool ! i)"
    using assms(1) by (simp_all add: pool_ok_def)
  show "j < 4 \<Longrightarrow> stage_ok (stages (pool ! i) ! j)" using st(1,2) by (metis nth_mem)
qed

lemma pool_ok_update:
  assumes "pool_ok pool" "length (stages c) = 4" "\<forall>st \<in> set (stages c). stage_ok st" "chain_bound c \<longrightarrow> chain_in_use c"
  shows "pool_ok (pool[i := c])"
  using assms set_update_subset_insert [of pool i c] unfolding pool_ok_def by (metis insertE length_list_update subsetD)

lemma fits_checks:
  assumes "chunk_fits k off tot chunk"
  shows "\<not> k > 3" "tot \<noteq> 0" "\<not> unat tot > 260" "length chunk \<noteq> 0" "\<not> off > tot" "\<not> length chunk > unat tot - unat off"
  using assms by (auto simp: chunk_fits_def word_less_nat_alt [of tot off] not_less)

lemma stage_push_accepted:
  assumes "open_slot (unat cid) pool" "unat idx < 4" "chunk_fits k off tot chunk"
    and "stage_accept k off tot chunk (stages (pool ! unat cid) ! unat idx) = Some (rc, st)"
  shows "adc_dsp_stage_push cid idx k off tot chunk pool =
    Some (rc, pool[unat cid := (pool ! unat cid)\<lparr>stages := (stages (pool ! unat cid))[unat idx := st]\<rparr>])"
  using assms fits_checks [OF assms(3)] by (simp add: adc_dsp_stage_push_def open_slot_def Let_def)

lemma pool_reassembly:
  assumes "unat cid < 4" "unat idx < 4"
  shows "reassembly (open_slot (unat cid)) (\<lambda>pool. stage_abs (stages (pool ! unat cid) ! unat idx)) (adc_dsp_stage_push cid idx)"
proof
  fix pool k off tot chunk
  assume o: "open_slot (unat cid) pool" and f: "chunk_fits k off tot chunk"
  let ?c = "pool ! unat cid"
  have pool: "pool_ok pool" using o by (simp add: open_slot_def)
  note d = pool_okD [OF pool assms(1)]
  obtain rc st where r: "stage_accept k off tot chunk (stages ?c ! unat idx) = Some (rc, st)" "stage_ok st"
    "push_spec k off tot chunk (stage_abs (stages ?c ! unat idx)) = (rc, stage_abs st)"
    using stage_slot.refines [OF d(3) [OF assms(2)] f] by auto
  let ?p = "pool[unat cid := ?c\<lparr>stages := (stages ?c)[unat idx := st]\<rparr>]"
  have "\<forall>s \<in> set ((stages ?c)[unat idx := st]). stage_ok s"
    using d(5) r(2) set_update_subset_insert [of "stages ?c" "unat idx" st] by blast
  then have "pool_ok ?p" using o d by (intro pool_ok_update [OF pool]) (auto simp: open_slot_def)
  then have "open_slot (unat cid) ?p" using o d(1) by (simp add: open_slot_def)
  moreover have "stage_abs (stages (?p ! unat cid) ! unat idx) = stage_abs st" using assms d by simp
  ultimately show "\<exists>rc s'. adc_dsp_stage_push cid idx k off tot chunk pool = Some (rc, s') \<and> open_slot (unat cid) s' \<and>
      push_spec k off tot chunk (stage_abs (stages (pool ! unat cid) ! unat idx)) =
        (rc, stage_abs (stages (s' ! unat cid) ! unat idx))"
    using stage_push_accepted [OF o assms(2) f r(1)] r(3) by (intro exI [of _ rc] exI [of _ ?p]) simp
qed

lemma stage_abs_SomeD:
  assumes "stage_ok st" "stage_abs st = Some (k, tot, chunk_map 0 blob |` S)" "length blob = unat tot" "S \<subseteq> {..<length blob}"
  shows "kind st = k" "total_size st = tot" "complete st \<longleftrightarrow> S = {..<length blob}"
    "complete st \<Longrightarrow> take (length blob) (data st) = blob"
proof -
  let ?m = "\<lambda>i. if i \<in> covered st then Some (data st ! i) else None"
  have nz: "total_size st \<noteq> 0" and k: "kind st = k" and t: "total_size st = tot" and m: "?m = chunk_map 0 blob |` S"
    using assms(2) by (auto simp: stage_abs_def split: if_splits)
  show "kind st = k" "total_size st = tot" by fact+
  have "dom ?m = covered st" by (auto simp: dom_def)
  moreover have "dom (chunk_map 0 blob |` S) = S" using assms(4) by (auto simp: chunk_map_def split: if_splits)
  ultimately have c: "covered st = S" using m by simp
  have "complete st \<longleftrightarrow> card S = length blob"
    using assms(1,3) nz t unfolding c [symmetric] stage_ok_def by (metis word_unat_eq_iff)
  also have "\<dots> \<longleftrightarrow> S = {..<length blob}"
    using assms(4) card_subset_eq [of "{..<length blob}" S] by auto
  finally show iff: "complete st \<longleftrightarrow> S = {..<length blob}" .
  assume "complete st"
  then have S: "S = {..<length blob}" using iff by simp
  have "data st ! i = blob ! i" if "i < length blob" for i
    using fun_cong [OF m, of i] that unfolding c S by (simp add: chunk_map_def)
  moreover have "length blob \<le> length (data st)" using assms(1,3) t by (simp add: stage_ok_def sized_def)
  ultimately show "take (length blob) (data st) = blob" by (intro nth_equalityI) simp_all
qed

section \<open>Chain validation\<close>

lemma blob_valid_defined: "stage_ok st \<Longrightarrow> adc_dsp_stage_blob_valid st \<noteq> None"
  by (simp add: adc_dsp_stage_blob_valid_def stage_ok_def sized_def del: not_None_eq)

lemma blobs_valid_eq:
  assumes "\<forall>st \<in> set sts. stage_ok st"
  shows "blobs_valid sts = Some (\<forall>st \<in> set sts. populated st \<longrightarrow> adc_dsp_stage_blob_valid st = Some True)"
  using assms
proof (induction sts)
  case (Cons st sts)
  obtain b where "adc_dsp_stage_blob_valid st = Some b" using blob_valid_defined Cons.prems by auto
  then show ?case using Cons by simp
qed simp

lemma single_biquads_eq:
  assumes "\<forall>st \<in> set sts. stage_ok st"
  shows "single_biquads sts = Some (\<forall>st \<in> set sts. populated st \<and> kind st = KIND_IIR \<longrightarrow> data st ! 1 = 1)"
  using assms by (induction sts) (auto simp: stage_ok_def sized_def)

lemma scan_fft_eq:
  "scan_fft sts i fft \<noteq> fft \<Longrightarrow> \<exists>j < length sts. scan_fft sts i fft = i + j \<and> populated (sts ! j) \<and> kind (sts ! j) = KIND_FFT"
proof (induction sts arbitrary: i fft)
  case (Cons st sts)
  let ?f = "if populated st \<and> kind st = KIND_FFT then i else fft"
  show ?case
  proof (cases "scan_fft sts (Suc i) ?f = ?f")
    case True
    then show ?thesis using Cons.prems by (auto split: if_splits)
  next
    case False
    from Cons.IH [OF this] obtain j where "j < length sts" "scan_fft sts (Suc i) ?f = Suc i + j"
      "populated (sts ! j)" "kind (sts ! j) = KIND_FFT" by blast
    then show ?thesis by (intro exI [of _ "Suc j"]) simp
  qed
qed simp

lemma scan_fft_none:
  "(\<forall>st \<in> set sts. \<not> (populated st \<and> kind st = KIND_FFT)) \<Longrightarrow> scan_fft sts i fft = fft"
  by (induction sts arbitrary: i) auto

lemma p1_capable_defined:
  assumes "\<forall>st \<in> set (stages chain). stage_ok st" "length (stages chain) = 4"
  shows "adc_dsp_chain_p1_capable chain \<noteq> None"
proof -
  let ?sts = "stages chain" and ?f = "scan_fft (stages chain) 0 4"
  show ?thesis
  proof (cases "?f = 4")
    case True
    then show ?thesis
      using blobs_valid_eq [OF assms(1)] single_biquads_eq [OF assms(1)]
      by (simp add: adc_dsp_chain_p1_capable_def Let_def del: not_None_eq)
  next
    case False
    then obtain j where "j < 4" "?f = j" using scan_fft_eq [of ?sts 0 4] assms(2) by auto
    then have "length (data (?sts ! ?f)) = 260" using assms by (auto simp: stage_ok_def sized_def)
    then show ?thesis using blobs_valid_eq [OF assms(1)] False
      by (simp add: adc_dsp_chain_p1_capable_def Let_def del: not_None_eq)
  qed
qed

text \<open>What the structural loop establishes.\<close>

abbreviation (input) vetted :: "adc_dsp_stage \<Rightarrow> bool" where
  "vetted st \<equiv> populated st \<longrightarrow> complete st \<and> adc_dsp_stage_blob_valid st = Some True"

definition last_is :: "adc_dsp_stage list \<Rightarrow> nat \<Rightarrow> bool" where
  "last_is sts j \<longleftrightarrow> j < length sts \<and> populated (sts ! j) \<and> (\<forall>l. j < l \<and> l < length sts \<longrightarrow> \<not> populated (sts ! l))"

lemma last_is_Cons: "last_is sts j \<Longrightarrow> last_is (st # sts) (Suc j)"
  by (auto simp: last_is_def nth_Cons split: nat.splits)

lemma bind_scan_defined:
  "\<forall>st \<in> set sts. stage_ok st \<Longrightarrow> bind_scan sts i fft win l \<noteq> None"
proof (induction sts arbitrary: i fft win l)
  case (Cons st sts)
  obtain b where "adc_dsp_stage_blob_valid st = Some b" using blob_valid_defined Cons.prems by auto
  then show ?case using Cons.IH Cons.prems by simp
qed simp

lemma bind_scan_InrD:
  assumes "bind_scan sts i fft win l = Some (Inr (f, w, l'))"
  shows "(\<forall>st \<in> set sts. vetted st) \<and> (if \<exists>st \<in> set sts. populated st then \<exists>j. last_is sts j \<and> l' = i + j else l' = l)"
  using assms
proof (induction sts arbitrary: i fft win l)
  case (Cons st sts)
  show ?case
  proof (cases "populated st")
    case False
    then have "bind_scan sts (Suc i) fft win l = Some (Inr (f, w, l'))" using Cons.prems by simp
    from Cons.IH [OF this] False show ?thesis
      by (auto split: if_splits) (metis last_is_Cons add_Suc_right)
  next
    case True
    then obtain fft' win' where "bind_scan sts (Suc i) fft' win' i = Some (Inr (f, w, l'))"
      and v: "complete st" "adc_dsp_stage_blob_valid st = Some True"
      using Cons.prems by (auto simp: bind_eq_Some_conv split: if_splits)
    from Cons.IH [OF this(1)] have ih: "\<forall>st \<in> set sts. vetted st"
      "if \<exists>st \<in> set sts. populated st then \<exists>j. last_is sts j \<and> l' = Suc i + j else l' = i" by blast+
    have "\<exists>j. last_is (st # sts) j \<and> l' = i + j"
    proof (cases "\<exists>st \<in> set sts. populated st")
      case t: True
      then show ?thesis using ih(2) last_is_Cons by (metis (no_types, lifting) add_Suc_shift)
    next
      case f: False
      have "last_is (st # sts) 0" using True f by (auto simp: last_is_def nth_Cons split: nat.splits)
      then show ?thesis using f ih(2) by auto
    qed
    then show ?thesis using True v ih(1) by auto
  qed
qed simp

lemma bind_shape_defined:
  "\<forall>st \<in> set (stages chain). stage_ok st \<Longrightarrow> bind_shape chain \<noteq> None"
  using bind_scan_defined [of "stages chain" 0 4 4 4]
  by (cases "bind_scan (stages chain) 0 4 4 4") (simp_all add: bind_shape_def split_def del: not_None_eq split: sum.splits)

lemma bind_shape_InrD:
  assumes "bind_shape chain = Some (Inr j)"
  shows "\<forall>st \<in> set (stages chain). vetted st" "length (stages chain) \<le> 4 \<Longrightarrow> last_is (stages chain) j"
proof -
  obtain r where r': "bind_scan (stages chain) 0 4 4 4 = Some r"
    using assms by (cases "bind_scan (stages chain) 0 4 4 4") (simp_all add: bind_shape_def)
  obtain f w l where r'': "r = Inr (f, w, l)" using assms r' by (cases r) (auto simp: bind_shape_def)
  have r: "bind_scan (stages chain) 0 4 4 4 = Some (Inr (f, w, j))" "j \<noteq> 4"
    using assms r' r'' by (auto simp: bind_shape_def split: if_splits)
  note d = bind_scan_InrD [OF r(1)]
  show "\<forall>st \<in> set (stages chain). vetted st" using d by blast
  show "length (stages chain) \<le> 4 \<Longrightarrow> last_is (stages chain) j" using d r(2) by (auto split: if_splits)
qed

section \<open>Chains and streams\<close>

text \<open>
  A bound stream holds a bound chain the hardware can realise, its terminal kind is that of the
  chain's last stage, no two streams share a chain or the same hardware block, and every bound
  chain belongs to a stream.
\<close>

definition holds :: "adc_stream_state \<Rightarrow> nat \<Rightarrow> bool" where
  "holds s cid \<longleftrightarrow> dsp_bound s \<and> unat (dsp_chain_id s) = cid"

definition bound_to :: "adc_dsp_chain list \<Rightarrow> adc_stream_state \<Rightarrow> bool" where
  "bound_to pool s \<longleftrightarrow> in_use s \<and> unat (dsp_chain_id s) < BRIDGE_DSP_MAX_CHAINS \<and>
     (let chain = pool ! unat (dsp_chain_id s)
      in chain_bound chain \<and> adc_dsp_chain_p1_capable chain = Some True \<and>
         (\<forall>st \<in> set (stages chain). vetted st) \<and>
         (\<exists>j. last_is (stages chain) j \<and> dsp_terminal s = kind (stages chain ! j)))"

definition dsp_inv :: "adc_dsp_chain list \<Rightarrow> adc_stream_state list \<Rightarrow> bool" where
  "dsp_inv pool streams \<longleftrightarrow> pool_ok pool \<and> length streams = BRIDGE_ADC_STREAM_COUNT \<and>
     (\<forall>i < BRIDGE_ADC_STREAM_COUNT. dsp_bound (streams ! i) \<longrightarrow> bound_to pool (streams ! i)) \<and>
     (\<forall>i < BRIDGE_ADC_STREAM_COUNT. \<forall>j < BRIDGE_ADC_STREAM_COUNT. i \<noteq> j \<and> dsp_bound (streams ! i) \<and> dsp_bound (streams ! j) \<longrightarrow>
        dsp_chain_id (streams ! i) \<noteq> dsp_chain_id (streams ! j) \<and>
        (dsp_terminal (streams ! i) = KIND_FFT) \<noteq> (dsp_terminal (streams ! j) = KIND_FFT)) \<and>
     (\<forall>cid < BRIDGE_DSP_MAX_CHAINS. chain_bound (pool ! cid) \<longrightarrow> (\<exists>i < BRIDGE_ADC_STREAM_COUNT. holds (streams ! i) cid))"

lemma dsp_invI:
  assumes "pool_ok pool" "length streams = 2" "\<And>i. i < 2 \<Longrightarrow> dsp_bound (streams ! i) \<Longrightarrow> bound_to pool (streams ! i)"
    and "\<And>i j. i < 2 \<Longrightarrow> j < 2 \<Longrightarrow> i \<noteq> j \<Longrightarrow> dsp_bound (streams ! i) \<Longrightarrow> dsp_bound (streams ! j) \<Longrightarrow>
      dsp_chain_id (streams ! i) \<noteq> dsp_chain_id (streams ! j) \<and>
      (dsp_terminal (streams ! i) = KIND_FFT) \<noteq> (dsp_terminal (streams ! j) = KIND_FFT)"
    and "\<And>cid. cid < 4 \<Longrightarrow> chain_bound (pool ! cid) \<Longrightarrow> \<exists>i < 2. holds (streams ! i) cid"
  shows "dsp_inv pool streams"
  unfolding dsp_inv_def using assms by blast

lemma dsp_invD:
  assumes "dsp_inv pool streams"
  shows "pool_ok pool" "length streams = 2" "length pool = 4"
    and "i < 2 \<Longrightarrow> dsp_bound (streams ! i) \<Longrightarrow> bound_to pool (streams ! i)"
    and "i < 2 \<Longrightarrow> j < 2 \<Longrightarrow> i \<noteq> j \<Longrightarrow> dsp_bound (streams ! i) \<Longrightarrow> dsp_bound (streams ! j) \<Longrightarrow>
      dsp_chain_id (streams ! i) \<noteq> dsp_chain_id (streams ! j)"
    and "i < 2 \<Longrightarrow> j < 2 \<Longrightarrow> i \<noteq> j \<Longrightarrow> dsp_bound (streams ! i) \<Longrightarrow> dsp_bound (streams ! j) \<Longrightarrow>
      (dsp_terminal (streams ! i) = KIND_FFT) \<noteq> (dsp_terminal (streams ! j) = KIND_FFT)"
    and "cid < 4 \<Longrightarrow> chain_bound (pool ! cid) \<Longrightarrow> \<exists>i < 2. holds (streams ! i) cid"
  using assms unfolding dsp_inv_def pool_ok_def by blast+

text \<open>An update of an unbound slot that leaves it unbound disturbs no stream.\<close>

lemma dsp_inv_unbound_update:
  assumes "dsp_inv pool streams" "pool_ok (pool[cid := c])" "\<not> chain_bound (pool ! cid)" "\<not> chain_bound c"
  shows "dsp_inv (pool[cid := c]) streams"
proof -
  note d = dsp_invD [OF assms(1)]
  show ?thesis
  proof (rule dsp_invI)
    fix i :: nat assume i: "i < 2" "dsp_bound (streams ! i)"
    have b: "bound_to pool (streams ! i)" using d(4) i by blast
    then have "unat (dsp_chain_id (streams ! i)) \<noteq> cid" using assms(3) by (auto simp: bound_to_def Let_def)
    with b show "bound_to (pool[cid := c]) (streams ! i)" by (simp add: bound_to_def)
  next
    fix e assume "e < 4" "chain_bound (pool[cid := c] ! e)"
    then show "\<exists>i < 2. holds (streams ! i) e" using d(3,7) assms(4) by (cases "e = cid") auto
  qed (use d assms(2) in blast)+
qed

lemma zero_stage_ok: "stage_ok zero_stage"
  using covered_zero_stage [of 0 0] by (simp add: stage_ok_def restarted_stage_def zero_stage_def)

lemma dsp_inv_open:
  assumes "dsp_inv pool streams" "adc_dsp_chain_open pool = (rc, cid, pool')"
  shows "dsp_inv pool' streams" "rc = BRIDGE_HW_OK \<Longrightarrow> open_slot (unat cid) pool' \<and> (\<forall>st \<in> set (stages (pool' ! unat cid)). st = zero_stage)"
proof -
  have pool: "pool_ok pool" using assms(1) by (simp add: dsp_inv_def)
  have "dsp_inv pool' streams \<and> (rc = BRIDGE_HW_OK \<longrightarrow>
      open_slot (unat cid) pool' \<and> (\<forall>st \<in> set (stages (pool' ! unat cid)). st = zero_stage))"
  proof (cases "find (\<lambda>i. \<not> chain_in_use (pool ! i)) [0..<4]")
    case None
    then show ?thesis using assms by (auto simp: adc_dsp_chain_open_def)
  next
    case (Some i)
    then have i: "i < 4" "\<not> chain_in_use (pool ! i)"
      by (auto simp: find_Some_iff)
    let ?c = "\<lparr>chain_in_use = True, chain_bound = False, stages = replicate 4 zero_stage\<rparr>"
    have p: "pool' = pool[i := ?c]" "cid = of_nat i" using assms(2) Some by (auto simp: adc_dsp_chain_open_def)
    have ok: "pool_ok (pool[i := ?c])" by (rule pool_ok_update [OF pool]) (auto simp: zero_stage_ok)
    have "unat cid = i" using i(1) p(2) by (simp add: unat_of_nat)
    then show ?thesis
      using dsp_inv_unbound_update [OF assms(1) ok] pool_okD(1,4) [OF pool i(1)] i ok p by (auto simp: open_slot_def)
  qed
  then show "dsp_inv pool' streams" "rc = BRIDGE_HW_OK \<Longrightarrow> open_slot (unat cid) pool' \<and> (\<forall>st \<in> set (stages (pool' ! unat cid)). st = zero_stage)"
    by blast+
qed

lemma stage_push_open:
  assumes "adc_dsp_stage_push cid idx k off tot chunk pool = Some (rc, pool')" "pool_ok pool" "pool' \<noteq> pool"
  shows "open_slot (unat cid) pool" "open_slot (unat cid) pool'"
    "\<exists>sts. pool' = pool[unat cid := (pool ! unat cid)\<lparr>stages := sts\<rparr>]"
proof -
  have c: "unat cid < 4" "unat idx < 4" and f: "chunk_fits k off tot chunk"
    and o: "chain_in_use (pool ! unat cid)" "\<not> chain_bound (pool ! unat cid)"
    using assms(1,3)
    by (auto simp: adc_dsp_stage_push_def chunk_fits_def Let_def not_le not_less word_le_nat_alt [of off tot] split: if_splits)
  show os: "open_slot (unat cid) pool" using assms(2) c o by (simp add: open_slot_def)
  then show "open_slot (unat cid) pool'"
    using reassembly.refines [OF pool_reassembly [OF c] _ f] assms(1) by fastforce
  obtain r st where "stage_accept k off tot chunk (stages (pool ! unat cid) ! unat idx) = Some (r, st)"
    using stage_slot.refines [OF pool_okD(3) [OF assms(2) c] f] by blast
  from stage_push_accepted [OF os c(2) f this]
  show "\<exists>sts. pool' = pool[unat cid := (pool ! unat cid)\<lparr>stages := sts\<rparr>]" using assms(1) by auto
qed

lemma dsp_inv_push:
  assumes "dsp_inv pool streams" "adc_dsp_stage_push cid idx k off tot chunk pool = Some (rc, pool')"
  shows "dsp_inv pool' streams"
proof (cases "pool' = pool")
  case False
  note o = stage_push_open [OF assms(2) dsp_invD(1) [OF assms(1)] False]
  then obtain sts where p: "pool' = pool[unat cid := (pool ! unat cid)\<lparr>stages := sts\<rparr>]" by blast
  have "pool_ok pool'" "\<not> chain_bound (pool ! unat cid)" using o(1,2) by (simp_all add: open_slot_def)
  then show ?thesis using dsp_inv_unbound_update [OF assms(1), of "unat cid"] unfolding p by simp
qed (use assms in simp)

lemma pool_ok_release: "pool_ok pool \<Longrightarrow> pool_ok (adc_dsp_chain_release cid pool)"
proof (cases "unat cid < 4")
  case True
  assume ok: "pool_ok pool"
  show ?thesis
    using pool_okD [OF ok True] True by (simp add: adc_dsp_chain_release_def pool_ok_update [OF ok])
qed (simp add: adc_dsp_chain_release_def)

lemma dsp_inv_release:
  assumes "dsp_inv pool streams" "\<And>i. i < 2 \<Longrightarrow> \<not> holds (streams ! i) (unat cid)"
  shows "dsp_inv (adc_dsp_chain_release cid pool) streams"
proof (cases "unat cid < 4")
  case True
  let ?c = "(pool ! unat cid)\<lparr>chain_bound := False, chain_in_use := False\<rparr>"
  have ub: "\<not> chain_bound (pool ! unat cid)" using dsp_invD(7) [OF assms(1) True] assms(2) by blast
  have "pool_ok (pool[unat cid := ?c])"
    using pool_ok_release [OF dsp_invD(1) [OF assms(1)], of cid] True by (simp add: adc_dsp_chain_release_def)
  then show ?thesis
    using dsp_inv_unbound_update [OF assms(1) _ ub, of ?c] True by (simp add: adc_dsp_chain_release_def)
qed (use assms(1) in \<open>simp add: adc_dsp_chain_release_def\<close>)

text \<open>A stream that ends gives its chain back.\<close>

lemma dsp_inv_detach:
  assumes "dsp_inv pool streams" "sid < 2" "\<not> dsp_bound s"
  shows "dsp_inv (if dsp_bound (streams ! sid) then adc_dsp_chain_release (dsp_chain_id (streams ! sid)) pool else pool)
    (streams[sid := s])"
proof -
  let ?s = "streams ! sid" and ?cid = "dsp_chain_id (streams ! sid)"
  let ?p = "if dsp_bound ?s then adc_dsp_chain_release ?cid pool else pool"
  note d = dsp_invD [OF assms(1)]
  have bt: "dsp_bound ?s \<Longrightarrow> unat ?cid < 4" using d(4) [OF assms(2)] by (simp add: bound_to_def)
  have p: "?p ! e = (if dsp_bound ?s \<and> e = unat ?cid then (pool ! e)\<lparr>chain_bound := False, chain_in_use := False\<rparr> else pool ! e)" for e
    using bt d(3) by (auto simp: adc_dsp_chain_release_def nth_list_update)
  have ok: "pool_ok ?p"
    using pool_ok_release [OF d(1)] d(1) by simp
  show ?thesis
  proof (rule dsp_invI)
    fix i assume i: "i < 2" "dsp_bound (streams[sid := s] ! i)"
    then have ne: "i \<noteq> sid" "dsp_bound (streams ! i)" using assms(2,3) d(2) by (auto simp: nth_list_update split: if_splits)
    have "bound_to pool (streams ! i)" using d(4) i(1) ne(2) by blast
    moreover have "dsp_bound ?s \<Longrightarrow> unat (dsp_chain_id (streams ! i)) \<noteq> unat ?cid"
      using d(5) [OF i(1) assms(2) ne(1)] ne(2) by (simp add: word_unat_eq_iff)
    ultimately show "bound_to ?p (streams[sid := s] ! i)" using ne(1) by (auto simp: bound_to_def p)
  next
    fix i j assume "i < 2" "j < 2" "i \<noteq> j" "dsp_bound (streams[sid := s] ! i)" "dsp_bound (streams[sid := s] ! j)"
    then show "dsp_chain_id (streams[sid := s] ! i) \<noteq> dsp_chain_id (streams[sid := s] ! j) \<and>
        (dsp_terminal (streams[sid := s] ! i) = KIND_FFT) \<noteq> (dsp_terminal (streams[sid := s] ! j) = KIND_FFT)"
      using d(2) d(5,6) [of i j] assms(2,3) by (cases "i = sid"; cases "j = sid") simp_all
  next
    fix e assume e: "e < 4" "chain_bound (?p ! e)"
    then have "chain_bound (pool ! e)" "\<not> (dsp_bound ?s \<and> e = unat ?cid)" unfolding p by (auto split: if_splits)
    then obtain i where "i < 2" "holds (streams ! i) e" "i \<noteq> sid" using d(7) [OF e(1)] by (auto simp: holds_def)
    then show "\<exists>i < 2. holds (streams[sid := s] ! i) e" by auto
  qed (use d(2) ok in simp_all)
qed

lemma bind_scan_InlD: "bind_scan sts i f w l = Some (Inl x) \<Longrightarrow> x = BRIDGE_HW_ERR_INVAL"
proof (induction sts arbitrary: i f w l)
  case (Cons st sts)
  show ?case
  proof (cases "populated st \<and> complete st")
    case False
    then show ?thesis using Cons by (auto split: if_splits)
  next
    case True
    then obtain b where "adc_dsp_stage_blob_valid st = Some b" using Cons.prems by (auto simp: bind_eq_Some_conv)
    then show ?thesis using Cons True by (auto split: if_splits)
  qed
qed simp

lemma bind_shape_InlD:
  assumes "bind_shape c = Some (Inl x)"
  shows "x \<noteq> BRIDGE_HW_OK"
proof -
  obtain r where r: "bind_scan (stages c) 0 4 4 4 = Some r"
    using assms by (cases "bind_scan (stages c) 0 4 4 4") (simp_all add: bind_shape_def)
  show ?thesis
  proof (cases r)
    case (Inl y)
    then show ?thesis using assms r bind_scan_InlD [of "stages c" 0 4 4 4 y] by (simp add: bind_shape_def)
  next
    case (Inr t)
    then show ?thesis using assms r by (cases t) (auto simp: bind_shape_def split: if_splits)
  qed
qed

text \<open>The outcomes of a bind.\<close>

lemma bind_cases:
  assumes "adc_dsp_chain_bind cid sid pool streams = Some (rc, pool', streams')"
  obtains (refused) "pool' = pool" "streams' = streams" "rc \<noteq> BRIDGE_HW_OK"
  | (incapable) "pool' = adc_dsp_chain_release cid pool" "streams' = streams" "rc = BRIDGE_HW_ERR_NOTIMPL"
      "unat cid < 4" "\<not> chain_bound (pool ! unat cid)" "adc_dsp_chain_p1_capable (pool ! unat cid) = Some False"
  | (bound) j where "rc = BRIDGE_HW_OK" "unat cid < 4" "unat sid < 2"
      "chain_in_use (pool ! unat cid)" "\<not> chain_bound (pool ! unat cid)" "bind_shape (pool ! unat cid) = Some (Inr j)"
      "in_use (streams ! unat sid)" "\<not> dsp_bound (streams ! unat sid)"
      "adc_dsp_chain_p1_capable (pool ! unat cid) = Some True"
      "\<not> (if kind (stages (pool ! unat cid) ! j) = KIND_FFT then adc_dsp_fft_stream_busy (unat sid) streams
           else adc_dsp_filter_stream_busy (unat sid) streams)"
      "pool' = pool[unat cid := (pool ! unat cid)\<lparr>chain_bound := True\<rparr>]"
      "streams' = streams[unat sid := attach cid (kind (stages (pool ! unat cid) ! j)) (streams ! unat sid)]"
proof -
  note e = bind_shape_InlD
  consider "unat cid \<ge> 4 \<or> unat sid \<ge> 2 \<or> \<not> chain_in_use (pool ! unat cid) \<or> chain_bound (pool ! unat cid)"
    | "unat cid < 4" "unat sid < 2" "chain_in_use (pool ! unat cid)" "\<not> chain_bound (pool ! unat cid)" by linarith
  then show thesis
  proof cases
    case 1
    then show thesis using assms refused by (auto simp: adc_dsp_chain_bind_def Let_def split: if_splits)
  next
    case g: 2
    obtain r where r: "bind_shape (pool ! unat cid) = Some r"
      using assms g by (cases "bind_shape (pool ! unat cid)") (simp_all add: adc_dsp_chain_bind_def)
    show thesis
    proof (cases r)
      case (Inl x)
      then show thesis using assms g r e [of "pool ! unat cid" x] refused by (auto simp: adc_dsp_chain_bind_def)
    next
      case (Inr j)
      show thesis
      proof (cases "in_use (streams ! unat sid) \<and> \<not> dsp_bound (streams ! unat sid)")
        case False
        then show thesis using assms g r Inr refused by (auto simp: adc_dsp_chain_bind_def Let_def split: if_splits)
      next
        case live: True
        then obtain b where b: "adc_dsp_chain_p1_capable (pool ! unat cid) = Some b"
          using assms g r Inr by (cases "adc_dsp_chain_p1_capable (pool ! unat cid)") (simp_all add: adc_dsp_chain_bind_def)
        show thesis
        proof (cases b)
          case False
          then show thesis using assms g r Inr live b incapable by (simp add: adc_dsp_chain_bind_def)
        next
          case True
          let ?busy = "if kind (stages (pool ! unat cid) ! j) = KIND_FFT then adc_dsp_fft_stream_busy (unat sid) streams
            else adc_dsp_filter_stream_busy (unat sid) streams"
          have eq: "adc_dsp_chain_bind cid sid pool streams =
              (if ?busy then Some (BRIDGE_HW_ERR_NOTIMPL, pool, streams)
               else Some (BRIDGE_HW_OK, pool[unat cid := (pool ! unat cid)\<lparr>chain_bound := True\<rparr>],
                 streams[unat sid := attach cid (kind (stages (pool ! unat cid) ! j)) (streams ! unat sid)]))"
            using g r Inr live b True by (simp only: adc_dsp_chain_bind_def Let_def not_le [symmetric]) simp
          show thesis
          proof (cases ?busy)
            case yes: True
            have "adc_dsp_chain_bind cid sid pool streams = Some (BRIDGE_HW_ERR_NOTIMPL, pool, streams)"
              unfolding eq using yes by (rule if_P)
            then show thesis using assms refused by simp
          next
            case no: False
            have "adc_dsp_chain_bind cid sid pool streams =
                Some (BRIDGE_HW_OK, pool[unat cid := (pool ! unat cid)\<lparr>chain_bound := True\<rparr>],
                  streams[unat sid := attach cid (kind (stages (pool ! unat cid) ! j)) (streams ! unat sid)])"
              unfolding eq using no by (rule if_not_P)
            then show thesis
              by (intro bound [OF _ g _ _ _ _ no]) (use assms r Inr live b True in simp_all)
          qed
        qed
      qed
    qed
  qed
qed

lemma dsp_inv_bind:
  assumes "dsp_inv pool streams" "adc_dsp_chain_bind cid sid pool streams = Some (rc, pool', streams')"
  shows "dsp_inv pool' streams'"
  using assms(2)
proof (cases rule: bind_cases)
  case incapable
  have "\<not> holds (streams ! i) (unat cid)" if "i < 2" for i
    using dsp_invD(4) [OF assms(1) that] incapable(5) by (auto simp: holds_def bound_to_def Let_def)
  then show ?thesis using dsp_inv_release [OF assms(1)] incapable(1,2) by simp
next
  case (bound j)
  note d = dsp_invD [OF assms(1)]
  let ?c = "pool ! unat cid" and ?k = "kind (stages (pool ! unat cid) ! j)"
  let ?s = "attach cid ?k (streams ! unat sid)"
  note sh = bind_shape_InrD [OF bound(6)]
  have li: "last_is (stages ?c) j" using sh(2) pool_okD(2) [OF d(1) bound(2)] by simp
  have old: "unat (dsp_chain_id (streams ! i)) \<noteq> unat cid" if "i < 2" "dsp_bound (streams ! i)" for i
    using d(4) [OF that] bound(5) by (auto simp: bound_to_def Let_def)
  have excl: "(dsp_terminal (streams ! i) = KIND_FFT) \<noteq> (?k = KIND_FFT)" if "i < 2" "i \<noteq> unat sid" "dsp_bound (streams ! i)" for i
  proof -
    have "in_use (streams ! i)" using d(4) [OF that(1,3)] by (simp add: bound_to_def)
    then show ?thesis
      using bound(10) that by (auto simp: adc_dsp_fft_stream_busy_def adc_dsp_filter_stream_busy_def split: if_splits)
  qed
  have p1: "adc_dsp_chain_p1_capable (?c\<lparr>chain_bound := True\<rparr>) = adc_dsp_chain_p1_capable ?c"
    by (simp add: adc_dsp_chain_p1_capable_def)
  show ?thesis unfolding bound(11,12)
  proof (rule dsp_invI)
    show "pool_ok (pool[unat cid := ?c\<lparr>chain_bound := True\<rparr>])"
      using pool_okD [OF d(1) bound(2)] bound(4) by (intro pool_ok_update [OF d(1)]) simp_all
  next
    fix i assume i: "i < 2" "dsp_bound (streams[unat sid := ?s] ! i)"
    show "bound_to (pool[unat cid := ?c\<lparr>chain_bound := True\<rparr>]) (streams[unat sid := ?s] ! i)"
    proof (cases "i = unat sid")
      case True
      then show ?thesis
        using d(2,3) i(1) bound(2,7,9) li sh(1) p1 by (auto simp: bound_to_def attach_def Let_def)
    next
      case False
      then show ?thesis using i d(4) [of i] old [of i] by (simp add: bound_to_def)
    qed
  next
    fix i j assume ij: "i < 2" "j < 2" "i \<noteq> j" "dsp_bound (streams[unat sid := ?s] ! i)" "dsp_bound (streams[unat sid := ?s] ! j)"
    then show "dsp_chain_id (streams[unat sid := ?s] ! i) \<noteq> dsp_chain_id (streams[unat sid := ?s] ! j) \<and>
        (dsp_terminal (streams[unat sid := ?s] ! i) = KIND_FFT) \<noteq> (dsp_terminal (streams[unat sid := ?s] ! j) = KIND_FFT)"
      using d(2) d(5,6) [of i j] old [of i] old [of j] excl [of i] excl [of j]
      by (cases "i = unat sid"; cases "j = unat sid") (auto simp: attach_def)
  next
    fix e assume e: "e < 4" "chain_bound (pool[unat cid := ?c\<lparr>chain_bound := True\<rparr>] ! e)"
    show "\<exists>i < 2. holds (streams[unat sid := ?s] ! i) e"
    proof (cases "e = unat cid")
      case True
      then show ?thesis using bound(3) d(2) by (intro exI [of _ "unat sid"]) (simp add: holds_def attach_def)
    next
      case False
      then obtain i where i: "i < 2" "holds (streams ! i) e" using d(7) [OF e(1)] e(2) by auto
      then have "i \<noteq> unat sid" using bound(8) by (auto simp: holds_def)
      then show ?thesis using i by (intro exI [of _ i]) simp
    qed
  qed (use d(2) in simp)
qed (use assms in simp)

lemma bind_defined:
  assumes "dsp_inv pool streams"
  shows "adc_dsp_chain_bind cid sid pool streams \<noteq> None"
proof (cases "unat cid < 4 \<and> unat sid < 2")
  case True
  note p = pool_okD [OF dsp_invD(1) [OF assms], of "unat cid"]
  obtain r where r: "bind_shape (pool ! unat cid) = Some r" using bind_shape_defined p(5) True by blast
  obtain b where "adc_dsp_chain_p1_capable (pool ! unat cid) = Some b" using p1_capable_defined p(2,5) True by blast
  with r True show ?thesis by (cases r) (simp_all add: adc_dsp_chain_bind_def Let_def del: not_None_eq)
qed (auto simp: adc_dsp_chain_bind_def)

lemma push_defined:
  assumes "pool_ok pool"
  shows "adc_dsp_stage_push cid idx k off tot chunk pool \<noteq> None"
proof (cases "unat cid < 4 \<and> unat idx < 4 \<and> chunk_fits k off tot chunk")
  case True
  obtain r st where "stage_accept k off tot chunk (stages (pool ! unat cid) ! unat idx) = Some (r, st)"
    using stage_slot.refines [OF pool_okD(3) [OF assms]] True by blast
  then show ?thesis using True by (simp add: adc_dsp_stage_push_def Let_def del: not_None_eq)
next
  case False
  then show ?thesis
    by (auto simp: adc_dsp_stage_push_def chunk_fits_def Let_def not_le not_less word_le_nat_alt [of off tot])
qed

section \<open>Examples\<close>

definition idle_chain :: adc_dsp_chain where
  "idle_chain = \<lparr>chain_in_use = False, chain_bound = False, stages = replicate BRIDGE_DSP_MAX_STAGES zero_stage\<rparr>"

definition idle_pool :: "adc_dsp_chain list" where
  "idle_pool = replicate BRIDGE_DSP_MAX_CHAINS idle_chain"

definition open_pool :: "adc_dsp_chain list" where
  "open_pool = idle_pool[0 := idle_chain\<lparr>chain_in_use := True\<rparr>]"

lemma idle_pool_ok: "pool_ok idle_pool"
  using zero_stage_ok by (simp add: pool_ok_def idle_pool_def idle_chain_def)

lemma open_pool_slot: "open_slot 0 open_pool" "i < 4 \<Longrightarrow> stage_abs (stages (open_pool ! 0) ! i) = None"
proof -
  have "pool_ok open_pool" unfolding open_pool_def
    by (rule pool_ok_update [OF idle_pool_ok]) (simp_all add: idle_chain_def zero_stage_ok)
  then show "open_slot 0 open_pool" "i < 4 \<Longrightarrow> stage_abs (stages (open_pool ! 0) ! i) = None"
    by (simp_all add: open_slot_def open_pool_def idle_pool_def idle_chain_def stage_abs_def zero_stage_def)
qed

text \<open>A one-tap FIR blob: Q31, the tap 0x40000000.\<close>

definition fir_blob :: bytes where
  "fir_blob = [1, 1, 0, 0, 0, 0, 0, 0x40]"

text \<open>
  The structural rules of a bind do not reject an empty stage in front of the first populated
  one: a chain whose only stage sits at index one has a valid shape.
\<close>

definition fir_stage :: adc_dsp_stage where
  "fir_stage = zero_stage\<lparr>total_size := 8, bytes_received := 8, complete := True,
     coverage := 0xFF # replicate 32 0, data := fir_blob @ replicate 252 0\<rparr>"

lemma bind_allows_leading_gap:
  "bind_shape (idle_chain\<lparr>chain_in_use := True, stages := [zero_stage, fir_stage, zero_stage, zero_stage]\<rparr>) = Some (Inr 1)"
  by (simp add: bind_shape_def fir_stage_def zero_stage_def fir_blob_def adc_dsp_stage_blob_valid_def rd_def)

section \<open>Properties\<close>

text \<open>
  C21: uploads implement their contract.  Whatever the arguments, a push never touches memory
  outside the stage's coverage and data arrays; on an open slot a well-formed chunk is merged,
  replaces the stage or is refused exactly as the partial-map specification says.
\<close>

theorem dsp_push_refines:
  assumes "pool_ok pool"
  shows "adc_dsp_stage_push cid idx k off tot chunk pool \<noteq> None \<and>
    (open_slot (unat cid) pool \<and> unat idx < BRIDGE_DSP_MAX_STAGES \<and> chunk_fits k off tot chunk \<longrightarrow>
     (\<exists>rc pool'. adc_dsp_stage_push cid idx k off tot chunk pool = Some (rc, pool') \<and> open_slot (unat cid) pool' \<and>
        push_spec k off tot chunk (stage_abs (stages (pool ! unat cid) ! unat idx)) =
          (rc, stage_abs (stages (pool' ! unat cid) ! unat idx))))"
proof -
  have "unat cid < 4" if "open_slot (unat cid) pool" using that by (simp add: open_slot_def)
  then show ?thesis using push_defined [OF assms] reassembly.refines [OF pool_reassembly] by auto
qed

theorem dsp_push_refines_witness:
  "\<exists>pool'. adc_dsp_stage_push 0 2 0 4 8 [9, 9] open_pool = Some (BRIDGE_HW_OK, pool') \<and>
     stage_abs (stages (pool' ! 0) ! 2) = Some (0, 8, chunk_map 4 [9, 9])"
proof -
  have "pool_ok open_pool" "chunk_fits 0 4 8 [9, 9]" using open_pool_slot(1) by (simp_all add: open_slot_def chunk_fits_def)
  from dsp_push_refines [OF this(1), of 0 2 0 4 8 "[9, 9]"] this(2) open_pool_slot
  show ?thesis by (auto simp: push_spec_def)
qed

text \<open>
  C23: reassembly round trip.  Chunks that are slices of one blob are all accepted in whatever
  order and with whatever overlap they arrive; the stage is complete exactly when they cover
  the blob, and then holds it.
\<close>

theorem dsp_upload_any_order:
  assumes "open_slot (unat cid) pool" "unat idx < BRIDGE_DSP_MAX_STAGES" "total_size (stages (pool ! unat cid) ! unat idx) = 0"
    and "k \<le> BRIDGE_DSP_KIND_MAX" "length blob \<le> BRIDGE_DSP_MAX_STAGE_BYTES" "cs \<noteq> []" "\<forall>oc \<in> set cs. slice_of blob oc"
  shows "\<exists>pool'. push_all (\<lambda>off c. adc_dsp_stage_push cid idx k off (of_nat (length blob)) c) cs pool =
      Some (replicate (length cs) BRIDGE_HW_OK, pool') \<and>
    (let st = stages (pool' ! unat cid) ! unat idx
     in kind st = k \<and> (complete st \<longleftrightarrow> spans cs = {..<length blob}) \<and>
        (complete st \<longrightarrow> take (length blob) (data st) = blob))"
proof -
  let ?tot = "of_nat (length blob) :: u16"
  have cid: "unat cid < 4" using assms(1) by (simp add: open_slot_def)
  have tot: "unat ?tot = length blob" using assms(5) by (simp add: unat_of_nat)
  have fits: "chunk_fits k off ?tot c \<and> slice_of blob (off, c)" if "(off, c) \<in> set cs" for off c
  proof -
    have sl: "slice_of blob (off, c)" using assms(7) that by auto
    then have "length blob \<noteq> 0" by (auto simp: slice_of_def)
    then have "?tot \<noteq> 0" using tot by (metis unat_0)
    then show ?thesis using sl assms(4,5) tot by (auto simp: chunk_fits_def slice_of_def)
  qed
  have "stage_abs (stages (pool ! unat cid) ! unat idx) = None" using assms(3) by (simp add: stage_abs_def)
  from reassembly.upload [OF pool_reassembly [OF cid assms(2)] assms(1) this assms(6) fits]
  obtain pool' where p: "push_all (\<lambda>off c. adc_dsp_stage_push cid idx k off ?tot c) cs pool =
      Some (replicate (length cs) BRIDGE_HW_OK, pool')" "open_slot (unat cid) pool'"
    "stage_abs (stages (pool' ! unat cid) ! unat idx) = Some (k, ?tot, chunk_map 0 blob |` spans cs)" by blast
  have "stage_ok (stages (pool' ! unat cid) ! unat idx)"
    using p(2) pool_okD(3) assms(2) cid by (simp add: open_slot_def)
  moreover have "spans cs \<subseteq> {..<length blob}" using assms(7) by (force simp: spans_def slice_of_def)
  ultimately show ?thesis
    using stage_abs_SomeD [OF _ p(3) tot [symmetric]] p(1) by (auto simp: Let_def)
qed

theorem dsp_upload_any_order_witness:
  "\<exists>pool'. push_all (\<lambda>off c. adc_dsp_stage_push 0 1 0 off 8 c) [(3, drop 3 fir_blob), (0, take 4 fir_blob)] open_pool =
      Some ([0, 0], pool') \<and> complete (stages (pool' ! 0) ! 1) \<and> take 8 (data (stages (pool' ! 0) ! 1)) = fir_blob"
proof -
  have "total_size (stages (open_pool ! unat (0 :: u8)) ! unat (1 :: u8)) = 0"
    by (simp add: open_pool_def idle_pool_def idle_chain_def zero_stage_def)
  moreover have "\<forall>oc \<in> set [(3, drop 3 fir_blob), (0, take 4 fir_blob)]. slice_of fir_blob oc"
    by (simp add: slice_of_def fir_blob_def)
  moreover have "spans [(3, drop 3 fir_blob), (0, take 4 fir_blob)] = {..<length fir_blob}"
    by (auto simp: fir_blob_def)
  moreover have "length fir_blob = 8" by (simp add: fir_blob_def)
  ultimately show ?thesis
    using dsp_upload_any_order [of 0 open_pool 1 0 fir_blob "[(3, drop 3 fir_blob), (0, take 4 fir_blob)]"] open_pool_slot(1)
    by (auto simp: Let_def simp del: push_all.simps)
qed

end
