(* ===== verification/Adc.thy ===== *)
theory Adc
  imports Dsp_Chain
begin

unbundle bit_operations_syntax

text \<open>
  Single-shot conversion of \<open>hal/gd32/adc.c\<close> and the reference latch of \<open>hal/gd32/vref.c\<close>:
  the channel map, the sticky format caches, the oversampling rounding, the converter interlock,
  the residency budget of a read and the scaling of codes to millivolts.  The converter itself is
  a parameter: how many polls the two phases of a calibration and the end-of-conversion flag of a
  triggered conversion take, and the code each conversion delivers.  The vendor's register
  functions are recorded as the sequence of calls the code makes, in order.
\<close>

section \<open>State\<close>

abbreviation (input) "ADC_CHANNEL_MAP_COUNT \<equiv> (8 :: nat)"
abbreviation (input) "ADC_PERIPH_COUNT \<equiv> (4 :: nat)"
abbreviation (input) "ADC_VREF_MV \<equiv> (1800 :: u16)"
abbreviation (input) "ADC_FULL_SCALE \<equiv> (4095 :: u16)"
abbreviation (input) "ADC_VREFINT_TYP_MV \<equiv> (1200 :: u32)"
abbreviation (input) "ADC_VREF_MIN_MV \<equiv> (1700 :: u32)"
abbreviation (input) "ADC_VREF_MAX_MV \<equiv> (1900 :: u32)"
abbreviation (input) "ADC_RES_BITS_DEFAULT \<equiv> (12 :: u8)"
abbreviation (input) "ADC_OVERSAMPLE_RATIO_MAX \<equiv> (256 :: u16)"
abbreviation (input) "ADC_DEFAULT_SAMPLE_CYCLES \<equiv> (240 :: u16)"
abbreviation (input) "ADC_READ_CONV_HALF_CYCLES_12B \<equiv> (25 :: u32)"
abbreviation (input) "ADC_READ_BUDGET_HALF_CYCLES \<equiv> (72000 :: u32)"

datatype adc_periph = ADC0 | ADC1 | ADC2 | ADC3

record adc_st =
  adc_sample_cycles_cache :: "u16 list"
  adc_resolution_bits_cache :: "u8 list"
  adc_oversample_ratio_cache :: "u16 list"
  adc_vref_mv :: u16
  adc_vrefint_code :: u16
  adc_periph_busy :: "bool list"
  vref_ok :: bool
  vref_remeasure_pending :: bool

text \<open>What the hardware does during a call: the reference-ready flag, the polls before the two
  flags of the n-th calibration clear and, for the n-th conversion, the polls before its flag sets
  and its data register.\<close>

record adc_env =
  env_vrefrdy :: bool
  env_calib :: "nat \<Rightarrow> nat \<times> nat"
  env_polls :: "nat \<Rightarrow> nat"
  env_code :: "nat \<Rightarrow> u32"

text \<open>The calls of the vendor library, one constructor per function the code uses, and the two
  calibration bits it sets in \<open>ADC_CTL1\<close> itself; a bounded wait is recorded with its outcome.\<close>

datatype adc_call =
    Adc_Deinit adc_periph | Adc_Clock_Config adc_periph
  | Adc_Disable adc_periph | Adc_Enable adc_periph
  | Adc_Resolution adc_periph u8
  | Adc_Oversample_Config adc_periph u32 u16 | Adc_Oversample_Enable adc_periph | Adc_Oversample_Disable adc_periph
  | Adc_Routine_Channel adc_periph nat u16
  | Adc_Align_Right adc_periph | Adc_Routine_Length adc_periph nat | Adc_Ext_Trigger_Off adc_periph
  | Adc_Set_RSTCLB adc_periph | Adc_Wait_RSTCLB adc_periph bool | Adc_Set_CLB adc_periph | Adc_Wait_CLB adc_periph bool
  | Adc_Clear_EOC adc_periph | Adc_Clear_ROVF adc_periph
  | Adc_Software_Trigger adc_periph | Adc_Wait_EOC adc_periph bool | Adc_Data_Read adc_periph
  | Adc_Ext_Trigger_Rising adc_periph
  | Adc_Dma_After_Last_On adc_periph | Adc_Dma_On adc_periph
  | Adc_Dma_After_Last_Off adc_periph | Adc_Dma_Off adc_periph
  | Adc_Vrefint adc_periph bool

definition adc_channels_map :: "(adc_periph \<times> nat) list" where
  "adc_channels_map = [(ADC3, 12), (ADC3, 2), (ADC2, 2), (ADC2, 13), (ADC1, 4), (ADC1, 12), (ADC0, 2), (ADC0, 3)]"

section \<open>Formats\<close>

definition adc_vref_mv_from_code :: "u32 \<Rightarrow> u16" where
  "adc_vref_mv_from_code code =
     (if code = 0 then ADC_VREF_MV
      else let mv = (ADC_VREFINT_TYP_MV * ucast ADC_FULL_SCALE + code div 2) div code
           in if mv < ADC_VREF_MIN_MV \<or> mv > ADC_VREF_MAX_MV then ADC_VREF_MV else ucast mv)"

definition adc_resolution_reg :: "u8 \<Rightarrow> bool" where
  "adc_resolution_reg bits \<longleftrightarrow> bits = 12 \<or> bits = 10 \<or> bits = 8 \<or> bits = 6"

definition adc_full_scale_for_bits :: "u8 \<Rightarrow> u16" where
  "adc_full_scale_for_bits bits =
     (if bits = 10 then 1023 else if bits = 8 then 255 else if bits = 6 then 63 else ADC_FULL_SCALE)"

text \<open>The rounding loop \<open>while ((uint16_t)(pow2 << 1) <= ratio)\<close>; \<open>None\<close> when the fuel runs out.\<close>

fun pow2_floor :: "nat \<Rightarrow> u16 \<Rightarrow> u16 \<Rightarrow> u32 \<Rightarrow> (u16 \<times> u32) option" where
  "pow2_floor 0 ratio pow2 lg = None"
| "pow2_floor (Suc n) ratio pow2 lg =
     (if push_bit 1 pow2 \<le> ratio then pow2_floor n ratio (push_bit 1 pow2) (lg + 1) else Some (pow2, lg))"

text \<open>\<open>Some None\<close>: oversampling off.  \<open>Some (Some (ovsr, shift))\<close>: the register value and the shift.\<close>

definition adc_oversample_params :: "u16 \<Rightarrow> (u16 \<times> u32) option option" where
  "adc_oversample_params ratio =
     (if ratio \<le> 1 then Some None
      else do {
        (pow2, lg) \<leftarrow> pow2_floor 9 (if ratio > ADC_OVERSAMPLE_RATIO_MAX then ADC_OVERSAMPLE_RATIO_MAX else ratio) 1 0;
        Some (Some (pow2 - 1, lg)) })"

definition adc_effective_ratio :: "u8 \<Rightarrow> adc_st \<Rightarrow> u16 option" where
  "adc_effective_ratio channel_id s = do {
     p \<leftarrow> adc_oversample_params (adc_oversample_ratio_cache s ! unat channel_id);
     Some (case p of None \<Rightarrow> 1 | Some (ovsr, shift) \<Rightarrow> ovsr + 1) }"

section \<open>Converter set-up\<close>

definition adc_apply_conv_format :: "adc_periph \<Rightarrow> u8 \<Rightarrow> adc_st \<Rightarrow> adc_call list option" where
  "adc_apply_conv_format p channel_id s = do {
     let bits = adc_resolution_bits_cache s ! unat channel_id;
     ovs \<leftarrow> adc_oversample_params (adc_oversample_ratio_cache s ! unat channel_id);
     Some ((if adc_resolution_reg bits then [Adc_Resolution p bits] else []) @
           (case ovs of None \<Rightarrow> [Adc_Oversample_Disable p]
            | Some (ovsr, shift) \<Rightarrow> [Adc_Oversample_Config p shift ovsr, Adc_Oversample_Enable p])) }"

definition adc_calibrate_bounded :: "adc_env \<Rightarrow> nat \<Rightarrow> adc_periph \<Rightarrow> bool \<times> adc_call list" where
  "adc_calibrate_bounded env n p =
     (let rst = fst (env_calib env n) < 100000; clb = snd (env_calib env n) < 100000
      in if \<not> rst then (False, [Adc_Set_RSTCLB p, Adc_Wait_RSTCLB p rst])
         else (clb, [Adc_Set_RSTCLB p, Adc_Wait_RSTCLB p rst, Adc_Set_CLB p, Adc_Wait_CLB p clb]))"

definition adc_periph_boot_init :: "adc_env \<Rightarrow> nat \<Rightarrow> adc_periph \<Rightarrow> bool \<times> adc_call list" where
  "adc_periph_boot_init env n p =
     (let (ok, tr) = adc_calibrate_bounded env n p
      in (ok, [Adc_Align_Right p, Adc_Routine_Length p 1, Adc_Ext_Trigger_Off p, Adc_Enable p] @ tr))"

definition adc_periph_boot_reset_all :: "adc_call list" where
  "adc_periph_boot_reset_all = [Adc_Deinit ADC0, Adc_Deinit ADC1, Adc_Deinit ADC2, Adc_Deinit ADC3]"

definition adc_shared_clock_init :: "adc_call list" where
  "adc_shared_clock_init = [Adc_Clock_Config ADC0, Adc_Clock_Config ADC3]"

definition adc_periph_restore :: "adc_env \<Rightarrow> nat \<Rightarrow> adc_periph \<Rightarrow> bool \<times> adc_call list" where
  "adc_periph_restore env n p =
     (let (ok, tr) = adc_periph_boot_init env n p
      in (ok, [Adc_Disable p, Adc_Dma_After_Last_Off p, Adc_Dma_Off p, Adc_Clear_EOC p, Adc_Clear_ROVF p] @ tr))"

section \<open>Converter interlock\<close>

fun adc_periph_slot :: "adc_periph \<Rightarrow> nat" where
  "adc_periph_slot ADC0 = 0"
| "adc_periph_slot ADC1 = 1"
| "adc_periph_slot ADC2 = 2"
| "adc_periph_slot ADC3 = 3"

definition adc_periph_claim :: "adc_periph \<Rightarrow> adc_st \<Rightarrow> bool \<times> adc_st" where
  "adc_periph_claim p s =
     (let free_now = \<not> adc_periph_busy s ! adc_periph_slot p
      in (free_now, if free_now then s\<lparr>adc_periph_busy := (adc_periph_busy s)[adc_periph_slot p := True]\<rparr> else s))"

definition adc_periph_release :: "adc_periph \<Rightarrow> adc_st \<Rightarrow> adc_st" where
  "adc_periph_release p s = s\<lparr>adc_periph_busy := (adc_periph_busy s)[adc_periph_slot p := False]\<rparr>"

section \<open>Reference\<close>

definition vref_ready_check :: "adc_env \<Rightarrow> adc_st \<Rightarrow> bool \<times> adc_st" where
  "vref_ready_check env s =
     (vref_ok s, if \<not> vref_ok s \<and> env_vrefrdy env then s\<lparr>vref_remeasure_pending := True\<rparr> else s)"

definition adc_vref_publish :: "u16 \<Rightarrow> u16 \<Rightarrow> adc_st \<Rightarrow> adc_st" where
  "adc_vref_publish code mv s = s\<lparr>adc_vrefint_code := code, adc_vref_mv := mv\<rparr>"

text \<open>The sixteen conversions of a measurement; \<open>None\<close> when one times out.\<close>

fun vref_sum :: "adc_env \<Rightarrow> nat \<Rightarrow> nat \<Rightarrow> u32 \<Rightarrow> u32 option \<times> adc_call list" where
  "vref_sum env i 0 acc = (Some acc, [])"
| "vref_sum env i (Suc n) acc =
     (if env_polls env i < 100000
      then let (r, tr) = vref_sum env (Suc i) n (acc + (env_code env i AND ucast ADC_FULL_SCALE))
           in (r, [Adc_Software_Trigger ADC0, Adc_Wait_EOC ADC0 True, Adc_Clear_EOC ADC0, Adc_Data_Read ADC0] @ tr)
      else (None, [Adc_Software_Trigger ADC0, Adc_Wait_EOC ADC0 False]))"

definition adc_vref_measure :: "adc_env \<Rightarrow> adc_st \<Rightarrow> bool \<times> adc_st \<times> adc_call list" where
  "adc_vref_measure env s =
     (let setup = [Adc_Vrefint ADC0 True, Adc_Disable ADC0, Adc_Resolution ADC0 12, Adc_Oversample_Disable ADC0,
                   Adc_Routine_Channel ADC0 18 ADC_DEFAULT_SAMPLE_CYCLES, Adc_Enable ADC0];
          (calibrated, tr1) = adc_calibrate_bounded env 0 ADC0
      in if \<not> calibrated then (False, adc_vref_publish 0 (adc_vref_mv s) s, setup @ tr1 @ [Adc_Vrefint ADC0 False])
         else let (r, tr2) = vref_sum env 0 16 0;
                  tr = setup @ tr1 @ [Adc_Clear_EOC ADC0] @ tr2 @ [Adc_Vrefint ADC0 False]
              in case r of
                   None \<Rightarrow> (False, adc_vref_publish 0 (adc_vref_mv s) s, tr)
                 | Some acc \<Rightarrow> (True, adc_vref_publish (ucast (acc div 16)) (adc_vref_mv_from_code (acc div 16)) s, tr))"

definition vref_late_tick :: "adc_env \<Rightarrow> adc_st \<Rightarrow> adc_st \<times> adc_call list" where
  "vref_late_tick env s =
     (if \<not> vref_remeasure_pending s then (s, [])
      else let (owned, s1) = adc_periph_claim ADC0 s
           in if \<not> owned then (s1, [])
              else let (_, s2, tr) = adc_vref_measure env s1
                   in ((adc_periph_release ADC0 s2)\<lparr>vref_remeasure_pending := False, vref_ok := True\<rparr>, tr))"

section \<open>Reading\<close>

definition code_to_mv :: "u32 \<Rightarrow> u16 \<Rightarrow> u16 \<Rightarrow> u16" where
  "code_to_mv code vref fs =
     (let c = (if code > ucast fs then ucast fs else code) in ucast ((c * ucast vref) div ucast fs))"

text \<open>The sample loop: whether it ran to the end, the millivolts written and the calls made.\<close>

fun read_samples :: "adc_env \<Rightarrow> adc_periph \<Rightarrow> nat \<Rightarrow> u16 \<Rightarrow> u16 \<Rightarrow> nat \<Rightarrow> nat \<Rightarrow> bool \<times> u16 list \<times> adc_call list" where
  "read_samples env p bound fs vref i 0 = (True, [], [])"
| "read_samples env p bound fs vref i (Suc n) =
     (if env_polls env i < bound
      then let (ok, mvs, tr) = read_samples env p bound fs vref (Suc i) n
           in (ok, code_to_mv (env_code env i) vref fs # mvs,
               [Adc_Software_Trigger p, Adc_Wait_EOC p True, Adc_Clear_EOC p, Adc_Data_Read p] @ tr)
      else (False, [], [Adc_Software_Trigger p, Adc_Wait_EOC p False] @ snd (adc_periph_restore env 1 p)))"

definition eoc_bound :: "u16 \<Rightarrow> u32" where
  "eoc_bound ratio = (let b = 100000 + 25000 * ucast ratio in if b > 400000 then 400000 else b)"

definition residency_half_cycles :: "u8 \<Rightarrow> u16 \<Rightarrow> u16 \<Rightarrow> u32" where
  "residency_half_cycles samples ratio cycles =
     ucast samples * ucast ratio * (2 * ucast cycles + ADC_READ_CONV_HALF_CYCLES_12B)"

text \<open>The part of \<open>bridge_hw_adc_read\<close> that holds the claim.\<close>

definition adc_read_owned ::
  "adc_env \<Rightarrow> adc_periph \<times> nat \<Rightarrow> u8 \<Rightarrow> u8 \<Rightarrow> u16 \<Rightarrow> adc_st \<Rightarrow> (int \<times> u16 list \<times> adc_st \<times> adc_call list) option" where
  "adc_read_owned env pad channel_id samples ratio s = do {
     let p = fst pad;
     fmt \<leftarrow> adc_apply_conv_format p channel_id s;
     let (calibrated, tr1) = adc_calibrate_bounded env 0 p;
     let setup = Adc_Disable p # fmt @
           [Adc_Routine_Channel p (snd pad) (adc_sample_cycles_cache s ! unat channel_id), Adc_Enable p] @ tr1;
     if \<not> calibrated then Some (BRIDGE_HW_ERR_IO, [], adc_periph_release p s, setup)
     else let fs = adc_full_scale_for_bits (adc_resolution_bits_cache s ! unat channel_id);
              (ok, mvs, tr2) = read_samples env p (unat (eoc_bound ratio)) fs (adc_vref_mv s) 0 (unat samples)
          in Some (if ok then BRIDGE_HW_OK else BRIDGE_HW_ERR_IO, mvs, adc_periph_release p s, setup @ [Adc_Clear_EOC p] @ tr2) }"

definition adc_read ::
  "adc_env \<Rightarrow> adc_stream_state list \<Rightarrow> u8 \<Rightarrow> u8 \<Rightarrow> adc_st \<Rightarrow> (int \<times> u16 list \<times> adc_st \<times> adc_call list) option" where
  "adc_read env streams channel_id samples s =
     (if samples = 0 then Some (BRIDGE_HW_ERR_INVAL, [], s, [])
      else if unat channel_id \<ge> ADC_CHANNEL_MAP_COUNT then Some (BRIDGE_HW_ERR_RANGE, [], s, [])
      else let (ready, s1) = vref_ready_check env s; pad = adc_channels_map ! unat channel_id
           in if \<not> ready then Some (BRIDGE_HW_ERR_IO, [], s1, [])
              else if \<exists>si \<in> set [0..<BRIDGE_ADC_STREAM_COUNT].
                        in_use (streams ! si) \<and> fst (adc_channels_map ! unat (channel (streams ! si))) = fst pad
              then Some (BRIDGE_HW_ERR_BUSY, [], s1, [])
              else do {
                ratio \<leftarrow> adc_effective_ratio channel_id s1;
                if residency_half_cycles samples ratio (adc_sample_cycles_cache s1 ! unat channel_id) > ADC_READ_BUDGET_HALF_CYCLES
                then Some (BRIDGE_HW_ERR_RANGE, [], s1, [])
                else let (owned, s2) = adc_periph_claim (fst pad) s1
                     in if \<not> owned then Some (BRIDGE_HW_ERR_BUSY, [], s2, [])
                        else adc_read_owned env pad channel_id samples ratio s2 })"

definition adc_configure :: "u8 \<Rightarrow> u16 \<Rightarrow> u16 \<Rightarrow> u8 \<Rightarrow> adc_st \<Rightarrow> int \<times> adc_st" where
  "adc_configure channel_id oversample_ratio sample_cycles resolution_bits s =
     (if unat channel_id \<ge> ADC_CHANNEL_MAP_COUNT then (BRIDGE_HW_ERR_RANGE, s)
      else let res_bits = (if resolution_bits = 0 then ADC_RES_BITS_DEFAULT else resolution_bits)
           in if \<not> adc_resolution_reg res_bits
              then (if res_bits = 14 \<or> res_bits = 16 then BRIDGE_HW_ERR_NOTIMPL else BRIDGE_HW_ERR_INVAL, s)
              else let sc0 = (if sample_cycles = 0 then ADC_DEFAULT_SAMPLE_CYCLES else sample_cycles);
                       sc1 = (if sc0 < 2 then 2 else sc0);
                       sc = (if sc1 > 638 then 638 else sc1)
                   in (BRIDGE_HW_OK,
                       s\<lparr>adc_sample_cycles_cache := (adc_sample_cycles_cache s)[unat channel_id := sc],
                         adc_resolution_bits_cache := (adc_resolution_bits_cache s)[unat channel_id := res_bits],
                         adc_oversample_ratio_cache := (adc_oversample_ratio_cache s)[unat channel_id := oversample_ratio]\<rparr>))"

section \<open>Boot\<close>

definition adc_bss :: adc_st where
  "adc_bss = \<lparr>adc_sample_cycles_cache = replicate 8 0, adc_resolution_bits_cache = replicate 8 0,
     adc_oversample_ratio_cache = replicate 8 0, adc_vref_mv = ADC_VREF_MV, adc_vrefint_code = 0,
     adc_periph_busy = replicate 4 False, vref_ok = False, vref_remeasure_pending = False\<rparr>"

text \<open>The analog part of \<open>bridge_hw_init\<close>: the reference verdict, the reset and bring-up of the four
  converters (\<open>env\<close> gives their calibrations), the reference measurement (\<open>env'\<close>) and the cache defaults.\<close>

definition adc_bring_up :: "adc_env \<Rightarrow> adc_env \<Rightarrow> adc_st \<Rightarrow> adc_st \<times> adc_call list" where
  "adc_bring_up env env' s =
     (let s1 = s\<lparr>vref_ok := env_vrefrdy env\<rparr>;
          boot = adc_periph_boot_reset_all @ adc_shared_clock_init @
            snd (adc_periph_boot_init env 0 ADC0) @ snd (adc_periph_boot_init env 1 ADC1) @
            snd (adc_periph_boot_init env 2 ADC2) @ snd (adc_periph_boot_init env 3 ADC3);
          (s2, tr) = (if vref_ok s1 then snd (adc_vref_measure env' s1) else (s1, []))
      in (s2\<lparr>adc_sample_cycles_cache := replicate ADC_CHANNEL_MAP_COUNT ADC_DEFAULT_SAMPLE_CYCLES,
             adc_resolution_bits_cache := replicate ADC_CHANNEL_MAP_COUNT ADC_RES_BITS_DEFAULT,
             adc_oversample_ratio_cache := replicate ADC_CHANNEL_MAP_COUNT 1\<rparr>, boot @ tr))"

text \<open>The states the operations lead to: requests and ticks, and claims taken or given back by a
  holder at another priority in between.\<close>

inductive adc_reachable :: "adc_st \<Rightarrow> bool" where
  boot: "adc_reachable (fst (adc_bring_up env env' adc_bss))"
| configure: "adc_reachable s \<Longrightarrow> adc_reachable (snd (adc_configure c r sc bits s))"
| read: "adc_reachable s \<Longrightarrow> adc_read env streams c n s = Some (rc, mvs, s', tr) \<Longrightarrow> adc_reachable s'"
| tick: "adc_reachable s \<Longrightarrow> adc_reachable (fst (vref_late_tick env s))"
| claim: "adc_reachable s \<Longrightarrow> adc_reachable (snd (adc_periph_claim p s))"
| release: "adc_reachable s \<Longrightarrow> adc_reachable (adc_periph_release p s)"

section \<open>Lemmas\<close>

text \<open>The caches hold what \<open>adc_configure\<close> or the boot defaults put there.\<close>

definition adc_ok :: "adc_st \<Rightarrow> bool" where
  "adc_ok s \<longleftrightarrow> length (adc_sample_cycles_cache s) = ADC_CHANNEL_MAP_COUNT \<and>
     length (adc_resolution_bits_cache s) = ADC_CHANNEL_MAP_COUNT \<and>
     length (adc_oversample_ratio_cache s) = ADC_CHANNEL_MAP_COUNT \<and> length (adc_periph_busy s) = ADC_PERIPH_COUNT \<and>
     (\<forall>c \<in> set (adc_sample_cycles_cache s). 2 \<le> c \<and> c \<le> 638) \<and> (\<forall>b \<in> set (adc_resolution_bits_cache s). adc_resolution_reg b) \<and>
     1700 \<le> adc_vref_mv s \<and> adc_vref_mv s \<le> 1900"

lemma unat_pow2_u16: "j < 16 \<Longrightarrow> unat (2 ^ j :: u16) = 2 ^ j"
proof -
  assume "j < 16"
  then have "(2 :: nat) ^ j < 2 ^ 16" by (rule power_strict_increasing) simp
  moreover have "(2 ^ j :: u16) = of_nat (2 ^ j)" by simp
  ultimately show ?thesis by (simp only: unat_of_nat) (simp add: take_bit_nat_eq_self)
qed

lemma unat_ucast_u32 [simp]: "unat (ucast (w :: u16) :: u32) = unat w" "unat (ucast (b :: u8) :: u32) = unat b"
  by (simp_all add: unsigned_ucast_eq take_bit_nat_eq_self order_less_trans [OF unsigned_less])

lemma pow2_floor:
  assumes "2 ^ j \<le> unat ratio" "unat ratio \<le> 256" "9 \<le> j + n" "j \<le> 8"
  shows "\<exists>k. pow2_floor n ratio (2 ^ j) lg = Some (2 ^ k, lg + of_nat (k - j)) \<and> j \<le> k \<and> k \<le> 8 \<and>
    2 ^ k \<le> unat ratio \<and> unat ratio < 2 ^ Suc k"
  using assms
proof (induction n arbitrary: j lg)
  case (Suc n)
  have p: "push_bit 1 (2 ^ j :: u16) = 2 ^ Suc j" by (simp add: push_bit_eq_mult)
  have le: "(2 ^ Suc j :: u16) \<le> ratio \<longleftrightarrow> 2 ^ Suc j \<le> unat ratio"
    using Suc.prems(4) unat_pow2_u16 [of "Suc j"] by (simp add: word_le_nat_alt)
  show ?case
  proof (cases "2 ^ Suc j \<le> unat ratio")
    case True
    then have "(2 :: nat) ^ Suc j \<le> 2 ^ 8" using Suc.prems(2) by simp
    then have j: "Suc j \<le> 8" using power_le_imp_le_exp [of "2 :: nat" "Suc j" 8] by simp
    obtain k where "pow2_floor n ratio (2 ^ Suc j) (lg + 1) = Some (2 ^ k, lg + 1 + of_nat (k - Suc j))" "Suc j \<le> k" "k \<le> 8"
      "2 ^ k \<le> unat ratio" "unat ratio < 2 ^ Suc k"
      using Suc.IH [of "Suc j" "lg + 1"] True Suc.prems j by auto
    moreover from this(2) have "(1 :: u32) + of_nat (k - Suc j) = of_nat (k - j)"
      by (metis Suc_diff_Suc Suc_le_lessD of_nat_Suc)
    ultimately show ?thesis using True le unfolding pow2_floor.simps p by (intro exI [of _ k]) (auto simp: add.assoc)
  next
    case False
    then show ?thesis using le Suc.prems unfolding pow2_floor.simps p by (intro exI [of _ j]) simp
  qed
qed simp

text \<open>Oversampling rounds down to a power of two and never exceeds 256.\<close>

lemma effective_ratio:
  assumes "adc_oversample_ratio_cache s ! unat c = r"
  obtains k where "adc_effective_ratio c s = Some (2 ^ k)" "k \<le> 8"
    "k = 0 \<longleftrightarrow> r \<le> 1" "r \<le> 256 \<Longrightarrow> r \<noteq> 0 \<Longrightarrow> 2 ^ k \<le> unat r \<and> unat r < 2 ^ Suc k"
proof (cases "r \<le> 1")
  case True
  then have "r = 0 \<or> r = 1" by (auto simp: word_le_nat_alt) (metis One_nat_def le_Suc_eq le_zero_eq unat_1 unat_eq_zero word_unat_eq_iff)
  then show thesis
    using that [of 0] assms True by (auto simp: adc_effective_ratio_def adc_oversample_params_def)
next
  case False
  let ?r = "if r > 256 then 256 else r"
  have r: "2 ^ 0 \<le> unat ?r" "unat ?r \<le> 256" "2 \<le> unat ?r" using False by (auto simp: word_le_nat_alt word_less_nat_alt)
  obtain k where k: "pow2_floor 9 ?r 1 0 = Some (2 ^ k, of_nat k)" "k \<le> 8" "2 ^ k \<le> unat ?r" "unat ?r < 2 ^ Suc k"
    using pow2_floor [OF r(1,2), of 9 0] by auto
  have "k \<noteq> 0" using k(4) r(3) by (cases k) auto
  moreover have "adc_effective_ratio c s = Some (2 ^ k)"
    using k(1) assms False by (simp add: adc_effective_ratio_def adc_oversample_params_def)
  moreover have "2 ^ k \<le> unat r \<and> unat r < 2 ^ Suc k" if "r \<le> 256"
    using k(3,4) that by (simp add: not_less [symmetric])
  ultimately show thesis using that [of k] k(2) False by blast
qed

lemma full_scale_pos: "63 \<le> adc_full_scale_for_bits b" "adc_full_scale_for_bits b \<le> 4095"
  by (auto simp: adc_full_scale_for_bits_def)

text \<open>Scaling never wraps: a converted sample is at most the reference.\<close>

lemma code_to_mv:
  assumes "fs \<noteq> 0" "fs \<le> 4095"
  shows "unat (code_to_mv code vref fs) = min (unat code) (unat fs) * unat vref div unat fs" "code_to_mv code vref fs \<le> vref"
proof -
  let ?c = "if code > ucast fs then ucast fs else code"
  have fs: "0 < unat fs" "unat fs \<le> 4095" using assms by (auto simp: word_le_nat_alt unat_gt_0)
  have c: "unat ?c = min (unat code) (unat fs)" by (auto simp: word_less_nat_alt )
  have v: "unat vref < 65536" using unsigned_less [of vref] by simp
  have "unat ?c * unat vref \<le> 4095 * 65535" using c fs(2) v by (intro mult_le_mono) auto
  then have m: "unat (?c * ucast vref) = unat ?c * unat vref" by (simp add: unat_word_ariths(2) )
  have "unat ?c * unat vref div unat fs \<le> unat fs * unat vref div unat fs" using c by (intro div_le_mono mult_le_mono1) simp
  also have "\<dots> = unat vref" using fs(1) by simp
  finally have le: "unat ?c * unat vref div unat fs \<le> unat vref" .
  have "unat (code_to_mv code vref fs) = unat ?c * unat vref div unat fs"
    using le v by (simp add: code_to_mv_def Let_def unat_div unsigned_ucast_eq take_bit_nat_eq_self m del: unat_mult_lem)
  then show "unat (code_to_mv code vref fs) = min (unat code) (unat fs) * unat vref div unat fs"
    "code_to_mv code vref fs \<le> vref" using le c by (simp_all add: word_le_nat_alt)
qed

section \<open>The converter discipline\<close>

text \<open>What the datasheet asks of one converter, as an automaton over the calls: its state is whether
  \<open>ADCON\<close> is set, whether it was calibrated since, and where the end-of-conversion flag stands.
  Formats, channels and triggers change only while it is off; a conversion is triggered only on a
  calibrated converter whose flag was cleared; a data register is read only after the conversion
  triggered for it ended.  A call on another converter is refused.\<close>

datatype eoc_phase = Eoc_Unknown | Eoc_Clear | Eoc_Pending | Eoc_Set | Eoc_Data

type_synonym conv_state = "bool \<times> bool \<times> eoc_phase"

definition when_off :: "conv_state \<Rightarrow> conv_state option" where
  "when_off c = (if fst c then None else Some c)"

fun call_periph :: "adc_call \<Rightarrow> adc_periph" where
  "call_periph (Adc_Deinit p) = p" | "call_periph (Adc_Clock_Config p) = p"
| "call_periph (Adc_Disable p) = p" | "call_periph (Adc_Enable p) = p" | "call_periph (Adc_Resolution p _) = p"
| "call_periph (Adc_Oversample_Config p _ _) = p" | "call_periph (Adc_Oversample_Enable p) = p"
| "call_periph (Adc_Oversample_Disable p) = p" | "call_periph (Adc_Routine_Channel p _ _) = p"
| "call_periph (Adc_Align_Right p) = p" | "call_periph (Adc_Routine_Length p _) = p" | "call_periph (Adc_Ext_Trigger_Off p) = p"
| "call_periph (Adc_Set_RSTCLB p) = p" | "call_periph (Adc_Wait_RSTCLB p _) = p" | "call_periph (Adc_Set_CLB p) = p"
| "call_periph (Adc_Wait_CLB p _) = p" | "call_periph (Adc_Clear_EOC p) = p" | "call_periph (Adc_Clear_ROVF p) = p"
| "call_periph (Adc_Software_Trigger p) = p" | "call_periph (Adc_Wait_EOC p _) = p" | "call_periph (Adc_Data_Read p) = p"
| "call_periph (Adc_Ext_Trigger_Rising p) = p" | "call_periph (Adc_Dma_After_Last_On p) = p" | "call_periph (Adc_Dma_On p) = p"
| "call_periph (Adc_Dma_After_Last_Off p) = p" | "call_periph (Adc_Dma_Off p) = p" | "call_periph (Adc_Vrefint p _) = p"

fun conv_step :: "adc_call \<Rightarrow> conv_state \<Rightarrow> conv_state option" where
  "conv_step (Adc_Disable _) _ = Some (False, False, Eoc_Unknown)"
| "conv_step (Adc_Enable _) (on, cal, e) = Some (True, on \<and> cal, Eoc_Unknown)"
| "conv_step (Adc_Resolution _ _) c = when_off c"
| "conv_step (Adc_Oversample_Config _ _ _) c = when_off c"
| "conv_step (Adc_Oversample_Enable _) c = when_off c"
| "conv_step (Adc_Oversample_Disable _) c = when_off c"
| "conv_step (Adc_Routine_Channel _ _ _) c = when_off c"
| "conv_step (Adc_Align_Right _) c = when_off c"
| "conv_step (Adc_Routine_Length _ _) c = when_off c"
| "conv_step (Adc_Ext_Trigger_Off _) c = when_off c"
| "conv_step (Adc_Ext_Trigger_Rising _) c = when_off c"
| "conv_step (Adc_Dma_After_Last_On _) c = Some c"
| "conv_step (Adc_Dma_On _) c = Some c"
| "conv_step (Adc_Dma_After_Last_Off _) c = Some c"
| "conv_step (Adc_Dma_Off _) c = Some c"
| "conv_step (Adc_Set_RSTCLB _) (on, cal, e) = (if on then Some (on, False, e) else None)"
| "conv_step (Adc_Wait_RSTCLB _ _) c = Some c"
| "conv_step (Adc_Set_CLB _) (on, cal, e) = (if on then Some (on, False, e) else None)"
| "conv_step (Adc_Wait_CLB _ done) (on, cal, e) = Some (on, on \<and> done, e)"
| "conv_step (Adc_Clear_EOC _) (on, cal, e) = Some (on, cal, if e = Eoc_Set then Eoc_Data else Eoc_Clear)"
| "conv_step (Adc_Clear_ROVF _) c = Some c"
| "conv_step (Adc_Software_Trigger _) (on, cal, e) = (if on \<and> cal \<and> e = Eoc_Clear then Some (on, cal, Eoc_Pending) else None)"
| "conv_step (Adc_Wait_EOC _ done) (on, cal, e) =
     (if e = Eoc_Pending then Some (on, cal, if done then Eoc_Set else Eoc_Unknown) else None)"
| "conv_step (Adc_Data_Read _) (on, cal, e) = (if e = Eoc_Data then Some (on, cal, Eoc_Clear) else None)"
| "conv_step (Adc_Vrefint _ _) c = Some c"
| "conv_step _ _ = None"

fun disciplined :: "adc_periph \<Rightarrow> conv_state \<Rightarrow> adc_call list \<Rightarrow> conv_state option" where
  "disciplined p c [] = Some c"
| "disciplined p c (x # xs) =
     (if call_periph x \<noteq> p then None else case conv_step x c of None \<Rightarrow> None | Some c' \<Rightarrow> disciplined p c' xs)"

lemma disciplined_append [simp]:
  "disciplined p c (xs @ ys) = (case disciplined p c xs of None \<Rightarrow> None | Some c' \<Rightarrow> disciplined p c' ys)"
  by (induction xs arbitrary: c) (auto split: option.splits)

lemma disciplined_calibrate:
  "disciplined p (True, cal, e) (snd (adc_calibrate_bounded env n p)) = Some (True, fst (adc_calibrate_bounded env n p), e)"
  by (simp add: adc_calibrate_bounded_def Let_def)

lemma disciplined_restore: "\<exists>c'. disciplined p c (snd (adc_periph_restore env n p)) = Some c'"
  using disciplined_calibrate [of p False Eoc_Unknown env n]
  by (simp add: adc_periph_restore_def adc_periph_boot_init_def split_beta when_off_def ex_bool_eq)

lemma disciplined_format:
  "adc_apply_conv_format p ch s = Some tr \<Longrightarrow> disciplined p (False, cal, e) tr = Some (False, cal, e)"
  by (auto simp: adc_apply_conv_format_def Let_def when_off_def split: bind_splits option.splits if_splits)

lemma disciplined_samples: "\<exists>c'. disciplined p (True, True, Eoc_Clear) (snd (snd (read_samples env p b fs v i n))) = Some c'"
  using disciplined_restore by (induction n arbitrary: i) (auto simp: split_beta)

lemma disciplined_vref: "\<exists>c'. disciplined ADC0 (True, True, Eoc_Clear) (snd (vref_sum env i n acc)) = Some c'"
  by (induction n arbitrary: i acc) (auto simp: split_beta)

lemma disciplined_measure: "\<exists>c'. disciplined ADC0 c (snd (snd (adc_vref_measure env s))) = Some c'"
  using disciplined_vref [of env 0 16 0]
  by (cases c) (auto simp: adc_vref_measure_def Let_def split_beta disciplined_calibrate when_off_def split: option.splits)

abbreviation (input) routes :: "adc_call \<Rightarrow> bool" where
  "routes x \<equiv> (case x of Adc_Routine_Channel _ _ _ \<Rightarrow> True | _ \<Rightarrow> False)"

lemma no_routine_calibrate [simp]: "filter routes (snd (adc_calibrate_bounded env n p)) = []"
  by (simp add: adc_calibrate_bounded_def Let_def)

lemma no_routine_samples [simp]: "filter routes (snd (snd (read_samples env p b fs v i n))) = []"
  by (induction n arbitrary: i) (simp_all add: split_beta adc_periph_restore_def adc_periph_boot_init_def)

lemma no_routine_format: "adc_apply_conv_format p c s = Some tr \<Longrightarrow> filter routes tr = []"
  by (auto simp: adc_apply_conv_format_def Let_def split: bind_splits option.splits if_splits)

section \<open>Reads and reference measurements\<close>

lemma length_adc_channels_map [simp]: "length adc_channels_map = ADC_CHANNEL_MAP_COUNT"
  by (simp add: adc_channels_map_def)

lemma adc_periph_slot_less [simp]: "adc_periph_slot p < 4"
  by (cases p) simp_all

lemma claim_release:
  "adc_periph_claim p s = (True, s2) \<Longrightarrow> adc_periph_busy (adc_periph_release p s2) = adc_periph_busy s"
  "adc_periph_claim p s = (True, s2) \<Longrightarrow> \<not> adc_periph_busy s ! adc_periph_slot p"
  by (auto simp: adc_periph_claim_def adc_periph_release_def Let_def split: if_splits)
    (metis (full_types) list_update_id)

lemma claim_cases:
  obtains "adc_periph_claim p s = (False, s)" "adc_periph_busy s ! adc_periph_slot p"
  | s2 where "adc_periph_claim p s = (True, s2)" "s2 = s\<lparr>adc_periph_busy := (adc_periph_busy s)[adc_periph_slot p := True]\<rparr>"
  by (cases "adc_periph_busy s ! adc_periph_slot p") (auto simp: adc_periph_claim_def Let_def)

lemma oversample_params_defined: "\<exists>p. adc_oversample_params r = Some p"
proof -
  obtain k where "adc_effective_ratio 0 \<lparr>adc_sample_cycles_cache = [], adc_resolution_bits_cache = [],
    adc_oversample_ratio_cache = [r], adc_vref_mv = 0, adc_vrefint_code = 0, adc_periph_busy = [], vref_ok = False,
    vref_remeasure_pending = False\<rparr> = Some (2 ^ k)" by (rule effective_ratio) auto
  then show ?thesis by (auto simp: adc_effective_ratio_def split: bind_splits)
qed

lemma apply_conv_format_defined: "\<exists>tr. adc_apply_conv_format p c s = Some tr"
  using oversample_params_defined [of "adc_oversample_ratio_cache s ! unat c"]
  by (auto simp: adc_apply_conv_format_def Let_def)

text \<open>The budget product does not wrap at 32 bits, whatever the host asked for.\<close>

lemma unat_residency:
  assumes "unat ratio \<le> 256" "unat cycles \<le> 638"
  shows "unat (residency_half_cycles samples ratio cycles) = unat samples * unat ratio * (2 * unat cycles + 25)"
proof -
  have n: "unat samples \<le> 255" using unsigned_less [of samples, where 'a = nat] by simp
  have a: "unat (ucast samples * ucast ratio :: u32) = unat samples * unat ratio"
    using mult_le_mono [OF n assms(1)] by (simp add: unat_word_ariths(2))
  have b: "unat (2 * ucast cycles + 25 :: u32) = 2 * unat cycles + 25"
    using assms(2) by (simp add: unat_word_ariths(1,2))
  have "unat samples * unat ratio * (2 * unat cycles + 25) \<le> 255 * 256 * (2 * 638 + 25)"
    using n assms by (intro mult_le_mono) auto
  then show ?thesis unfolding residency_half_cycles_def unat_word_ariths(2) [of "_ * _" "_ + _"] a b by simp
qed

lemma read_samples_mv:
  assumes "read_samples env p b fs v i n = (ok, mvs, tr)"
  shows "length mvs \<le> n \<and> (ok \<longleftrightarrow> length mvs = n) \<and> (ok \<longleftrightarrow> (\<forall>j < n. env_polls env (i + j) < b)) \<and>
    (\<forall>j < length mvs. mvs ! j = code_to_mv (env_code env (i + j)) v fs)"
  using assms
proof (induction n arbitrary: i ok mvs tr)
  case (Suc n)
  obtain ok' mvs' tr' where r: "read_samples env p b fs v (Suc i) n = (ok', mvs', tr')" by (metis prod_cases3)
  show ?case
    using Suc.prems Suc.IH [OF r] r by (auto split: if_splits simp: All_less_Suc2 nth_Cons split: nat.splits)
qed simp

lemma eoc_bound_le: "unat (eoc_bound r) \<le> 400000"
  by (auto simp: eoc_bound_def Let_def word_less_nat_alt not_less)

text \<open>A converter no live stream rides.\<close>

definition converter_free :: "adc_stream_state list \<Rightarrow> adc_periph \<Rightarrow> bool" where
  "converter_free streams p \<longleftrightarrow> (\<forall>si < BRIDGE_ADC_STREAM_COUNT.
     \<not> (in_use (streams ! si) \<and> fst (adc_channels_map ! unat (channel (streams ! si))) = p))"

lemma converter_scan:
  "(\<exists>si \<in> set [0..<BRIDGE_ADC_STREAM_COUNT]. in_use (streams ! si) \<and>
      fst (adc_channels_map ! unat (channel (streams ! si))) = p) = (\<not> converter_free streams p)"
  by (auto simp: converter_free_def)

lemma claim_format [simp]:
  "adc_apply_conv_format p c (s\<lparr>adc_periph_busy := b\<rparr>) = adc_apply_conv_format p c s"
  by (simp add: adc_apply_conv_format_def)

lemma adc_read_owned_run:
  assumes "adc_periph_claim p s = (True, s2)"
  obtains fmt mvs tr rc where "adc_apply_conv_format p c s = Some fmt"
    "adc_read_owned env (p, ch) c n ratio s2 = Some (rc, mvs, s, Adc_Disable p # fmt @
       [Adc_Routine_Channel p ch (adc_sample_cycles_cache s ! unat c), Adc_Enable p] @ snd (adc_calibrate_bounded env 0 p) @ tr)"
    "if fst (adc_calibrate_bounded env 0 p)
     then \<exists>ok tr'. read_samples env p (unat (eoc_bound ratio)) (adc_full_scale_for_bits (adc_resolution_bits_cache s ! unat c))
        (adc_vref_mv s) 0 (unat n) = (ok, mvs, tr') \<and> tr = Adc_Clear_EOC p # tr' \<and> rc = (if ok then 0 else BRIDGE_HW_ERR_IO)
     else rc = BRIDGE_HW_ERR_IO \<and> mvs = [] \<and> tr = []"
proof -
  obtain fmt where fmt: "adc_apply_conv_format p c s = Some fmt" using apply_conv_format_defined by blast
  have s2: "s2 = s\<lparr>adc_periph_busy := (adc_periph_busy s)[adc_periph_slot p := True]\<rparr>"
    using assms by (cases rule: claim_cases [of p s]) auto
  have rel: "adc_periph_release p s2 = s"
    using claim_release(1) [OF assms] s2 by (simp add: adc_periph_release_def)
  show thesis
  proof (cases "fst (adc_calibrate_bounded env 0 p)")
    case True
    then show thesis using fmt rel that
      by (auto simp: adc_read_owned_def s2 Let_def split_beta prod_eq_iff)
  next
    case False
    then show thesis using fmt rel that
      by (auto simp: adc_read_owned_def s2 Let_def split_beta prod_eq_iff)
  qed
qed

text \<open>A read either refuses before it touches the converter, or it owns the converter, runs within
  the budget and releases it.\<close>

lemma adc_read_cases:
  assumes "adc_ok s"
  obtains (refused) rc s' where "adc_read env streams c n s = Some (rc, [], s', [])" "rc \<noteq> 0" "s' = s \<or> s' = snd (vref_ready_check env s)"
  | (ran) p ch k s2 where "adc_read env streams c n s = adc_read_owned env (p, ch) c n (2 ^ k) s2"
      "(p, ch) = adc_channels_map ! unat c" "adc_periph_claim p s = (True, s2)" "n \<noteq> 0" "unat c < 8" "vref_ok s"
      "converter_free streams p" "adc_effective_ratio c s = Some (2 ^ k)" "k \<le> 8"
      "unat n * 2 ^ k * (2 * unat (adc_sample_cycles_cache s ! unat c) + 25) \<le> 72000"
proof (cases "n = 0 \<or> \<not> unat c < 8 \<or> \<not> vref_ok s \<or> \<not> converter_free streams (fst (adc_channels_map ! unat c))")
  case True
  then have "\<exists>rc s'. adc_read env streams c n s = Some (rc, [], s', []) \<and> rc \<noteq> 0 \<and> (s' = s \<or> s' = snd (vref_ready_check env s))"
    unfolding adc_read_def converter_scan by (simp add: vref_ready_check_def Let_def) auto
  then show thesis using refused by blast
next
  case False
  obtain p ch where m: "(p, ch) = adc_channels_map ! unat c" by (metis surj_pair)
  obtain k where k: "adc_effective_ratio c s = Some (2 ^ k)" "k \<le> 8" by (rule effective_ratio [OF refl])
  have "unat (adc_sample_cycles_cache s ! unat c) \<le> 638"
    using assms False by (auto simp: adc_ok_def word_le_nat_alt dest!: bspec [OF _ nth_mem])
  moreover have "unat (2 ^ k :: u16) = 2 ^ k" "(2 :: nat) ^ k \<le> 256"
    using k(2) unat_pow2_u16 [of k] power_increasing [of k 8 "2 :: nat"] by auto
  ultimately have res: "unat (residency_half_cycles n (2 ^ k) (adc_sample_cycles_cache s ! unat c)) =
      unat n * 2 ^ k * (2 * unat (adc_sample_cycles_cache s ! unat c) + 25)"
    using unat_residency [of "2 ^ k" "adc_sample_cycles_cache s ! unat c" n] by simp
  have eq: "adc_read env streams c n s =
      (if residency_half_cycles n (2 ^ k) (adc_sample_cycles_cache s ! unat c) > 72000 then Some (BRIDGE_HW_ERR_RANGE, [], s, [])
       else let (owned, s2) = adc_periph_claim p s
            in if \<not> owned then Some (BRIDGE_HW_ERR_BUSY, [], s2, []) else adc_read_owned env (p, ch) c n (2 ^ k) s2)"
    using False k(1) unfolding adc_read_def converter_scan by (simp add: vref_ready_check_def m [symmetric])
  show thesis
  proof (cases "residency_half_cycles n (2 ^ k) (adc_sample_cycles_cache s ! unat c) > 72000")
    case True
    then show thesis using refused eq by simp
  next
    case ok: False
    show thesis
    proof (cases rule: claim_cases [of p s])
      case 1
      then show thesis using refused eq ok by simp
    next
      case (2 s2)
      have p: "converter_free streams p" using False m by (metis fst_conv)
      have le: "unat n * 2 ^ k * (2 * unat (adc_sample_cycles_cache s ! unat c) + 25) \<le> 72000"
        using ok unfolding res [symmetric] by (simp add: word_less_nat_alt)
      show thesis by (rule ran [OF _ m 2(1) _ _ _ p k le]) (use 2(1) eq ok False in simp_all)
    qed
  qed
qed

lemma adc_ok_pending [simp]: "adc_ok (s\<lparr>vref_remeasure_pending := b\<rparr>) = adc_ok s"
  by (simp add: adc_ok_def)

lemma vref_ready_check_frame:
  "adc_ok (snd (vref_ready_check env s)) = adc_ok s" "adc_periph_busy (snd (vref_ready_check env s)) = adc_periph_busy s"
  by (simp_all add: vref_ready_check_def)

lemma vref_mv_from_code_window: "1700 \<le> adc_vref_mv_from_code code" "adc_vref_mv_from_code code \<le> 1900"
  by (auto simp: adc_vref_mv_from_code_def Let_def not_less word_le_nat_alt unsigned_ucast_eq take_bit_nat_eq_self)

text \<open>Configuration keeps the caches inside the range the converter accepts, and a refused one
  changes nothing.\<close>

lemma adc_configure_ok:
  assumes "adc_ok s" "adc_configure c r sc bits s = (rc, s')"
  shows "adc_ok s'" "rc \<noteq> BRIDGE_HW_OK \<Longrightarrow> s' = s" "adc_periph_busy s' = adc_periph_busy s"
  using assms
  by (auto simp: adc_configure_def adc_ok_def Let_def adc_resolution_reg_def not_less word_le_nat_alt word_less_nat_alt
    split: if_splits dest!: set_update_subset_insert [THEN subsetD])

lemma vref_measure_publishes:
  "\<exists>code mv tr. snd (adc_vref_measure env s) = (adc_vref_publish code mv s, tr) \<and> (mv = adc_vref_mv s \<or> 1700 \<le> mv \<and> mv \<le> 1900)"
  using vref_mv_from_code_window by (fastforce simp: adc_vref_measure_def Let_def split_beta split: if_splits option.splits)

lemma adc_ok_bring_up: "adc_ok (fst (adc_bring_up env env' adc_bss))"
  using vref_measure_publishes [of env' "adc_bss\<lparr>vref_ok := True\<rparr>"]
  by (auto simp: adc_bring_up_def adc_ok_def adc_bss_def Let_def adc_resolution_reg_def adc_vref_publish_def)

lemma adc_ok_claim: "adc_ok (snd (adc_periph_claim p s)) = adc_ok s" "adc_ok (adc_periph_release p s) = adc_ok s"
  by (auto simp: adc_periph_claim_def adc_periph_release_def adc_ok_def Let_def)

lemma adc_ok_tick: assumes "adc_ok s" shows "adc_ok (fst (vref_late_tick env s))"
proof (cases rule: claim_cases [of ADC0 s])
  case 1
  then show ?thesis using assms by (simp add: vref_late_tick_def)
next
  case (2 s2)
  obtain code mv tr s3 where m: "snd (adc_vref_measure env s2) = (s3, tr)" "s3 = adc_vref_publish code mv s2"
    "mv = adc_vref_mv s2 \<or> 1700 \<le> mv \<and> mv \<le> 1900" using vref_measure_publishes [of env s2] by blast
  have "adc_ok s2" using assms adc_ok_claim(1) [of ADC0 s] 2(1) by simp
  then have "adc_ok s3" using m(2,3) by (auto simp: adc_ok_def adc_vref_publish_def)
  then show ?thesis
    using 2(1) m(1) assms adc_ok_claim(2) [of ADC0 s3] by (auto simp: vref_late_tick_def split_beta adc_ok_def)
qed

lemma adc_read_frame:
  assumes "adc_ok s" "adc_read env streams c n s = Some (rc, mvs, s', tr)"
  shows "adc_ok s'" "adc_periph_busy s' = adc_periph_busy s" "adc_vref_mv s' = adc_vref_mv s"
proof -
  have "s' = s \<or> s' = snd (vref_ready_check env s)"
  proof (cases rule: adc_read_cases [OF assms(1), of env streams c n])
    case refused: (1 rc s')
    then show ?thesis using assms(2) by auto
  next
    case ran: (2 p ch k s2)
    show ?thesis by (rule adc_read_owned_run [OF ran(3), of c env ch n "2 ^ k"]) (use ran(1) assms(2) in auto)
  qed
  then show "adc_ok s'" "adc_periph_busy s' = adc_periph_busy s" "adc_vref_mv s' = adc_vref_mv s"
    using assms(1) by (auto simp: vref_ready_check_def)
qed

lemma reachable_adc_ok: "adc_reachable s \<Longrightarrow> adc_ok s"
proof (induction rule: adc_reachable.induct)
  case (configure s c r sc bits)
  then show ?case using adc_configure_ok(1) [of s c r sc bits] by (metis surj_pair snd_conv)
qed (simp_all add: adc_ok_bring_up adc_read_frame adc_ok_tick adc_ok_claim)

lemma adc_read_disciplined:
  assumes ok: "adc_ok s" and r: "adc_read env streams c n s = Some (rc, mvs, s', tr)" "tr \<noteq> []"
  shows "\<exists>p ch. adc_channels_map ! unat c = (p, ch) \<and> (\<exists>c'. disciplined p st tr = Some c') \<and> vref_ok s \<and>
     converter_free streams p \<and> \<not> adc_periph_busy s ! adc_periph_slot p \<and>
     filter (\<lambda>x. case x of Adc_Routine_Channel _ _ _ \<Rightarrow> True | _ \<Rightarrow> False) tr =
       [Adc_Routine_Channel p ch (adc_sample_cycles_cache s ! unat c)]"
proof (cases rule: adc_read_cases [OF ok, of env streams c n])
  case refused: (1 rc s')
  then show ?thesis using r by simp
next
  case ran: (2 p ch k s2)
  obtain fmt mvs' tr' rc' where fmt: "adc_apply_conv_format p c s = Some fmt" and
    run: "adc_read_owned env (p, ch) c n (2 ^ k) s2 = Some (rc', mvs', s, Adc_Disable p # fmt @
      [Adc_Routine_Channel p ch (adc_sample_cycles_cache s ! unat c), Adc_Enable p] @ snd (adc_calibrate_bounded env 0 p) @ tr')" and
    tr0: "if fst (adc_calibrate_bounded env 0 p)
     then \<exists>ok tr2. read_samples env p (unat (eoc_bound (2 ^ k))) (adc_full_scale_for_bits (adc_resolution_bits_cache s ! unat c))
        (adc_vref_mv s) 0 (unat n) = (ok, mvs', tr2) \<and> tr' = Adc_Clear_EOC p # tr2 \<and> rc' = (if ok then 0 else BRIDGE_HW_ERR_IO)
     else rc' = BRIDGE_HW_ERR_IO \<and> mvs' = [] \<and> tr' = []"
    by (rule adc_read_owned_run [OF ran(3)])
  have tr: "tr = Adc_Disable p # fmt @ [Adc_Routine_Channel p ch (adc_sample_cycles_cache s ! unat c), Adc_Enable p] @
      snd (adc_calibrate_bounded env 0 p) @ tr'"
    using r(1) [unfolded ran(1) run] by auto
  have tr': "if fst (adc_calibrate_bounded env 0 p)
     then \<exists>b fs v. tr' = Adc_Clear_EOC p # snd (snd (read_samples env p b fs v 0 (unat n))) else tr' = []"
    using tr0 by (cases "fst (adc_calibrate_bounded env 0 p)") (simp, metis snd_conv, simp)
  have "\<exists>c'. disciplined p st tr = Some c'"
    using tr' disciplined_samples [of p env _ _ _ 0 "unat n"]
    by (cases "fst (adc_calibrate_bounded env 0 p)")
      (auto simp: tr disciplined_format [OF fmt] disciplined_calibrate when_off_def)
  moreover have "filter (\<lambda>x. case x of Adc_Routine_Channel _ _ _ \<Rightarrow> True | _ \<Rightarrow> False) tr =
      [Adc_Routine_Channel p ch (adc_sample_cycles_cache s ! unat c)]"
    using tr' by (cases "fst (adc_calibrate_bounded env 0 p)") (auto simp: tr no_routine_format [OF fmt])
  ultimately show ?thesis
    using ran(6,7) claim_release(2) [OF ran(3)] by (intro exI [of _ p] exI [of _ ch] conjI ran(2) [symmetric])
qed

lemma late_tick_disciplined:
  "vref_late_tick env s = (s', tr) \<Longrightarrow> tr \<noteq> [] \<Longrightarrow>
    (\<exists>c'. disciplined ADC0 st tr = Some c') \<and> \<not> adc_periph_busy s ! adc_periph_slot ADC0"
  using disciplined_measure [of st env] claim_release(2) [of ADC0 s]
  by (auto simp: vref_late_tick_def split_beta split: if_splits) (metis prod.collapse)+

section \<open>Properties\<close>

text \<open>C25: in every reachable state a read returns: the converter interlock is left as it was found,
  a refused read writes nothing, and an answered one writes exactly the requested number of samples,
  each the clamped code scaled to the measured reference with no wrap-around, hence at most the
  reference, which lies between 1700 and 1900 mV.  A read that touches the converter costs at most
  72000 half cycles of the conversion clock, computed over the integers.\<close>

theorem adc_read_bounds:
  assumes "adc_reachable s"
  shows "\<exists>rc mvs s' tr. adc_read env streams c n s = Some (rc, mvs, s', tr) \<and>
    adc_periph_busy s' = adc_periph_busy s \<and> 1700 \<le> adc_vref_mv s \<and> adc_vref_mv s \<le> 1900 \<and>
    (rc = BRIDGE_HW_OK \<longrightarrow> length mvs = unat n) \<and> (tr = [] \<longrightarrow> mvs = [] \<and> rc \<noteq> BRIDGE_HW_OK) \<and>
    (\<forall>j < length mvs. mvs ! j \<le> adc_vref_mv s \<and>
       unat (mvs ! j) = (let fs = unat (adc_full_scale_for_bits (adc_resolution_bits_cache s ! unat c))
                         in min (unat (env_code env j)) fs * unat (adc_vref_mv s) div fs)) \<and>
    (tr \<noteq> [] \<longrightarrow> (\<exists>k \<le> 8. adc_effective_ratio c s = Some (2 ^ k) \<and>
       unat n * 2 ^ k * (2 * unat (adc_sample_cycles_cache s ! unat c) + 25) \<le> 72000))"
proof -
  have ok: "adc_ok s" by (rule reachable_adc_ok [OF assms])
  then have v: "1700 \<le> adc_vref_mv s" "adc_vref_mv s \<le> 1900" by (auto simp: adc_ok_def)
  let ?fs = "adc_full_scale_for_bits (adc_resolution_bits_cache s ! unat c)"
  have fs: "?fs \<noteq> 0" "?fs \<le> 4095" using full_scale_pos by (auto simp: adc_full_scale_for_bits_def)
  show ?thesis
  proof (cases rule: adc_read_cases [OF ok, of env streams c n])
    case refused: (1 rc s')
    then show ?thesis using v adc_read_frame(2) [OF ok refused(1)] by auto
  next
    case ran: (2 p ch k s2)
    obtain fmt mvs tr rc where r: "adc_read env streams c n s = Some (rc, mvs, s, Adc_Disable p # fmt @
         [Adc_Routine_Channel p ch (adc_sample_cycles_cache s ! unat c), Adc_Enable p] @ snd (adc_calibrate_bounded env 0 p) @ tr)"
      "if fst (adc_calibrate_bounded env 0 p)
       then \<exists>ok tr'. read_samples env p (unat (eoc_bound (2 ^ k))) ?fs (adc_vref_mv s) 0 (unat n) = (ok, mvs, tr') \<and>
         tr = Adc_Clear_EOC p # tr' \<and> rc = (if ok then 0 else BRIDGE_HW_ERR_IO)
       else rc = BRIDGE_HW_ERR_IO \<and> mvs = [] \<and> tr = []"
      unfolding ran(1) by (rule adc_read_owned_run [OF ran(3)])
    have "(rc = 0 \<longrightarrow> length mvs = unat n) \<and> (\<forall>j < length mvs. mvs ! j = code_to_mv (env_code env j) (adc_vref_mv s) ?fs)"
      using r(2) by (auto split: if_splits dest: read_samples_mv)
    then show ?thesis using r(1) v ran(8-10) code_to_mv [OF fs] by (auto simp: Let_def)
  qed
qed

text \<open>A converter that calibrates at once and reads mid-scale, and the stream slots at boot.\<close>

definition live_env :: adc_env where
  "live_env = \<lparr>env_vrefrdy = True, env_calib = (\<lambda>_. (3, 5)), env_polls = (\<lambda>_. 7), env_code = (\<lambda>_. 2730)\<rparr>"

definition idle_stream :: adc_stream_state where
  "idle_stream = \<lparr>in_use = False, channel = 0, full_scale = 0, ring = replicate 1024 0, read_idx = 0, lap_count = 0,
     dma_error_count = 0, total_read = 0, rd_pos = \<lparr>pos_laps = 0, pos_w = 0, pos_valid = False\<rparr>,
     pump_pos = \<lparr>pos_laps = 0, pos_w = 0, pos_valid = False\<rparr>, dsp_chain_id = 0, dsp_bound = False, proc_ring = replicate 1024 0,
     proc_write = 0, proc_read = 0, proc_gap = False, pump_raw_read = 0, dsp_terminal = 0, dsp_cfg_bad = False, dsp_sat = False\<rparr>"

definition live_adc :: adc_st where
  "live_adc = fst (adc_bring_up live_env live_env adc_bss)"

lemma vref_sum_const:
  "\<forall>i. env_polls env i < 100000 \<and> env_code env i = k \<Longrightarrow> fst (vref_sum env i n acc) = Some (acc + of_nat n * (k AND 4095))"
  by (induction n arbitrary: i acc) (simp_all add: split_beta distrib_right add.assoc)

lemma live_adc_eq: "live_adc = \<lparr>adc_sample_cycles_cache = replicate 8 240, adc_resolution_bits_cache = replicate 8 12,
     adc_oversample_ratio_cache = replicate 8 1, adc_vref_mv = 1800, adc_vrefint_code = 2730,
     adc_periph_busy = replicate 4 False, vref_ok = True, vref_remeasure_pending = False\<rparr>"
proof -
  have "fst (vref_sum live_env 0 16 0) = Some 43680" by (subst vref_sum_const [of live_env 2730]) (simp_all add: live_env_def)
  then show ?thesis
    by (simp add: live_adc_def adc_bring_up_def adc_vref_measure_def adc_calibrate_bounded_def live_env_def [THEN arg_cong, of env_calib]
      live_env_def [THEN arg_cong, of env_vrefrdy] adc_bss_def adc_vref_publish_def adc_vref_mv_from_code_def split_beta Let_def)
qed

lemma live_adc_reachable: "adc_reachable live_adc"
  unfolding live_adc_def by (rule adc_reachable.boot)

lemma live_read:
  "\<exists>tr. adc_read live_env [idle_stream, idle_stream] 6 2 live_adc = Some (BRIDGE_HW_OK, [1200, 1200], live_adc, Adc_Disable ADC0 # tr)"
proof -
  have free: "converter_free [idle_stream, idle_stream] p" for p
    by (simp add: converter_free_def idle_stream_def less_2_cases_iff nth_Cons split: nat.splits)
  have pad: "adc_channels_map ! 6 = (ADC0, 2)" by (simp add: adc_channels_map_def)
  have ratio: "adc_effective_ratio 6 live_adc = Some 1"
    by (simp add: adc_effective_ratio_def adc_oversample_params_def live_adc_eq)
  have res: "residency_half_cycles 2 1 (adc_sample_cycles_cache live_adc ! 6) = 1010"
    by (simp add: residency_half_cycles_def live_adc_eq)
  have claim: "adc_periph_claim ADC0 live_adc = (True, live_adc\<lparr>adc_periph_busy := (replicate 4 False)[0 := True]\<rparr>)"
    by (simp add: adc_periph_claim_def live_adc_eq)
  obtain fmt where fmt: "adc_apply_conv_format ADC0 6 live_adc = Some fmt" using apply_conv_format_defined by blast
  have cal: "fst (adc_calibrate_bounded live_env 0 ADC0)" by (simp add: adc_calibrate_bounded_def live_env_def)
  have rs: "\<exists>tr. read_samples live_env ADC0 125000 4095 1800 0 2 = (True, [1200, 1200], tr)"
    unfolding numeral_2_eq_2 by (simp add: live_env_def code_to_mv_def)
  have fields: "vref_ok live_adc" "adc_resolution_bits_cache live_adc ! 6 = 12" "adc_vref_mv live_adc = 1800"
    by (simp_all add: live_adc_eq)
  have rel: "adc_periph_release ADC0 (live_adc\<lparr>adc_periph_busy := (replicate 4 False)[0 := True]\<rparr>) = live_adc"
    by (simp add: adc_periph_release_def live_adc_eq numeral_eq_Suc)
  show ?thesis
    unfolding adc_read_def converter_scan
    using rs cal by (auto simp: vref_ready_check_def fields pad free ratio res claim adc_read_owned_def fmt rel eoc_bound_def
      adc_full_scale_for_bits_def Let_def split_beta)
qed

theorem adc_read_bounds_witness:
  "\<exists>mvs s' tr. adc_read live_env [idle_stream, idle_stream] 6 2 live_adc = Some (BRIDGE_HW_OK, mvs, s', tr) \<and>
     tr \<noteq> [] \<and> length mvs = 2 \<and> mvs ! 1 \<le> adc_vref_mv live_adc"
  using adc_read_bounds [OF live_adc_reachable, of live_env "[idle_stream, idle_stream]" 6 2] live_read by auto

text \<open>C22: a read and a late reference measurement never disturb a converter they do not own.  Every
  call they make is on the one converter they claimed, which was unclaimed and rode no live stream
  (the read), and respects the converter discipline whatever state the converter was left in:
  formats change only while it is off, it is recalibrated after every power-up before it converts,
  and every code used comes from a conversion this call triggered.  A read converts the pad of its
  own channel with that channel's sample time.\<close>

theorem adc_converter_discipline:
  assumes "adc_reachable s"
  shows "(\<forall>rc mvs s' tr. adc_read env streams c n s = Some (rc, mvs, s', tr) \<and> tr \<noteq> [] \<longrightarrow>
      (\<exists>p ch. adc_channels_map ! unat c = (p, ch) \<and> (\<exists>c'. disciplined p st tr = Some c') \<and> vref_ok s \<and>
         converter_free streams p \<and> \<not> adc_periph_busy s ! adc_periph_slot p \<and>
         filter (\<lambda>x. case x of Adc_Routine_Channel _ _ _ \<Rightarrow> True | _ \<Rightarrow> False) tr =
           [Adc_Routine_Channel p ch (adc_sample_cycles_cache s ! unat c)])) \<and>
    (\<forall>s' tr. vref_late_tick env s = (s', tr) \<and> tr \<noteq> [] \<longrightarrow>
      (\<exists>c'. disciplined ADC0 st tr = Some c') \<and> \<not> adc_periph_busy s ! adc_periph_slot ADC0)"
  using adc_read_disciplined [OF reachable_adc_ok [OF assms]] late_tick_disciplined by blast

text \<open>A board whose reference locks only after boot: the first read notes it and answers an error,
  the next tick measures.\<close>

definition late_adc :: adc_st where
  "late_adc = (fst (adc_bring_up (live_env\<lparr>env_vrefrdy := False\<rparr>) live_env adc_bss))\<lparr>vref_remeasure_pending := True\<rparr>"

lemma late_adc_reachable: "adc_reachable late_adc"
proof (rule adc_reachable.read [OF adc_reachable.boot])
  let ?s = "fst (adc_bring_up (live_env\<lparr>env_vrefrdy := False\<rparr>) live_env adc_bss)"
  have "\<not> vref_ok ?s" by (simp add: adc_bring_up_def)
  then show "adc_read live_env [] 6 2 ?s = Some (BRIDGE_HW_ERR_IO, [], late_adc, [])"
    by (simp add: adc_read_def vref_ready_check_def late_adc_def live_env_def [THEN arg_cong, of env_vrefrdy] Let_def)
qed

lemma late_tick: "\<exists>s' tr. vref_late_tick live_env late_adc = (s', Adc_Vrefint ADC0 True # tr) \<and> vref_ok s'"
  by (auto simp: vref_late_tick_def late_adc_def adc_bring_up_def adc_bss_def adc_periph_claim_def adc_vref_measure_def
    Let_def split_beta split: option.splits)

theorem adc_converter_discipline_witness:
  "(\<exists>tr c'. adc_read live_env [idle_stream, idle_stream] 6 2 live_adc = Some (BRIDGE_HW_OK, [1200, 1200], live_adc, tr) \<and>
      disciplined ADC0 (True, True, Eoc_Unknown) tr = Some c') \<and>
   (\<exists>tr c'. snd (vref_late_tick live_env late_adc) = tr \<and> tr \<noteq> [] \<and> disciplined ADC0 (True, True, Eoc_Unknown) tr = Some c')"
proof
  obtain tr where r: "adc_read live_env [idle_stream, idle_stream] 6 2 live_adc =
    Some (BRIDGE_HW_OK, [1200, 1200], live_adc, Adc_Disable ADC0 # tr)" using live_read by blast
  show "\<exists>tr c'. adc_read live_env [idle_stream, idle_stream] 6 2 live_adc = Some (BRIDGE_HW_OK, [1200, 1200], live_adc, tr) \<and>
      disciplined ADC0 (True, True, Eoc_Unknown) tr = Some c'"
    using adc_converter_discipline [OF live_adc_reachable, THEN conjunct1, rule_format, OF conjI [OF r], of "(True, True, Eoc_Unknown)"] r
    by (auto simp: adc_channels_map_def simp del: disciplined.simps)
  show "\<exists>tr c'. snd (vref_late_tick live_env late_adc) = tr \<and> tr \<noteq> [] \<and> disciplined ADC0 (True, True, Eoc_Unknown) tr = Some c'"
    using adc_converter_discipline [OF late_adc_reachable, THEN conjunct2, of live_env "(True, True, Eoc_Unknown)"] late_tick
    by (metis list.distinct(1) snd_conv)
qed

end
