(* ===== verification/Adc_Stream.thy ===== *)
theory Adc_Stream
  imports Adc
begin

text \<open>
  Continuous conversion of \<open>hal/gd32/adc_stream.c\<close>: the circular DMA ring of a stream, its lap
  interrupt and the per-consumer position trackers, the begin, read and end operations, and the
  recovery from a converter overflow.  The hardware is a parameter of each operation: whether the DMA
  channel stops when asked, its error flag, the converter's overflow flag, and what its remaining
  counter shows at each of the two places the code reads it.  Register writes are recorded as calls.
\<close>

section \<open>State and environment\<close>

abbreviation (input) "BRIDGE_ADC_STREAM_RING_SAMPLES \<equiv> (1024 :: u32)"
abbreviation (input) "BRIDGE_ADC_STREAM_RATE_MAX_HZ \<equiv> (100000 :: u32)"
abbreviation (input) "BRIDGE_ADC_PACE_CLK_HZ \<equiv> (216000000 :: u32)"
abbreviation (input) "ADC_DSP_OWNER_NONE \<equiv> (-1 :: int)"

record stream_env =
  conv_env :: adc_env
  dma_stops :: bool
  dma_err :: bool
  rovf_set :: bool
  cnt_first :: u32
  cnt_second :: u32

datatype stream_call =
    Conv adc_call
  | Dma_Disable nat | Dma_Setup nat adc_periph | Dma_Enable nat | Dma_Reload nat
  | Dma_Flags_Clear nat | Dma_Irq_On nat | Dma_Irq_Off nat | Dmamux_Detach nat
  | Trigsel adc_periph nat
  | Pace_Deinit nat | Pace_Init nat u16 u32 | Pace_Enable nat | Pace_Disable nat
  | Fac_Stop

text \<open>The analog subsystem: the converters, the two streams, the chain pool and the owners of the two
  DSP blocks (\<open>-1\<close> free, a stream index, or \<open>-2 - index\<close> while that stream's work is in flight),
  and the session of the FFT block.\<close>

record analog =
  conv :: adc_st
  slots :: "adc_stream_state list"
  pool :: "adc_dsp_chain list"
  fac_owner :: int
  fft_owner :: int
  fft_points :: u16
  fft_outfmt :: u8
  fft_fill :: u16
  fft_seq :: u32
  fft_nbins :: u16

type_synonym stream_result = "int \<times> u16 list \<times> analog \<times> stream_call list"

section \<open>Positions and interrupts\<close>

definition adc_stream_dma_disable_confirm :: "stream_env \<Rightarrow> nat \<Rightarrow> bool \<times> stream_call list" where
  "adc_stream_dma_disable_confirm env sid = (dma_stops env, [Dma_Disable sid])"

definition adc_stream_latch_dma_error :: "bool \<Rightarrow> nat \<Rightarrow> adc_stream_state \<Rightarrow> adc_stream_state \<times> stream_call list" where
  "adc_stream_latch_dma_error err sid s =
     (if \<not> err then (s, []) else (s\<lparr>dma_error_count := dma_error_count s + 1\<rparr>, [Dma_Irq_Off sid, Dma_Disable sid]))"

definition dma_channel_irq :: "bool \<Rightarrow> bool \<Rightarrow> nat \<Rightarrow> adc_stream_state \<Rightarrow> adc_stream_state \<times> stream_call list" where
  "dma_channel_irq ftf err sid s =
     adc_stream_latch_dma_error err sid (if ftf then s\<lparr>lap_count := lap_count s + 1\<rparr> else s)"

definition adc_stream_write_index :: "u32 \<Rightarrow> u16" where
  "adc_stream_write_index remaining =
     (if remaining = 0 \<or> remaining > BRIDGE_ADC_STREAM_RING_SAMPLES then 0
      else ucast (BRIDGE_ADC_STREAM_RING_SAMPLES - remaining))"

definition adc_stream_total_written :: "u32 \<Rightarrow> u32 \<Rightarrow> adc_dma_pos \<Rightarrow> u32 \<times> adc_dma_pos" where
  "adc_stream_total_written remaining laps trk =
     (let w = adc_stream_write_index remaining;
          base = laps * BRIDGE_ADC_STREAM_RING_SAMPLES + ucast w
      in (if pos_valid trk \<and> laps = pos_laps trk \<and> w < pos_w trk then base + BRIDGE_ADC_STREAM_RING_SAMPLES else base,
          \<lparr>pos_laps = laps, pos_w = w, pos_valid = True\<rparr>))"

section \<open>Begin\<close>

definition adc_stream_pacing :: "u32 \<Rightarrow> u16 \<times> u32" where
  "adc_stream_pacing sample_rate_hz =
     (let (psc, period_ticks) =
        (if sample_rate_hz \<ge> 16 then (BRIDGE_ADC_PACE_CLK_HZ div 1000000 - 1, 1000000 div sample_rate_hz)
         else (BRIDGE_ADC_PACE_CLK_HZ div 10000 - 1, 10000 div sample_rate_hz))
      in (ucast psc, period_ticks - 1))"

text \<open>The record of a stream that starts: the cursors at zero, no chain, the trackers unprimed.\<close>

definition started_stream :: "u8 \<Rightarrow> u16 \<Rightarrow> adc_stream_state \<Rightarrow> adc_stream_state" where
  "started_stream channel_id fs s =
     s\<lparr>channel := channel_id, full_scale := fs, read_idx := 0, total_read := 0, dsp_chain_id := 0, dsp_bound := False,
       proc_gap := False, dsp_cfg_bad := False, dsp_sat := False, lap_count := 0, dma_error_count := 0,
       rd_pos := (rd_pos s)\<lparr>pos_valid := False\<rparr>, pump_pos := (pump_pos s)\<lparr>pos_valid := False\<rparr>, in_use := True\<rparr>"

definition stream_begin_owned :: "stream_env \<Rightarrow> nat \<Rightarrow> u8 \<Rightarrow> u32 \<Rightarrow> analog \<Rightarrow> (int \<times> analog \<times> stream_call list) option" where
  "stream_begin_owned env sid channel_id rate a = do {
     let (p, ch) = adc_channels_map ! unat channel_id;
     fmt \<leftarrow> adc_apply_conv_format p channel_id (conv a);
     let (calibrated, tr) = adc_calibrate_bounded (conv_env env) 0 p;
     let setup = map Conv (Adc_Disable p # fmt @
           [Adc_Routine_Channel p ch (adc_sample_cycles_cache (conv a) ! unat channel_id), Adc_Ext_Trigger_Rising p,
            Adc_Dma_After_Last_On p, Adc_Dma_On p, Adc_Clear_EOC p, Adc_Clear_ROVF p, Adc_Enable p] @ tr);
     let released = a\<lparr>conv := adc_periph_release p (conv a)\<rparr>;
     if \<not> calibrated then Some (BRIDGE_HW_ERR_IO, released, setup)
     else let fs = adc_full_scale_for_bits (adc_resolution_bits_cache (conv a) ! unat channel_id);
              (psc, period) = adc_stream_pacing rate
          in Some (BRIDGE_HW_OK, released\<lparr>slots := (slots a)[sid := started_stream channel_id fs (slots a ! sid)]\<rparr>,
               setup @ [Dma_Flags_Clear sid, Dma_Irq_On sid, Dma_Enable sid, Trigsel p sid, Pace_Deinit sid,
                        Pace_Init sid psc period, Pace_Enable sid]) }"

definition adc_stream_begin :: "stream_env \<Rightarrow> u8 \<Rightarrow> u8 \<Rightarrow> u32 \<Rightarrow> analog \<Rightarrow> (int \<times> analog \<times> stream_call list) option" where
  "adc_stream_begin env stream_id channel_id rate a =
     (if unat stream_id \<ge> BRIDGE_ADC_STREAM_COUNT then Some (BRIDGE_HW_ERR_RANGE, a, [])
      else if unat channel_id \<ge> ADC_CHANNEL_MAP_COUNT then Some (BRIDGE_HW_ERR_RANGE, a, [])
      else if rate = 0 then Some (BRIDGE_HW_ERR_INVAL, a, [])
      else if rate > BRIDGE_ADC_STREAM_RATE_MAX_HZ then Some (BRIDGE_HW_ERR_RANGE, a, [])
      else let (ready, c1) = vref_ready_check (conv_env env) (conv a); a1 = a\<lparr>conv := c1\<rparr>;
               sid = unat stream_id; p = fst (adc_channels_map ! unat channel_id)
           in if \<not> ready then Some (BRIDGE_HW_ERR_IO, a1, [])
              else if in_use (slots a1 ! sid) then Some (BRIDGE_HW_ERR_INVAL, a1, [])
              else if \<exists>i \<in> set [0..<BRIDGE_ADC_STREAM_COUNT]. i \<noteq> sid \<and> in_use (slots a1 ! i) \<and>
                        fst (adc_channels_map ! unat (channel (slots a1 ! i))) = p
              then Some (BRIDGE_HW_ERR_INVAL, a1, [])
              else let (stopped, tr1) = adc_stream_dma_disable_confirm env sid
                   in if \<not> stopped then Some (BRIDGE_HW_ERR_IO, a1, tr1)
                      else let (owned, c2) = adc_periph_claim p (conv a1); tr2 = tr1 @ [Dma_Setup sid p]
                           in if \<not> owned then Some (BRIDGE_HW_ERR_BUSY, a1\<lparr>conv := c2\<rparr>, tr2)
                              else do {
                                (rc, a2, tr3) \<leftarrow> stream_begin_owned env sid channel_id rate (a1\<lparr>conv := c2\<rparr>);
                                Some (rc, a2, tr2 @ tr3) })"

section \<open>Read\<close>

definition adc_stream_recover_rovf :: "stream_env \<Rightarrow> nat \<Rightarrow> adc_periph \<Rightarrow> bool \<times> stream_call list" where
  "adc_stream_recover_rovf env sid p =
     (let (stopped, tr1) = adc_stream_dma_disable_confirm env sid;
          off = [Conv (Adc_Dma_Off p), Conv (Adc_Disable p)] @ tr1
      in if \<not> stopped then (False, off)
         else let (ok, tr2) = adc_calibrate_bounded (conv_env env) 0 p
              in (ok, off @ [Dma_Reload sid, Conv (Adc_Clear_ROVF p), Dma_Enable sid, Conv (Adc_Dma_On p), Conv (Adc_Enable p)] @
                      map Conv tr2))"

text \<open>The resynchronisation after a recovery; \<open>w\<close> is the write index read after it.\<close>

definition resync_rovf :: "u16 \<Rightarrow> adc_stream_state \<Rightarrow> adc_stream_state" where
  "resync_rovf w s =
     (let now = lap_count s * BRIDGE_ADC_STREAM_RING_SAMPLES + ucast w
      in s\<lparr>rd_pos := (rd_pos s)\<lparr>pos_valid := False\<rparr>, pump_pos := (pump_pos s)\<lparr>pos_valid := False\<rparr>,
           read_idx := w mod 1024, total_read := now, pump_raw_read := now\<rparr>)"

fun emit_proc :: "u16 \<Rightarrow> nat \<Rightarrow> adc_stream_state \<Rightarrow> u16 list \<times> adc_stream_state" where
  "emit_proc vref 0 s = ([], s)"
| "emit_proc vref (Suc n) s =
     (let code = ucast (proc_ring s ! unat (proc_read s mod BRIDGE_ADC_STREAM_RING_SAMPLES));
          (mvs, s') = emit_proc vref n (s\<lparr>proc_read := proc_read s + 1\<rparr>)
      in (code_to_mv code vref (full_scale s) # mvs, s'))"

definition read_processed :: "u8 \<Rightarrow> u16 \<Rightarrow> adc_stream_state \<Rightarrow> int \<times> u16 list \<times> adc_stream_state" where
  "read_processed max_samples vref s =
     (if dsp_terminal s = KIND_FFT then (BRIDGE_HW_ERR_NOTIMPL, [], s)
      else if dsp_cfg_bad s then (BRIDGE_HW_ERR_RANGE, [], s)
      else if dsp_sat s then (BRIDGE_HW_ERR_IO, [], s)
      else if proc_gap s then (BRIDGE_HW_ERR_BUSY, [], s\<lparr>proc_gap := False, proc_read := proc_write s\<rparr>)
      else let pw = proc_write s; pbacklog = pw - proc_read s
           in if sint pbacklog \<le> 0 then (BRIDGE_HW_OK, [], s)
              else if pbacklog \<ge> BRIDGE_ADC_STREAM_RING_SAMPLES then (BRIDGE_HW_ERR_BUSY, [], s\<lparr>proc_read := pw\<rparr>)
              else let pavail = (ucast pbacklog :: u16); emit = (if pavail < ucast max_samples then pavail else ucast max_samples);
                       (mvs, s') = emit_proc vref (unat emit) s
                   in (BRIDGE_HW_OK, mvs, s'))"

fun emit_raw :: "u16 \<Rightarrow> nat \<Rightarrow> adc_stream_state \<Rightarrow> u16 list \<times> adc_stream_state" where
  "emit_raw vref 0 s = ([], s)"
| "emit_raw vref (Suc n) s =
     (let code = ucast (ring s ! unat (read_idx s));
          (mvs, s') = emit_raw vref n (s\<lparr>read_idx := (read_idx s + 1) mod 1024\<rparr>)
      in (code_to_mv code vref (full_scale s) # mvs, s'))"

definition read_raw :: "u32 \<Rightarrow> u32 \<Rightarrow> u8 \<Rightarrow> u16 \<Rightarrow> adc_stream_state \<Rightarrow> int \<times> u16 list \<times> adc_stream_state" where
  "read_raw first second max_samples vref s0 =
     (let (total_written, trk) = adc_stream_total_written first (lap_count s0) (rd_pos s0);
          s = s0\<lparr>rd_pos := trk\<rparr>; w = adc_stream_write_index second; backlog = total_written - total_read s
      in if sint backlog \<le> 0 then (BRIDGE_HW_OK, [], s)
         else if backlog \<ge> BRIDGE_ADC_STREAM_RING_SAMPLES
         then (BRIDGE_HW_ERR_BUSY, [], s\<lparr>read_idx := w mod 1024, total_read := total_written\<rparr>)
         else let avail = (ucast backlog :: u16); to_emit = (if avail < ucast max_samples then avail else ucast max_samples);
                  (mvs, s') = emit_raw vref (unat to_emit) s
              in (BRIDGE_HW_OK, mvs, s'\<lparr>total_read := total_read s' + ucast to_emit\<rparr>))"

definition adc_stream_read :: "stream_env \<Rightarrow> u8 \<Rightarrow> u8 \<Rightarrow> analog \<Rightarrow> stream_result" where
  "adc_stream_read env stream_id max_samples a =
     (let sid = unat stream_id; put = (\<lambda>s. a\<lparr>slots := (slots a)[sid := s]\<rparr>); vref = adc_vref_mv (conv a)
      in if sid \<ge> BRIDGE_ADC_STREAM_COUNT then (BRIDGE_HW_ERR_RANGE, [], a, [])
         else if \<not> in_use (slots a ! sid) then (BRIDGE_HW_ERR_INVAL, [], a, [])
         else let (s, tr) = adc_stream_latch_dma_error (dma_err env) sid (slots a ! sid)
              in if dma_error_count s \<noteq> 0 then (BRIDGE_HW_ERR_IO, [], put s, tr)
                 else if rovf_set env
                 then let (recal_ok, tr1) = adc_stream_recover_rovf env sid (fst (adc_channels_map ! unat (channel s)))
                      in (if recal_ok then BRIDGE_HW_ERR_BUSY else BRIDGE_HW_ERR_IO, [],
                          put (resync_rovf (adc_stream_write_index (cnt_first env)) s), tr @ tr1)
                 else let (rc, mvs, s') = (if dsp_bound s then read_processed max_samples vref s
                                           else read_raw (cnt_first env) (cnt_second env) max_samples vref s)
                      in (rc, mvs, put s', tr))"

section \<open>End\<close>

definition adc_dsp_owner_transitional :: "nat \<Rightarrow> int" where
  "adc_dsp_owner_transitional sid = -2 - int sid"

definition adc_dsp_owner_release :: "int \<Rightarrow> nat \<Rightarrow> bool \<times> int" where
  "adc_dsp_owner_release owner sid =
     (let released = (owner = int sid \<or> owner = adc_dsp_owner_transitional sid)
      in (released, if released then ADC_DSP_OWNER_NONE else owner))"

definition adc_dsp_fac_release :: "nat \<Rightarrow> analog \<Rightarrow> analog \<times> stream_call list" where
  "adc_dsp_fac_release sid a =
     (let (released, owner) = adc_dsp_owner_release (fac_owner a) sid
      in (a\<lparr>fac_owner := owner\<rparr>, if released then [Fac_Stop] else []))"

definition adc_dsp_fft_session_reset :: "analog \<Rightarrow> analog" where
  "adc_dsp_fft_session_reset a = a\<lparr>fft_fill := 0, fft_seq := 0, fft_nbins := 0\<rparr>"

definition adc_dsp_fft_release :: "nat \<Rightarrow> analog \<Rightarrow> analog" where
  "adc_dsp_fft_release sid a =
     (let (released, owner) = adc_dsp_owner_release (fft_owner a) sid; a1 = a\<lparr>fft_owner := owner\<rparr>
      in if released then adc_dsp_fft_session_reset a1 else a1)"

definition adc_stream_end :: "stream_env \<Rightarrow> u8 \<Rightarrow> analog \<Rightarrow> int \<times> analog \<times> stream_call list" where
  "adc_stream_end env stream_id a =
     (let sid = unat stream_id; s = slots a ! sid; p = fst (adc_channels_map ! unat (channel s))
      in if sid \<ge> BRIDGE_ADC_STREAM_COUNT then (BRIDGE_HW_ERR_RANGE, a, [])
         else if \<not> in_use s then (BRIDGE_HW_OK, a, [])
         else let (stopped, tr1) = adc_stream_dma_disable_confirm env sid;
                  stop = [Pace_Disable sid, Pace_Deinit sid, Conv (Adc_Dma_After_Last_Off p), Conv (Adc_Dma_Off p)] @ tr1
              in if \<not> stopped then (BRIDGE_HW_ERR_IO, a, stop)
                 else let (restored, tr2) = adc_periph_restore (conv_env env) 0 p;
                          (a1, tr3) = (if dsp_bound s then adc_dsp_fac_release sid a else (a, []));
                          a2 = (if dsp_bound s then adc_dsp_fft_release sid a1 else a1);
                          a3 = (if dsp_bound s then a2\<lparr>pool := adc_dsp_chain_release (dsp_chain_id s) (pool a2)\<rparr> else a2)
                      in (if restored then BRIDGE_HW_OK else BRIDGE_HW_ERR_IO,
                          a3\<lparr>slots := (slots a3)[sid := s\<lparr>in_use := False, dsp_bound := False, dsp_cfg_bad := False, dsp_sat := False\<rparr>]\<rparr>,
                          stop @ [Dmamux_Detach sid, Dma_Irq_Off sid, Dma_Flags_Clear sid] @ map Conv tr2 @ tr3))"

section \<open>Counting samples\<close>

text \<open>What the remaining counter of the circular channel shows once \<open>n\<close> samples were deposited.\<close>

definition dma_counter :: "nat \<Rightarrow> u32" where
  "dma_counter n = of_nat (1024 - n mod 1024)"

lemma unat_of_nat_u32: "n < 4294967296 \<Longrightarrow> unat (of_nat n :: u32) = n"
  by (simp add: unat_of_nat take_bit_nat_eq_self)

lemma unat_of_nat_u16: "n < 65536 \<Longrightarrow> unat (of_nat n :: u16) = n"
  by (simp add: unat_of_nat take_bit_nat_eq_self)

lemma ucast_of_nat_u16: "n < 65536 \<Longrightarrow> (ucast (of_nat n :: u16) :: u32) = of_nat n"
  by (rule word_unat_eq_iff [THEN iffD2]) (simp add: unat_of_nat_u16 unat_of_nat_u32)

lemma write_index_counter: "adc_stream_write_index (dma_counter n) = of_nat (n mod 1024)"
proof -
  have u: "unat (dma_counter n) = 1024 - n mod 1024" unfolding dma_counter_def by (rule unat_of_nat_u32) simp
  have le: "dma_counter n \<le> 1024" "dma_counter n \<noteq> 0"
    using u by (auto simp: word_le_nat_alt)
  have "unat (1024 - dma_counter n) = n mod 1024"
    using u le by (simp add: unat_sub)
  then have "unat (ucast (1024 - dma_counter n) :: u16) = n mod 1024"
    using take_bit_nat_eq_self [of "n mod 1024" 16] mod_less_divisor [of 1024 n] by (simp add: unsigned_ucast_eq)
  then show ?thesis
    using le by (simp add: adc_stream_write_index_def not_less word_unat_eq_iff unat_of_nat_u16)
qed

lemma laps_and_index:
  "of_nat (n div 1024) * 1024 + ucast (of_nat (n mod 1024) :: u16) = (of_nat n :: u32)"
proof -
  have "(of_nat n :: u32) = of_nat (n div 1024 * 1024 + n mod 1024)" by simp
  also have "\<dots> = of_nat (n div 1024) * 1024 + of_nat (n mod 1024)" by (simp only: of_nat_add of_nat_mult of_nat_numeral)
  finally show ?thesis by (simp add: ucast_of_nat_u16)
qed

text \<open>Two counts of a session that stays below \<open>2\<^sup>4\<^sup>2\<close> samples are told apart by the 32-bit lap counter.\<close>

lemma of_nat_u32_inj: "m < 4294967296 \<Longrightarrow> n < 4294967296 \<Longrightarrow> (of_nat m :: u32) = of_nat n \<longleftrightarrow> m = n"
  by (metis unat_of_nat_u32)

lemma backlog_sint:
  assumes "r \<le> n" "n - r < 2147483648"
  shows "of_nat n - of_nat r = (of_nat (n - r) :: u32)" "sint (of_nat n - of_nat r :: u32) = int (n - r)"
    "unat (of_nat n - of_nat r :: u32) = n - r"
proof -
  show e: "of_nat n - of_nat r = (of_nat (n - r) :: u32)" using assms(1) by (simp add: of_nat_diff)
  show "unat (of_nat n - of_nat r :: u32) = n - r" unfolding e using assms(2) by (simp add: unat_of_nat_u32)
  show "sint (of_nat n - of_nat r :: u32) = int (n - r)"
    unfolding e using assms(2) by (simp add: signed_of_nat signed_take_bit_int_eq_self)
qed

lemma backlog_behind:
  assumes "n \<le> r" "r - n < 2147483648"
  shows "sint (of_nat n - of_nat r :: u32) \<le> 0"
proof -
  have "of_nat n - of_nat r = (- of_nat (r - n) :: u32)" using assms(1) by (simp add: of_nat_diff)
  also have "\<dots> = of_int (- int (r - n))" by simp
  finally have "sint (of_nat n - of_nat r :: u32) = - int (r - n)"
    using assms(2) by (simp only: signed_of_int) (simp add: signed_take_bit_int_eq_self)
  then show ?thesis by simp
qed

section \<open>Draining a ring\<close>

text \<open>The contract the two drain loops share: a cursor that stands at a sample count, and one step that
  emits the slot of that count and moves on.\<close>

locale sample_ring =
  fixes slot :: "'s \<Rightarrow> nat \<Rightarrow> u16" and scale :: "'s \<Rightarrow> u16" and cursor :: "nat \<Rightarrow> 's \<Rightarrow> bool"
    and advance :: "'s \<Rightarrow> 's" and emit :: "u16 \<Rightarrow> nat \<Rightarrow> 's \<Rightarrow> u16 list \<times> 's"
  assumes emit_none: "emit v 0 s = ([], s)"
    and emit_more: "cursor r s \<Longrightarrow> emit v (Suc n) s =
      (code_to_mv (ucast (slot s (r mod 1024))) v (scale s) # fst (emit v n (advance s)), snd (emit v n (advance s)))"
    and advance_cursor: "cursor r s \<Longrightarrow> cursor (Suc r) (advance s)"
    and advance_frame: "slot (advance s) = slot s" "scale (advance s) = scale s"
begin

definition holds_from :: "(nat \<Rightarrow> u16) \<Rightarrow> nat \<Rightarrow> nat \<Rightarrow> 's \<Rightarrow> bool" where
  "holds_from h r n s \<longleftrightarrow> (\<forall>i. r \<le> i \<and> i < r + n \<longrightarrow> slot s (i mod 1024) = h i)"

lemma emit_history:
  "cursor r s \<Longrightarrow> holds_from h r n s \<Longrightarrow>
    fst (emit v n s) = map (\<lambda>i. code_to_mv (ucast (h i)) v (scale s)) [r..<r + n]"
proof (induction n arbitrary: r s)
  case (Suc n)
  have "holds_from h (Suc r) n (advance s)" "slot s (r mod 1024) = h r"
    using Suc.prems(2) by (auto simp: holds_from_def advance_frame)
  then show ?case
    using Suc.IH [OF advance_cursor [OF Suc.prems(1)]] emit_more [OF Suc.prems(1)]
    by (simp add: advance_frame upt_rec [of r])
qed (simp add: emit_none)

end

definition raw_cursor :: "nat \<Rightarrow> adc_stream_state \<Rightarrow> bool" where
  "raw_cursor r s \<longleftrightarrow> read_idx s = of_nat (r mod 1024)"

definition raw_advance :: "adc_stream_state \<Rightarrow> adc_stream_state" where
  "raw_advance s = s\<lparr>read_idx := (read_idx s + 1) mod 1024\<rparr>"

definition proc_cursor :: "nat \<Rightarrow> adc_stream_state \<Rightarrow> bool" where
  "proc_cursor r s \<longleftrightarrow> proc_read s = of_nat r"

definition proc_advance :: "adc_stream_state \<Rightarrow> adc_stream_state" where
  "proc_advance s = s\<lparr>proc_read := proc_read s + 1\<rparr>"

lemma unat_mod_1024: "unat (of_nat r mod 1024 :: u32) = r mod 1024"
  by (simp add: unat_mod unat_of_nat take_bit_eq_mod mod_mod_cancel)

lemma raw_next: "(of_nat (r mod 1024) + 1) mod 1024 = (of_nat (Suc r mod 1024) :: u16)"
proof -
  have "unat (of_nat (r mod 1024) + 1 :: u16) = Suc (r mod 1024)"
    using unat_of_nat_u16 [of "Suc (r mod 1024)"] mod_less_divisor [of 1024 r] by (simp add: add.commute)
  then show ?thesis
    by (simp add: word_unat_eq_iff unat_mod unat_of_nat_u16) (simp add: mod_Suc)
qed

interpretation raw: sample_ring "\<lambda>s i. ring s ! i" full_scale raw_cursor raw_advance emit_raw
  by unfold_locales
    (auto simp: raw_cursor_def raw_advance_def unat_of_nat_u16 raw_next Let_def split_beta)

interpretation proc: sample_ring "\<lambda>s i. proc_ring s ! i" full_scale proc_cursor proc_advance emit_proc
  by unfold_locales (auto simp: proc_cursor_def proc_advance_def unat_mod_1024 Let_def split_beta)

lemma raw_emit_frame:
  "raw_cursor r s \<Longrightarrow> snd (emit_raw v n s) = s\<lparr>read_idx := of_nat ((r + n) mod 1024)\<rparr>"
proof (induction n arbitrary: r s)
  case (Suc n)
  then show ?case
    using raw.advance_cursor [of r s] by (simp add: Let_def split_beta raw_advance_def raw_cursor_def)
qed (simp add: raw_cursor_def)

lemma proc_emit_frame: "snd (emit_proc v n s) = s\<lparr>proc_read := proc_read s + of_nat n\<rparr>"
  by (induction n arbitrary: s) (simp_all add: Let_def split_beta add.assoc)

section \<open>A stream as a queue\<close>

text \<open>What happens to a running stream: the DMA deposits a sample, the lap interrupt runs, the host reads.\<close>

datatype stream_event = Deposit u16 | Lap_Irq | Read u8

text \<open>The stream with its hardware: the number of samples deposited, the number the host has seen go by,
  and whether a lap is waiting for its interrupt.  The run stops (\<open>None\<close>) where the hardware would lose a
  lap (a second reload before the interrupt ran), where a read overtakes a pending lap interrupt with
  more than a ring outstanding, and at the ends of the 32-bit counters.\<close>

record running =
  sys :: analog
  deposited :: nat
  seen :: nat
  lap_pending :: bool

definition quiet_env :: "nat \<Rightarrow> adc_env \<Rightarrow> stream_env" where
  "quiet_env n env = \<lparr>conv_env = env, dma_stops = True, dma_err = False, rovf_set = False,
     cnt_first = dma_counter n, cnt_second = dma_counter n\<rparr>"

definition set_slot :: "nat \<Rightarrow> adc_stream_state \<Rightarrow> running \<Rightarrow> running" where
  "set_slot sid s x = x\<lparr>sys := (sys x)\<lparr>slots := (slots (sys x))[sid := s]\<rparr>\<rparr>"

fun run_event :: "adc_env \<Rightarrow> u8 \<Rightarrow> stream_event \<Rightarrow> running \<Rightarrow> ((int \<times> u16 list) list \<times> running) option" where
  "run_event env stream_id (Deposit v) x =
     (let s = slots (sys x) ! unat stream_id; wraps = (Suc (deposited x) mod 1024 = 0)
      in if lap_pending x \<and> wraps \<or> deposited x \<ge> 2 ^ 42 - 1 then None
         else Some ([], (set_slot (unat stream_id) (s\<lparr>ring := (ring s)[deposited x mod 1024 := v]\<rparr>) x)
                \<lparr>deposited := Suc (deposited x), lap_pending := lap_pending x \<or> wraps\<rparr>))"
| "run_event env stream_id Lap_Irq x =
     (if \<not> lap_pending x then None
      else Some ([], (set_slot (unat stream_id) (fst (dma_channel_irq True False (unat stream_id) (slots (sys x) ! unat stream_id))) x)
             \<lparr>lap_pending := False\<rparr>))"
| "run_event env stream_id (Read max_samples) x =
     (if deposited x - seen x \<ge> 2 ^ 31 \<or> lap_pending x \<and> deposited x > seen x + 1024 then None
      else let (rc, mvs, a, tr) = adc_stream_read (quiet_env (deposited x) env) stream_id max_samples (sys x)
           in Some ([(rc, mvs)], x\<lparr>sys := a, seen := (if rc = BRIDGE_HW_ERR_BUSY then deposited x else seen x + length mvs)\<rparr>))"

fun run_events :: "adc_env \<Rightarrow> u8 \<Rightarrow> stream_event list \<Rightarrow> running \<Rightarrow> ((int \<times> u16 list) list \<times> running) option" where
  "run_events env stream_id [] x = Some ([], x)"
| "run_events env stream_id (e # es) x = do {
     (out, y) \<leftarrow> run_event env stream_id e x;
     (outs, z) \<leftarrow> run_events env stream_id es y;
     Some (out @ outs, z) }"

text \<open>The contract: a queue of samples.  A read delivers from its front, in order; with a full ring or
  more outstanding it says so and starts afresh; while a lap interrupt is pending it may deliver nothing.\<close>

inductive fifo_step :: "(u16 \<Rightarrow> u16) \<Rightarrow> stream_event \<Rightarrow> u16 list \<times> bool \<Rightarrow> (int \<times> u16 list) list \<Rightarrow> u16 list \<times> bool \<Rightarrow> bool"
  for mv :: "u16 \<Rightarrow> u16" where
  deposit: "(pending \<longrightarrow> pending') \<Longrightarrow> fifo_step mv (Deposit v) (q, pending) [] (q @ [v], pending')"
| lap: "fifo_step mv Lap_Irq (q, True) [] (q, False)"
| deliver: "length q < 1024 \<Longrightarrow>
    fifo_step mv (Read m) (q, pending) [(BRIDGE_HW_OK, map mv (take (unat m) q))] (drop (unat m) q, pending)"
| overrun: "length q \<ge> 1024 \<Longrightarrow> fifo_step mv (Read m) (q, pending) [(BRIDGE_HW_ERR_BUSY, [])] ([], pending)"
| hold_back: "fifo_step mv (Read m) (q, True) [(BRIDGE_HW_OK, [])] (q, True)"

inductive fifo_run :: "(u16 \<Rightarrow> u16) \<Rightarrow> stream_event list \<Rightarrow> u16 list \<times> bool \<Rightarrow> (int \<times> u16 list) list \<Rightarrow> u16 list \<times> bool \<Rightarrow> bool"
  for mv :: "u16 \<Rightarrow> u16" where
  finish: "fifo_run mv [] c [] c"
| step: "fifo_step mv e c out c' \<Longrightarrow> fifo_run mv es c' outs c'' \<Longrightarrow> fifo_run mv (e # es) c (out @ outs) c''"

inductive_cases fifo_run_ConsE: "fifo_run mv (e # es) c outs c''"

text \<open>A tracker remembers a position the DMA really had.\<close>

definition tracker_ok :: "nat \<Rightarrow> nat \<Rightarrow> adc_dma_pos \<Rightarrow> bool" where
  "tracker_ok n laps trk \<longleftrightarrow> (pos_valid trk \<longrightarrow> (\<exists>t l. t \<le> n \<and> pos_w trk = of_nat (t mod 1024) \<and> pos_laps trk = of_nat l \<and>
     l \<le> laps \<and> l \<le> t div 1024))"

definition laps_counted :: "running \<Rightarrow> nat" where
  "laps_counted x = deposited x div 1024 - (if lap_pending x then 1 else 0)"

text \<open>The simulation relation: \<open>hist\<close> is everything deposited, the queue is what was not seen yet.\<close>

definition stream_sim :: "nat \<Rightarrow> u16 \<Rightarrow> u16 \<Rightarrow> u16 list \<Rightarrow> running \<Rightarrow> bool" where
  "stream_sim sid vref fs hist x \<longleftrightarrow>
     (let s = slots (sys x) ! sid; n = deposited x; r = seen x
      in sid < BRIDGE_ADC_STREAM_COUNT \<and> length (slots (sys x)) = BRIDGE_ADC_STREAM_COUNT \<and> adc_vref_mv (conv (sys x)) = vref \<and>
         in_use s \<and> \<not> dsp_bound s \<and> dma_error_count s = 0 \<and> full_scale s = fs \<and> length (ring s) = 1024 \<and>
         length hist = n \<and> r \<le> n \<and> n < 2 ^ 42 \<and>
         (\<forall>i < n. n \<le> i + 1024 \<longrightarrow> ring s ! (i mod 1024) = hist ! i) \<and>
         total_read s = of_nat r \<and> raw_cursor r s \<and> (lap_pending x \<longrightarrow> 1024 \<le> n) \<and>
         lap_count s = of_nat (laps_counted x) \<and> tracker_ok n (laps_counted x) (rd_pos s))"

lemma div_less_u32: "(n :: nat) < 2 ^ 42 \<Longrightarrow> n div 1024 < 4294967296"
  by (simp add: less_mult_imp_div_less)

text \<open>The total is exact when every lap was counted; with a lap pending it is exact or one ring short.\<close>

lemma total_written:
  assumes "tracker_ok n laps trk" "n < 2 ^ 42" "laps = n div 1024 - (if pending then 1 else 0)" "pending \<longrightarrow> 1024 \<le> n"
    "adc_stream_total_written (dma_counter n) (of_nat laps) trk = (tw, trk')"
  shows "tw = of_nat n \<or> pending \<and> tw = of_nat (n - 1024)" "tracker_ok n laps trk'"
proof -
  let ?regress = "pos_valid trk \<and> of_nat laps = pos_laps trk \<and> (of_nat (n mod 1024) :: u16) < pos_w trk"
  have t: "tw = (if ?regress then of_nat laps * 1024 + ucast (of_nat (n mod 1024) :: u16) + 1024
      else of_nat laps * 1024 + ucast (of_nat (n mod 1024) :: u16))"
    and trk': "trk' = \<lparr>pos_laps = of_nat laps, pos_w = of_nat (n mod 1024), pos_valid = True\<rparr>"
    using assms(5) by (auto simp: adc_stream_total_written_def write_index_counter Let_def)
  show "tracker_ok n laps trk'" unfolding tracker_ok_def trk' using assms(3) by (intro impI exI [of _ n] exI [of _ laps]) auto
  show "tw = of_nat n \<or> pending \<and> tw = of_nat (n - 1024)"
  proof (cases pending)
    case False
    have "\<not> ?regress"
    proof
      assume b: ?regress
      then obtain u l where u: "u \<le> n" "pos_w trk = of_nat (u mod 1024)" "pos_laps trk = of_nat l" "l \<le> laps" "l \<le> u div 1024"
        using assms(1) by (auto simp: tracker_ok_def)
      have small: "laps < 4294967296" using assms(2,3) False div_less_u32 by simp
      then have "l = laps" using b u(3,4) of_nat_u32_inj [of laps l] by auto
      then have d: "u div 1024 = n div 1024" using u(1,5) assms(3) False div_le_mono [OF u(1), of 1024] by simp
      have "u mod 1024 \<le> n mod 1024" using u(1) d by (metis div_mult_mod_eq nat_add_left_cancel_le)
      then show False using b u(2) by (simp add: word_less_nat_alt unat_of_nat_u16)
    qed
    then have "tw = of_nat laps * 1024 + ucast (of_nat (n mod 1024) :: u16)" unfolding t by (rule if_not_P)
    then show ?thesis using assms(3) False laps_and_index [of n] by simp
  next
    case True
    have n: "(n - 1024) div 1024 = laps" "(n - 1024) mod 1024 = n mod 1024"
      using assms(3,4) True by (simp_all add: le_mod_geq le_div_geq)
    have e: "of_nat laps * 1024 + ucast (of_nat (n mod 1024) :: u16) = (of_nat (n - 1024) :: u32)"
      using laps_and_index [of "n - 1024"] n by simp
    have "(of_nat (n - 1024) :: u32) + 1024 = of_nat n"
      using assms(4) True of_nat_add [of "n - 1024" 1024, where 'a = u32] by simp
    then show ?thesis using t e True by (auto split: if_splits)
  qed
qed

lemma map_nth_upt: "r + k \<le> length xs \<Longrightarrow> map ((!) xs) [r..<r + k] = take k (drop r xs)"
  by (intro nth_equalityI) auto

text \<open>One read of the raw ring, seen as a read of the queue.\<close>

lemma read_raw_total:
  assumes "adc_stream_total_written first (lap_count s) (rd_pos s) = (of_nat n, trk)" "r \<le> n" "n - r < 2 ^ 31"
    "total_read s = of_nat r" "raw_cursor r s" "length hist = n" "n - r < 1024 \<longrightarrow> raw.holds_from ((!) hist) r (n - r) s"
    "adc_stream_write_index second = of_nat (n mod 1024)"
    "read_raw first second m v s = (rc, mvs, s')"
  shows "n - r < 1024 \<Longrightarrow> rc = BRIDGE_HW_OK \<and> mvs = map (\<lambda>c. code_to_mv (ucast c) v (full_scale s)) (take (unat m) (drop r hist)) \<and>
      s' = s\<lparr>rd_pos := trk, read_idx := of_nat ((r + length mvs) mod 1024), total_read := of_nat (r + length mvs)\<rparr>"
    and "n - r \<ge> 1024 \<Longrightarrow> rc = BRIDGE_HW_ERR_BUSY \<and> mvs = [] \<and>
      s' = s\<lparr>rd_pos := trk, read_idx := of_nat (n mod 1024), total_read := of_nat n\<rparr>"
proof -
  have b: "sint (of_nat n - of_nat r :: u32) = int (n - r)" "unat (of_nat n - of_nat r :: u32) = n - r"
    using backlog_sint [of r n] assms(2,3) by simp_all
  note d = read_raw_def assms(1,4,8) Let_def
  show "rc = BRIDGE_HW_ERR_BUSY \<and> mvs = [] \<and> s' = s\<lparr>rd_pos := trk, read_idx := of_nat (n mod 1024), total_read := of_nat n\<rparr>"
    if ge: "n - r \<ge> 1024"
  proof -
    have "\<not> sint (of_nat n - of_nat r :: u32) \<le> 0" "(1024 :: u32) \<le> of_nat n - of_nat r"
      using b ge by (simp_all add: word_le_nat_alt)
    moreover have "of_nat (n mod 1024) mod 1024 = (of_nat (n mod 1024) :: u16)"
      by (simp add: word_unat_eq_iff unat_mod unat_of_nat_u16)
    ultimately have "read_raw first second m v s =
        (BRIDGE_HW_ERR_BUSY, [], s\<lparr>rd_pos := trk, read_idx := of_nat (n mod 1024), total_read := of_nat n\<rparr>)"
      by (simp add: d)
    then show ?thesis using assms(9) by simp
  qed
  show "rc = BRIDGE_HW_OK \<and> mvs = map (\<lambda>c. code_to_mv (ucast c) v (full_scale s)) (take (unat m) (drop r hist)) \<and>
      s' = s\<lparr>rd_pos := trk, read_idx := of_nat ((r + length mvs) mod 1024), total_read := of_nat (r + length mvs)\<rparr>"
    if lt: "n - r < 1024"
  proof (cases "n = r")
    case True
    then show ?thesis using assms(4-6,9) by (auto simp: d raw_cursor_def)
  next
    case False
    let ?av = "ucast (of_nat n - of_nat r :: u32) :: u16" and ?s = "s\<lparr>rd_pos := trk\<rparr>"
    define kw where "kw = (if ?av < ucast m then ?av else ucast m)"
    have av: "unat ?av = n - r" using b(2) lt by (simp add: unsigned_ucast_eq take_bit_nat_eq_self)
    have m: "unat (ucast m :: u16) = unat m" using unsigned_less [of m, where 'a = nat] by (simp add: unsigned_ucast_eq take_bit_nat_eq_self)
    have k: "unat kw = min (unat m) (n - r)" using av m by (auto simp: kw_def word_less_nat_alt)
    have cur: "raw_cursor r ?s" using assms(5) by (simp add: raw_cursor_def)
    have "raw.holds_from ((!) hist) r (unat kw) ?s"
      using assms(7) lt k by (auto simp: raw.holds_from_def)
    then have "fst (emit_raw v (unat kw) ?s) = map (\<lambda>i. code_to_mv (ucast (hist ! i)) v (full_scale s)) [r..<r + unat kw]"
      using raw.emit_history [OF cur] by simp
    also have "\<dots> = map (\<lambda>c. code_to_mv (ucast c) v (full_scale s)) (map ((!) hist) [r..<r + unat kw])" by simp
    also have "map ((!) hist) [r..<r + unat kw] = take (unat kw) (drop r hist)"
      using assms(2,6) k by (intro map_nth_upt) simp
    also have "\<dots> = take (unat m) (drop r hist)" using k assms(6) by (auto simp: min_def)
    finally have e: "fst (emit_raw v (unat kw) ?s) = map (\<lambda>c. code_to_mv (ucast c) v (full_scale s)) (take (unat m) (drop r hist))" .
    then have l: "length (fst (emit_raw v (unat kw) ?s)) = unat kw" using k assms(6) by simp
    have uc: "(ucast kw :: u32) = of_nat (unat kw)"
      by (simp add: word_unat_eq_iff)
    have "\<not> sint (of_nat n - of_nat r :: u32) \<le> 0" "\<not> (1024 :: u32) \<le> of_nat n - of_nat r"
      using b lt False assms(2) by (simp_all add: word_le_nat_alt)
    then have "read_raw first second m v s = (BRIDGE_HW_OK, fst (emit_raw v (unat kw) ?s),
        (snd (emit_raw v (unat kw) ?s))\<lparr>total_read := total_read (snd (emit_raw v (unat kw) ?s)) + ucast kw\<rparr>)"
      by (simp add: d split_beta kw_def)
    then have r: "rc = BRIDGE_HW_OK" "mvs = fst (emit_raw v (unat kw) ?s)"
      "s' = (snd (emit_raw v (unat kw) ?s))\<lparr>total_read := total_read (snd (emit_raw v (unat kw) ?s)) + ucast kw\<rparr>"
      using assms(9) by simp_all
    have "s' = s\<lparr>rd_pos := trk, read_idx := of_nat ((r + length mvs) mod 1024), total_read := of_nat (r + length mvs)\<rparr>"
      unfolding r(2) l unfolding r(3) raw_emit_frame [OF cur] uc by (simp add: assms(4))
    then show ?thesis using r(1,2) e by simp
  qed
qed

abbreviation (input) mv_of :: "u16 \<Rightarrow> u16 \<Rightarrow> u16 \<Rightarrow> u16" where
  "mv_of vref fs c \<equiv> code_to_mv (ucast c) vref fs"

lemma sim_deposit:
  assumes "stream_sim sid v fs hist x" "sid = unat stream_id" "run_event env stream_id (Deposit c) x = Some (out, y)"
  shows "out = []" "stream_sim sid v fs (hist @ [c]) y" "seen y = seen x" "lap_pending x \<longrightarrow> lap_pending y"
proof -
  let ?n = "deposited x" and ?s = "slots (sys x) ! sid"
  let ?wraps = "Suc ?n mod 1024 = 0"
  have y: "out = []" "y = (set_slot sid (?s\<lparr>ring := (ring ?s)[?n mod 1024 := c]\<rparr>) x)
      \<lparr>deposited := Suc ?n, lap_pending := lap_pending x \<or> ?wraps\<rparr>"
    and g: "\<not> (lap_pending x \<and> ?wraps)" "Suc ?n < 2 ^ 42"
    using assms(2,3) by (auto simp: Let_def split: if_splits)
  show "out = []" "seen y = seen x" "lap_pending x \<longrightarrow> lap_pending y" using y by (auto simp: set_slot_def)
  have r: "(ring ?s)[?n mod 1024 := c] ! (i mod 1024) = (hist @ [c]) ! i"
    if "\<forall>i < ?n. ?n \<le> i + 1024 \<longrightarrow> ring ?s ! (i mod 1024) = hist ! i" "length (ring ?s) = 1024" "length hist = ?n"
      "i < Suc ?n" "Suc ?n \<le> i + 1024" for i
  proof (cases "i = ?n")
    case False
    then have "i < ?n" "?n - i < 1024" "0 < ?n - i" using that(4,5) by auto
    then have "i mod 1024 \<noteq> ?n mod 1024"
      using mod_eq_dvd_iff_nat [of i ?n 1024] by (auto dest: dvd_imp_le)
    then show ?thesis using that False by (simp add: nth_append)
  qed (use that in \<open>simp add: nth_append\<close>)
  have w: "1024 \<le> Suc ?n" if ?wraps using that by (cases "Suc ?n < 1024") auto
  have l: "laps_counted y = laps_counted x" "lap_pending y \<longrightarrow> 1024 \<le> Suc ?n"
    using y(2) g(1) assms(1) w by (auto simp: laps_counted_def set_slot_def div_Suc stream_sim_def Let_def)
  have t: "tracker_ok (Suc ?n) k trk" if "tracker_ok ?n k trk" for k trk
    using that unfolding tracker_ok_def by (meson le_SucI)
  show "stream_sim sid v fs (hist @ [c]) y"
    using assms(1) l g(2) r t unfolding stream_sim_def Let_def
    by (simp add: y(2) set_slot_def raw_cursor_def laps_counted_def)
qed

lemma sim_lap:
  assumes "stream_sim sid v fs hist x" "sid = unat stream_id" "run_event env stream_id Lap_Irq x = Some (out, y)"
  shows "out = []" "stream_sim sid v fs hist y" "seen y = seen x" "lap_pending x" "\<not> lap_pending y"
proof -
  let ?s = "slots (sys x) ! sid"
  have y: "out = []" "lap_pending x" "y = (set_slot sid (?s\<lparr>lap_count := lap_count ?s + 1\<rparr>) x)\<lparr>lap_pending := False\<rparr>"
    using assms(2,3) by (auto simp: dma_channel_irq_def adc_stream_latch_dma_error_def split: if_splits)
  have l: "laps_counted y = Suc (laps_counted x)"
    using assms(1) y(2,3) by (auto simp: laps_counted_def set_slot_def stream_sim_def Let_def)
  have t: "tracker_ok n (Suc k) trk" if "tracker_ok n k trk" for n k trk
    using that unfolding tracker_ok_def by (meson le_SucI)
  show "out = []" "seen y = seen x" "lap_pending x" "\<not> lap_pending y" using y by (auto simp: set_slot_def)
  show "stream_sim sid v fs hist y"
    using assms(1) t [of "deposited x" "laps_counted x"] unfolding stream_sim_def Let_def l
    by (simp add: y(3) set_slot_def raw_cursor_def add.commute)
qed

lemma adc_stream_read_raw:
  assumes "stream_sim sid v fs hist x" "sid = unat stream_id" "quiet_env n e = env"
    "read_raw (dma_counter n) (dma_counter n) m v (slots (sys x) ! sid) = (rc, mvs, s')"
  shows "adc_stream_read env stream_id m (sys x) = (rc, mvs, (sys x)\<lparr>slots := (slots (sys x))[sid := s']\<rparr>, [])"
  using assms
  by (auto simp: adc_stream_read_def quiet_env_def adc_stream_latch_dma_error_def stream_sim_def Let_def split: prod.splits)

lemma sim_read:
  assumes "stream_sim sid v fs hist x" "sid = unat stream_id" "run_event env stream_id (Read m) x = Some (out, y)"
  shows "stream_sim sid v fs hist y" "lap_pending y = lap_pending x"
    "fifo_step (mv_of v fs) (Read m) (drop (seen x) hist, lap_pending x) out (drop (seen y) hist, lap_pending x)"
proof -
  let ?n = "deposited x" and ?r = "seen x" and ?s = "slots (sys x) ! sid"
  obtain rc mvs s' where rd: "read_raw (dma_counter ?n) (dma_counter ?n) m v ?s = (rc, mvs, s')" by (metis prod_cases3)
  have g: "?n - ?r < 2 ^ 31" "lap_pending x \<longrightarrow> ?n \<le> ?r + 1024" and
    y: "out = [(rc, mvs)]" "y = x\<lparr>sys := (sys x)\<lparr>slots := (slots (sys x))[sid := s']\<rparr>,
      seen := if rc = BRIDGE_HW_ERR_BUSY then ?n else ?r + length mvs\<rparr>"
    using assms(3) adc_stream_read_raw [OF assms(1,2) refl rd, of env] by (auto split: if_splits)
  note sim = assms(1) [unfolded stream_sim_def Let_def]
  obtain tw trk where tw: "adc_stream_total_written (dma_counter ?n) (lap_count ?s) (rd_pos ?s) = (tw, trk)" by (metis surj_pair)
  have t: "tw = of_nat ?n \<or> lap_pending x \<and> tw = of_nat (?n - 1024)" "tracker_ok ?n (laps_counted x) trk"
    using total_written [of ?n "laps_counted x" "rd_pos ?s" "lap_pending x" tw trk] tw sim by (auto simp: laps_counted_def)
  have hold: "?n - ?r < 1024 \<longrightarrow> raw.holds_from ((!) hist) ?r (?n - ?r) ?s"
    using sim by (auto simp: raw.holds_from_def)
  have keep: "stream_sim sid v fs hist (x\<lparr>sys := (sys x)\<lparr>slots := (slots (sys x))[sid := ?s\<lparr>rd_pos := trk, read_idx := of_nat (r' mod 1024),
      total_read := of_nat r'\<rparr>]\<rparr>, seen := r'\<rparr>)" if "r' \<le> ?n" for r'
    using sim t(2) that unfolding stream_sim_def Let_def by (simp add: raw_cursor_def laps_counted_def)
  show "lap_pending y = lap_pending x" using y by simp
  have "stream_sim sid v fs hist y \<and>
    fifo_step (mv_of v fs) (Read m) (drop ?r hist, lap_pending x) out (drop (seen y) hist, lap_pending x)"
  proof (cases "tw = of_nat ?n")
    case True
    have r: "?r \<le> ?n" "length hist = ?n" "full_scale ?s = fs" "total_read ?s = of_nat ?r" "raw_cursor ?r ?s" using sim by auto
    note rr = read_raw_total [OF tw [unfolded True] r(1) g(1) r(4,5,2) hold write_index_counter rd]
    show ?thesis
    proof (cases "?n - ?r < 1024")
      case True
      note o = rr(1) [OF True, THEN conjunct1] rr(1) [OF True, THEN conjunct2, THEN conjunct1]
        rr(1) [OF True, THEN conjunct2, THEN conjunct2]
      have len: "length mvs = min (unat m) (?n - ?r)" using arg_cong [OF o(2), of length] r(2) by (simp add: min.commute)
      have "fifo_step (mv_of v fs) (Read m) (drop ?r hist, lap_pending x) out (drop (unat m) (drop ?r hist), lap_pending x)"
        unfolding y(1) o(1) unfolding o(2) using r(2,3) True fifo_step.deliver [of "drop ?r hist" "mv_of v fs" m "lap_pending x"] by simp
      moreover have "drop (unat m) (drop ?r hist) = drop (seen y) hist"
        using o(1) y(2) len r(2) by (auto simp: min_def add.commute)
      moreover have "stream_sim sid v fs hist y" using keep [of "?r + length mvs"] o(1) len r(1) unfolding y(2) o(3) by simp
      ultimately show ?thesis by simp
    next
      case False
      note o = rr(2) [OF False [unfolded not_less]]
      show ?thesis
        using o keep [of ?n] y r(2) False fifo_step.overrun [of "drop ?r hist" "mv_of v fs" m "lap_pending x"] by simp
    qed
  next
    case False
    then have late: "lap_pending x" "tw = of_nat (?n - 1024)" using t(1) by auto
    have n: "1024 \<le> ?n" "?n - 1024 \<le> ?r" "?r \<le> ?n" "total_read ?s = of_nat ?r" "raw_cursor ?r ?s" using sim late(1) g(2) by auto
    have "sint (of_nat (?n - 1024) - of_nat ?r :: u32) \<le> 0" by (rule backlog_behind [OF n(2)]) (use n(1,3) in linarith)
    then have o: "rc = BRIDGE_HW_OK" "mvs = []" "s' = ?s\<lparr>rd_pos := trk\<rparr>"
      using rd tw late(2) n(4) by (simp_all add: read_raw_def)
    have "s' = ?s\<lparr>rd_pos := trk, read_idx := of_nat (?r mod 1024), total_read := of_nat ?r\<rparr>"
      unfolding o(3) n(4) [symmetric] n(5) [unfolded raw_cursor_def, symmetric] by (cases ?s) simp
    then have "stream_sim sid v fs hist y" using keep [OF n(3)] o(1,2) unfolding y(2) by simp
    then show ?thesis
      using o(1,2) y late(1) fifo_step.hold_back [of "mv_of v fs" m "drop ?r hist"] by simp
  qed
  then show "stream_sim sid v fs hist y"
    "fifo_step (mv_of v fs) (Read m) (drop ?r hist, lap_pending x) out (drop (seen y) hist, lap_pending x)" by auto
qed

lemma sim_event:
  assumes "stream_sim sid v fs hist x" "sid = unat stream_id" "run_event env stream_id e x = Some (out, y)"
  shows "\<exists>hist'. stream_sim sid v fs hist' y \<and>
    fifo_step (mv_of v fs) e (drop (seen x) hist, lap_pending x) out (drop (seen y) hist', lap_pending y)"
proof (cases e)
  case (Deposit c)
  note s = sim_deposit [OF assms(1,2) assms(3) [unfolded Deposit]]
  have "seen x \<le> length hist" using assms(1) by (simp add: stream_sim_def Let_def)
  then show ?thesis
    using s fifo_step.deposit [of "lap_pending x" "lap_pending y" "mv_of v fs" c "drop (seen x) hist"] by (auto simp: Deposit)
next
  case Lap_Irq
  show ?thesis
    using sim_lap [OF assms(1,2) assms(3) [unfolded Lap_Irq]] fifo_step.lap [of "mv_of v fs" "drop (seen x) hist"]
    by (auto simp: Lap_Irq)
next
  case (Read m)
  show ?thesis using sim_read [OF assms(1,2) assms(3) [unfolded Read]] by (auto simp: Read)
qed

lemma sim_events:
  "run_events env stream_id es x = Some (outs, y) \<Longrightarrow> stream_sim (unat stream_id) v fs hist x \<Longrightarrow>
    \<exists>hist'. stream_sim (unat stream_id) v fs hist' y \<and>
      fifo_run (mv_of v fs) es (drop (seen x) hist, lap_pending x) outs (drop (seen y) hist', lap_pending y)"
proof (induction es arbitrary: x outs hist)
  case (Cons e es)
  obtain out z outs' where z: "run_event env stream_id e x = Some (out, z)" "run_events env stream_id es z = Some (outs', y)"
    "outs = out @ outs'" using Cons.prems(1) by (auto split: bind_splits)
  obtain h1 where h1: "stream_sim (unat stream_id) v fs h1 z"
    "fifo_step (mv_of v fs) e (drop (seen x) hist, lap_pending x) out (drop (seen z) h1, lap_pending z)"
    using sim_event [OF Cons.prems(2) refl z(1)] by blast
  show ?case using Cons.IH [OF z(2) h1(1)] fifo_run.step [OF h1(2)] z(3) by blast
qed (auto intro: fifo_run.finish)

fun deposits :: "stream_event list \<Rightarrow> u16 list" where
  "deposits [] = []"
| "deposits (Deposit v # es) = v # deposits es"
| "deposits (_ # es) = deposits es"

text \<open>A run of the queue that never overran delivers every sample once and in order.\<close>

lemma fifo_step_complete:
  "fifo_step mv e (q, p) out (q', p') \<Longrightarrow> \<forall>a \<in> set out. fst a \<noteq> BRIDGE_HW_ERR_BUSY \<Longrightarrow>
    concat (map snd out) @ map mv q' = map mv (q @ deposits [e]) \<and> (\<forall>a \<in> set out. fst a = BRIDGE_HW_OK)"
  by (erule fifo_step.cases) (auto simp flip: map_append)

lemma deposits_Cons: "deposits (e # es) = deposits [e] @ deposits es"
  by (cases e) simp_all

lemma fifo_run_complete:
  "fifo_run mv es c outs c' \<Longrightarrow> \<forall>a \<in> set outs. fst a \<noteq> BRIDGE_HW_ERR_BUSY \<Longrightarrow>
    concat (map snd outs) @ map mv (fst c') = map mv (fst c @ deposits es) \<and> (\<forall>a \<in> set outs. fst a = BRIDGE_HW_OK)"
proof (induction rule: fifo_run.induct)
  case (step e c out c' es outs c'')
  have "concat (map snd out) @ map mv (fst c') = map mv (fst c @ deposits [e]) \<and> (\<forall>a \<in> set out. fst a = BRIDGE_HW_OK)"
    using fifo_step_complete [of mv e "fst c" "snd c" out "fst c'" "snd c'"] step by simp
  moreover have "concat (map snd outs) @ map mv (fst c'') = map mv (fst c') @ map mv (deposits es) \<and>
      (\<forall>a \<in> set outs. fst a = BRIDGE_HW_OK)" using step by simp
  moreover have "concat (map snd (out @ outs)) @ map mv (fst c'') = concat (map snd out) @ concat (map snd outs) @ map mv (fst c'')" by simp
  ultimately show ?case
    unfolding deposits_Cons [of e es] by (metis (no_types, lifting) Un_iff append.assoc map_append set_append)
qed simp

text \<open>What an accepted begin leaves behind.\<close>

lemma stream_begin_ok:
  assumes "adc_stream_begin env stream_id ch rate a = Some (BRIDGE_HW_OK, a', tr)"
  shows "unat stream_id < 2" "unat ch < 8" "rate \<noteq> 0" "rate \<le> 100000" "\<not> in_use (slots a ! unat stream_id)"
    "\<exists>fs. slots a' = (slots a)[unat stream_id := started_stream ch fs (slots a ! unat stream_id)]"
    "Pace_Init (unat stream_id) (fst (adc_stream_pacing rate)) (snd (adc_stream_pacing rate)) \<in> set tr"
    "pool a' = pool a" "fac_owner a' = fac_owner a" "fft_owner a' = fft_owner a" "adc_vref_mv (conv a') = adc_vref_mv (conv a)"
  using assms
  by (auto simp: adc_stream_begin_def stream_begin_owned_def Let_def split_beta vref_ready_check_def adc_stream_dma_disable_confirm_def
    adc_periph_claim_def adc_periph_release_def not_less split: if_splits bind_splits)

text \<open>Between the two counter reads of a read the DMA may deposit one more sample.  The resynchronisation
  of an overrun then leaves the ring cursor one slot ahead of the count, for the rest of the session.\<close>

lemma overrun_resync_slips:
  assumes "adc_stream_total_written (dma_counter n) (lap_count s) (rd_pos s) = (of_nat n, trk)" "r \<le> n" "1024 \<le> n - r" "n - r < 2 ^ 31"
    "total_read s = of_nat r" "read_raw (dma_counter n) (dma_counter (Suc n)) m v s = (rc, mvs, s')"
  shows "rc = BRIDGE_HW_ERR_BUSY" "total_read s' = of_nat n" "\<not> raw_cursor n s'"
proof -
  have "\<not> sint (of_nat n - of_nat r :: u32) \<le> 0" "(1024 :: u32) \<le> of_nat n - of_nat r"
    using backlog_sint [of r n] assms(2-4) by (simp_all add: word_le_nat_alt)
  moreover have "of_nat (Suc n mod 1024) mod 1024 = (of_nat (Suc n mod 1024) :: u16)"
    by (simp add: word_unat_eq_iff unat_mod unat_of_nat_u16)
  ultimately have r: "read_raw (dma_counter n) (dma_counter (Suc n)) m v s =
      (BRIDGE_HW_ERR_BUSY, [], s\<lparr>rd_pos := trk, read_idx := of_nat (Suc n mod 1024), total_read := of_nat n\<rparr>)"
    by (simp add: read_raw_def assms(1,5) Let_def write_index_counter)
  have "(of_nat (Suc n mod 1024) :: u16) \<noteq> of_nat (n mod 1024)"
  proof
    assume "(of_nat (Suc n mod 1024) :: u16) = of_nat (n mod 1024)"
    then have "Suc n mod 1024 = n mod 1024"
      using arg_cong [of "of_nat (Suc n mod 1024) :: u16" "of_nat (n mod 1024)" unat] unat_of_nat_u16 [of "Suc n mod 1024"]
        unat_of_nat_u16 [of "n mod 1024"] mod_less_divisor [of 1024 n] mod_less_divisor [of 1024 "Suc n"] by linarith
    then show False by (simp add: mod_Suc split: if_splits)
  qed
  then show "rc = BRIDGE_HW_ERR_BUSY" "total_read s' = of_nat n" "\<not> raw_cursor n s'"
    using r assms(6) by (auto simp: raw_cursor_def)
qed

section \<open>Properties\<close>


text \<open>The pacing timer of an accepted begin.  Both values fit the 16-bit timer registers unchanged, the
  tick rate is exact, and the sample rate is the requested one rounded up to the next whole tick count:
  never slower than asked, and one tick more per period would be slower.\<close>

theorem adc_stream_pacing_bounds:
  assumes "adc_stream_begin env stream_id ch rate a0 = Some (BRIDGE_HW_OK, a, tr)"
  shows "\<exists>psc period tick. Pace_Init (unat stream_id) psc period \<in> set tr \<and> tick * Suc (unat psc) = 216000000 \<and>
    9 \<le> unat period \<and> unat period < 65536 \<and>
    unat rate * Suc (unat period) \<le> tick \<and> tick < unat rate * (Suc (unat period) + 1)"
proof -
  note b = stream_begin_ok [OF assms]
  have r: "0 < unat rate" "unat rate \<le> 100000" using b(3,4) by (auto simp: word_le_nat_alt unat_gt_0)
  define tick where "tick = (if rate \<ge> 16 then 1000000 else 10000 :: nat)"
  have q: "unat (1000000 div rate) = 1000000 div unat rate" "unat (10000 div rate) = 10000 div unat rate"
    by (simp_all add: unat_div)
  have p: "unat (snd (adc_stream_pacing rate)) + 1 = tick div unat rate \<and> 10 \<le> tick div unat rate \<and> tick div unat rate \<le> 65536 \<and>
      tick * Suc (unat (fst (adc_stream_pacing rate))) = 216000000"
  proof (cases "rate \<ge> 16")
    case True
    then have d: "1000000 div unat rate \<le> 1000000 div 16" "1000000 div 100000 \<le> 1000000 div unat rate"
      using r by (intro div_le_mono2; simp add: word_le_nat_alt)+
    then have "(1 :: u32) \<le> 1000000 div rate" using q by (simp add: word_le_nat_alt)
    then show ?thesis using True d q by (simp add: adc_stream_pacing_def tick_def unat_sub)
  next
    case False
    then have "unat rate \<le> 15" by (simp add: word_le_nat_alt)
    then have d: "10000 div 15 \<le> 10000 div unat rate" using r div_le_mono2 [of "unat rate" 15 10000] by auto
    have d': "10000 div unat rate \<le> 65536" by (rule order_trans [OF div_le_dividend]) simp
    have "(1 :: u32) \<le> 10000 div rate" using d q by (simp add: word_le_nat_alt)
    then show ?thesis using False d d' q by (simp add: adc_stream_pacing_def tick_def unat_sub)
  qed
  have "unat rate * (tick div unat rate) \<le> tick" "tick < unat rate * (tick div unat rate + 1)"
    using r(1) by (simp_all add: dividend_less_times_div)
  then show ?thesis
    using p b(7) by (intro exI [of _ "fst (adc_stream_pacing rate)"] exI [of _ "snd (adc_stream_pacing rate)"] exI [of _ tick]) auto
qed

text \<open>A board after boot whose first stream runs on channel 6 at 1 kHz.\<close>

definition live_analog :: analog where
  "live_analog = \<lparr>conv = live_adc, slots = [idle_stream, idle_stream], pool = idle_pool, fac_owner = ADC_DSP_OWNER_NONE,
     fft_owner = ADC_DSP_OWNER_NONE, fft_points = 0, fft_outfmt = 0, fft_fill = 0, fft_seq = 0, fft_nbins = 0\<rparr>"

definition live_streaming :: analog where
  "live_streaming = live_analog\<lparr>slots := [started_stream 6 4095 idle_stream, idle_stream]\<rparr>"

lemma live_begin: "\<exists>tr. adc_stream_begin (quiet_env 0 live_env) 0 6 1000 live_analog = Some (BRIDGE_HW_OK, live_streaming, tr)"
proof -
  have sys: "conv live_analog = live_adc" "slots live_analog = [idle_stream, idle_stream]" "vref_ok live_adc"
    "adc_resolution_bits_cache live_adc ! 6 = 12" "\<not> in_use idle_stream"
    by (simp_all add: live_analog_def live_adc_eq idle_stream_def)
  have pad: "adc_channels_map ! 6 = (ADC0, 2)" by (simp add: adc_channels_map_def)
  have claim: "adc_periph_claim ADC0 live_adc = (True, live_adc\<lparr>adc_periph_busy := (replicate 4 False)[0 := True]\<rparr>)"
    by (simp add: adc_periph_claim_def live_adc_eq)
  have rel: "adc_periph_release ADC0 (live_adc\<lparr>adc_periph_busy := (replicate 4 False)[0 := True]\<rparr>) = live_adc"
    by (simp add: adc_periph_release_def live_adc_eq numeral_eq_Suc)
  obtain fmt where fmt: "adc_apply_conv_format ADC0 6 live_adc = Some fmt" using apply_conv_format_defined by blast
  have cal: "fst (adc_calibrate_bounded live_env 0 ADC0)" by (simp add: adc_calibrate_bounded_def live_env_def)
  have scan: "\<not> (\<exists>i \<in> set [0..<2]. i \<noteq> 0 \<and> in_use ([idle_stream, idle_stream] ! i) \<and> P i)" for P
    using sys(5) by (auto simp: less_2_cases_iff nth_Cons split: nat.splits)
  have same: "live_analog\<lparr>conv := live_adc, slots := l\<rparr> = live_analog\<lparr>slots := l\<rparr>" for l by (simp add: live_analog_def)
  show ?thesis
    unfolding adc_stream_begin_def
    using cal scan by (simp add: sys pad vref_ready_check_def quiet_env_def adc_stream_dma_disable_confirm_def claim
      stream_begin_owned_def fmt rel adc_full_scale_for_bits_def Let_def split_beta live_streaming_def same)
qed

definition live_run :: running where
  "live_run = \<lparr>sys = live_streaming, deposited = 0, seen = 0, lap_pending = False\<rparr>"

lemma live_slots: "unat (0 :: u8) = 0" "slots live_streaming = [started_stream 6 4095 idle_stream, idle_stream]"
  "adc_vref_mv (conv live_streaming) = 1800" "full_scale (slots live_streaming ! 0) = 4095"
  by (simp_all add: live_streaming_def live_analog_def live_adc_eq started_stream_def)

lemma run_events_append:
  "run_events env stream_id es x = Some (o1, y) \<Longrightarrow> run_events env stream_id fs y = Some (o2, z) \<Longrightarrow>
    run_events env stream_id (es @ fs) x = Some (o1 @ o2, z)"
  by (induction es arbitrary: x o1) (auto split: bind_splits)

lemma live_events:
  "\<exists>y. run_events live_env 0 [Deposit 1365, Deposit 2730, Read 8] live_run = Some ([(BRIDGE_HW_OK, [600, 1200])], y)"
proof -
  let ?s = "(started_stream 6 4095 idle_stream)\<lparr>ring := (replicate 1024 0)[0 := 1365, 1 := 2730]\<rparr>"
  let ?x = "live_run\<lparr>sys := live_streaming\<lparr>slots := [?s, idle_stream]\<rparr>, deposited := 2\<rparr>"
  have sim: "stream_sim 0 1800 4095 [1365, 2730] ?x"
    by (auto simp: stream_sim_def live_run_def live_slots started_stream_def idle_stream_def raw_cursor_def laps_counted_def
      tracker_ok_def less_2_cases_iff live_streaming_def live_analog_def live_adc_eq)
  obtain rc mvs s' where rd: "read_raw (dma_counter 2) (dma_counter 2) 8 1800 ?s = (rc, mvs, s')" by (metis prod_cases3)
  obtain trk where tw: "adc_stream_total_written (dma_counter 2) (lap_count ?s) (rd_pos ?s) = (of_nat 2, trk)"
    by (simp add: adc_stream_total_written_def write_index_counter started_stream_def Let_def)
  have "rc = BRIDGE_HW_OK \<and> mvs = map (\<lambda>c :: u16. code_to_mv (ucast c) 1800 (full_scale ?s)) (take 8 (drop 0 [1365, 2730]))"
  proof -
    have "total_read ?s = of_nat 0" "raw_cursor 0 ?s" "length [1365, 2730 :: u16] = 2"
      "2 - 0 < (1024 :: nat) \<longrightarrow> raw.holds_from ((!) [1365, 2730]) 0 (2 - 0) ?s"
      by (auto simp: started_stream_def raw_cursor_def raw.holds_from_def less_Suc_eq)
    note r = read_raw_total(1) [OF tw _ _ this write_index_counter rd]
    show ?thesis using r by simp
  qed
  then have o: "rc = BRIDGE_HW_OK" "mvs = [600, 1200]" by (simp_all add: code_to_mv_def started_stream_def)
  have "adc_stream_read (quiet_env 2 live_env) 0 8 (sys ?x) =
      (BRIDGE_HW_OK, [600, 1200], (sys ?x)\<lparr>slots := (slots (sys ?x))[0 := s']\<rparr>, [])"
    using adc_stream_read_raw [OF sim _ refl, of 0 2 8 rc mvs s'] rd o by simp
  moreover have "run_events live_env 0 [Deposit 1365, Deposit 2730] live_run = Some ([], ?x)"
    by (simp add: live_run_def set_slot_def live_slots started_stream_def idle_stream_def)
  moreover have "\<not> 2 ^ 31 \<le> deposited ?x - seen ?x" "deposited ?x = 2" "\<not> lap_pending ?x" by (simp_all add: live_run_def)
  ultimately show ?thesis
    using run_events_append [of live_env 0 "[Deposit 1365, Deposit 2730]" live_run "[]" ?x "[Read 8]"] by simp
qed


theorem adc_stream_pacing_bounds_witness:
  "\<exists>a tr psc period. adc_stream_begin (quiet_env 0 live_env) 0 6 1000 live_analog = Some (BRIDGE_HW_OK, a, tr) \<and>
     Pace_Init 0 psc period \<in> set tr \<and> unat period < 65536"
proof -
  obtain tr where b: "adc_stream_begin (quiet_env 0 live_env) 0 6 1000 live_analog = Some (BRIDGE_HW_OK, live_streaming, tr)"
    using live_begin by blast
  then show ?thesis using adc_stream_pacing_bounds [OF b] by auto
qed

end
