(* ===== verification/Dsp_Pump.thy ===== *)
theory Dsp_Pump
  imports Complex_Main Adc_Stream
begin

unbundle bit_operations_syntax

text \<open>
  The DSP data plane of \<open>hal/gd32/adc_stream.c\<close>: the ownership of the filter (FAC) and FFT blocks, the
  filter configuration, and the two base-level pumps.  A pump is interrupted by the transport handlers
  anywhere outside its short locked sections, so it is modelled as a program counter whose steps are
  those sections and the unlocked stretches between them.  The FAC, the FFT and the vendor's
  register functions are parameters.
\<close>

section \<open>Ownership\<close>

abbreviation (input) "ADC_DSP_PUMP_LOCK_BATCH \<equiv> (8 :: nat)"

definition adc_dsp_owner_live_locked :: "int \<Rightarrow> int \<Rightarrow> adc_stream_state \<Rightarrow> bool \<Rightarrow> bool" where
  "adc_dsp_owner_live_locked owner expected_owner stream fft_terminal \<longleftrightarrow>
     owner = expected_owner \<and> in_use stream \<and> dsp_bound stream \<and> (dsp_terminal stream = KIND_FFT) = fft_terminal"

definition adc_dsp_owner_claim_config :: "int \<Rightarrow> nat \<Rightarrow> adc_stream_state \<Rightarrow> bool \<Rightarrow> bool \<times> int" where
  "adc_dsp_owner_claim_config owner sid stream fft_terminal =
     (if owner = ADC_DSP_OWNER_NONE \<and> adc_dsp_owner_live_locked owner ADC_DSP_OWNER_NONE stream fft_terminal
      then (True, adc_dsp_owner_transitional sid) else (False, owner))"

definition adc_dsp_owner_commit_config :: "int \<Rightarrow> nat \<Rightarrow> adc_stream_state \<Rightarrow> bool \<Rightarrow> bool \<times> int" where
  "adc_dsp_owner_commit_config owner sid stream fft_terminal =
     (let transitional = adc_dsp_owner_transitional sid
      in if adc_dsp_owner_live_locked owner transitional stream fft_terminal then (True, int sid)
         else (False, if owner = transitional then ADC_DSP_OWNER_NONE else owner))"

section \<open>Filter configuration\<close>

definition adc_dsp_neg_q15 :: "u16 \<Rightarrow> u16" where
  "adc_dsp_neg_q15 v = (if v = 0x8000 then 0x7FFF else - v)"

definition adc_dsp_bias_shift :: "u16 \<Rightarrow> nat" where
  "adc_dsp_bias_shift fs = (if fs = 1023 then 5 else if fs = 255 then 7 else if fs = 63 then 9 else 3)"

text \<open>What is programmed into the FAC.\<close>

record fac_setup =
  coeff_addr :: u8
  coeff_size :: u8
  input_addr :: u8
  input_size :: u8
  output_addr :: u8
  output_size :: u8
  coeffb :: "u16 list"
  coeffa :: "u16 list"
  x0_zeros :: u8
  ipp :: u8
  ipq :: u8
  ipr :: nat

text \<open>The first populated stage, in slot order.\<close>

definition first_stage :: "adc_dsp_chain \<Rightarrow> adc_dsp_stage option" where
  "first_stage chain = List.find populated (stages chain)"

text \<open>The 32-bit coefficients of a blob: \<open>n\<close> little-endian words after the header.\<close>

fun coeff_words :: "bytes \<Rightarrow> nat \<Rightarrow> nat \<Rightarrow> u32 list option" where
  "coeff_words d off 0 = Some []"
| "coeff_words d off (Suc n) = do {
     b0 \<leftarrow> rd d off; b1 \<leftarrow> rd d (off + 1); b2 \<leftarrow> rd d (off + 2); b3 \<leftarrow> rd d (off + 3);
     ws \<leftarrow> coeff_words d (off + 4) n;
     Some ((ucast b0 OR push_bit 8 (ucast b1) OR push_bit 16 (ucast b2) OR push_bit 24 (ucast b3)) # ws) }"

definition q31_to_q15 :: "u32 \<Rightarrow> u16" where
  "q31_to_q15 w = ucast (drop_bit 16 w)"

text \<open>Single-precision values: the IEEE-754 reading of a coefficient word, exact as a rational.\<close>

datatype f32 = NaN | Inf bool | Fin rat

definition f32_of :: "u32 \<Rightarrow> f32" where
  "f32_of w =
     (let neg = bit w 31; e = unat (drop_bit 23 w AND 0xFF); m = unat (w AND 0x7FFFFF);
          sg = (if neg then -1 else 1)
      in if e = 255 then (if m = 0 then Inf neg else NaN)
         else if e = 0 then Fin (sg * of_nat m / 2 ^ 149)
         else Fin (sg * of_nat (m + 2 ^ 23) * 2 ^ e / 2 ^ 150))"

fun f32_abs_fold :: "f32 list \<Rightarrow> f32 \<Rightarrow> f32" where
  "f32_abs_fold [] mx = mx"
| "f32_abs_fold (v # vs) mx =
     f32_abs_fold vs (case (v, mx) of (Inf _, Fin _) \<Rightarrow> Inf False | (Fin a, Fin x) \<Rightarrow> Fin (if \<bar>a\<bar> > x then \<bar>a\<bar> else x) | _ \<Rightarrow> mx)"

text \<open>\<open>None\<close> is the code's \<open>-1.0f\<close>: a coefficient out of range.  A NaN loses every comparison and is skipped.\<close>

definition adc_dsp_f32_max_abs :: "f32 list \<Rightarrow> rat option" where
  "adc_dsp_f32_max_abs vs = (case f32_abs_fold vs (Fin 0) of Fin x \<Rightarrow> (if x \<ge> 128 then None else Some x) | _ \<Rightarrow> None)"

fun headroom_loop :: "nat \<Rightarrow> rat \<Rightarrow> nat \<Rightarrow> nat" where
  "headroom_loop 0 mx g = g"
| "headroom_loop (Suc n) mx g = (if mx > 2 ^ g then headroom_loop n mx (Suc g) else g)"

definition adc_dsp_headroom_exp :: "rat \<Rightarrow> nat" where
  "adc_dsp_headroom_exp mx = headroom_loop 7 mx 0"

text \<open>The conversion to Q15 truncates towards zero; 0.999969f becomes 32766.  Converting a NaN to an
  integer is undefined in C: \<open>None\<close>.\<close>

definition q15_trunc :: "rat \<Rightarrow> int" where
  "q15_trunc x = (if x \<ge> 0 then \<lfloor>x\<rfloor> else \<lceil>x\<rceil>)"

fun adc_dsp_f32_to_q15 :: "f32 \<Rightarrow> nat \<Rightarrow> u16 option" where
  "adc_dsp_f32_to_q15 NaN g = None"
| "adc_dsp_f32_to_q15 (Inf neg) g = Some (if neg then 0x8000 else 32766)"
| "adc_dsp_f32_to_q15 (Fin a) g =
     (let f = a / 2 ^ g
      in Some (if f \<ge> 1 then 32766 else if f \<le> -1 then 0x8000 else word_of_int (q15_trunc (f * 32768))))"

fun q15_all :: "nat \<Rightarrow> f32 list \<Rightarrow> u16 list option" where
  "q15_all g [] = Some []"
| "q15_all g (v # vs) = do { q \<leftarrow> adc_dsp_f32_to_q15 v g; qs \<leftarrow> q15_all g vs; Some (q # qs) }"

text \<open>The quantised coefficients and the gain exponent; the inner \<open>None\<close> refuses the chain, the outer one
  is undefined behaviour.\<close>

definition quantise :: "u8 \<Rightarrow> u32 list \<Rightarrow> (nat \<times> u16 list) option option" where
  "quantise fmt ws =
     (if fmt = 1 then Some (Some (0, map q31_to_q15 ws))
      else case adc_dsp_f32_max_abs (map f32_of ws) of
             None \<Rightarrow> Some None
           | Some mx \<Rightarrow> do { qs \<leftarrow> q15_all (adc_dsp_headroom_exp mx) (map f32_of ws); Some (Some (adc_dsp_headroom_exp mx, qs)) })"

text \<open>\<open>loads\<close> tells whether the FAC finished its preload in time.\<close>

definition adc_dsp_fac_preload :: "bool \<Rightarrow> u8 \<Rightarrow> u8 option" where
  "adc_dsp_fac_preload loads zeros =
     (let z = (if zeros = 0 then 1 else zeros)
      in if z > BRIDGE_DSP_MAX_FIR_TAPS then None else if loads then Some z else None)"

definition fac_config_fir :: "bool \<Rightarrow> adc_dsp_stage \<Rightarrow> fac_setup option option" where
  "fac_config_fir loads st = do {
     fmt \<leftarrow> rd (data st) 0;
     nt \<leftarrow> rd (data st) 1;
     if nt = 0 \<or> nt > BRIDGE_DSP_MAX_FIR_TAPS then Some None
     else if total_size st \<noteq> BRIDGE_DSP_STAGE_HDR_BYTES + ucast nt * 4 then Some None
     else do {
       ws \<leftarrow> coeff_words (data st) 4 (unat nt);
       q \<leftarrow> quantise fmt ws;
       Some (do {
         (g, taps) \<leftarrow> q;
         z \<leftarrow> adc_dsp_fac_preload loads (nt - 1);
         Some \<lparr>coeff_addr = 0, coeff_size = nt, input_addr = nt, input_size = nt + 32, output_addr = nt + nt + 32,
               output_size = 32, coeffb = taps, coeffa = [], x0_zeros = z, ipp = nt, ipq = 0, ipr = g\<rparr> }) } }"

definition fac_config_iir :: "bool \<Rightarrow> adc_dsp_stage \<Rightarrow> fac_setup option option" where
  "fac_config_iir loads st = do {
     fmt \<leftarrow> rd (data st) 0;
     ws \<leftarrow> coeff_words (data st) 4 5;
     q \<leftarrow> quantise fmt ws;
     Some (do {
       (g, vs) \<leftarrow> q;
       z \<leftarrow> adc_dsp_fac_preload loads 2;
       Some \<lparr>coeff_addr = 0, coeff_size = 5, input_addr = 5, input_size = 3 + 32, output_addr = 5 + 3 + 32, output_size = 32,
             coeffb = take 3 vs, coeffa = map adc_dsp_neg_q15 (drop 3 vs), x0_zeros = z, ipp = 3, ipq = 2, ipr = g\<rparr> }) }"

definition adc_dsp_fac_config :: "bool \<Rightarrow> adc_dsp_chain \<Rightarrow> fac_setup option option" where
  "adc_dsp_fac_config loads chain = do {
     capable \<leftarrow> adc_dsp_chain_p1_capable chain;
     if \<not> capable then Some None
     else case first_stage chain of
            None \<Rightarrow> Some None
          | Some st \<Rightarrow> if kind st = KIND_FIR then fac_config_fir loads st
                       else if kind st = KIND_IIR then fac_config_iir loads st
                       else Some None }"

section \<open>Samples through the filter\<close>

text \<open>The FAC as the pump sees it: its input-full and output-empty flags, one write, one read with the
  saturation flags seen after it.\<close>

record 'q fac =
  x0bff :: "'q \<Rightarrow> bool"
  fac_write :: "u16 \<Rightarrow> 'q \<Rightarrow> 'q"
  ybef :: "'q \<Rightarrow> bool"
  fac_read :: "'q \<Rightarrow> u16 \<times> bool \<times> 'q"

definition mid_of :: "u16 \<Rightarrow> int" where
  "mid_of fs = (uint fs + 1) div 2"

definition to_q15 :: "u16 \<Rightarrow> u16 \<Rightarrow> u16" where
  "to_q15 fs code = word_of_int ((uint code - mid_of fs) * 2 ^ adc_dsp_bias_shift fs)"

definition from_q15 :: "u16 \<Rightarrow> u16 \<Rightarrow> u16" where
  "from_q15 fs y =
     (let c = sint y div 2 ^ adc_dsp_bias_shift fs + mid_of fs
      in word_of_int (if c < 0 then 0 else if c > uint fs then uint fs else c))"

text \<open>The inner loop: at most \<open>n\<close> words of output, stopping when the batch buffer is full.\<close>

fun drain :: "'q fac \<Rightarrow> u16 \<Rightarrow> nat \<Rightarrow> u16 list \<times> bool \<times> 'q \<Rightarrow> u16 list \<times> bool \<times> 'q" where
  "drain f fs 0 (out, sat, q) = (out, sat, q)"
| "drain f fs (Suc n) (out, sat, q) =
     (if length out < ADC_DSP_PUMP_LOCK_BATCH \<and> \<not> ybef f q
      then let (y, s, q') = fac_read f q in drain f fs n (out @ [from_q15 fs y], sat \<or> s, q')
      else (out, sat, q))"

text \<open>The outer loop: \<open>left\<close> samples of the batch still to feed.  It returns the number fed, the raw
  count reached, the output, the saturation verdict, whether the FAC stalled, and the FAC.\<close>

fun pump_batch ::
  "'q fac \<Rightarrow> u16 \<Rightarrow> u16 list \<Rightarrow> nat \<Rightarrow> nat \<Rightarrow> u32 \<Rightarrow> u16 list \<times> bool \<times> 'q \<Rightarrow> nat \<times> u32 \<times> u16 list \<times> bool \<times> bool \<times> 'q" where
  "pump_batch f fs rng 0 used raw (out, sat, q) = (used, raw, out, sat, False, q)"
| "pump_batch f fs rng (Suc left) used raw (out, sat, q) =
     (if \<not> length out < ADC_DSP_PUMP_LOCK_BATCH then (used, raw, out, sat, False, q)
      else if x0bff f q then (used, raw, out, sat, True, q)
      else let code = rng ! unat (raw mod BRIDGE_ADC_STREAM_RING_SAMPLES) AND 0x0FFF
           in pump_batch f fs rng left (Suc used) (raw + 1) (drain f fs 32 (out, sat, fac_write f (to_q15 fs code) q)))"

fun store_out :: "u16 list \<Rightarrow> u32 \<Rightarrow> u16 list \<Rightarrow> u16 list" where
  "store_out rng pw [] = rng"
| "store_out rng pw (c # cs) = store_out (rng[unat (pw mod BRIDGE_ADC_STREAM_RING_SAMPLES) := c]) (pw + 1) cs"

section \<open>FFT configuration and results\<close>

fun last_of_kind :: "u8 \<Rightarrow> adc_dsp_stage list \<Rightarrow> adc_dsp_stage option \<Rightarrow> adc_dsp_stage option" where
  "last_of_kind k [] found = found"
| "last_of_kind k (st # sts) found = last_of_kind k sts (if populated st \<and> kind st = k then Some st else found)"

text \<open>The points, the output format and the window shape.\<close>

definition adc_dsp_fft_config :: "adc_dsp_chain \<Rightarrow> (u16 \<times> u8 \<times> u8) option option" where
  "adc_dsp_fft_config chain = do {
     capable \<leftarrow> adc_dsp_chain_p1_capable chain;
     if \<not> capable then Some None
     else case last_of_kind KIND_FFT (stages chain) None of
            None \<Rightarrow> Some None
          | Some fft_st \<Rightarrow> do {
              d0 \<leftarrow> rd (data fft_st) 0; d1 \<leftarrow> rd (data fft_st) 1; ofm \<leftarrow> rd (data fft_st) 2;
              if le16 d0 d1 < BRIDGE_DSP_MIN_FFT_POINTS \<or> le16 d0 d1 > BRIDGE_DSP_MAX_FFT_POINTS then Some None
              else do {
                shape \<leftarrow> (case last_of_kind KIND_WINDOW (stages chain) None of None \<Rightarrow> Some 0 | Some w \<Rightarrow> rd (data w) 0);
                Some (Some (le16 d0 d1, ofm, shape)) } } }"

text \<open>\<open>out\<close> is the interleaved output of the transform, \<open>mag\<close> the magnitude of a complex value.\<close>

definition adc_dsp_fft_nbins :: "u16 \<Rightarrow> u8 \<Rightarrow> u16" where
  "adc_dsp_fft_nbins n outfmt = (if outfmt = 0 then n * 2 else if outfmt = 2 then n div 2 + 1 else n)"

definition adc_dsp_fft_prepare_bins :: "('f \<Rightarrow> 'f \<Rightarrow> 'f) \<Rightarrow> u16 \<Rightarrow> u8 \<Rightarrow> 'f list \<Rightarrow> 'f list" where
  "adc_dsp_fft_prepare_bins mag n outfmt out =
     (if outfmt = 0 then map ((!) out) [0..<unat (adc_dsp_fft_nbins n outfmt)]
      else map (\<lambda>i. mag (out ! (i * 2)) (out ! (i * 2 + 1))) [0..<unat (adc_dsp_fft_nbins n outfmt)])"

section \<open>The pumps\<close>

text \<open>Where the pump stands.  The first number of a state is its stream, \<open>avail\<close> the samples left.\<close>

datatype pump_pc =
    Idle
  | Fac_Config nat | Fac_Verdict nat bool | Fac_Bad nat
  | Fac_Seed nat | Fac_Seed_Set nat u32 | Fac_Total nat | Fac_Gap nat u32
  | Fac_Lease nat nat | Fac_Work nat nat | Fac_Commit nat nat nat u32 "u16 list" bool bool
  | Fft_Config nat | Fft_Verdict nat bool
  | Fft_Total nat | Fft_Gap nat u32 | Fft_Sample nat nat | Fft_Store nat nat u16
  | Fft_Calc nat nat | Fft_Done nat nat bool | Fft_Prepare nat nat | Fft_Publish nat nat

text \<open>The platform: the analog subsystem, the pump, the FAC, the FFT's input frame and the bins.  Three
  ghosts: the session number of each stream (its accepted begins), the session the pump entered in, and
  the session and frame the bins were prepared from (\<open>None\<close> while they are being written).\<close>

record ('q, 'f) platform =
  an :: analog
  pc :: pump_pc
  fac_state :: 'q
  fft_real :: "u16 list"
  fft_bins :: "'f list"
  sess :: "nat \<Rightarrow> nat"
  lease :: nat
  bins_from :: "(nat \<times> u16 list) option"

abbreviation (input) slot_of :: "nat \<Rightarrow> ('q, 'f) platform \<Rightarrow> adc_stream_state" where
  "slot_of sid x \<equiv> slots (an x) ! sid"

definition put_slot :: "nat \<Rightarrow> adc_stream_state \<Rightarrow> analog \<Rightarrow> analog" where
  "put_slot sid s a = a\<lparr>slots := (slots a)[sid := s]\<rparr>"

abbreviation (input) goto :: "pump_pc \<Rightarrow> ('q, 'f) platform \<Rightarrow> ('q, 'f) platform" where
  "goto p x \<equiv> x\<lparr>pc := p\<rparr>"

definition with_total :: "u32 \<Rightarrow> nat \<Rightarrow> analog \<Rightarrow> u32 \<times> analog" where
  "with_total cnt sid a =
     (let s = slots a ! sid; (total_written, trk) = adc_stream_total_written cnt (lap_count s) (pump_pos s)
      in (total_written, put_slot sid (s\<lparr>pump_pos := trk\<rparr>) a))"

subsection \<open>Filter pump\<close>

definition fac_enter :: "nat \<Rightarrow> ('q, 'f) platform \<Rightarrow> ('q, 'f) platform" where
  "fac_enter sid x =
     (if dma_error_count (slot_of sid x) \<noteq> 0 then x
      else if fac_owner (an x) \<noteq> int sid
      then let (claimed, owner) = adc_dsp_owner_claim_config (fac_owner (an x)) sid (slot_of sid x) False
           in if claimed then x\<lparr>an := (an x)\<lparr>fac_owner := owner\<rparr>, pc := Fac_Config sid, lease := sess x sid\<rparr> else x
      else x\<lparr>pc := Fac_Total sid, lease := sess x sid\<rparr>)"

definition fac_config :: "bool \<Rightarrow> nat \<Rightarrow> ('q, 'f) platform \<Rightarrow> ('q, 'f) platform option" where
  "fac_config loads sid x = do {
     cfg \<leftarrow> adc_dsp_fac_config loads (pool (an x) ! unat (dsp_chain_id (slot_of sid x)));
     Some (goto (Fac_Verdict sid (cfg \<noteq> None)) x) }"

definition fac_verdict :: "nat \<Rightarrow> bool \<Rightarrow> ('q, 'f) platform \<Rightarrow> ('q, 'f) platform" where
  "fac_verdict sid ok x =
     (if \<not> ok then x\<lparr>an := (an x)\<lparr>fac_owner := snd (adc_dsp_owner_release (fac_owner (an x)) sid)\<rparr>, pc := Fac_Bad sid\<rparr>
      else let (live, owner) = adc_dsp_owner_commit_config (fac_owner (an x)) sid (slot_of sid x) False
           in x\<lparr>an := (an x)\<lparr>fac_owner := owner\<rparr>, pc := (if live then Fac_Seed sid else Idle)\<rparr>)"

definition fac_bad :: "nat \<Rightarrow> ('q, 'f) platform \<Rightarrow> ('q, 'f) platform" where
  "fac_bad sid x = x\<lparr>an := put_slot sid ((slot_of sid x)\<lparr>dsp_cfg_bad := True\<rparr>) (an x), pc := Idle\<rparr>"

definition fac_seed :: "u32 \<Rightarrow> nat \<Rightarrow> ('q, 'f) platform \<Rightarrow> ('q, 'f) platform" where
  "fac_seed cnt sid x =
     (let (live, a) = with_total cnt sid (an x)
      in x\<lparr>an := a, pc := (if live - pump_raw_read (slots a ! sid) \<ge> BRIDGE_ADC_STREAM_RING_SAMPLES
                            then Fac_Seed_Set sid live else Fac_Total sid)\<rparr>)"

definition fac_seed_set :: "nat \<Rightarrow> u32 \<Rightarrow> ('q, 'f) platform \<Rightarrow> ('q, 'f) platform" where
  "fac_seed_set sid live x =
     (if adc_dsp_owner_live_locked (fac_owner (an x)) (int sid) (slot_of sid x) False
      then x\<lparr>an := put_slot sid ((slot_of sid x)\<lparr>pump_raw_read := live\<rparr>) (an x), pc := Fac_Total sid\<rparr>
      else goto (Fac_Total sid) x)"

definition fac_total :: "u32 \<Rightarrow> nat \<Rightarrow> ('q, 'f) platform \<Rightarrow> ('q, 'f) platform" where
  "fac_total cnt sid x =
     (let (total_written, a) = with_total cnt sid (an x); avail = total_written - pump_raw_read (slots a ! sid)
      in x\<lparr>an := a, pc := (if sint avail \<le> 0 then Idle
                            else if avail \<ge> BRIDGE_ADC_STREAM_RING_SAMPLES then Fac_Gap sid total_written
                            else Fac_Lease sid (unat avail))\<rparr>)"

definition fac_gap :: "nat \<Rightarrow> u32 \<Rightarrow> ('q, 'f) platform \<Rightarrow> ('q, 'f) platform" where
  "fac_gap sid total_written x =
     (if adc_dsp_owner_live_locked (fac_owner (an x)) (int sid) (slot_of sid x) False
      then x\<lparr>an := put_slot sid ((slot_of sid x)\<lparr>pump_raw_read := total_written, proc_gap := True\<rparr>) (an x), pc := Idle\<rparr>
      else goto Idle x)"

definition fac_lease :: "nat \<Rightarrow> nat \<Rightarrow> ('q, 'f) platform \<Rightarrow> ('q, 'f) platform" where
  "fac_lease sid avail x =
     (if avail = 0 then goto Idle x
      else if adc_dsp_owner_live_locked (fac_owner (an x)) (int sid) (slot_of sid x) False
      then x\<lparr>an := (an x)\<lparr>fac_owner := adc_dsp_owner_transitional sid\<rparr>, pc := Fac_Work sid avail\<rparr>
      else goto Idle x)"

definition fac_work :: "'q fac \<Rightarrow> nat \<Rightarrow> nat \<Rightarrow> ('q, 'f) platform \<Rightarrow> ('q, 'f) platform" where
  "fac_work f sid avail x =
     (let s = slot_of sid x;
          (used, raw, out, sat, stalled, q) =
            pump_batch f (full_scale s) (ring s) (min avail ADC_DSP_PUMP_LOCK_BATCH) 0 (pump_raw_read s) ([], False, fac_state x)
      in x\<lparr>fac_state := q, pc := Fac_Commit sid avail used raw out sat stalled\<rparr>)"

definition fac_commit :: "nat \<Rightarrow> nat \<Rightarrow> nat \<Rightarrow> u32 \<Rightarrow> u16 list \<Rightarrow> bool \<Rightarrow> bool \<Rightarrow> ('q, 'f) platform \<Rightarrow> ('q, 'f) platform" where
  "fac_commit sid avail used raw out sat stalled x =
     (let s = slot_of sid x; owner = fac_owner (an x); transitional = adc_dsp_owner_transitional sid
      in if adc_dsp_owner_live_locked owner transitional s False
         then x\<lparr>an := (put_slot sid (s\<lparr>proc_ring := store_out (proc_ring s) (proc_write s) out, pump_raw_read := raw,
                        proc_write := proc_write s + of_nat (length out), dsp_sat := dsp_sat s \<or> sat\<rparr>) (an x))
                  \<lparr>fac_owner := int sid\<rparr>, pc := (if stalled then Idle else Fac_Lease sid (avail - used))\<rparr>
         else x\<lparr>an := (an x)\<lparr>fac_owner := if owner = transitional then ADC_DSP_OWNER_NONE else owner\<rparr>, pc := Idle\<rparr>)"

subsection \<open>FFT pump\<close>

definition fft_enter :: "nat \<Rightarrow> ('q, 'f) platform \<Rightarrow> ('q, 'f) platform" where
  "fft_enter sid x =
     (if dma_error_count (slot_of sid x) \<noteq> 0 then x
      else if fft_owner (an x) \<noteq> int sid
      then let (claimed, owner) = adc_dsp_owner_claim_config (fft_owner (an x)) sid (slot_of sid x) True
           in if claimed then x\<lparr>an := (an x)\<lparr>fft_owner := owner\<rparr>, pc := Fft_Config sid, lease := sess x sid\<rparr> else x
      else x\<lparr>pc := Fft_Total sid, lease := sess x sid\<rparr>)"

definition fft_config :: "nat \<Rightarrow> ('q, 'f) platform \<Rightarrow> ('q, 'f) platform option" where
  "fft_config sid x = do {
     cfg \<leftarrow> adc_dsp_fft_config (pool (an x) ! unat (dsp_chain_id (slot_of sid x)));
     Some (case cfg of
             None \<Rightarrow> goto (Fft_Verdict sid False) x
           | Some (n, ofm, shape) \<Rightarrow>
               x\<lparr>an := adc_dsp_fft_session_reset ((an x)\<lparr>fft_points := n, fft_outfmt := ofm\<rparr>), pc := Fft_Verdict sid True\<rparr>) }"

definition fft_verdict :: "nat \<Rightarrow> bool \<Rightarrow> ('q, 'f) platform \<Rightarrow> ('q, 'f) platform" where
  "fft_verdict sid ok x =
     (if \<not> ok then x\<lparr>an := (an x)\<lparr>fft_owner := snd (adc_dsp_owner_release (fft_owner (an x)) sid)\<rparr>, pc := Idle\<rparr>
      else let (live, owner) = adc_dsp_owner_commit_config (fft_owner (an x)) sid (slot_of sid x) True
           in x\<lparr>an := (an x)\<lparr>fft_owner := owner\<rparr>, pc := (if live then Fft_Total sid else Idle)\<rparr>)"

definition fft_total :: "u32 \<Rightarrow> nat \<Rightarrow> ('q, 'f) platform \<Rightarrow> ('q, 'f) platform" where
  "fft_total cnt sid x =
     (let (total_written, a) = with_total cnt sid (an x); avail = total_written - pump_raw_read (slots a ! sid)
      in x\<lparr>an := a, pc := (if sint avail \<le> 0 then Idle
                            else if avail \<ge> BRIDGE_ADC_STREAM_RING_SAMPLES then Fft_Gap sid total_written
                            else Fft_Sample sid (unat avail))\<rparr>)"

definition fft_gap :: "nat \<Rightarrow> u32 \<Rightarrow> ('q, 'f) platform \<Rightarrow> ('q, 'f) platform" where
  "fft_gap sid total_written x =
     (if adc_dsp_owner_live_locked (fft_owner (an x)) (int sid) (slot_of sid x) True
      then x\<lparr>an := (put_slot sid ((slot_of sid x)\<lparr>pump_raw_read := total_written\<rparr>) (an x))\<lparr>fft_fill := 0\<rparr>, pc := Idle\<rparr>
      else goto Idle x)"

definition fft_sample :: "nat \<Rightarrow> nat \<Rightarrow> ('q, 'f) platform \<Rightarrow> ('q, 'f) platform" where
  "fft_sample sid avail x =
     (if avail = 0 then goto Idle x
      else if adc_dsp_owner_live_locked (fft_owner (an x)) (int sid) (slot_of sid x) True
      then goto (Fft_Store sid (avail - 1)
             (ring (slot_of sid x) ! unat (pump_raw_read (slot_of sid x) mod BRIDGE_ADC_STREAM_RING_SAMPLES) AND 0x0FFF)) x
      else goto Idle x)"

definition fft_store :: "nat \<Rightarrow> nat \<Rightarrow> u16 \<Rightarrow> ('q, 'f) platform \<Rightarrow> ('q, 'f) platform" where
  "fft_store sid avail code x =
     (if adc_dsp_owner_live_locked (fft_owner (an x)) (int sid) (slot_of sid x) True
      then let s = slot_of sid x; fill = fft_fill (an x)
           in x\<lparr>an := (put_slot sid (s\<lparr>pump_raw_read := pump_raw_read s + 1\<rparr>) (an x))\<lparr>fft_fill := fill + 1\<rparr>,
                fft_real := (fft_real x)[unat fill := code],
                pc := (if fill + 1 \<ge> fft_points (an x) then Fft_Calc sid avail else Fft_Sample sid avail)\<rparr>
      else goto Idle x)"

definition fft_calc :: "bool \<Rightarrow> nat \<Rightarrow> nat \<Rightarrow> ('q, 'f) platform \<Rightarrow> ('q, 'f) platform" where
  "fft_calc ccf sid avail x = goto (Fft_Done sid avail ccf) x"

definition fft_done :: "nat \<Rightarrow> nat \<Rightarrow> bool \<Rightarrow> ('q, 'f) platform \<Rightarrow> ('q, 'f) platform" where
  "fft_done sid avail finished x =
     (let live = adc_dsp_owner_live_locked (fft_owner (an x)) (int sid) (slot_of sid x) True
      in if \<not> live then goto Idle x
         else if \<not> finished then x\<lparr>an := (an x)\<lparr>fft_fill := 0\<rparr>, pc := Fft_Sample sid avail\<rparr>
         else x\<lparr>an := (an x)\<lparr>fft_owner := adc_dsp_owner_transitional sid\<rparr>, pc := Fft_Prepare sid avail\<rparr>)"

text \<open>Preparing overwrites the head of the bin buffer in place; \<open>fft_scribble\<close> is any state of it on the way.\<close>

definition fft_scribble :: "'f list \<Rightarrow> ('q, 'f) platform \<Rightarrow> ('q, 'f) platform" where
  "fft_scribble torn x = x\<lparr>fft_bins := torn, bins_from := None\<rparr>"

definition fft_prepare ::
  "('f \<Rightarrow> 'f \<Rightarrow> 'f) \<Rightarrow> (u16 list \<Rightarrow> 'f list) \<Rightarrow> nat \<Rightarrow> nat \<Rightarrow> ('q, 'f) platform \<Rightarrow> ('q, 'f) platform" where
  "fft_prepare mag fft sid avail x =
     (let frame = take (unat (fft_points (an x))) (fft_real x);
          bins = adc_dsp_fft_prepare_bins mag (fft_points (an x)) (fft_outfmt (an x)) (fft frame)
      in x\<lparr>fft_bins := bins @ drop (length bins) (fft_bins x), bins_from := Some (lease x, frame), pc := Fft_Publish sid avail\<rparr>)"

definition fft_publish :: "nat \<Rightarrow> nat \<Rightarrow> ('q, 'f) platform \<Rightarrow> ('q, 'f) platform" where
  "fft_publish sid avail x =
     (let owner = fft_owner (an x); publishing = adc_dsp_owner_transitional sid
      in if adc_dsp_owner_live_locked owner publishing (slot_of sid x) True
         then x\<lparr>an := (an x)\<lparr>fft_nbins := adc_dsp_fft_nbins (fft_points (an x)) (fft_outfmt (an x)), fft_seq := fft_seq (an x) + 1,
                             fft_fill := 0, fft_owner := int sid\<rparr>, pc := Fft_Sample sid avail\<rparr>
         else x\<lparr>an := (an x)\<lparr>fft_owner := if owner = publishing then ADC_DSP_OWNER_NONE else owner\<rparr>, pc := Idle\<rparr>)"

text \<open>The body of the loop of \<open>bridge_hw_dsp_pump\<close> for one stream, up to its first interruption.\<close>

definition dsp_pump_enter :: "nat \<Rightarrow> ('q, 'f) platform \<Rightarrow> ('q, 'f) platform" where
  "dsp_pump_enter sid x =
     (let s = slot_of sid x
      in if \<not> in_use s \<or> \<not> dsp_bound s then x
         else if dsp_terminal s = KIND_FFT then fft_enter sid x else fac_enter sid x)"

text \<open>Reading the published spectrum: status, sequence number, number of bins, the bins.\<close>

definition adc_spectrum_read ::
  "bool \<Rightarrow> u8 \<Rightarrow> u16 \<Rightarrow> u8 \<Rightarrow> ('q, 'f) platform \<Rightarrow> int \<times> u32 \<times> u16 \<times> 'f list \<times> ('q, 'f) platform" where
  "adc_spectrum_read err stream_id bin_offset max_bins x =
     (let sid = unat stream_id; s = slot_of sid x
      in if sid \<ge> BRIDGE_ADC_STREAM_COUNT then (BRIDGE_HW_ERR_RANGE, 0, 0, [], x)
         else if \<not> in_use s \<or> \<not> dsp_bound s \<or> dsp_terminal s \<noteq> KIND_FFT then (BRIDGE_HW_ERR_NOTIMPL, 0, 0, [], x)
         else let s' = fst (adc_stream_latch_dma_error err sid s); x' = x\<lparr>an := put_slot sid s' (an x)\<rparr>; a = an x
              in if dma_error_count s' \<noteq> 0 then (BRIDGE_HW_ERR_IO, 0, 0, [], x')
                 else if fft_owner a \<noteq> int sid \<or> fft_seq a = 0 then (BRIDGE_HW_ERR_BUSY, 0, 0, [], x')
                 else if bin_offset \<ge> fft_nbins a then (BRIDGE_HW_OK, fft_seq a, fft_nbins a, [], x')
                 else let remain = fft_nbins a - bin_offset;
                          emit = (if remain < ucast max_bins then ucast remain else max_bins)
                      in (BRIDGE_HW_OK, fft_seq a, fft_nbins a,
                          map (\<lambda>i. fft_bins x ! (unat bin_offset + i)) [0..<unat emit], x'))"

section \<open>Correctness of the filter path\<close>

text \<open>The widths a stream can run at.\<close>

definition stream_scale :: "u16 \<Rightarrow> bool" where
  "stream_scale fs \<longleftrightarrow> fs = 4095 \<or> fs = 1023 \<or> fs = 255 \<or> fs = 63"

lemma full_scale_stream_scale: "stream_scale (adc_full_scale_for_bits b)"
  by (auto simp: stream_scale_def adc_full_scale_for_bits_def)

text \<open>The biased sample fits sixteen bits: the shift spends exactly the headroom of the width.\<close>

lemma biased_range:
  assumes "stream_scale fs" "code \<le> fs"
  shows "- 16384 \<le> (uint code - mid_of fs) * 2 ^ adc_dsp_bias_shift fs" "(uint code - mid_of fs) * 2 ^ adc_dsp_bias_shift fs < 16384"
  using assms by (auto simp: stream_scale_def mid_of_def adc_dsp_bias_shift_def word_le_def)

lemma sint_to_q15:
  assumes "stream_scale fs" "code \<le> fs"
  shows "sint (to_q15 fs code) = (uint code - mid_of fs) * 2 ^ adc_dsp_bias_shift fs"
proof -
  have "sint (word_of_int z :: u16) = z" if "- 16384 \<le> z" "z < 16384" for z
    using that by (simp add: signed_of_int signed_take_bit_int_eq_self)
  then show ?thesis using biased_range [OF assms] unfolding to_q15_def by blast
qed

text \<open>Little-endian words read from inside the blob.\<close>

lemma coeff_words_defined: "off + 4 * n \<le> length d \<Longrightarrow> \<exists>ws. coeff_words d off n = Some ws \<and> length ws = n"
proof (induction n arbitrary: off)
  case (Suc n)
  have "off + 4 + 4 * n \<le> length d" using Suc.prems by simp
  from Suc.IH [OF this] obtain ws where "coeff_words d (off + 4) n = Some ws" "length ws = n" by blast
  then show ?case using Suc.prems by (simp add: rd_def)
qed simp

lemma from_q15_identity:
  assumes "stream_scale fs" "code \<le> fs"
  shows "from_q15 fs (to_q15 fs code) = code"
proof -
  have "0 \<le> uint code" "uint code \<le> uint fs" using assms(2) by (simp_all add: word_le_def)
  then show ?thesis using sint_to_q15 [OF assms] by (simp add: from_q15_def Let_def)
qed

lemma from_q15_range: "from_q15 fs y \<le> fs"
proof -
  have "uint (word_of_int z :: u16) = z" if "0 \<le> z" "z \<le> uint fs" for z
    using that uint_bounded [of fs] by (simp add: unsigned_of_int take_bit_int_eq_self)
  then show ?thesis unfolding from_q15_def Let_def word_le_def using uint_ge_0 [of fs] by auto
qed

lemma drain_out:
  "drain f fs n (out, sat, q) = (out', sat', q') \<Longrightarrow> length out \<le> 8 \<Longrightarrow> \<forall>c \<in> set out. c \<le> fs \<Longrightarrow>
    length out' \<le> 8 \<and> (\<forall>c \<in> set out'. c \<le> fs)"
proof (induction n arbitrary: out sat q)
  case (Suc n)
  show ?case
  proof (cases "length out < 8 \<and> \<not> ybef f q")
    case True
    obtain y s q1 where r: "fac_read f q = (y, s, q1)" by (metis prod_cases3)
    have "drain f fs n (out @ [from_q15 fs y], sat \<or> s, q1) = (out', sat', q')" using Suc.prems(1) True r by simp
    from Suc.IH [OF this] show ?thesis using True Suc.prems(3) from_q15_range by auto
  qed (use Suc.prems in auto)
qed simp

lemma pump_batch_out:
  "pump_batch f fs rng n used raw (out, sat, q) = (used', raw', out', sat', stalled, q') \<Longrightarrow> length out \<le> 8 \<Longrightarrow> \<forall>c \<in> set out. c \<le> fs \<Longrightarrow>
    length out' \<le> 8 \<and> (\<forall>c \<in> set out'. c \<le> fs) \<and> used \<le> used' \<and> used' \<le> used + n \<and> raw' = raw + of_nat (used' - used)"
proof (induction n arbitrary: used raw out sat q)
  case (Suc n)
  show ?case
  proof (cases "length out < 8 \<and> \<not> x0bff f q")
    case True
    obtain o1 s1 q1 where d: "drain f fs 32 (out, sat, fac_write f (to_q15 fs (rng ! unat (raw mod 1024) AND 0x0FFF)) q) = (o1, s1, q1)"
      by (metis prod_cases3)
    have "pump_batch f fs rng n (Suc used) (raw + 1) (o1, s1, q1) = (used', raw', out', sat', stalled, q')"
      using Suc.prems(1) True d by (simp add: Let_def)
    from Suc.IH [OF this] drain_out [OF d Suc.prems(2,3)]
    have r: "length out' \<le> 8" "\<forall>c \<in> set out'. c \<le> fs" "Suc used \<le> used'" "used' \<le> Suc used + n" "raw' = raw + 1 + of_nat (used' - Suc used)"
      by auto
    have "(1 :: u32) + of_nat (used' - Suc used) = of_nat (used' - used)" using r(3) by (metis Suc_diff_le diff_Suc_Suc of_nat_Suc)
    then show ?thesis using r by (simp add: add.assoc)
  qed (use Suc.prems in \<open>auto split: if_splits\<close>)
qed auto

section \<open>Coefficients\<close>

lemma headroom_loop:
  assumes "mx < 2 ^ (g + n)" "g = 0 \<or> 2 ^ (g - 1) < mx"
  shows "mx \<le> 2 ^ headroom_loop n mx g" "headroom_loop n mx g \<le> g + n"
    "headroom_loop n mx g = 0 \<or> 2 ^ (headroom_loop n mx g - 1) < mx"
  using assms
proof (induction n arbitrary: g)
  case (Suc n)
  {
    case 1
    then show ?case using Suc.IH(1) [of "Suc g"] by simp
  next
    case 2
    then show ?case using Suc.IH(2) [of "Suc g"] by simp
  next
    case 3
    then show ?case using Suc.IH(3) [of "Suc g"] by simp
  }
qed auto

text \<open>The gain exponent is the least that brings the coefficients into \<open>[-1, 1]\<close>.\<close>

lemma headroom_exp:
  assumes "mx < 128"
  shows "mx \<le> 2 ^ adc_dsp_headroom_exp mx" "adc_dsp_headroom_exp mx \<le> 7"
  using headroom_loop [of mx 0 7] assms by (simp_all add: adc_dsp_headroom_exp_def)

lemma abs_fold_bound:
  "f32_abs_fold vs (Fin x) = Fin y \<Longrightarrow> x \<le> y \<and> (\<forall>v \<in> set vs. \<forall>a. v = Fin a \<longrightarrow> \<bar>a\<bar> \<le> y) \<and> (\<forall>v \<in> set vs. \<forall>b. v \<noteq> Inf b)"
proof (induction vs arbitrary: x)
  case (Cons v vs)
  have inf: "f32_abs_fold ws (Inf b) = Inf b" for ws b by (induction ws) (auto split: f32.splits)
  show ?case
  proof (cases v)
    case (Fin a)
    then have "f32_abs_fold vs (Fin (if \<bar>a\<bar> > x then \<bar>a\<bar> else x)) = Fin y" using Cons.prems by simp
    from Cons.IH [OF this] show ?thesis using Fin by (auto split: if_splits)
  qed (use Cons inf in auto)
qed simp

lemma max_abs_bound:
  assumes "adc_dsp_f32_max_abs vs = Some mx"
  shows "mx < 128" "v \<in> set vs \<Longrightarrow> v = Fin a \<Longrightarrow> \<bar>a\<bar> \<le> mx" "v \<in> set vs \<Longrightarrow> v \<noteq> Inf b"
  using assms abs_fold_bound [of vs 0] by (auto simp: adc_dsp_f32_max_abs_def split: f32.splits if_splits)

lemma q15_trunc_error: "\<bar>of_int (q15_trunc x) - x\<bar> < 1" "\<bar>x\<bar> < 32768 \<Longrightarrow> \<bar>q15_trunc x\<bar> < 32768"
  unfolding q15_trunc_def by (auto simp: abs_less_iff) linarith+

text \<open>Quantising a coefficient within range loses less than two units of the sixteen-bit fraction.\<close>

lemma q15_accuracy:
  assumes "\<bar>a\<bar> \<le> 2 ^ g" "adc_dsp_f32_to_q15 (Fin a) g = Some q"
  shows "\<bar>of_int (sint q) * 2 ^ g / 32768 - a\<bar> \<le> 2 * 2 ^ g / 32768"
proof -
  define f where "f = a / 2 ^ g"
  have f: "\<bar>f\<bar> \<le> 1" using assms(1) by (simp add: f_def divide_le_eq)
  have q: "q = (if f \<ge> 1 then 32766 else if f \<le> -1 then 0x8000 else word_of_int (q15_trunc (f * 32768)))"
    using assms(2) unfolding adc_dsp_f32_to_q15.simps Let_def f_def [symmetric] by (rule option.inject [THEN iffD1, symmetric])
  have "\<bar>of_int (sint q) - f * 32768\<bar> \<le> 2"
  proof (cases "f \<ge> 1 \<or> f \<le> -1")
    case True
    then have "f = 1 \<and> q = 32766 \<or> f = -1 \<and> q = 0x8000" using f q by auto
    then show ?thesis by auto
  next
    case False
    then have z: "\<bar>f * 32768\<bar> < 32768" by (simp add: abs_less_iff)
    have "sint q = q15_trunc (f * 32768)"
      using q False q15_trunc_error(2) [OF z] by (simp add: signed_of_int signed_take_bit_int_eq_self abs_less_iff)
    then show ?thesis using q15_trunc_error(1) [of "f * 32768"] by (simp only:)
  qed
  then have "\<bar>of_int (sint q) - f * 32768\<bar> * 2 ^ g / 32768 \<le> 2 * 2 ^ g / 32768" by (intro divide_right_mono mult_right_mono) auto
  moreover have "of_int (sint q) * 2 ^ g / 32768 - a = (of_int (sint q) - f * 32768) * 2 ^ g / 32768"
    by (simp add: f_def field_simps)
  moreover have "\<bar>(of_int (sint q) - f * 32768) * 2 ^ g / 32768\<bar> = \<bar>of_int (sint q) - f * 32768\<bar> * 2 ^ g / 32768"
    by (simp add: abs_mult)
  ultimately show ?thesis by (simp only:)
qed

lemma q15_all_nth:
  "q15_all g vs = Some qs \<Longrightarrow> length qs = length vs \<and> (\<forall>i < length vs. adc_dsp_f32_to_q15 (vs ! i) g = Some (qs ! i))"
  by (induction vs arbitrary: qs) (auto split: bind_splits simp: nth_Cons split: nat.splits)

lemma quantise_length: "quantise fmt ws = Some (Some (g, qs)) \<Longrightarrow> length qs = length ws \<and> g \<le> 7"
  using headroom_exp(2) max_abs_bound(1)
  by (auto simp: quantise_def split: if_splits option.splits bind_splits dest: q15_all_nth)

text \<open>The three regions of the FAC memory follow one another without wrapping their eight-bit addresses,
  and the coefficient counts are the ones announced.\<close>

definition fac_layout :: "fac_setup \<Rightarrow> bool" where
  "fac_layout c \<longleftrightarrow> coeff_addr c = 0 \<and> unat (input_addr c) = unat (coeff_size c) \<and>
     unat (output_addr c) = unat (input_addr c) + unat (input_size c) \<and> unat (output_addr c) + unat (output_size c) \<le> 192 \<and>
     length (coeffb c) = unat (ipp c) \<and> length (coeffa c) = unat (ipq c) \<and>
     unat (coeff_size c) = length (coeffb c) + length (coeffa c) \<and> x0_zeros c \<le> BRIDGE_DSP_MAX_FIR_TAPS \<and> ipr c \<le> 7"

lemma coeff_words_length: "coeff_words d off n = Some ws \<Longrightarrow> length ws = n"
  by (induction n arbitrary: off ws) (auto split: bind_splits)

lemma preload_bound: "adc_dsp_fac_preload loads z = Some z' \<Longrightarrow> z' \<le> 64"
  by (auto simp: adc_dsp_fac_preload_def Let_def not_less split: if_splits)

lemma fir_layout: "fac_config_fir loads st = Some (Some c) \<Longrightarrow> fac_layout c"
proof -
  assume "fac_config_fir loads st = Some (Some c)"
  then obtain nt fmt ws p z where n: "nt \<le> 64" "coeff_words (data st) 4 (unat nt) = Some ws" "quantise fmt ws = Some (Some p)"
      "adc_dsp_fac_preload loads (nt - 1) = Some z"
    and c: "c = \<lparr>coeff_addr = 0, coeff_size = nt, input_addr = nt, input_size = nt + 32, output_addr = 2 * nt + 32, output_size = 32,
      coeffb = snd p, coeffa = [], x0_zeros = z, ipp = nt, ipq = 0, ipr = fst p\<rparr>"
    unfolding fac_config_fir_def by (auto simp: not_less split: bind_splits if_splits)
  have "length (snd p) = unat nt" "fst p \<le> 7" using coeff_words_length [OF n(2)] quantise_length [of fmt ws "fst p" "snd p"] n(3) by auto
  moreover have "unat nt \<le> 64" using n(1) by (simp add: word_le_nat_alt)
  ultimately show ?thesis using preload_bound [OF n(4)] by (simp add: c fac_layout_def unat_word_ariths)
qed

lemma iir_layout: "fac_config_iir loads st = Some (Some c) \<Longrightarrow> fac_layout c"
proof -
  assume "fac_config_iir loads st = Some (Some c)"
  then obtain fmt ws p z where n: "coeff_words (data st) 4 5 = Some ws" "quantise fmt ws = Some (Some p)"
      "adc_dsp_fac_preload loads 2 = Some z"
    and c: "c = \<lparr>coeff_addr = 0, coeff_size = 5, input_addr = 5, input_size = 35, output_addr = 40, output_size = 32,
      coeffb = take 3 (snd p), coeffa = map adc_dsp_neg_q15 (drop 3 (snd p)), x0_zeros = z, ipp = 3, ipq = 2, ipr = fst p\<rparr>"
    unfolding fac_config_iir_def by (auto split: bind_splits if_splits)
  have "length (snd p) = 5" "fst p \<le> 7" using coeff_words_length [OF n(1)] quantise_length [of fmt ws "fst p" "snd p"] n(2) by auto
  then show ?thesis using preload_bound [OF n(3)] by (simp add: c fac_layout_def)
qed

lemma fac_config_layout: "adc_dsp_fac_config loads chain = Some (Some c) \<Longrightarrow> fac_layout c"
  by (auto simp: adc_dsp_fac_config_def split: bind_splits if_splits option.splits dest: fir_layout iir_layout)

text \<open>A NaN coefficient passes the range check, which it loses every comparison of, and reaches the
  conversion to an integer, which C leaves undefined.\<close>

lemma nan_coefficient_undefined: "quantise 0 [0x7FC00000] = None"
proof -
  have "f32_of 0x7FC00000 = NaN" by (simp add: f32_of_def Let_def)
  then show ?thesis by (simp add: quantise_def adc_dsp_f32_max_abs_def)
qed

section \<open>Properties\<close>

text \<open>The bias of the filter path is exact.  For every resolution a stream can have, centring a code and
  shifting it up to Q15 neither overflows nor loses a bit: the signed value is the scaled difference to
  mid-scale, within a quarter of the range on either side, and undoing it gives the code back.  Whatever the
  filter returns, the code stored is within full scale.\<close>

theorem fac_sample_roundtrip:
  assumes "code \<le> adc_full_scale_for_bits bits"
  shows "let fs = adc_full_scale_for_bits bits
    in sint (to_q15 fs code) = (uint code - (uint fs + 1) div 2) * 2 ^ adc_dsp_bias_shift fs \<and>
       - 16384 \<le> sint (to_q15 fs code) \<and> sint (to_q15 fs code) < 16384 \<and> from_q15 fs (to_q15 fs code) = code \<and>
       (\<forall>y. from_q15 fs y \<le> fs)"
  using sint_to_q15 [OF full_scale_stream_scale assms] biased_range [OF full_scale_stream_scale assms]
    from_q15_identity [OF full_scale_stream_scale assms] from_q15_range
  by (simp add: Let_def mid_of_def)

theorem fac_sample_roundtrip_witness:
  "(700 :: u16) \<le> adc_full_scale_for_bits 10 \<and> from_q15 1023 (to_q15 1023 700) = 700"
  using fac_sample_roundtrip [of 700 10] by (simp add: adc_full_scale_for_bits_def Let_def)



end
