(* ===== verification/Dsp_Machine.thy ===== *)
theory Dsp_Machine
  imports Dsp_Pump
begin

text \<open>
  The analog subsystem as it runs: transport handlers and DMA interrupts between any two steps of the
  base-level pump.  A handler runs to completion; the pump moves from one section to the next.  The
  invariant says which chains are bound where, who owns the FAC and the FFT, and that a token the pump
  holds was taken in the session it would publish to.
\<close>

section \<open>Steps\<close>

text \<open>What a handler or interrupt does to the subsystem and to the session counters.\<close>

inductive handler :: "analog \<Rightarrow> (nat \<Rightarrow> nat) \<Rightarrow> analog \<Rightarrow> (nat \<Rightarrow> nat) \<Rightarrow> bool" where
  stream_begin: "adc_stream_begin env sid ch rate a = Some (rc, a', tr) \<Longrightarrow>
    handler a g a' (if rc = BRIDGE_HW_OK then g(unat sid := Suc (g (unat sid))) else g)"
| stream_read: "adc_stream_read env sid m a = (rc, mvs, a', tr) \<Longrightarrow> handler a g a' g"
| stream_end: "adc_stream_end env sid a = (rc, a', tr) \<Longrightarrow> handler a g a' g"
| chain_open: "adc_dsp_chain_open (pool a) = (rc, cid, p) \<Longrightarrow> handler a g (a\<lparr>pool := p\<rparr>) g"
| stage_push: "adc_dsp_stage_push cid idx k off tot chunk (pool a) = Some (rc, p) \<Longrightarrow> handler a g (a\<lparr>pool := p\<rparr>) g"
| chain_bind: "adc_dsp_chain_bind cid sid (pool a) (slots a) = Some (rc, p, ss) \<Longrightarrow> handler a g (a\<lparr>pool := p, slots := ss\<rparr>) g"
| dma_irq: "sid < BRIDGE_ADC_STREAM_COUNT \<Longrightarrow> handler a g (put_slot sid (fst (dma_channel_irq ftf err sid (slots a ! sid))) a) g"
| dma_sample: "sid < BRIDGE_ADC_STREAM_COUNT \<Longrightarrow> handler a g (put_slot sid ((slots a ! sid)\<lparr>ring := r\<rparr>) a) g"
| converter: "handler a g (a\<lparr>conv := c\<rparr>) g"

text \<open>One step of the platform; \<open>f\<close> is the FAC, \<open>mag\<close> and \<open>fft\<close> the transform.\<close>

inductive pump_step ::
  "'q fac \<Rightarrow> ('f \<Rightarrow> 'f \<Rightarrow> 'f) \<Rightarrow> (u16 list \<Rightarrow> 'f list) \<Rightarrow>
    ('q, 'f) platform \<Rightarrow> ('q, 'f) platform \<Rightarrow> bool" for f mag fft where
  enter: "pc x = Idle \<Longrightarrow> sid < BRIDGE_ADC_STREAM_COUNT \<Longrightarrow> pump_step f mag fft x (dsp_pump_enter sid x)"
| fac_config: "pc x = Fac_Config sid \<Longrightarrow> fac_config loads sid x = Some y \<Longrightarrow> pump_step f mag fft x y"
| fac_verdict: "pc x = Fac_Verdict sid ok \<Longrightarrow> pump_step f mag fft x (fac_verdict sid ok x)"
| fac_bad: "pc x = Fac_Bad sid \<Longrightarrow> pump_step f mag fft x (fac_bad sid x)"
| fac_seed: "pc x = Fac_Seed sid \<Longrightarrow> pump_step f mag fft x (fac_seed cnt sid x)"
| fac_seed_set: "pc x = Fac_Seed_Set sid live \<Longrightarrow> pump_step f mag fft x (fac_seed_set sid live x)"
| fac_total: "pc x = Fac_Total sid \<Longrightarrow> pump_step f mag fft x (fac_total cnt sid x)"
| fac_gap: "pc x = Fac_Gap sid tot \<Longrightarrow> pump_step f mag fft x (fac_gap sid tot x)"
| fac_lease: "pc x = Fac_Lease sid avail \<Longrightarrow> pump_step f mag fft x (fac_lease sid avail x)"
| fac_work: "pc x = Fac_Work sid avail \<Longrightarrow> pump_step f mag fft x (fac_work f sid avail x)"
| fac_commit: "pc x = Fac_Commit sid avail used raw out sat stalled \<Longrightarrow>
    pump_step f mag fft x (fac_commit sid avail used raw out sat stalled x)"
| fft_config: "pc x = Fft_Config sid \<Longrightarrow> fft_config sid x = Some y \<Longrightarrow> pump_step f mag fft x y"
| fft_verdict: "pc x = Fft_Verdict sid ok \<Longrightarrow> pump_step f mag fft x (fft_verdict sid ok x)"
| fft_total: "pc x = Fft_Total sid \<Longrightarrow> pump_step f mag fft x (fft_total cnt sid x)"
| fft_gap: "pc x = Fft_Gap sid tot \<Longrightarrow> pump_step f mag fft x (fft_gap sid tot x)"
| fft_sample: "pc x = Fft_Sample sid avail \<Longrightarrow> pump_step f mag fft x (fft_sample sid avail x)"
| fft_store: "pc x = Fft_Store sid avail code \<Longrightarrow> pump_step f mag fft x (fft_store sid avail code x)"
| fft_calc: "pc x = Fft_Calc sid avail \<Longrightarrow> pump_step f mag fft x (fft_calc ccf sid avail x)"
| fft_done: "pc x = Fft_Done sid avail finished \<Longrightarrow> pump_step f mag fft x (fft_done sid avail finished x)"
| fft_scribble: "pc x = Fft_Prepare sid avail \<Longrightarrow> length torn = length (fft_bins x) \<Longrightarrow> pump_step f mag fft x (fft_scribble torn x)"
| fft_prepare: "pc x = Fft_Prepare sid avail \<Longrightarrow> pump_step f mag fft x (fft_prepare mag fft sid avail x)"
| fft_publish: "pc x = Fft_Publish sid avail \<Longrightarrow> pump_step f mag fft x (fft_publish sid avail x)"
| handled: "handler (an x) (sess x) a g \<Longrightarrow> pump_step f mag fft x (x\<lparr>an := a, sess := g\<rparr>)"

text \<open>The platform at boot: no stream, no chain, both blocks free.\<close>

definition boot_platform :: "('q, 'f) platform \<Rightarrow> bool" where
  "boot_platform x \<longleftrightarrow> slots (an x) = replicate BRIDGE_ADC_STREAM_COUNT idle_stream \<and> pool (an x) = idle_pool \<and>
     fac_owner (an x) = ADC_DSP_OWNER_NONE \<and> fft_owner (an x) = ADC_DSP_OWNER_NONE \<and> pc x = Idle \<and>
     fft_points (an x) = 0 \<and> length (fft_real x) = 1024 \<and> length (fft_bins x) = 2048"

inductive pump_reachable for f mag fft where
  boot: "boot_platform x \<Longrightarrow> pump_reachable f mag fft x"
| step: "pump_reachable f mag fft x \<Longrightarrow> pump_step f mag fft x y \<Longrightarrow> pump_reachable f mag fft y"

section \<open>Handlers\<close>

definition live :: "bool \<Rightarrow> adc_stream_state \<Rightarrow> bool" where
  "live k s \<longleftrightarrow> in_use s \<and> dsp_bound s \<and> (dsp_terminal s = KIND_FFT) = k"

definition owner_of :: "bool \<Rightarrow> analog \<Rightarrow> int" where
  "owner_of k a = (if k then fft_owner a else fac_owner a)"

text \<open>The fields a binding rests on.\<close>

definition same_binding :: "adc_stream_state \<Rightarrow> adc_stream_state \<Rightarrow> bool" where
  "same_binding s t \<longleftrightarrow> in_use s = in_use t \<and> dsp_bound s = dsp_bound t \<and> dsp_chain_id s = dsp_chain_id t \<and> dsp_terminal s = dsp_terminal t"

lemma same_binding_refl [simp]: "same_binding s s"
  by (simp add: same_binding_def)

lemma dsp_inv_same_binding:
  assumes "dsp_inv p streams" "length streams' = 2" "\<And>i. i < 2 \<Longrightarrow> same_binding (streams ! i) (streams' ! i)"
  shows "dsp_inv p streams'"
proof (rule dsp_invI)
  note d = dsp_invD [OF assms(1)]
  have e: "in_use (streams' ! i) = in_use (streams ! i)" "dsp_bound (streams' ! i) = dsp_bound (streams ! i)"
    "dsp_chain_id (streams' ! i) = dsp_chain_id (streams ! i)" "dsp_terminal (streams' ! i) = dsp_terminal (streams ! i)" if "i < 2" for i
    using assms(3) [OF that] by (simp_all add: same_binding_def)
  show "pool_ok p" "length streams' = 2" using d(1) assms(2) by auto
  show "bound_to p (streams' ! i)" if "i < 2" "dsp_bound (streams' ! i)" for i
    using d(4) [OF that(1)] that(2) e [OF that(1)] by (simp add: bound_to_def)
  show "dsp_chain_id (streams' ! i) \<noteq> dsp_chain_id (streams' ! j) \<and>
      (dsp_terminal (streams' ! i) = KIND_FFT) \<noteq> (dsp_terminal (streams' ! j) = KIND_FFT)"
    if "i < 2" "j < 2" "i \<noteq> j" "dsp_bound (streams' ! i)" "dsp_bound (streams' ! j)" for i j
    using d(5,6) [OF that(1-3)] that(4,5) e [OF that(1)] e [OF that(2)] by simp
  show "\<exists>i < 2. holds (streams' ! i) cid" if "cid < 4" "chain_bound (p ! cid)" for cid
    using d(7) [OF that] e by (auto simp: holds_def)
qed

lemma dsp_inv_put_slot:
  assumes "dsp_inv (pool a) (slots a)" "same_binding (slots a ! sid) s"
  shows "dsp_inv (pool (put_slot sid s a)) (slots (put_slot sid s a))"
proof -
  have l: "length (slots a) = 2" by (rule dsp_invD(2) [OF assms(1)])
  have "same_binding (slots a ! i) ((slots a)[sid := s] ! i)" if "i < 2" for i
    using assms(2) that l by (cases "i = sid") auto
  then show ?thesis
    using dsp_inv_same_binding [OF assms(1), of "(slots a)[sid := s]"] l by (simp add: put_slot_def)
qed

text \<open>What a handler leaves of the bindings: a stream that was live for a block stays live in the same
  session and keeps the block's owner, or the owner is released.\<close>

definition keeps_tokens :: "analog \<Rightarrow> (nat \<Rightarrow> nat) \<Rightarrow> analog \<Rightarrow> (nat \<Rightarrow> nat) \<Rightarrow> bool" where
  "keeps_tokens a g a' g' \<longleftrightarrow> (\<forall>k. (owner_of k a' = owner_of k a \<or> owner_of k a' = ADC_DSP_OWNER_NONE) \<and>
     (\<forall>sid < 2. live k (slots a ! sid) \<and> (owner_of k a' = int sid \<or> owner_of k a' = adc_dsp_owner_transitional sid) \<longrightarrow>
        live k (slots a' ! sid) \<and> g' sid = g sid)) \<and>
     (fft_points a' = fft_points a \<and> fft_outfmt a' = fft_outfmt a) \<and>
     (fft_fill a' = fft_fill a \<and> fft_seq a' = fft_seq a \<and> fft_nbins a' = fft_nbins a \<or> fft_owner a' = ADC_DSP_OWNER_NONE)"

definition same_session :: "analog \<Rightarrow> analog \<Rightarrow> bool" where
  "same_session a a' \<longleftrightarrow> fac_owner a' = fac_owner a \<and> fft_owner a' = fft_owner a \<and> fft_points a' = fft_points a \<and>
     fft_outfmt a' = fft_outfmt a \<and> fft_fill a' = fft_fill a \<and> fft_seq a' = fft_seq a \<and> fft_nbins a' = fft_nbins a"

lemma keeps_tokens_slots:
  assumes "same_session a a'" "\<And>sid k. sid < 2 \<Longrightarrow> live k (slots a ! sid) \<Longrightarrow> live k (slots a' ! sid) \<and> g' sid = g sid"
  shows "keeps_tokens a g a' g'"
  using assms by (auto simp: keeps_tokens_def same_session_def owner_of_def)

lemma live_same_binding: "same_binding s t \<Longrightarrow> live k s = live k t"
  by (auto simp: same_binding_def live_def)

lemma keeps_tokens_put_slot:
  assumes "length (slots a) = 2" "same_binding (slots a ! sid) s"
  shows "keeps_tokens a g (put_slot sid s a) g"
proof (rule keeps_tokens_slots)
  show "same_session a (put_slot sid s a)" by (simp add: same_session_def put_slot_def)
  show "live k (slots (put_slot sid s a) ! i) \<and> g i = g i" if "i < 2" "live k (slots a ! i)" for i k
    using assms that live_same_binding [OF assms(2)] by (cases "i = sid") (auto simp: put_slot_def)
qed

lemma raw_emit_binding: "same_binding s (snd (emit_raw v n s))"
  by (induction n arbitrary: s) (auto simp: Let_def split_beta same_binding_def)

lemma read_binding:
  "same_binding s (snd (snd (read_raw c1 c2 m v s)))" "same_binding s (snd (snd (read_processed m v s)))"
proof -
  have e: "same_binding s t \<Longrightarrow> same_binding s (snd (emit_raw v n t))" for n t
    using raw_emit_binding [of t v n] by (auto simp: same_binding_def)
  show "same_binding s (snd (snd (read_raw c1 c2 m v s)))"
    using e by (auto simp: read_raw_def Let_def split_beta same_binding_def)
  show "same_binding s (snd (snd (read_processed m v s)))"
    by (auto simp: read_processed_def Let_def split_beta same_binding_def proc_emit_frame)
qed

lemma stream_read_put:
  assumes "adc_stream_read env sid m a = (rc, mvs, a', tr)"
  shows "a' = a \<or> (\<exists>s. same_binding (slots a ! unat sid) s \<and> a' = put_slot (unat sid) s a)"
proof -
  let ?s = "fst (adc_stream_latch_dma_error (dma_err env) (unat sid) (slots a ! unat sid))"
  have l: "same_binding (slots a ! unat sid) ?s" by (simp add: adc_stream_latch_dma_error_def same_binding_def)
  have tr: "same_binding (slots a ! unat sid) t" if "same_binding ?s t" for t
    using l that by (simp add: same_binding_def)
  define t where "t = (if dma_error_count ?s \<noteq> 0 then ?s
    else if rovf_set env then resync_rovf (adc_stream_write_index (cnt_first env)) ?s
    else snd (snd (if dsp_bound ?s then read_processed m (adc_vref_mv (conv a)) ?s
                   else read_raw (cnt_first env) (cnt_second env) m (adc_vref_mv (conv a)) ?s)))"
  have r: "same_binding ?s (resync_rovf w ?s)" for w by (simp add: resync_rovf_def same_binding_def Let_def)
  have b: "same_binding (slots a ! unat sid) t"
    unfolding t_def using l tr [OF r] tr [OF read_binding(1)] tr [OF read_binding(2)] by simp
  show ?thesis
  proof (cases "unat sid < 2 \<and> in_use (slots a ! unat sid)")
    case True
    then have "a' = put_slot (unat sid) t a"
      using assms by (auto simp: adc_stream_read_def Let_def split_beta put_slot_def t_def)
    then show ?thesis using b by blast
  next
    case False
    then show ?thesis using assms by (cases "unat sid < 2") (simp_all add: adc_stream_read_def)
  qed
qed

lemma stream_begin_effect:
  assumes "adc_stream_begin env sid ch rate a = Some (rc, a', tr)"
  shows "same_session a a' \<and> pool a' = pool a"
    "rc \<noteq> BRIDGE_HW_OK \<Longrightarrow> slots a' = slots a"
  using assms
  by (auto simp: adc_stream_begin_def stream_begin_owned_def same_session_def Let_def split_beta split: if_splits bind_splits)

lemma stream_end_effect:
  assumes "adc_stream_end env sid a = (rc, a', tr)"
  obtains "a' = a"
  | s where "unat sid < 2" "slots a' = (slots a)[unat sid := s]" "\<not> in_use s" "\<not> dsp_bound s" "dsp_bound (slots a ! unat sid)"
      "pool a' = adc_dsp_chain_release (dsp_chain_id (slots a ! unat sid)) (pool a)"
      "fac_owner a' = snd (adc_dsp_owner_release (fac_owner a) (unat sid))"
      "fft_owner a' = snd (adc_dsp_owner_release (fft_owner a) (unat sid))"
      "fft_points a' = fft_points a" "fft_outfmt a' = fft_outfmt a"
      "fft_owner a' = ADC_DSP_OWNER_NONE \<or> fft_fill a' = fft_fill a \<and> fft_seq a' = fft_seq a \<and> fft_nbins a' = fft_nbins a"
  | s where "unat sid < 2" "slots a' = (slots a)[unat sid := s]" "\<not> in_use s" "\<not> dsp_bound s" "\<not> dsp_bound (slots a ! unat sid)"
      "pool a' = pool a" "same_session a a'"
proof (cases "unat sid < 2 \<and> in_use (slots a ! unat sid) \<and> dma_stops env")
  case False
  then show thesis
    using assms that(1)
    by (cases "unat sid < 2"; cases "in_use (slots a ! unat sid)") (simp_all add: adc_stream_end_def Let_def adc_stream_dma_disable_confirm_def)
next
  case True
  let ?s = "(slots a ! unat sid)\<lparr>in_use := False, dsp_bound := False, dsp_cfg_bad := False, dsp_sat := False\<rparr>"
  show thesis
  proof (cases "dsp_bound (slots a ! unat sid)")
    case b: True
    show thesis
      by (rule that(2) [of ?s])
        (use True b assms in \<open>auto simp: adc_stream_end_def adc_stream_dma_disable_confirm_def adc_dsp_fac_release_def
          adc_dsp_fft_release_def adc_dsp_owner_release_def adc_dsp_fft_session_reset_def Let_def split_beta split: if_splits\<close>)
  next
    case False
    show thesis
      by (rule that(3) [of ?s])
        (use True False assms in \<open>auto simp: adc_stream_end_def adc_stream_dma_disable_confirm_def same_session_def Let_def split_beta\<close>)
  qed
qed

lemma live_not_started: "\<not> in_use s \<or> \<not> dsp_bound s \<Longrightarrow> \<not> live k s"
  by (auto simp: live_def)

lemma handler_begin:
  assumes "dsp_inv (pool a) (slots a)" "adc_stream_begin env sid ch rate a = Some (rc, a', tr)"
  shows "dsp_inv (pool a') (slots a') \<and>
    keeps_tokens a g a' (if rc = BRIDGE_HW_OK then g(unat sid := Suc (g (unat sid))) else g)"
proof (cases "rc = BRIDGE_HW_OK")
  case True
  note b = stream_begin_ok [OF assms(2) [unfolded True]] and e = stream_begin_effect [OF assms(2)]
  obtain fs where s: "slots a' = (slots a)[unat sid := started_stream ch fs (slots a ! unat sid)]" using b(6) by blast
  have nb: "\<not> dsp_bound (slots a ! unat sid)" using dsp_invD(4) [OF assms(1) b(1)] b(5) by (auto simp: bound_to_def)
  have "dsp_inv (pool a') (slots a')"
    using dsp_inv_detach [OF assms(1) b(1), of "started_stream ch fs (slots a ! unat sid)"] nb e(1) s by (simp add: started_stream_def)
  moreover have "keeps_tokens a g a' (g(unat sid := Suc (g (unat sid))))"
  proof (rule keeps_tokens_slots)
    show "same_session a a'" using e(1) by simp
    show "live k (slots a' ! i) \<and> (g(unat sid := Suc (g (unat sid)))) i = g i" if "i < 2" "live k (slots a ! i)" for i k
      using that s b(5) by (cases "i = unat sid") (auto simp: live_def)
  qed
  ultimately show ?thesis using True by simp
next
  case False
  then show ?thesis
    using stream_begin_effect [OF assms(2)] assms(1) by (auto intro: keeps_tokens_slots)
qed

lemma owner_release:
  "snd (adc_dsp_owner_release ow n) = ow \<or> snd (adc_dsp_owner_release ow n) = ADC_DSP_OWNER_NONE"
  "snd (adc_dsp_owner_release ow n) \<noteq> int n" "snd (adc_dsp_owner_release ow n) \<noteq> adc_dsp_owner_transitional n"
  by (auto simp: adc_dsp_owner_release_def adc_dsp_owner_transitional_def Let_def)

lemma handler_end:
  assumes "dsp_inv (pool a) (slots a)" "adc_stream_end env sid a = (rc, a', tr)"
  shows "dsp_inv (pool a') (slots a') \<and> keeps_tokens a g a' g"
proof (rule stream_end_effect [OF assms(2)])
  assume "a' = a"
  then show ?thesis using assms(1) by (auto intro: keeps_tokens_slots simp: same_session_def)
next
  fix s assume s: "unat sid < 2" "slots a' = (slots a)[unat sid := s]" "\<not> in_use s" "\<not> dsp_bound s" "dsp_bound (slots a ! unat sid)"
      "pool a' = adc_dsp_chain_release (dsp_chain_id (slots a ! unat sid)) (pool a)"
      "fac_owner a' = snd (adc_dsp_owner_release (fac_owner a) (unat sid))"
      "fft_owner a' = snd (adc_dsp_owner_release (fft_owner a) (unat sid))"
      "fft_points a' = fft_points a" "fft_outfmt a' = fft_outfmt a"
      "fft_owner a' = ADC_DSP_OWNER_NONE \<or> fft_fill a' = fft_fill a \<and> fft_seq a' = fft_seq a \<and> fft_nbins a' = fft_nbins a"
  have "dsp_inv (pool a') (slots a')" using dsp_inv_detach [OF assms(1) s(1,4)] s(2,5,6) by simp
  moreover have "keeps_tokens a g a' g"
  proof -
    note r = owner_release(1) and n = owner_release(2,3)
    have o: "owner_of k a' = snd (adc_dsp_owner_release (owner_of k a) (unat sid))" for k
      using s(7,8) by (simp add: owner_of_def)
    have l: "live k (slots a' ! i)" if "i \<noteq> unat sid" "live k (slots a ! i)" for k i
      using that s(2) by simp
    show ?thesis unfolding keeps_tokens_def o using r n l s(9-11) by metis
  qed
  ultimately show ?thesis ..
next
  fix s assume s: "unat sid < 2" "slots a' = (slots a)[unat sid := s]" "\<not> in_use s" "\<not> dsp_bound s" "\<not> dsp_bound (slots a ! unat sid)"
      "pool a' = pool a" "same_session a a'"
  have "live k (slots a' ! i)" if "live k (slots a ! i)" for k i
    using that s(2,5) by (cases "i = unat sid") (auto simp: live_def)
  then have "keeps_tokens a g a' g" using keeps_tokens_slots [OF s(7)] by blast
  then show ?thesis using dsp_inv_detach [OF assms(1) s(1,4)] s(2,5,6) by simp
qed

lemma handler_bind:
  assumes "dsp_inv (pool a) (slots a)" "adc_dsp_chain_bind cid sid (pool a) (slots a) = Some (rc, p, ss)"
  shows "dsp_inv p ss \<and> keeps_tokens a g (a\<lparr>pool := p, slots := ss\<rparr>) g"
proof
  show "dsp_inv p ss" by (rule dsp_inv_bind [OF assms])
  have "live k (ss ! i)" if "i < 2" "live k (slots a ! i)" for k i
    using assms(2)
  proof (cases rule: bind_cases)
    case (bound j)
    then show ?thesis using that by (cases "i = unat sid") (auto simp: live_def)
  qed (use that in auto)
  then show "keeps_tokens a g (a\<lparr>pool := p, slots := ss\<rparr>) g"
    by (intro keeps_tokens_slots) (auto simp: same_session_def)
qed

lemma handler_effect:
  assumes "handler a g a' g'" "dsp_inv (pool a) (slots a)"
  shows "dsp_inv (pool a') (slots a') \<and> keeps_tokens a g a' g'"
  using assms
proof (cases rule: handler.cases)
  case (stream_read env sid m rc mvs tr)
  then consider "a' = a" | s where "same_binding (slots a ! unat sid) s" "a' = put_slot (unat sid) s a"
    using stream_read_put by blast
  then show ?thesis
    using stream_read(1) assms(2) dsp_inv_put_slot keeps_tokens_put_slot [OF dsp_invD(2) [OF assms(2)]]
    by cases (auto intro: keeps_tokens_slots simp: same_session_def)
next
  case (chain_open rc cid p)
  then show ?thesis using dsp_inv_open(1) [OF assms(2)] by (auto intro: keeps_tokens_slots simp: same_session_def)
next
  case (stage_push cid idx k off tot chunk rc p)
  then show ?thesis using dsp_inv_push [OF assms(2)] by (auto intro: keeps_tokens_slots simp: same_session_def)
next
  case (dma_irq sid ftf err)
  have "same_binding (slots a ! sid) (fst (dma_channel_irq ftf err sid (slots a ! sid)))"
    by (simp add: dma_channel_irq_def adc_stream_latch_dma_error_def same_binding_def)
  then show ?thesis
    using dma_irq dsp_inv_put_slot [OF assms(2)] keeps_tokens_put_slot [OF dsp_invD(2) [OF assms(2)]] by simp
next
  case (dma_sample sid r)
  have "same_binding (slots a ! sid) ((slots a ! sid)\<lparr>ring := r\<rparr>)" by (simp add: same_binding_def)
  then show ?thesis
    using dma_sample dsp_inv_put_slot [OF assms(2)] keeps_tokens_put_slot [OF dsp_invD(2) [OF assms(2)]] by simp
next
  case (converter c)
  then show ?thesis using assms(2) by (auto intro: keeps_tokens_slots simp: same_session_def)
next
  case (stream_begin env sid ch rate rc tr)
  show ?thesis unfolding stream_begin(1) by (rule handler_begin [OF assms(2) stream_begin(2)])
next
  case (stream_end env sid rc tr)
  show ?thesis unfolding stream_end(1) by (rule handler_end [OF assms(2) stream_end(2)])
next
  case (chain_bind cid sid rc p ss)
  show ?thesis using handler_bind [OF assms(2) chain_bind(3)] unfolding chain_bind(1,2) by simp
qed

section \<open>Tokens\<close>

text \<open>The block and stream a pump state works for, and whether it holds the block's token.\<close>

fun pc_stream :: "pump_pc \<Rightarrow> (bool \<times> nat) option" where
  "pc_stream Idle = None"
| "pc_stream (Fac_Config sid) = Some (False, sid)" | "pc_stream (Fac_Verdict sid _) = Some (False, sid)"
| "pc_stream (Fac_Bad sid) = Some (False, sid)" | "pc_stream (Fac_Seed sid) = Some (False, sid)"
| "pc_stream (Fac_Seed_Set sid _) = Some (False, sid)" | "pc_stream (Fac_Total sid) = Some (False, sid)"
| "pc_stream (Fac_Gap sid _) = Some (False, sid)" | "pc_stream (Fac_Lease sid _) = Some (False, sid)"
| "pc_stream (Fac_Work sid _) = Some (False, sid)" | "pc_stream (Fac_Commit sid _ _ _ _ _ _) = Some (False, sid)"
| "pc_stream (Fft_Config sid) = Some (True, sid)" | "pc_stream (Fft_Verdict sid _) = Some (True, sid)"
| "pc_stream (Fft_Total sid) = Some (True, sid)" | "pc_stream (Fft_Gap sid _) = Some (True, sid)"
| "pc_stream (Fft_Sample sid _) = Some (True, sid)" | "pc_stream (Fft_Store sid _ _) = Some (True, sid)"
| "pc_stream (Fft_Calc sid _) = Some (True, sid)" | "pc_stream (Fft_Done sid _ _) = Some (True, sid)"
| "pc_stream (Fft_Prepare sid _) = Some (True, sid)" | "pc_stream (Fft_Publish sid _) = Some (True, sid)"

fun pc_leased :: "pump_pc \<Rightarrow> bool" where
  "pc_leased (Fac_Config _) = True" | "pc_leased (Fac_Verdict _ _) = True"
| "pc_leased (Fac_Work _ _) = True" | "pc_leased (Fac_Commit _ _ _ _ _ _ _) = True"
| "pc_leased (Fft_Config _) = True" | "pc_leased (Fft_Verdict _ _) = True"
| "pc_leased (Fft_Prepare _ _) = True" | "pc_leased (Fft_Publish _ _) = True"
| "pc_leased _ = False"

text \<open>An owned block: its stream is live for it; a token is held by the pump, which works for that stream
  in the session it entered in; an active owner is not one the pump is working on under a token.\<close>

definition token_inv :: "bool \<Rightarrow> ('q, 'f) platform \<Rightarrow> bool" where
  "token_inv k x \<longleftrightarrow> owner_of k (an x) = ADC_DSP_OWNER_NONE \<or>
     (\<exists>sid < 2. live k (slot_of sid x) \<and> (pc_stream (pc x) = Some (k, sid) \<longrightarrow> lease x = sess x sid) \<and>
        (owner_of k (an x) = adc_dsp_owner_transitional sid \<and> pc_stream (pc x) = Some (k, sid) \<and> pc_leased (pc x) \<or>
         owner_of k (an x) = int sid \<and> \<not> (pc_leased (pc x) \<and> (\<exists>j. pc_stream (pc x) = Some (k, j)))))"

lemma live_put_slot [simp]:
  "same_binding (slots a ! sid) s \<Longrightarrow> length (slots a) = 2 \<Longrightarrow> live k (slots (put_slot sid s a) ! i) = live k (slots a ! i)"
  by (cases "sid < 2") (auto simp: put_slot_def live_same_binding nth_list_update list_update_beyond)

lemma owner_put_slot [simp]: "owner_of k (put_slot sid s a) = owner_of k a"
  by (simp add: owner_of_def put_slot_def)

lemma owner_update [simp]:
  "owner_of False (a\<lparr>fac_owner := v\<rparr>) = v" "owner_of True (a\<lparr>fac_owner := v\<rparr>) = owner_of True a"
  "owner_of True (a\<lparr>fft_owner := v\<rparr>) = v" "owner_of False (a\<lparr>fft_owner := v\<rparr>) = owner_of False a"
  "fac_owner a = owner_of False a" "fft_owner a = owner_of True a"
  by (simp_all add: owner_of_def)

lemma token_apart [simp]:
  "int i \<noteq> ADC_DSP_OWNER_NONE" "adc_dsp_owner_transitional i \<noteq> ADC_DSP_OWNER_NONE" "int i \<noteq> adc_dsp_owner_transitional j"
  "adc_dsp_owner_transitional j \<noteq> int i"
  "ADC_DSP_OWNER_NONE \<noteq> int i" "ADC_DSP_OWNER_NONE \<noteq> adc_dsp_owner_transitional i"
  "(adc_dsp_owner_transitional i = adc_dsp_owner_transitional j) = (i = j)"
  by (auto simp: adc_dsp_owner_transitional_def)

lemma live_locked [simp]: "adc_dsp_owner_live_locked ow e s k \<longleftrightarrow> ow = e \<and> live k s"
  by (auto simp: adc_dsp_owner_live_locked_def live_def)

lemma token_handled:
  assumes "token_inv k x" "keeps_tokens (an x) (sess x) a g"
  shows "token_inv k (x\<lparr>an := a, sess := g\<rparr>)"
  using assms unfolding token_inv_def keeps_tokens_def by auto metis+

lemma token_fac_enter: "token_inv k x \<Longrightarrow> pc x = Idle \<Longrightarrow> sid < 2 \<Longrightarrow> live False (slot_of sid x) \<Longrightarrow> token_inv k (fac_enter sid x)"
  by (cases k) (auto simp: token_inv_def fac_enter_def adc_dsp_owner_claim_config_def)

lemma token_fac_verdict: "token_inv k x \<Longrightarrow> pc x = Fac_Verdict sid ok \<Longrightarrow> token_inv k (fac_verdict sid ok x)"
  by (cases k) (auto simp: token_inv_def fac_verdict_def adc_dsp_owner_commit_config_def adc_dsp_owner_release_def Let_def)

lemma token_fac_lease: "token_inv k x \<Longrightarrow> pc x = Fac_Lease sid avail \<Longrightarrow> token_inv k (fac_lease sid avail x)"
  by (cases k) (auto simp: token_inv_def fac_lease_def)

lemma token_fac_commit: "token_inv k x \<Longrightarrow> length (slots (an x)) = 2 \<Longrightarrow> pc x = Fac_Commit sid avail used raw out sat stalled \<Longrightarrow>
    token_inv k (fac_commit sid avail used raw out sat stalled x)"
  by (cases k) (auto simp: token_inv_def fac_commit_def Let_def same_binding_def)

lemma with_total_frame [simp]:
  "length (slots a) = 2 \<Longrightarrow> live k (slots (snd (with_total cnt sid a)) ! i) = live k (slots a ! i)"
  "owner_of k (snd (with_total cnt sid a)) = owner_of k a"
  by (simp_all add: with_total_def split_beta Let_def same_binding_def)

lemma token_fac_steps:
  assumes "token_inv k x" "length (slots (an x)) = 2"
  shows "pc x = Fac_Config sid \<Longrightarrow> fac_config loads sid x = Some y \<Longrightarrow> token_inv k y"
    "pc x = Fac_Bad sid \<Longrightarrow> token_inv k (fac_bad sid x)"
    "pc x = Fac_Seed sid \<Longrightarrow> token_inv k (fac_seed cnt sid x)"
    "pc x = Fac_Seed_Set sid w \<Longrightarrow> token_inv k (fac_seed_set sid w x)"
    "pc x = Fac_Total sid \<Longrightarrow> token_inv k (fac_total cnt sid x)"
    "pc x = Fac_Gap sid w \<Longrightarrow> token_inv k (fac_gap sid w x)"
    "pc x = Fac_Work sid avail \<Longrightarrow> token_inv k (fac_work f sid avail x)"
  using assms
  by (auto simp: token_inv_def fac_config_def fac_bad_def fac_seed_def fac_seed_set_def fac_total_def fac_gap_def fac_work_def
    Let_def split_beta same_binding_def split: bind_splits)

lemma fft_fields [simp]:
  "owner_of k (a\<lparr>fft_fill := w\<rparr>) = owner_of k a" "owner_of k (a\<lparr>fft_seq := v\<rparr>) = owner_of k a"
  "owner_of k (a\<lparr>fft_nbins := w\<rparr>) = owner_of k a" "owner_of k (a\<lparr>fft_points := w\<rparr>) = owner_of k a"
  "owner_of k (a\<lparr>fft_outfmt := u\<rparr>) = owner_of k a" "owner_of k (adc_dsp_fft_session_reset a) = owner_of k a"
  "slots (adc_dsp_fft_session_reset a) = slots a"
  by (simp_all add: owner_of_def adc_dsp_fft_session_reset_def del: owner_update)

lemma token_fft_enter: "token_inv k x \<Longrightarrow> pc x = Idle \<Longrightarrow> sid < 2 \<Longrightarrow> live True (slot_of sid x) \<Longrightarrow> token_inv k (fft_enter sid x)"
  by (cases k) (auto simp: token_inv_def fft_enter_def adc_dsp_owner_claim_config_def)

lemma token_fft_verdict: "token_inv k x \<Longrightarrow> pc x = Fft_Verdict sid ok \<Longrightarrow> token_inv k (fft_verdict sid ok x)"
  by (cases k) (auto simp: token_inv_def fft_verdict_def adc_dsp_owner_commit_config_def adc_dsp_owner_release_def Let_def)

lemma token_fft_done: "token_inv k x \<Longrightarrow> pc x = Fft_Done sid avail finished \<Longrightarrow> token_inv k (fft_done sid avail finished x)"
  by (cases k) (auto simp: token_inv_def fft_done_def Let_def)

lemma token_fft_publish: "token_inv k x \<Longrightarrow> pc x = Fft_Publish sid avail \<Longrightarrow> token_inv k (fft_publish sid avail x)"
  by (cases k) (auto simp: token_inv_def fft_publish_def Let_def)

lemma token_fft_steps:
  assumes "token_inv k x" "length (slots (an x)) = 2"
  shows "pc x = Fft_Config sid \<Longrightarrow> fft_config sid x = Some y \<Longrightarrow> token_inv k y"
    "pc x = Fft_Total sid \<Longrightarrow> token_inv k (fft_total cnt sid x)"
    "pc x = Fft_Gap sid w \<Longrightarrow> token_inv k (fft_gap sid w x)"
    "pc x = Fft_Sample sid avail \<Longrightarrow> token_inv k (fft_sample sid avail x)"
    "pc x = Fft_Store sid avail code \<Longrightarrow> token_inv k (fft_store sid avail code x)"
    "pc x = Fft_Calc sid avail \<Longrightarrow> token_inv k (fft_calc ccf sid avail x)"
    "pc x = Fft_Prepare sid avail \<Longrightarrow> token_inv k (fft_scribble torn x)"
    "pc x = Fft_Prepare sid avail \<Longrightarrow> token_inv k (fft_prepare mag fft sid avail x)"
  using assms
  by (auto simp: token_inv_def fft_config_def fft_total_def fft_gap_def fft_sample_def fft_store_def fft_calc_def fft_scribble_def
    fft_prepare_def Let_def split_beta same_binding_def split: bind_splits option.splits)

section \<open>Frames and bins\<close>

fun frame_full :: "pump_pc \<Rightarrow> bool" where
  "frame_full (Fft_Calc _ _) = True" | "frame_full (Fft_Done _ _ _) = True"
| "frame_full (Fft_Prepare _ _) = True" | "frame_full (Fft_Publish _ _) = True"
| "frame_full _ = False"

fun configuring :: "pump_pc \<Rightarrow> bool" where
  "configuring (Fft_Config _) = True" | "configuring (Fft_Verdict _ ok) = (\<not> ok)"
| "configuring _ = False"

definition bins_hold :: "('f \<Rightarrow> 'f \<Rightarrow> 'f) \<Rightarrow> (u16 list \<Rightarrow> 'f list) \<Rightarrow> nat \<Rightarrow> ('q, 'f) platform \<Rightarrow> bool" where
  "bins_hold mag fft g x \<longleftrightarrow> (\<exists>frame. bins_from x = Some (g, frame) \<and> length frame = unat (fft_points (an x)) \<and>
     take (unat (adc_dsp_fft_nbins (fft_points (an x)) (fft_outfmt (an x)))) (fft_bins x) =
       adc_dsp_fft_prepare_bins mag (fft_points (an x)) (fft_outfmt (an x)) (fft frame))"

text \<open>The FFT session: the frame under way fits the configured size, and published bins were prepared
  whole from one frame of the owner's session.\<close>

definition fft_inv :: "('f \<Rightarrow> 'f \<Rightarrow> 'f) \<Rightarrow> (u16 list \<Rightarrow> 'f list) \<Rightarrow> ('q, 'f) platform \<Rightarrow> bool" where
  "fft_inv mag fft x \<longleftrightarrow> length (fft_real x) = 1024 \<and> length (fft_bins x) = 2048 \<and> fft_points (an x) \<le> 1024 \<and>
     (\<forall>sid. pc_stream (pc x) = Some (True, sid) \<longrightarrow>
        owner_of True (an x) \<in> {ADC_DSP_OWNER_NONE, int sid, adc_dsp_owner_transitional sid}) \<and>
     (owner_of True (an x) \<noteq> ADC_DSP_OWNER_NONE \<and> \<not> configuring (pc x) \<longrightarrow>
        32 \<le> fft_points (an x) \<and> (fft_fill (an x) < fft_points (an x) \<or> frame_full (pc x) \<and> fft_fill (an x) = fft_points (an x))) \<and>
     (\<forall>sid. owner_of True (an x) = int sid \<and> fft_seq (an x) \<noteq> 0 \<longrightarrow>
        bins_hold mag fft (sess x sid) x \<and> fft_nbins (an x) = adc_dsp_fft_nbins (fft_points (an x)) (fft_outfmt (an x))) \<and>
     (\<forall>sid avail. pc x = Fft_Publish sid avail \<and> owner_of True (an x) = adc_dsp_owner_transitional sid \<longrightarrow> bins_hold mag fft (lease x) x) \<and>
     (\<forall>sid. pc x = Fft_Verdict sid True \<and> owner_of True (an x) = adc_dsp_owner_transitional sid \<longrightarrow> fft_seq (an x) = 0)"

lemma nbins_le: "n \<le> 1024 \<Longrightarrow> unat (adc_dsp_fft_nbins n u) \<le> 2048"
  by (auto simp: adc_dsp_fft_nbins_def word_le_nat_alt unat_word_ariths unat_div)

lemma prepare_length: "length (adc_dsp_fft_prepare_bins mag n u xs) = unat (adc_dsp_fft_nbins n u)"
  by (simp add: adc_dsp_fft_prepare_bins_def)

lemma fft_config_points: "adc_dsp_fft_config chain = Some (Some (n, u, shape)) \<Longrightarrow> 32 \<le> n \<and> n \<le> 1024"
  by (auto simp: adc_dsp_fft_config_def not_less split: bind_splits if_splits option.splits)

lemma put_slot_frame [simp]:
  "fft_points (put_slot sid s a) = fft_points a" "fft_outfmt (put_slot sid s a) = fft_outfmt a" "fft_fill (put_slot sid s a) = fft_fill a"
  "fft_seq (put_slot sid s a) = fft_seq a" "fft_nbins (put_slot sid s a) = fft_nbins a"
  by (simp_all add: put_slot_def)

lemma with_total_fft [simp]:
  "fft_points (snd (with_total cnt sid a)) = fft_points a" "fft_outfmt (snd (with_total cnt sid a)) = fft_outfmt a"
  "fft_fill (snd (with_total cnt sid a)) = fft_fill a" "fft_seq (snd (with_total cnt sid a)) = fft_seq a"
  "fft_nbins (snd (with_total cnt sid a)) = fft_nbins a"
  by (simp_all add: with_total_def split_beta Let_def)

text \<open>A filter step leaves the FFT session alone.\<close>

lemma fft_fac_steps:
  assumes "fft_inv mag fft x"
  shows "pc x = Idle \<Longrightarrow> fft_inv mag fft (fac_enter sid x)"
    "pc x = Fac_Config sid \<Longrightarrow> fac_config loads sid x = Some y \<Longrightarrow> fft_inv mag fft y"
    "pc x = Fac_Verdict sid ok \<Longrightarrow> fft_inv mag fft (fac_verdict sid ok x)"
    "pc x = Fac_Bad sid \<Longrightarrow> fft_inv mag fft (fac_bad sid x)"
    "pc x = Fac_Seed sid \<Longrightarrow> fft_inv mag fft (fac_seed cnt sid x)"
    "pc x = Fac_Seed_Set sid w \<Longrightarrow> fft_inv mag fft (fac_seed_set sid w x)"
    "pc x = Fac_Total sid \<Longrightarrow> fft_inv mag fft (fac_total cnt sid x)"
    "pc x = Fac_Gap sid w \<Longrightarrow> fft_inv mag fft (fac_gap sid w x)"
    "pc x = Fac_Lease sid avail \<Longrightarrow> fft_inv mag fft (fac_lease sid avail x)"
    "pc x = Fac_Work sid avail \<Longrightarrow> fft_inv mag fft (fac_work f sid avail x)"
    "pc x = Fac_Commit sid avail used raw out sat stalled \<Longrightarrow> fft_inv mag fft (fac_commit sid avail used raw out sat stalled x)"
  using assms
  by (auto simp: fft_inv_def bins_hold_def fac_enter_def fac_config_def fac_verdict_def fac_bad_def fac_seed_def fac_seed_set_def
    fac_total_def fac_gap_def fac_lease_def fac_work_def fac_commit_def Let_def split_beta split: bind_splits)

lemma session_reset_fields [simp]:
  "fft_points (adc_dsp_fft_session_reset a) = fft_points a" "fft_outfmt (adc_dsp_fft_session_reset a) = fft_outfmt a"
  "fft_fill (adc_dsp_fft_session_reset a) = 0" "fft_seq (adc_dsp_fft_session_reset a) = 0"
  by (simp_all add: adc_dsp_fft_session_reset_def)

lemma fft_inv_enter: "fft_inv mag fft x \<Longrightarrow> pc x = Idle \<Longrightarrow> fft_inv mag fft (fft_enter sid x)"
  by (auto simp: fft_inv_def bins_hold_def fft_enter_def adc_dsp_owner_claim_config_def)

lemma fft_inv_config: "fft_inv mag fft x \<Longrightarrow> pc x = Fft_Config sid \<Longrightarrow> token_inv True x \<Longrightarrow> fft_config sid x = Some y \<Longrightarrow> fft_inv mag fft y"
  using fft_config_points
  by (auto simp: fft_inv_def bins_hold_def fft_config_def token_inv_def split: bind_splits option.splits)
    (fastforce simp: word_le_nat_alt word_less_nat_alt)+

lemma fft_inv_verdict:
  "fft_inv mag fft x \<Longrightarrow> pc x = Fft_Verdict sid ok \<Longrightarrow> token_inv True x \<Longrightarrow> fft_inv mag fft (fft_verdict sid ok x)"
  by (auto simp: fft_inv_def bins_hold_def fft_verdict_def token_inv_def adc_dsp_owner_commit_config_def adc_dsp_owner_release_def Let_def)

lemma fft_inv_done:
  "fft_inv mag fft x \<Longrightarrow> pc x = Fft_Done sid avail finished \<Longrightarrow> token_inv True x \<Longrightarrow> fft_inv mag fft (fft_done sid avail finished x)"
  by (auto simp: fft_inv_def bins_hold_def fft_done_def token_inv_def Let_def word_less_nat_alt word_le_nat_alt)

lemma fft_inv_publish:
  "fft_inv mag fft x \<Longrightarrow> pc x = Fft_Publish sid avail \<Longrightarrow> token_inv True x \<Longrightarrow> fft_inv mag fft (fft_publish sid avail x)"
  by (auto simp: fft_inv_def bins_hold_def fft_publish_def token_inv_def Let_def word_less_nat_alt word_le_nat_alt)

lemma fill_next:
  assumes "fill < (n :: u16)" "n \<le> 1024"
  shows "n \<le> fill + 1 \<Longrightarrow> fill + 1 = n" "\<not> n \<le> fill + 1 \<Longrightarrow> fill + 1 < n" "unat fill < 1024"
proof -
  have "unat (fill + 1) = unat fill + 1" using assms by (simp add: word_less_nat_alt word_le_nat_alt unat_word_ariths(1))
  then show "n \<le> fill + 1 \<Longrightarrow> fill + 1 = n" "\<not> n \<le> fill + 1 \<Longrightarrow> fill + 1 < n" "unat fill < 1024"
    using assms by (auto simp: word_less_nat_alt word_le_nat_alt word_unat_eq_iff)
qed

lemma fft_inv_store:
  "fft_inv mag fft x \<Longrightarrow> pc x = Fft_Store sid avail code \<Longrightarrow> fft_inv mag fft (fft_store sid avail code x)"
  using fill_next [of "fft_fill (an x)" "fft_points (an x)"] by (auto simp: fft_inv_def bins_hold_def fft_store_def Let_def)

lemma fft_inv_steps:
  assumes "fft_inv mag fft x" "token_inv True x"
  shows "pc x = Fft_Total sid \<Longrightarrow> fft_inv mag fft (fft_total cnt sid x)"
    "pc x = Fft_Gap sid w \<Longrightarrow> fft_inv mag fft (fft_gap sid w x)"
    "pc x = Fft_Sample sid avail \<Longrightarrow> fft_inv mag fft (fft_sample sid avail x)"
    "pc x = Fft_Calc sid avail \<Longrightarrow> fft_inv mag fft (fft_calc ccf sid avail x)"
  using assms
  by (auto simp: fft_inv_def bins_hold_def fft_total_def fft_gap_def fft_sample_def fft_calc_def Let_def split_beta
    word_less_nat_alt word_le_nat_alt)

lemma fft_inv_prepare:
  assumes "fft_inv mag fft x" "token_inv True x" "pc x = Fft_Prepare sid avail"
  shows "length torn = length (fft_bins x) \<Longrightarrow> fft_inv mag fft (fft_scribble torn x)" "fft_inv mag fft (fft_prepare mag fft sid avail x)"
proof -
  have o: "owner_of True (an x) \<noteq> int j" for j using assms(2,3) by (auto simp: token_inv_def)
  show "fft_inv mag fft (fft_scribble torn x)" if "length torn = length (fft_bins x)"
    using assms(1,3) o that by (auto simp: fft_inv_def fft_scribble_def)
  have "unat (fft_points (an x)) \<le> 1024" using assms(1) by (simp add: fft_inv_def word_le_nat_alt)
  then show "fft_inv mag fft (fft_prepare mag fft sid avail x)"
    using assms(1,3) o nbins_le [of "fft_points (an x)" "fft_outfmt (an x)"]
    by (auto simp: fft_inv_def bins_hold_def fft_prepare_def Let_def prepare_length)
qed

lemma fft_inv_handled:
  assumes "fft_inv mag fft x" "token_inv True x" "keeps_tokens (an x) (sess x) a g"
  shows "fft_inv mag fft (x\<lparr>an := a, sess := g\<rparr>)"
proof (cases "owner_of True a = ADC_DSP_OWNER_NONE")
  case True
  then show ?thesis using assms(1,3) by (auto simp: fft_inv_def keeps_tokens_def)
next
  case False
  then have e: "owner_of True a = owner_of True (an x)" "fft_points a = fft_points (an x)" "fft_outfmt a = fft_outfmt (an x)"
    "fft_fill a = fft_fill (an x)" "fft_seq a = fft_seq (an x)" "fft_nbins a = fft_nbins (an x)"
    using assms(3) unfolding keeps_tokens_def by auto
  have "g sid = sess x sid" if "owner_of True (an x) = int sid" for sid
    using assms(2,3) e(1) that unfolding keeps_tokens_def token_inv_def by auto
  then show ?thesis using assms(1) e by (auto simp: fft_inv_def bins_hold_def)
qed

section \<open>Reachable platforms\<close>

definition pump_inv :: "('f \<Rightarrow> 'f \<Rightarrow> 'f) \<Rightarrow> (u16 list \<Rightarrow> 'f list) \<Rightarrow> ('q, 'f) platform \<Rightarrow> bool" where
  "pump_inv mag fft x \<longleftrightarrow> dsp_inv (pool (an x)) (slots (an x)) \<and> token_inv False x \<and> token_inv True x \<and> fft_inv mag fft x"

lemma pump_invD:
  assumes "pump_inv mag fft x"
  shows "dsp_inv (pool (an x)) (slots (an x))" "token_inv k x" "fft_inv mag fft x" "length (slots (an x)) = 2"
  using assms dsp_invD(2) by (cases k; auto simp: pump_inv_def)+

text \<open>A step of the pump itself changes no binding.\<close>

lemma dsp_inv_pump:
  assumes "dsp_inv (pool (an x)) (slots (an x))" "pump_step f mag fft x y"
    "\<And>a g. handler (an x) (sess x) a g \<Longrightarrow> y = x\<lparr>an := a, sess := g\<rparr> \<Longrightarrow> dsp_inv (pool a) (slots a)"
  shows "dsp_inv (pool (an y)) (slots (an y))"
proof -
  note p = dsp_inv_put_slot [OF assms(1)]
  have t: "dsp_inv (pool (snd (with_total cnt sid (an x)))) (slots (snd (with_total cnt sid (an x))))" for cnt sid
    using p by (simp add: with_total_def split_beta Let_def same_binding_def)
  show ?thesis
    using assms(2)
  proof (cases rule: pump_step.cases)
    case (handled a g)
    then show ?thesis using assms(3) by simp
  qed (use assms(1) p t in \<open>auto simp: dsp_pump_enter_def fac_enter_def fft_enter_def fac_config_def fac_verdict_def fac_bad_def fac_seed_def
    fac_seed_set_def fac_total_def fac_gap_def fac_lease_def fac_work_def fac_commit_def fft_config_def fft_verdict_def fft_total_def
    fft_gap_def fft_sample_def fft_store_def fft_calc_def fft_done_def fft_scribble_def fft_prepare_def fft_publish_def
    adc_dsp_fft_session_reset_def Let_def split_beta same_binding_def split: bind_splits option.splits\<close>)
qed

lemma enter_tokens:
  assumes "token_inv k x" "fft_inv mag fft x" "pc x = Idle" "sid < 2"
  shows "token_inv k (dsp_pump_enter sid x) \<and> fft_inv mag fft (dsp_pump_enter sid x)"
  using assms token_fac_enter [of k x sid] token_fft_enter [of k x sid] fft_fac_steps(1) [of mag fft x sid] fft_inv_enter [of mag fft x sid]
  by (auto simp: dsp_pump_enter_def live_def Let_def)

lemma pump_inv_step:
  assumes "pump_inv mag fft x" "pump_step f mag fft x y"
  shows "pump_inv mag fft y"
proof -
  note d = pump_invD [OF assms(1)]
  have h: "dsp_inv (pool a) (slots a) \<and> keeps_tokens (an x) (sess x) a g" if "handler (an x) (sess x) a g" for a g
    by (rule handler_effect [OF that d(1)])
  have "dsp_inv (pool (an y)) (slots (an y))" by (rule dsp_inv_pump [OF d(1) assms(2)]) (use h in blast)
  moreover have "token_inv k y \<and> fft_inv mag fft y" for k
    using assms(2)
  proof (cases rule: pump_step.cases)
    case (handled a g)
    then show ?thesis using h token_handled [OF d(2)] fft_inv_handled [OF d(3) d(2)] by blast
  next
    case (enter sid)
    then show ?thesis using enter_tokens [OF d(2,3)] by simp
  qed (use d token_fac_steps [OF d(2) d(4)] token_fft_steps [OF d(2) d(4)] token_fac_verdict [OF d(2)] token_fac_lease [OF d(2)]
      token_fac_commit [OF d(2) d(4)] token_fft_verdict [OF d(2)] token_fft_done [OF d(2)] token_fft_publish [OF d(2)]
      fft_fac_steps [OF d(3)] fft_inv_config [OF d(3) _ d(2)] fft_inv_verdict [OF d(3) _ d(2)] fft_inv_done [OF d(3) _ d(2)]
      fft_inv_publish [OF d(3) _ d(2)] fft_inv_store [OF d(3)] fft_inv_steps [OF d(3) d(2)] fft_inv_prepare [OF d(3) d(2)] in
      \<open>simp_all del: live_locked\<close>)
  ultimately show ?thesis by (simp add: pump_inv_def)
qed

lemma idle_dsp_inv: "dsp_inv idle_pool (replicate 2 idle_stream)"
  using idle_pool_ok by (intro dsp_invI) (auto simp: idle_stream_def idle_pool_def idle_chain_def)

lemma reachable_pump_inv: "pump_reachable f mag fft x \<Longrightarrow> pump_inv mag fft x"
proof (induction rule: pump_reachable.induct)
  case (boot x)
  then have "owner_of k (an x) = ADC_DSP_OWNER_NONE" for k by (simp add: boot_platform_def owner_of_def del: owner_update)
  then show ?case using boot idle_dsp_inv by (simp add: boot_platform_def pump_inv_def token_inv_def fft_inv_def)
next
  case (step x y)
  show ?case by (rule pump_inv_step [OF step.IH step.hyps(2)])
qed

section \<open>Properties\<close>

text \<open>C5: ownership of the DSP blocks under interruption.  In every reachable platform no two streams share
  a chain or a block; a block that is not free belongs to a stream that is running, bound and of the
  block's kind; and whenever the pump works for a stream that still owns the block, under a token or
  not, it is in the session it entered in: ending a stream revokes the work in flight, whatever new
  session reuses the stream.  The filter batch the pump would commit therefore changes the streams only
  in that session, and is dropped otherwise.\<close>

theorem dsp_block_ownership:
  assumes "pump_reachable f mag fft x"
  shows "(\<forall>i < 2. \<forall>j < 2. i \<noteq> j \<and> dsp_bound (slot_of i x) \<and> dsp_bound (slot_of j x) \<longrightarrow>
        dsp_chain_id (slot_of i x) \<noteq> dsp_chain_id (slot_of j x) \<and>
        (dsp_terminal (slot_of i x) = KIND_FFT) \<noteq> (dsp_terminal (slot_of j x) = KIND_FFT)) \<and>
    (\<forall>k. owner_of k (an x) \<noteq> ADC_DSP_OWNER_NONE \<longrightarrow>
       (\<exists>sid < 2. live k (slot_of sid x) \<and> (owner_of k (an x) = int sid \<or> owner_of k (an x) = adc_dsp_owner_transitional sid) \<and>
          (pc_stream (pc x) = Some (k, sid) \<longrightarrow> lease x = sess x sid))) \<and>
    (\<forall>sid avail used raw out sat stalled. pc x = Fac_Commit sid avail used raw out sat stalled \<and>
       slots (an (fac_commit sid avail used raw out sat stalled x)) \<noteq> slots (an x) \<longrightarrow>
       lease x = sess x sid \<and> live False (slot_of sid x))"
proof -
  note d = pump_invD [OF reachable_pump_inv [OF assms]]
  have "lease x = sess x sid \<and> live False (slot_of sid x)"
    if "pc x = Fac_Commit sid avail used raw out sat stalled" "slots (an (fac_commit sid avail used raw out sat stalled x)) \<noteq> slots (an x)"
    for sid avail used raw out sat stalled
    using d(2) [of False] that by (auto simp: token_inv_def fac_commit_def Let_def split: if_splits)
  moreover have "\<exists>sid < 2. live k (slot_of sid x) \<and>
      (owner_of k (an x) = int sid \<or> owner_of k (an x) = adc_dsp_owner_transitional sid) \<and>
      (pc_stream (pc x) = Some (k, sid) \<longrightarrow> lease x = sess x sid)" if "owner_of k (an x) \<noteq> ADC_DSP_OWNER_NONE" for k
    using d(2) [of k] that unfolding token_inv_def by blast
  ultimately show ?thesis using dsp_invD(5,6) [OF d(1)] by blast
qed

text \<open>C6: a spectrum is served whole.  In every reachable platform an answered spectrum read returns bins of
  one frame of the stream's current session, all prepared from that frame before they were published,
  never a buffer that is being rewritten; the slice starts at the requested bin, is as long as asked or
  as there is, and stays inside the buffer.\<close>

theorem spectrum_read_whole:
  assumes "pump_reachable f mag fft x"
    and "adc_spectrum_read err stream_id off m x = (BRIDGE_HW_OK, seq, n, bins, x')"
  shows "unat n \<le> length (fft_bins x) \<and>
    (\<exists>frame. bins_from x = Some (sess x (unat stream_id), frame) \<and> length frame = unat (fft_points (an x)) \<and>
       unat n = length (adc_dsp_fft_prepare_bins mag (fft_points (an x)) (fft_outfmt (an x)) (fft frame)) \<and>
       bins = take (unat m) (drop (unat off) (adc_dsp_fft_prepare_bins mag (fft_points (an x)) (fft_outfmt (an x)) (fft frame))))"
proof -
  note d = pump_invD [OF reachable_pump_inv [OF assms(1)]]
  let ?n = "adc_dsp_fft_nbins (fft_points (an x)) (fft_outfmt (an x))"
  have r: "owner_of True (an x) = int (unat stream_id)" "fft_seq (an x) \<noteq> 0" "n = fft_nbins (an x)"
    "off \<ge> n \<and> bins = [] \<or> off < n \<and> bins = map (\<lambda>i. fft_bins x ! (unat off + i))
       [0..<unat (if n - off < ucast m then ucast (n - off) else m)]"
    using assms(2) by (auto simp: adc_spectrum_read_def Let_def not_le split: if_splits)
  then have n: "n = ?n" "bins_hold mag fft (sess x (unat stream_id)) x" and len: "length (fft_bins x) = 2048" "unat ?n \<le> 2048"
    using d(3) nbins_le unfolding fft_inv_def by blast+
  obtain frame where f: "bins_from x = Some (sess x (unat stream_id), frame)" "length frame = unat (fft_points (an x))"
    "take (unat ?n) (fft_bins x) = adc_dsp_fft_prepare_bins mag (fft_points (an x)) (fft_outfmt (an x)) (fft frame)"
    using n(2) unfolding bins_hold_def by blast
  have "bins = take (unat m) (drop (unat off) (take (unat n) (fft_bins x)))"
    using r(4)
  proof
    assume "off \<ge> n \<and> bins = []"
    then show ?thesis by (simp add: word_le_nat_alt min.coboundedI2)
  next
    assume o: "off < n \<and> bins = map (\<lambda>i. fft_bins x ! (unat off + i)) [0..<unat (if n - off < ucast m then ucast (n - off) else m)]"
    then have le: "unat off < unat n" "unat (n - off) = unat n - unat off" by (simp_all add: word_less_nat_alt unat_sub word_le_nat_alt)
    have m: "unat (ucast m :: u16) = unat m" using unsigned_less [of m, where 'a = nat] by (simp add: unsigned_ucast_eq take_bit_nat_eq_self)
    have c: "unat (ucast (n - off) :: u8) = unat n - unat off" if "n - off < ucast m"
      using that le m unsigned_less [of m, where 'a = nat] by (simp add: word_less_nat_alt unsigned_ucast_eq take_bit_nat_eq_self)
    have e: "unat (if n - off < ucast m then ucast (n - off) else m) = min (unat m) (unat n - unat off)"
      using c le m by (auto simp: word_less_nat_alt)
    show ?thesis using o le len n(1) unfolding e by (intro nth_equalityI) auto
  qed
  then show ?thesis using f n(1) len prepare_length [of mag "fft_points (an x)" "fft_outfmt (an x)" "fft frame"] by auto
qed

text \<open>A board on which stream 0 runs, a one-tap filter was uploaded and bound, and the pump has just taken
  the filter block.\<close>

definition unit_fac :: "unit fac" where
  "unit_fac = \<lparr>x0bff = (\<lambda>_. False), fac_write = (\<lambda>_ _. ()), ybef = (\<lambda>_. True), fac_read = (\<lambda>_. (0, False, ()))\<rparr>"

definition live_platform :: "(unit, unit) platform" where
  "live_platform = \<lparr>an = live_analog, pc = Idle, fac_state = (), fft_real = replicate 1024 0, fft_bins = replicate 2048 (),
     sess = (\<lambda>_. 0), lease = 0, bins_from = None\<rparr>"

definition fir_pool :: "adc_dsp_chain list" where
  "fir_pool = open_pool[0 := (open_pool ! 0)\<lparr>stages := (stages (open_pool ! 0))[0 := fir_stage]\<rparr>]"

definition bound_pool :: "adc_dsp_chain list" where
  "bound_pool = fir_pool[0 := (fir_pool ! 0)\<lparr>chain_bound := True\<rparr>]"

lemma live_open: "adc_dsp_chain_open idle_pool = (BRIDGE_HW_OK, 0, open_pool)"
  by code_simp

lemma live_push: "adc_dsp_stage_push 0 0 KIND_FIR 0 8 fir_blob open_pool = Some (BRIDGE_HW_OK, fir_pool)"
  by code_simp

lemma live_bind:
  "adc_dsp_chain_bind 0 0 fir_pool (slots live_streaming) =
     Some (BRIDGE_HW_OK, bound_pool, [attach 0 KIND_FIR (started_stream 6 4095 idle_stream), idle_stream])"
proof -
  have shape: "bind_shape (fir_pool ! 0) = Some (Inr 0)" by code_simp
  have cap: "adc_dsp_chain_p1_capable (fir_pool ! 0) = Some True" by code_simp
  have c: "chain_in_use (fir_pool ! 0)" "\<not> chain_bound (fir_pool ! 0)" "kind (stages (fir_pool ! 0) ! 0) = KIND_FIR" by code_simp+
  have i: "in_use (started_stream 6 4095 idle_stream)" "\<not> dsp_bound (started_stream 6 4095 idle_stream)" "\<not> in_use idle_stream"
    by (simp_all add: started_stream_def idle_stream_def)
  have busy: "\<not> adc_dsp_filter_stream_busy 0 [started_stream 6 4095 idle_stream, idle_stream]"
    using i(3) by (auto simp: adc_dsp_filter_stream_busy_def nth_Cons split: nat.splits)
  show ?thesis
    using shape cap c i busy by (simp add: adc_dsp_chain_bind_def live_slots bound_pool_def Let_def)
qed

definition leased_platform :: "(unit, unit) platform" where
  "leased_platform = live_platform\<lparr>an := live_analog\<lparr>pool := bound_pool, fac_owner := adc_dsp_owner_transitional 0,
     slots := [attach 0 KIND_FIR (started_stream 6 4095 idle_stream), idle_stream]\<rparr>,
     pc := Fac_Config 0, sess := (\<lambda>_. 0)(0 := 1), lease := 1\<rparr>"

text \<open>The host's way there: begin, open, push one blob, bind.\<close>

definition uploaded :: "adc_dsp_chain list \<Rightarrow> adc_stream_state list \<Rightarrow> (unit, unit) platform" where
  "uploaded p ss = live_platform\<lparr>an := live_streaming\<lparr>pool := p, slots := ss\<rparr>, sess := (\<lambda>_. 0)(0 := 1)\<rparr>"

lemma uploaded_reachable:
  assumes "adc_dsp_stage_push 0 0 k 0 tot blob open_pool = Some (BRIDGE_HW_OK, p1)"
    "adc_dsp_chain_bind 0 0 p1 (slots live_streaming) = Some (BRIDGE_HW_OK, p2, ss)"
  shows "pump_reachable unit_fac mag fft (uploaded p2 ss)"
proof -
  let ?r = "pump_reachable unit_fac mag fft" and ?p = "live_platform" and ?g = "(\<lambda>_. 0)(0 := 1 :: nat)"
  have step: "?r (x\<lparr>an := a, sess := g\<rparr>)" if "?r x" "handler (an x) (sess x) a g" for x a g
    using pump_reachable.step [OF that(1) pump_step.handled [OF that(2)]] .
  have "?r ?p" by (rule pump_reachable.boot)
    (simp add: boot_platform_def live_platform_def live_analog_def numeral_2_eq_2 del: owner_update)
  then have 1: "?r (?p\<lparr>an := live_streaming, sess := ?g\<rparr>)"
  proof (rule step)
    obtain tr where "adc_stream_begin (quiet_env 0 live_env) 0 6 1000 live_analog = Some (BRIDGE_HW_OK, live_streaming, tr)"
      using live_begin by blast
    then show "handler (an ?p) (sess ?p) live_streaming ?g"
      using handler.stream_begin [of _ 0 6 1000 "an ?p" BRIDGE_HW_OK live_streaming _ "sess ?p"] by (auto simp: live_platform_def)
  qed
  have p: "pool live_streaming = idle_pool" by (simp add: live_streaming_def live_analog_def)
  have 2: "?r (?p\<lparr>an := live_streaming\<lparr>pool := open_pool\<rparr>, sess := ?g\<rparr>)"
    using step [OF 1, of "live_streaming\<lparr>pool := open_pool\<rparr>" ?g] handler.chain_open [of live_streaming _ _ open_pool ?g] live_open p by simp
  have 3: "?r (?p\<lparr>an := live_streaming\<lparr>pool := p1\<rparr>, sess := ?g\<rparr>)"
    using step [OF 2, of "live_streaming\<lparr>pool := p1\<rparr>" ?g]
      handler.stage_push [of 0 0 k 0 tot blob "live_streaming\<lparr>pool := open_pool\<rparr>" _ p1 ?g] assms(1) by simp
  show ?thesis
    using step [OF 3, of "live_streaming\<lparr>pool := p2, slots := ss\<rparr>" ?g]
      handler.chain_bind [of 0 0 "live_streaming\<lparr>pool := p1\<rparr>" _ p2 _ ?g] assms(2) by (simp add: uploaded_def)
qed

lemma leased_reachable: "pump_reachable unit_fac mag fft leased_platform"
proof -
  let ?x = "uploaded bound_pool [attach 0 KIND_FIR (started_stream 6 4095 idle_stream), idle_stream]"
  have "dsp_pump_enter 0 ?x = leased_platform"
    by (simp add: dsp_pump_enter_def fac_enter_def adc_dsp_owner_claim_config_def leased_platform_def live_platform_def uploaded_def
      live_streaming_def live_analog_def attach_def started_stream_def live_def owner_of_def Let_def idle_stream_def del: owner_update)
  then show ?thesis
    using pump_reachable.step [OF uploaded_reachable [OF live_push live_bind] pump_step.enter [of _ 0]]
    by (simp add: uploaded_def live_platform_def)
qed

theorem dsp_block_ownership_witness:
  "owner_of False (an leased_platform) = adc_dsp_owner_transitional 0 \<and> pc_stream (pc leased_platform) = Some (False, 0) \<and>
   lease leased_platform = sess leased_platform 0 \<and> live False (slot_of 0 leased_platform)"
proof -
  have o: "owner_of False (an leased_platform) = adc_dsp_owner_transitional 0" "pc_stream (pc leased_platform) = Some (False, 0)"
    by (simp_all add: leased_platform_def owner_of_def del: owner_update)
  obtain sid where "live False (slot_of sid leased_platform)"
    "owner_of False (an leased_platform) = int sid \<or> owner_of False (an leased_platform) = adc_dsp_owner_transitional sid"
    "pc_stream (pc leased_platform) = Some (False, sid) \<longrightarrow> lease leased_platform = sess leased_platform sid"
    using dsp_block_ownership [OF leased_reachable [of "\<lambda>_ _. ()" "\<lambda>_. []"], THEN conjunct2, THEN conjunct1,
      rule_format, of False] o(1) by auto
  then show ?thesis using o by auto
qed

text \<open>A frame fills one sample at a time while its stream owns the block.\<close>

lemma reachable_owner_live:
  assumes "pump_reachable f mag fft x" "owner_of k (an x) = int sid"
  shows "live k (slot_of sid x)" "sid < 2"
  using pump_invD(2) [OF reachable_pump_inv [OF assms(1)], of k] assms(2) by (auto simp: token_inv_def)

lemma frame_fills:
  assumes "pump_reachable f mag fft x" "pc x = Fft_Sample sid avail" "owner_of True (an x) = int sid"
    "unat (fft_points (an x)) - unat (fft_fill (an x)) \<le> avail"
  shows "\<exists>y. pump_reachable f mag fft y \<and> (\<exists>avail'. pc y = Fft_Calc sid avail') \<and> owner_of True (an y) = int sid \<and>
    fft_seq (an y) = fft_seq (an x) \<and> fft_points (an y) = fft_points (an x) \<and> fft_outfmt (an y) = fft_outfmt (an x) \<and>
    dma_error_count (slot_of sid y) = dma_error_count (slot_of sid x)"
  using assms
proof (induction "unat (fft_points (an x)) - unat (fft_fill (an x))" arbitrary: x avail rule: less_induct)
  case less
  note d = pump_invD [OF reachable_pump_inv [OF less.prems(1)]] and l = reachable_owner_live [OF less.prems(1,3)]
  have b: "fft_fill (an x) < fft_points (an x)" "fft_points (an x) \<le> 1024" using d(3) less.prems(2,3) by (auto simp: fft_inv_def)
  then have avail: "avail \<noteq> 0" using less.prems(4) by (auto simp: word_less_nat_alt)
  define code where "code = ring (slot_of sid x) ! unat (pump_raw_read (slot_of sid x) mod 1024) AND 0x0FFF"
  let ?y = "fft_sample sid avail x"
  have y: "?y = x\<lparr>pc := Fft_Store sid (avail - 1) code\<rparr>" using avail less.prems(3) l(1) by (simp add: fft_sample_def code_def)
  have ry: "pump_reachable f mag fft ?y" by (rule pump_reachable.step [OF less.prems(1) pump_step.fft_sample [OF less.prems(2)]])
  let ?z = "fft_store sid (avail - 1) code ?y"
  have rz: "pump_reachable f mag fft ?z" by (rule pump_reachable.step [OF ry pump_step.fft_store]) (simp add: y)
  have z: "owner_of True (an ?z) = int sid" "fft_seq (an ?z) = fft_seq (an x)" "fft_points (an ?z) = fft_points (an x)"
    "fft_outfmt (an ?z) = fft_outfmt (an x)" "fft_fill (an ?z) = fft_fill (an x) + 1"
    "dma_error_count (slot_of sid ?z) = dma_error_count (slot_of sid x)"
    "pc ?z = (if fft_fill (an x) + 1 \<ge> fft_points (an x) then Fft_Calc sid (avail - 1) else Fft_Sample sid (avail - 1))"
    using less.prems(3) l d(4) by (simp_all add: y fft_store_def Let_def put_slot_def owner_of_def del: owner_update)
  have succ: "unat (fft_fill (an x) + 1) = unat (fft_fill (an x)) + 1"
    using b by (simp add: word_less_nat_alt word_le_nat_alt unat_word_ariths(1))
  show ?case
  proof (cases "fft_fill (an x) + 1 \<ge> fft_points (an x)")
    case True
    then show ?thesis using rz z by auto
  next
    case False
    have "unat (fft_points (an ?z)) - unat (fft_fill (an ?z)) < unat (fft_points (an x)) - unat (fft_fill (an x))"
      "unat (fft_points (an ?z)) - unat (fft_fill (an ?z)) \<le> avail - 1"
      using z(3,5) succ b(1) less.prems(4) by (auto simp: word_less_nat_alt)
    from less.hyps [OF this(1) rz _ z(1) this(2)] False z show ?thesis by auto
  qed
qed

text \<open>A transform of 32 points, magnitudes, bound to stream 0.\<close>

definition fft_pool :: "adc_dsp_chain list" where
  "fft_pool = (case adc_dsp_stage_push 0 0 KIND_FFT 0 4 [32, 0, 1, 0] open_pool of Some (_, p) \<Rightarrow> p | None \<Rightarrow> [])"

definition fft_bound_pool :: "adc_dsp_chain list" where
  "fft_bound_pool = fft_pool[0 := (fft_pool ! 0)\<lparr>chain_bound := True\<rparr>]"

lemma fft_push: "adc_dsp_stage_push 0 0 KIND_FFT 0 4 [32, 0, 1, 0] open_pool = Some (BRIDGE_HW_OK, fft_pool)"
  by code_simp

lemma fft_bind:
  "adc_dsp_chain_bind 0 0 fft_pool (slots live_streaming) =
     Some (BRIDGE_HW_OK, fft_bound_pool, [attach 0 KIND_FFT (started_stream 6 4095 idle_stream), idle_stream])"
proof -
  have shape: "bind_shape (fft_pool ! 0) = Some (Inr 0)" by code_simp
  have cap: "adc_dsp_chain_p1_capable (fft_pool ! 0) = Some True" by code_simp
  have c: "chain_in_use (fft_pool ! 0)" "\<not> chain_bound (fft_pool ! 0)" "kind (stages (fft_pool ! 0) ! 0) = KIND_FFT" by code_simp+
  have i: "in_use (started_stream 6 4095 idle_stream)" "\<not> dsp_bound (started_stream 6 4095 idle_stream)" "\<not> in_use idle_stream"
    by (simp_all add: started_stream_def idle_stream_def)
  have busy: "\<not> adc_dsp_fft_stream_busy 0 [started_stream 6 4095 idle_stream, idle_stream]"
    using i(3) by (auto simp: adc_dsp_fft_stream_busy_def nth_Cons split: nat.splits)
  show ?thesis
    using shape cap c i busy by (simp add: adc_dsp_chain_bind_def live_slots fft_bound_pool_def Let_def)
qed

lemma fft_live_config: "adc_dsp_fft_config (fft_bound_pool ! 0) = Some (Some (32, 1, 0))"
  by code_simp

text \<open>From there the pump configures the block, collects a frame and publishes its spectrum.\<close>

lemma spectrum_published:
  "\<exists>x. pump_reachable unit_fac mag fft (x :: (unit, unit) platform) \<and> owner_of True (an x) = int 0 \<and> fft_seq (an x) = 1 \<and>
    fft_points (an x) = 32 \<and> fft_outfmt (an x) = 1 \<and> dma_error_count (slot_of 0 x) = 0"
proof -
  let ?r = "pump_reachable unit_fac mag fft"
  let ?s = "attach 0 KIND_FFT (started_stream 6 4095 idle_stream)"
  let ?x0 = "uploaded fft_bound_pool [?s, idle_stream]"
  have s: "in_use ?s" "dsp_bound ?s" "dsp_terminal ?s = KIND_FFT" "dsp_chain_id ?s = 0" "dma_error_count ?s = 0" "pump_raw_read ?s = 0"
    "lap_count ?s = 0" "\<not> pos_valid (pump_pos ?s)" "live True ?s"
    by (simp_all add: attach_def started_stream_def live_def)
  have 0: "?r ?x0" "pc ?x0 = Idle" "owner_of True (an ?x0) = -1" "slots (an ?x0) = [?s, idle_stream]" "pool (an ?x0) = fft_bound_pool"
    using uploaded_reachable [OF fft_push fft_bind]
    by (simp_all add: uploaded_def live_platform_def live_streaming_def live_analog_def owner_of_def del: owner_update)
  let ?x1 = "dsp_pump_enter 0 ?x0"
  have 1: "?r ?x1" by (rule pump_reachable.step [OF 0(1) pump_step.enter [OF 0(2)]]) simp
  have x1: "?x1 = ?x0\<lparr>an := (an ?x0)\<lparr>fft_owner := adc_dsp_owner_transitional 0\<rparr>, pc := Fft_Config 0, lease := sess ?x0 0\<rparr>"
    using 0 s by (simp add: dsp_pump_enter_def fft_enter_def adc_dsp_owner_claim_config_def Let_def)
  let ?x2 = "?x1\<lparr>an := adc_dsp_fft_session_reset ((an ?x1)\<lparr>fft_points := 32, fft_outfmt := 1\<rparr>), pc := Fft_Verdict 0 True\<rparr>"
  have "fft_config 0 ?x1 = Some ?x2" unfolding fft_config_def x1 using 0 s fft_live_config by simp
  then have 2: "?r ?x2" by (intro pump_reachable.step [OF 1 pump_step.fft_config [of _ 0]]) (simp_all add: x1)
  let ?x3 = "fft_verdict 0 True ?x2"
  have 3: "?r ?x3" by (rule pump_reachable.step [OF 2 pump_step.fft_verdict]) simp
  have x3: "?x3 = ?x2\<lparr>an := (an ?x2)\<lparr>fft_owner := 0\<rparr>, pc := Fft_Total 0\<rparr>"
    unfolding fft_verdict_def adc_dsp_owner_commit_config_def x1 using 0 s by (simp add: Let_def)
  let ?x4 = "fft_total (dma_counter 100) 0 ?x3"
  have 4: "?r ?x4" by (rule pump_reachable.step [OF 3 pump_step.fft_total]) (simp add: x3)
  have tw: "with_total (dma_counter 100) 0 a = (100, put_slot 0 (?s\<lparr>pump_pos := \<lparr>pos_laps = 0, pos_w = 100, pos_valid = True\<rparr>\<rparr>) a)"
    if "slots a ! 0 = ?s" for a
    using s(7,8) by (simp add: with_total_def that adc_stream_total_written_def write_index_counter Let_def)
  have "slots (an ?x3) = [?s, idle_stream]" unfolding x3 unfolding x1 using 0(4) by simp
  then have x4: "pc ?x4 = Fft_Sample 0 100" "owner_of True (an ?x4) = int 0" "fft_seq (an ?x4) = 0" "fft_points (an ?x4) = 32"
    "fft_outfmt (an ?x4) = 1" "fft_fill (an ?x4) = 0" "dma_error_count (slot_of 0 ?x4) = 0"
    using s(5,6) by (simp_all add: fft_total_def tw Let_def) (simp_all add: x3 put_slot_def)
  obtain x5 avail where x5: "?r x5" "pc x5 = Fft_Calc 0 avail" "owner_of True (an x5) = int 0" "fft_seq (an x5) = 0" "fft_points (an x5) = 32"
    "fft_outfmt (an x5) = 1" "dma_error_count (slot_of 0 x5) = 0"
    using frame_fills [OF 4 x4(1,2)] x4(3-7) by auto
  let ?x6 = "fft_calc True 0 avail x5"
  have 6: "?r ?x6" by (rule pump_reachable.step [OF x5(1) pump_step.fft_calc [OF x5(2)]])
  let ?x7 = "fft_done 0 avail True ?x6"
  have 7: "?r ?x7" by (rule pump_reachable.step [OF 6 pump_step.fft_done]) (simp add: fft_calc_def)
  have l: "live True (slot_of 0 x5)" by (rule reachable_owner_live(1) [OF x5(1,3)])
  have x7: "?x7 = x5\<lparr>an := (an x5)\<lparr>fft_owner := adc_dsp_owner_transitional 0\<rparr>, pc := Fft_Prepare 0 avail\<rparr>"
    using l x5(3) by (simp add: fft_done_def fft_calc_def)
  let ?x8 = "fft_prepare mag fft 0 avail ?x7"
  have 8: "?r ?x8" by (rule pump_reachable.step [OF 7 pump_step.fft_prepare]) (simp add: x7)
  let ?x9 = "fft_publish 0 avail ?x8"
  have 9: "?r ?x9" by (rule pump_reachable.step [OF 8 pump_step.fft_publish]) (simp add: fft_prepare_def Let_def)
  have x9: "an ?x9 = (an x5)\<lparr>fft_nbins := adc_dsp_fft_nbins 32 1, fft_seq := 1, fft_fill := 0, fft_owner := 0\<rparr>"
    using l x5(4-6) by (simp add: fft_publish_def fft_prepare_def x7 Let_def)
  show ?thesis using 9 x5(5-7) by (intro exI [of _ ?x9]) (simp add: x9)
qed

theorem spectrum_read_whole_witness:
  "\<exists>(x :: (unit, unit) platform) seq n bins x' frame. adc_spectrum_read False 0 4 8 x = (BRIDGE_HW_OK, seq, n, bins, x') \<and>
     bins_from x = Some (sess x 0, frame) \<and> length frame = 32 \<and> length bins = 8"
proof -
  obtain x :: "(unit, unit) platform" where
    x: "pump_reachable unit_fac (\<lambda>_ _. ()) (\<lambda>_. []) x" "owner_of True (an x) = int 0" "fft_seq (an x) = 1"
      "fft_points (an x) = 32" "fft_outfmt (an x) = 1" "dma_error_count (slot_of 0 x) = 0" using spectrum_published by blast
  have l: "live True (slot_of 0 x)" by (rule reachable_owner_live(1) [OF x(1,2)])
  have n: "fft_nbins (an x) = 32"
    using pump_invD(3) [OF reachable_pump_inv [OF x(1)]] x(2-5) by (auto simp: fft_inv_def adc_dsp_fft_nbins_def)
  then obtain bins x' where r: "adc_spectrum_read False 0 4 8 x = (BRIDGE_HW_OK, 1, 32, bins, x')"
    using l x by (simp add: adc_spectrum_read_def adc_stream_latch_dma_error_def live_def Let_def)
  obtain frame where f: "bins_from x = Some (sess x 0, frame)" "length frame = 32"
    "bins = take 8 (drop 4 (adc_dsp_fft_prepare_bins (\<lambda>_ _. ()) 32 1 []))"
    using spectrum_read_whole [OF x(1) r] x(4,5) by auto
  moreover have "length bins = 8" unfolding f(3) by (simp add: prepare_length adc_dsp_fft_nbins_def)
  ultimately show ?thesis using r by blast
qed

end
