(* ===== verification/Pwm.thy ===== *)
theory Pwm
  imports Hal
begin

text \<open>
  The pulse outputs and inputs of the two advanced timers: \<open>hal/gd32/pwm.c\<close>, \<open>pwm_set.c\<close>,
  \<open>pwm_preload_transaction.c\<close>, \<open>pwm_capture.c\<close>, \<open>pwm_ownership.h\<close> and \<open>timer_sync*.c\<close>.

  A timer is its registers.  Reload and compare values are written to preload registers and
  become active at the timer's next update event, which the hardware may raise between any
  two register accesses of the code: an operation takes an \<open>env\<close> saying in which of its gaps
  one falls.  While \<open>UPDIS\<close> is set none has an effect.  Operations of the two transports
  exclude each other (the dispatcher refuses a nested request), so they run one after the other.
\<close>

section \<open>Registers\<close>

abbreviation (input) "PWM_CHANNEL_COUNT \<equiv> (8 :: nat)"
abbreviation (input) "PWM_TIMER_TICK_NS \<equiv> (1000 :: u32)"
abbreviation (input) "PWM_TIMER_ARR_MAX \<equiv> (0xFFFF :: u32)"
abbreviation (input) "PWM_ONE_SHOT_DELAY_TICKS \<equiv> (1 :: u32)"

datatype cam_mode = TIMER_COUNTER_EDGE | TIMER_COUNTER_CENTER_UP | TIMER_COUNTER_CENTER_DOWN | TIMER_COUNTER_CENTER_BOTH

datatype slave_mode =
    TIMER_SLAVE_MODE_DISABLE | TIMER_SLAVE_MODE_RESTART | TIMER_SLAVE_MODE_PAUSE
  | TIMER_SLAVE_MODE_EVENT | TIMER_SLAVE_MODE_EXTERNAL0 | TIMER_QUAD_DECODER_MODE1

datatype oc_mode = TIMER_OC_MODE_PWM0 | TIMER_OC_MODE_PWM1

datatype ic_polarity = TIMER_IC_POLARITY_RISING | TIMER_IC_POLARITY_FALLING | TIMER_IC_POLARITY_BOTH_EDGE

text \<open>The pad's side of a channel: compare mode, complementary output, capture unit, pull-up.\<close>

record pad =
  oc_of :: oc_mode
  outn_on :: bool
  mch_capture :: "ic_polarity option"
  pulled_up :: bool

record tim =
  car :: u32
  car_active :: u32
  chcv :: "u32 list"
  chcv_active :: "u32 list"
  cnt :: u32
  cen :: bool
  updis :: bool
  spm :: bool
  cam :: cam_mode
  upif :: bool
  capif :: "bool list"
  capcv :: "u32 list"
  pads :: "pad list"
  smc :: slave_mode
  trgs :: u32
  trgo_update :: bool

text \<open>An update event: preloads become active, a timer in single-pulse mode halts.\<close>

definition hw_update :: "tim \<Rightarrow> tim" where
  "hw_update t = (if updis t then t
     else t\<lparr>car_active := car t, chcv_active := chcv t, upif := True, cnt := 0, cen := cen t \<and> \<not> spm t\<rparr>)"

definition gap :: "bool \<Rightarrow> tim \<Rightarrow> tim" where
  "gap b t = (if b then hw_update t else t)"

section \<open>State\<close>

record pwm_capture_state =
  last_tick :: u32
  period_ticks :: u32
  pulse_width_ticks :: u32
  cap_edge :: u8
  cap_state :: u8
  in_capture :: bool
  have_period :: bool
  have_pulse :: bool

record pwm_st =
  tims :: "tim list"
  pwm_one_shot :: "bool list"
  pwm_align_mode :: "u8 list"
  pwm_timer_claims :: "u8 list"
  pwm_capture :: "pwm_capture_state list"
  pwm_capture_active_car :: "u32 list"
  pwm_capture_pending_car :: "u32 list"
  pwm_capture_pending_valid :: "bool list"
  timer_sync_master_mask :: u8

text \<open>The channel table: the timer (0 for \<open>TIMER0\<close>, 1 for \<open>TIMER7\<close>) and the channel on it; every pad is
  a complementary one.\<close>

definition pwm_channels :: "(nat \<times> nat) list" where
  "pwm_channels = [(0, 0), (0, 2), (0, 1), (0, 3), (1, 0), (1, 1), (1, 2), (1, 3)]"

abbreviation (input) tim_of :: "u8 \<Rightarrow> nat" where
  "tim_of ch \<equiv> fst (pwm_channels ! unat ch)"

abbreviation (input) unit_of :: "u8 \<Rightarrow> nat" where
  "unit_of ch \<equiv> snd (pwm_channels ! unat ch)"

definition on_tim :: "nat \<Rightarrow> (tim \<Rightarrow> tim) \<Rightarrow> pwm_st \<Rightarrow> pwm_st" where
  "on_tim i f s = s\<lparr>tims := (tims s)[i := f (tims s ! i)]\<rparr>"

definition on_pad :: "nat \<Rightarrow> (pad \<Rightarrow> pad) \<Rightarrow> tim \<Rightarrow> tim" where
  "on_pad k f t = t\<lparr>pads := (pads t)[k := f (pads t ! k)]\<rparr>"

section \<open>Claims and synchronisation masters\<close>

definition pwm_timer_channel_bit :: "u8 \<Rightarrow> u8" where
  "pwm_timer_channel_bit ch = push_bit (unat (ch AND 3)) 1"

definition pwm_timer_has_sibling_claim :: "u8 \<Rightarrow> u8 \<Rightarrow> bool" where
  "pwm_timer_has_sibling_claim claims ch \<longleftrightarrow> claims AND NOT (pwm_timer_channel_bit ch) \<noteq> 0"

definition pwm_channel_claim :: "u8 \<Rightarrow> pwm_st \<Rightarrow> pwm_st" where
  "pwm_channel_claim ch s =
     (if unat ch \<ge> PWM_CHANNEL_COUNT then s
      else s\<lparr>pwm_timer_claims := (pwm_timer_claims s)[tim_of ch := pwm_timer_claims s ! tim_of ch OR pwm_timer_channel_bit ch]\<rparr>)"

definition pwm_channel_release :: "u8 \<Rightarrow> pwm_st \<Rightarrow> pwm_st" where
  "pwm_channel_release ch s =
     (if unat ch \<ge> PWM_CHANNEL_COUNT then s
      else s\<lparr>pwm_timer_claims := (pwm_timer_claims s)[tim_of ch := pwm_timer_claims s ! tim_of ch AND NOT (pwm_timer_channel_bit ch)]\<rparr>)"

definition timer_sync_master_active :: "u8 \<Rightarrow> pwm_st \<Rightarrow> bool" where
  "timer_sync_master_active i s \<longleftrightarrow> i < 2 \<and> timer_sync_master_mask s AND push_bit (unat i) 1 \<noteq> 0"

definition timer_sync_master_set :: "u8 \<Rightarrow> bool \<Rightarrow> pwm_st \<Rightarrow> pwm_st" where
  "timer_sync_master_set i active s =
     (if i \<ge> 2 then s
      else s\<lparr>timer_sync_master_mask := (if active then timer_sync_master_mask s OR push_bit (unat i) 1
                                        else timer_sync_master_mask s AND NOT (push_bit (unat i) 1))\<rparr>)"

definition timer_sync_forced_update_allowed :: "u8 \<Rightarrow> pwm_st \<Rightarrow> bool" where
  "timer_sync_forced_update_allowed i s \<longleftrightarrow> \<not> timer_sync_master_active i s"

definition timer_sync_iti_lookup :: "u8 \<Rightarrow> u8 \<Rightarrow> u32" where
  "timer_sync_iti_lookup slave master =
     (if slave \<ge> 2 \<or> master \<ge> 2 then 0 else [[0, 0x0A], [0x01, 0]] ! unat slave ! unat master)"

definition slave_mode_of :: "u8 \<Rightarrow> slave_mode option" where
  "slave_mode_of m =
     (if m = 0 then Some TIMER_SLAVE_MODE_DISABLE else if m = 1 then Some TIMER_SLAVE_MODE_RESTART
      else if m = 2 then Some TIMER_SLAVE_MODE_PAUSE else if m = 3 then Some TIMER_SLAVE_MODE_EVENT
      else if m = 4 then Some TIMER_SLAVE_MODE_EXTERNAL0 else if m = 5 then Some TIMER_QUAD_DECODER_MODE1 else None)"

definition timer_sync :: "u8 \<Rightarrow> u8 \<Rightarrow> u8 \<Rightarrow> pwm_st \<Rightarrow> int \<times> pwm_st" where
  "timer_sync master slave m s =
     (if master \<ge> 2 \<or> slave \<ge> 2 then (BRIDGE_HW_ERR_RANGE, s)
      else if master = slave then (BRIDGE_HW_ERR_INVAL, s)
      else case slave_mode_of m of
             None \<Rightarrow> (BRIDGE_HW_ERR_INVAL, s)
           | Some sm \<Rightarrow>
               let iti = timer_sync_iti_lookup slave master
               in if iti = 0 then (BRIDGE_HW_ERR_INVAL, s)
                  else (BRIDGE_HW_OK,
                        timer_sync_master_set master (m \<noteq> 0)
                          (on_tim (unat slave) (\<lambda>t. t\<lparr>trgs := iti, smc := sm\<rparr>)
                            (on_tim (unat master) (\<lambda>t. t\<lparr>trgo_update := True\<rparr>) s))))"

section \<open>The reload mirror\<close>

text \<open>Consuming an update event; one more may fall between the test of the flag and its clearing.\<close>

definition pwm_capture_consume_update :: "bool \<Rightarrow> nat \<Rightarrow> pwm_st \<Rightarrow> pwm_st" where
  "pwm_capture_consume_update b i s =
     (if \<not> upif (tims s ! i) then s
      else let s = on_tim i (\<lambda>t. (gap b t)\<lparr>upif := False\<rparr>) s
           in if pwm_capture_pending_valid s ! i
              then s\<lparr>pwm_capture_active_car := (pwm_capture_active_car s)[i := pwm_capture_pending_car s ! i],
                     pwm_capture_pending_valid := (pwm_capture_pending_valid s)[i := False]\<rparr>
              else s)"

definition pwm_car_shadow_defer :: "bool \<Rightarrow> nat \<Rightarrow> u32 \<Rightarrow> pwm_st \<Rightarrow> pwm_st" where
  "pwm_car_shadow_defer b i v s =
     (let s = pwm_capture_consume_update b i s
      in s\<lparr>pwm_capture_pending_car := (pwm_capture_pending_car s)[i := v],
           pwm_capture_pending_valid := (pwm_capture_pending_valid s)[i := True]\<rparr>)"

definition pwm_car_shadow_commit :: "nat \<Rightarrow> u32 \<Rightarrow> pwm_st \<Rightarrow> pwm_st" where
  "pwm_car_shadow_commit i v s =
     (let s = on_tim i (\<lambda>t. t\<lparr>upif := False\<rparr>) s
      in s\<lparr>pwm_capture_active_car := (pwm_capture_active_car s)[i := v],
           pwm_capture_pending_valid := (pwm_capture_pending_valid s)[i := False]\<rparr>)"

section \<open>Output\<close>

definition pwm_preload_transaction :: "nat \<Rightarrow> (pwm_st \<Rightarrow> pwm_st) \<Rightarrow> pwm_st \<Rightarrow> pwm_st" where
  "pwm_preload_transaction i fn s =
     (let saved = updis (tims s ! i)
      in on_tim i (\<lambda>t. t\<lparr>updis := saved\<rparr>) (fn (on_tim i (\<lambda>t. t\<lparr>updis := True\<rparr>) s)))"

definition pwm_preload_load :: "(nat \<Rightarrow> bool) \<Rightarrow> nat \<Rightarrow> nat \<Rightarrow> u32 \<Rightarrow> u32 \<Rightarrow> pwm_st \<Rightarrow> pwm_st" where
  "pwm_preload_load env i k arr compare s =
     pwm_car_shadow_defer (env 12) i arr
       (on_tim i (gap (env 11) \<circ> (\<lambda>t. t\<lparr>chcv := (chcv t)[k := compare]\<rparr>) \<circ> gap (env 10) \<circ> (\<lambda>t. t\<lparr>car := arr\<rparr>)) s)"

definition pwm_channel_center_aligned :: "u8 \<Rightarrow> pwm_st \<Rightarrow> bool" where
  "pwm_channel_center_aligned ch s \<longleftrightarrow> pwm_align_mode s ! tim_of ch \<noteq> 0"

definition pwm_apply_counter_values :: "(nat \<Rightarrow> bool) \<Rightarrow> u8 \<Rightarrow> u32 \<Rightarrow> u32 \<Rightarrow> pwm_st \<Rightarrow> int \<times> pwm_st" where
  "pwm_apply_counter_values env ch arr compare s =
     (let i = tim_of ch; k = unit_of ch; was_running = cen (tims s ! i)
      in if \<not> was_running \<and> \<not> timer_sync_forced_update_allowed (of_nat i) s then (BRIDGE_HW_ERR_BUSY, s)
         else let s = pwm_channel_claim ch s;
                  s = on_tim i (gap (env 1) \<circ> on_pad k (\<lambda>p. p\<lparr>oc_of := TIMER_OC_MODE_PWM0\<rparr>) \<circ> (\<lambda>t. t\<lparr>spm := False\<rparr>) \<circ> gap (env 0)) s;
                  s = s\<lparr>pwm_one_shot := (pwm_one_shot s)[unat ch := False]\<rparr>;
                  s = (if was_running then pwm_preload_transaction i (pwm_preload_load env i k arr compare) s
                       else pwm_car_shadow_commit i arr
                              (on_tim i (hw_update \<circ> gap (env 3) \<circ> (\<lambda>t. t\<lparr>chcv := (chcv t)[k := compare]\<rparr>) \<circ> gap (env 2) \<circ>
                                         (\<lambda>t. t\<lparr>car := arr\<rparr>)) s))
              in (BRIDGE_HW_OK, on_tim i ((\<lambda>t. t\<lparr>cen := True\<rparr>) \<circ> gap (env 4)) s))"

definition pwm_counter_values :: "u32 \<Rightarrow> u32 \<Rightarrow> bool \<Rightarrow> int + u32 \<times> u32" where
  "pwm_counter_values period_ns duty_ns center_aligned =
     (let max_period_ticks = (if center_aligned then 2 * PWM_TIMER_ARR_MAX else PWM_TIMER_ARR_MAX + 1);
          period_t = period_ns div PWM_TIMER_TICK_NS; duty_t = duty_ns div PWM_TIMER_TICK_NS
      in if period_ns > max_period_ticks * PWM_TIMER_TICK_NS then Inl BRIDGE_HW_ERR_RANGE
         else if period_t = 0 then Inl BRIDGE_HW_ERR_RANGE
         else if center_aligned \<and> period_t div 2 = 0 then Inl BRIDGE_HW_ERR_RANGE
         else let (arr, compare) = (if center_aligned then (period_t div 2, duty_t div 2) else (period_t - 1, duty_t))
              in if arr > PWM_TIMER_ARR_MAX \<or> compare > PWM_TIMER_ARR_MAX then Inl BRIDGE_HW_ERR_RANGE
                 else Inr (arr, compare))"

definition pwm_set :: "(nat \<Rightarrow> bool) \<Rightarrow> u8 \<Rightarrow> u32 \<Rightarrow> u32 \<Rightarrow> pwm_st \<Rightarrow> int \<times> pwm_st" where
  "pwm_set env ch period_ns duty_ns s =
     (if unat ch \<ge> PWM_CHANNEL_COUNT then (BRIDGE_HW_ERR_RANGE, s)
      else if duty_ns > period_ns then (BRIDGE_HW_ERR_INVAL, s)
      else case pwm_counter_values period_ns duty_ns (pwm_channel_center_aligned ch s) of
             Inl e \<Rightarrow> (e, s)
           | Inr (arr, compare) \<Rightarrow> pwm_apply_counter_values env ch arr compare s)"

text \<open>Reading back changes nothing: result, period, duty.\<close>

definition pwm_get :: "u8 \<Rightarrow> pwm_st \<Rightarrow> int \<times> u32 \<times> u32" where
  "pwm_get ch s =
     (if unat ch \<ge> PWM_CHANNEL_COUNT then (BRIDGE_HW_ERR_RANGE, 0, 0)
      else let t = tims s ! tim_of ch; c = car t AND PWM_TIMER_ARR_MAX; cv0 = chcv t ! unit_of ch;
               cv = (if cv0 > c + 1 then c + 1 else cv0)
           in if pwm_one_shot s ! unat ch
              then (BRIDGE_HW_OK, (c + 1) * PWM_TIMER_TICK_NS, (c - cv + 1) * PWM_TIMER_TICK_NS)
              else if pwm_align_mode s ! tim_of ch = 0
              then (BRIDGE_HW_OK, (c + 1) * PWM_TIMER_TICK_NS, cv * PWM_TIMER_TICK_NS)
              else let period = 2 * c * PWM_TIMER_TICK_NS; duty = 2 * cv * PWM_TIMER_TICK_NS
                   in (BRIDGE_HW_OK, period, if duty > period then period else duty))"

definition cam_map :: "cam_mode list" where
  "cam_map = [TIMER_COUNTER_EDGE, TIMER_COUNTER_CENTER_UP, TIMER_COUNTER_CENTER_DOWN, TIMER_COUNTER_CENTER_BOTH]"

definition pwm_configure :: "(nat \<Rightarrow> bool) \<Rightarrow> u8 \<Rightarrow> u8 \<Rightarrow> u32 \<Rightarrow> u8 \<Rightarrow> pwm_st \<Rightarrow> int \<times> pwm_st" where
  "pwm_configure env ch align_mode dead_time_ns break_cfg s =
     (if unat ch \<ge> PWM_CHANNEL_COUNT then (BRIDGE_HW_ERR_RANGE, s)
      else if align_mode > 3 then (BRIDGE_HW_ERR_INVAL, s)
      else if dead_time_ns \<noteq> 0 then (BRIDGE_HW_ERR_NOTIMPL, s)
      else if break_cfg \<noteq> 0 then (BRIDGE_HW_ERR_NOTIMPL, s)
      else let i = tim_of ch
           in if pwm_align_mode s ! i = align_mode then (BRIDGE_HW_OK, s)
              else let was_running = cen (tims s ! i);
                       s = on_tim i ((\<lambda>t. t\<lparr>cen := was_running \<or> cen t\<rparr>) \<circ> gap (env 1) \<circ> (\<lambda>t. t\<lparr>cam := cam_map ! unat align_mode\<rparr>) \<circ>
                                     (\<lambda>t. t\<lparr>cen := False\<rparr>) \<circ> gap (env 0)) s
                   in (BRIDGE_HW_OK, s\<lparr>pwm_align_mode := (pwm_align_mode s)[i := align_mode]\<rparr>))"

definition pwm_single_pulse :: "(nat \<Rightarrow> bool) \<Rightarrow> u8 \<Rightarrow> u32 \<Rightarrow> pwm_st \<Rightarrow> int \<times> pwm_st" where
  "pwm_single_pulse env ch pulse_ns s =
     (if unat ch \<ge> PWM_CHANNEL_COUNT then (BRIDGE_HW_ERR_RANGE, s)
      else let i = tim_of ch; k = unit_of ch; pulse_us = pulse_ns div PWM_TIMER_TICK_NS
           in if pulse_us = 0 then (BRIDGE_HW_ERR_RANGE, s)
              else if pulse_us > PWM_TIMER_ARR_MAX then (BRIDGE_HW_ERR_RANGE, s)
              else if pwm_align_mode s ! i \<noteq> 0 then (BRIDGE_HW_ERR_NOTIMPL, s)
              else if \<not> timer_sync_forced_update_allowed (of_nat i) s then (BRIDGE_HW_ERR_BUSY, s)
              else if pwm_timer_has_sibling_claim (pwm_timer_claims s ! i) ch then (BRIDGE_HW_ERR_BUSY, s)
              else let s = pwm_channel_release ch s;
                       s = on_tim i ((\<lambda>t. t\<lparr>chcv := (chcv t)[k := PWM_ONE_SHOT_DELAY_TICKS]\<rparr>) \<circ> gap (env 1) \<circ> (\<lambda>t. t\<lparr>car := pulse_us\<rparr>) \<circ>
                                     (\<lambda>t. t\<lparr>cnt := 0\<rparr>) \<circ> on_pad k (\<lambda>p. p\<lparr>oc_of := TIMER_OC_MODE_PWM1\<rparr>) \<circ> (\<lambda>t. t\<lparr>cen := False\<rparr>) \<circ>
                                     gap (env 0)) s;
                       s = s\<lparr>pwm_one_shot := (pwm_one_shot s)[unat ch := True]\<rparr>;
                       s = pwm_car_shadow_commit i pulse_us (on_tim i (hw_update \<circ> gap (env 2)) s)
                   in (BRIDGE_HW_OK, on_tim i ((\<lambda>t. t\<lparr>cen := True\<rparr>) \<circ> (\<lambda>t. t\<lparr>spm := True\<rparr>)) s))"

text \<open>Channel set-up: complementary output on, zero duty, plain compare mode.\<close>

definition pwm_channel_init :: "u8 \<Rightarrow> pwm_st \<Rightarrow> pwm_st" where
  "pwm_channel_init ch s =
     (let i = tim_of ch; k = unit_of ch;
          s = on_tim i ((\<lambda>t. t\<lparr>chcv := (chcv t)[k := 0]\<rparr>) \<circ> on_pad k (\<lambda>p. p\<lparr>outn_on := True, oc_of := TIMER_OC_MODE_PWM0\<rparr>)) s
      in s\<lparr>pwm_one_shot := (pwm_one_shot s)[unat ch := False]\<rparr>)"

section \<open>Capture\<close>

definition capture_delta :: "u32 \<Rightarrow> u32 \<Rightarrow> u32 \<Rightarrow> u32" where
  "capture_delta active now prev = (let m = active + 1 in (now + m - (prev mod m)) mod m)"

definition capture_edge :: "u32 \<Rightarrow> u32 \<Rightarrow> pwm_capture_state \<Rightarrow> pwm_capture_state" where
  "capture_edge now delta c =
     (if cap_edge c = 2
      then (if cap_state c = 0 then c\<lparr>last_tick := now, cap_state := 1\<rparr>
            else if cap_state c = 1
            then c\<lparr>pulse_width_ticks := delta, have_pulse := True, last_tick := now, cap_state := 2\<rparr>
            else c\<lparr>period_ticks := delta + pulse_width_ticks c, have_period := True, last_tick := now, cap_state := 1\<rparr>)
      else if cap_state c = 0 then c\<lparr>last_tick := now, cap_state := 1\<rparr>
      else c\<lparr>period_ticks := delta, have_period := True, last_tick := now\<rparr>)"

definition pwm_capture_drain :: "(nat \<Rightarrow> bool) \<Rightarrow> u8 \<Rightarrow> pwm_st \<Rightarrow> pwm_st" where
  "pwm_capture_drain env ch s =
     (let i = tim_of ch; k = unit_of ch
      in if \<not> capif (tims s ! i) ! k then s
         else let now = capcv (tims s ! i) ! k;
                  s = on_tim i (gap (env 0) \<circ> (\<lambda>t. t\<lparr>capif := (capif t)[k := False]\<rparr>)) s;
                  s = pwm_capture_consume_update (env 1) i s;
                  c = pwm_capture s ! unat ch;
                  delta = capture_delta (pwm_capture_active_car s ! i) now (last_tick c)
              in s\<lparr>pwm_capture := (pwm_capture s)[unat ch := capture_edge now delta c]\<rparr>)"

definition pwm_capture_begin :: "u8 \<Rightarrow> u8 \<Rightarrow> pwm_st \<Rightarrow> int \<times> pwm_st" where
  "pwm_capture_begin ch edge s =
     (if unat ch \<ge> PWM_CHANNEL_COUNT then (BRIDGE_HW_ERR_RANGE, s)
      else if edge > 2 then (BRIDGE_HW_ERR_INVAL, s)
      else let k = unit_of ch;
               pol = (if edge = 0 then TIMER_IC_POLARITY_RISING else if edge = 1 then TIMER_IC_POLARITY_FALLING
                      else TIMER_IC_POLARITY_BOTH_EDGE);
               s = pwm_channel_claim ch s;
               s = on_tim (tim_of ch) ((\<lambda>t. t\<lparr>capif := (capif t)[k := False]\<rparr>) \<circ>
                     on_pad k (\<lambda>p. p\<lparr>outn_on := False, mch_capture := Some pol, pulled_up := True\<rparr>)) s
           in (BRIDGE_HW_OK, s\<lparr>pwm_capture := (pwm_capture s)[unat ch :=
                 \<lparr>last_tick = 0, period_ticks = 0, pulse_width_ticks = 0, cap_edge = edge, cap_state = 0, in_capture = True,
                  have_period = False, have_pulse = False\<rparr>]\<rparr>))"

definition pwm_capture_read :: "(nat \<Rightarrow> bool) \<Rightarrow> u8 \<Rightarrow> pwm_st \<Rightarrow> int \<times> u32 \<times> u32 \<times> pwm_st" where
  "pwm_capture_read env ch s =
     (if unat ch \<ge> PWM_CHANNEL_COUNT then (BRIDGE_HW_ERR_RANGE, 0, 0, s)
      else if \<not> in_capture (pwm_capture s ! unat ch) then (BRIDGE_HW_ERR_INVAL, 0, 0, s)
      else let s = pwm_capture_drain env ch s; c = pwm_capture s ! unat ch
           in if \<not> have_period c then (BRIDGE_HW_ERR_NOT_READY, 0, 0, s)
              else (BRIDGE_HW_OK, period_ticks c * PWM_TIMER_TICK_NS, pulse_width_ticks c * PWM_TIMER_TICK_NS,
                    s\<lparr>pwm_capture := (pwm_capture s)[unat ch := c\<lparr>have_period := False, have_pulse := False\<rparr>]\<rparr>))"

definition pwm_capture_end :: "u8 \<Rightarrow> pwm_st \<Rightarrow> int \<times> pwm_st" where
  "pwm_capture_end ch s =
     (if unat ch \<ge> PWM_CHANNEL_COUNT then (BRIDGE_HW_ERR_RANGE, s)
      else let k = unit_of ch;
               s = on_tim (tim_of ch) (on_pad k (\<lambda>p. p\<lparr>mch_capture := None, pulled_up := False\<rparr>) \<circ>
                     (\<lambda>t. t\<lparr>capif := (capif t)[k := False]\<rparr>)) s;
               s = pwm_channel_release ch (pwm_channel_init ch s)
           in (BRIDGE_HW_OK, s\<lparr>pwm_capture := (pwm_capture s)[unat ch := (pwm_capture s ! unat ch)\<lparr>in_capture := False\<rparr>]\<rparr>))"

section \<open>Boot\<close>

text \<open>Timer set-up leaves the update flag in either state: the vendor's initialisation forces an update.\<close>

definition pwm_timer_init :: "bool \<Rightarrow> nat \<Rightarrow> pwm_st \<Rightarrow> pwm_st" where
  "pwm_timer_init b i s = on_tim i (\<lambda>t.
     \<lparr>car = PWM_TIMER_ARR_MAX, car_active = PWM_TIMER_ARR_MAX, chcv = replicate 4 0, chcv_active = replicate 4 0, cnt = 0,
      cen = True, updis = False, spm = False, cam = TIMER_COUNTER_EDGE, upif = b, capif = replicate 4 False,
      capcv = replicate 4 0,
      pads = replicate 4 \<lparr>oc_of = TIMER_OC_MODE_PWM0, outn_on = False, mch_capture = None, pulled_up = False\<rparr>,
      smc = TIMER_SLAVE_MODE_DISABLE, trgs = 0, trgo_update = False\<rparr>) s"

definition pwm_bss :: "tim list \<Rightarrow> pwm_st" where
  "pwm_bss ts = \<lparr>tims = ts, pwm_one_shot = replicate 8 False, pwm_align_mode = [0, 0], pwm_timer_claims = [0, 0],
     pwm_capture = replicate 8 \<lparr>last_tick = 0, period_ticks = 0, pulse_width_ticks = 0, cap_edge = 0, cap_state = 0,
       in_capture = False, have_period = False, have_pulse = False\<rparr>,
     pwm_capture_active_car = [PWM_TIMER_ARR_MAX, PWM_TIMER_ARR_MAX], pwm_capture_pending_car = [0, 0],
     pwm_capture_pending_valid = [False, False], timer_sync_master_mask = 0\<rparr>"

definition pwm_bring_up :: "bool \<Rightarrow> bool \<Rightarrow> tim list \<Rightarrow> pwm_st" where
  "pwm_bring_up b0 b1 ts =
     fold pwm_channel_init [0, 1, 2, 3, 4, 5, 6, 7] (pwm_timer_init b1 1 (pwm_timer_init b0 0 (pwm_bss ts)))"

section \<open>Runs\<close>

text \<open>What each channel was last asked to do.\<close>

datatype channel_use = Unused | Continuous | Capturing | One_Shot

text \<open>Requests one after the other, update events, and whatever else the hardware does to the counter, its
  run bit and the capture units in between.\<close>

inductive pwm_run :: "pwm_st \<Rightarrow> (nat \<Rightarrow> channel_use) \<Rightarrow> bool" where
  boot: "length ts = 2 \<Longrightarrow> pwm_run (pwm_bring_up b0 b1 ts) (\<lambda>_. Unused)"
| set: "pwm_run s u \<Longrightarrow> pwm_set env ch p d s = (rc, s') \<Longrightarrow>
    pwm_run s' (if rc = BRIDGE_HW_OK then u(unat ch := Continuous) else u)"
| configure: "pwm_run s u \<Longrightarrow> pwm_configure env ch al dt br s = (rc, s') \<Longrightarrow> pwm_run s' u"
| single_pulse: "pwm_run s u \<Longrightarrow> pwm_single_pulse env ch ns s = (rc, s') \<Longrightarrow>
    pwm_run s' (if rc = BRIDGE_HW_OK then u(unat ch := One_Shot) else u)"
| capture_begin: "pwm_run s u \<Longrightarrow> pwm_capture_begin ch e s = (rc, s') \<Longrightarrow>
    pwm_run s' (if rc = BRIDGE_HW_OK then u(unat ch := Capturing) else u)"
| capture_read: "pwm_run s u \<Longrightarrow> pwm_capture_read env ch s = (rc, p, w, s') \<Longrightarrow> pwm_run s' u"
| capture_end: "pwm_run s u \<Longrightarrow> pwm_capture_end ch s = (rc, s') \<Longrightarrow>
    pwm_run s' (if rc = BRIDGE_HW_OK then u(unat ch := Unused) else u)"
| sync: "pwm_run s u \<Longrightarrow> timer_sync master slave m s = (rc, s') \<Longrightarrow> pwm_run s' u"
| update: "pwm_run s u \<Longrightarrow> i < 2 \<Longrightarrow> pwm_run (on_tim i hw_update s) u"
| hardware: "pwm_run s u \<Longrightarrow> i < 2 \<Longrightarrow> length fl = 4 \<Longrightarrow> length cv = 4 \<Longrightarrow>
    pwm_run (on_tim i (\<lambda>t. t\<lparr>cnt := n, cen := b, capif := fl, capcv := cv\<rparr>) s) u"

section \<open>Invariant\<close>

text \<open>The mirror against the active reload: the active value is the recorded one, or the pending one if an
  update event has not been consumed yet; the preload holds the value last asked for.\<close>

definition mirrors :: "tim \<Rightarrow> u32 \<Rightarrow> u32 \<Rightarrow> bool \<Rightarrow> bool" where
  "mirrors t act pend valid \<longleftrightarrow> car_active t = (if upif t \<and> valid then pend else act) \<and> car t = (if valid then pend else act)"

abbreviation (input) mirror :: "nat \<Rightarrow> pwm_st \<Rightarrow> bool" where
  "mirror i s \<equiv> mirrors (tims s ! i) (pwm_capture_active_car s ! i) (pwm_capture_pending_car s ! i) (pwm_capture_pending_valid s ! i)"

definition tim_ok :: "tim \<Rightarrow> bool" where
  "tim_ok t \<longleftrightarrow> length (chcv t) = 4 \<and> length (capif t) = 4 \<and> length (capcv t) = 4 \<and> length (pads t) = 4 \<and>
     \<not> updis t \<and> car t \<le> PWM_TIMER_ARR_MAX \<and> car_active t \<le> PWM_TIMER_ARR_MAX"

definition sized_st :: "pwm_st \<Rightarrow> bool" where
  "sized_st s \<longleftrightarrow> length (tims s) = 2 \<and> length (pwm_one_shot s) = 8 \<and> length (pwm_align_mode s) = 2 \<and> length (pwm_timer_claims s) = 2 \<and>
     length (pwm_capture s) = 8 \<and> length (pwm_capture_active_car s) = 2 \<and> length (pwm_capture_pending_car s) = 2 \<and>
     length (pwm_capture_pending_valid s) = 2"

definition regs_ok :: "pwm_st \<Rightarrow> bool" where
  "regs_ok s \<longleftrightarrow> sized_st s \<and> (\<forall>i < 2. tim_ok (tims s ! i) \<and> mirror i s)"

definition sync_ok :: "pwm_st \<Rightarrow> bool" where
  "sync_ok s \<longleftrightarrow> (\<forall>i < 2. timer_sync_master_active (of_nat i) s \<longleftrightarrow> smc (tims s ! (1 - i)) \<noteq> TIMER_SLAVE_MODE_DISABLE)"

definition claims_ok :: "pwm_st \<Rightarrow> (nat \<Rightarrow> channel_use) \<Rightarrow> bool" where
  "claims_ok s u \<longleftrightarrow> (\<forall>i < 2. \<forall>k < 8. bit (pwm_timer_claims s ! i) k \<longleftrightarrow> k < 4 \<and> u (4 * i + k) \<in> {Continuous, Capturing})"

lemma channel_lt:
  assumes "unat ch < 8"
  shows "tim_of ch < 2" "unit_of ch < 4" "tim_of ch = unat ch div 4" "unat (ch AND 3) = unat ch mod 4"
proof -
  have "unat ch = 0 \<or> unat ch = 1 \<or> unat ch = 2 \<or> unat ch = 3 \<or> unat ch = 4 \<or> unat ch = 5 \<or> unat ch = 6 \<or> unat ch = 7"
    using assms by arith
  then show "tim_of ch < 2" "unit_of ch < 4" "tim_of ch = unat ch div 4" by (auto simp: pwm_channels_def)
  have "unat (ch AND 3) = unat ch AND 3" by (simp add: unsigned_and_eq)
  also have "\<dots> = take_bit 2 (unat ch)" by (simp add: take_bit_eq_mask mask_eq_exp_minus_1)
  finally show "unat (ch AND 3) = unat ch mod 4" by (simp add: take_bit_eq_mod)
qed

subsection \<open>Timers\<close>

lemma update_sel [simp]:
  "car (hw_update t) = car t" "chcv (hw_update t) = chcv t" "updis (hw_update t) = updis t" "spm (hw_update t) = spm t"
  "cam (hw_update t) = cam t" "capif (hw_update t) = capif t" "capcv (hw_update t) = capcv t" "pads (hw_update t) = pads t"
  "smc (hw_update t) = smc t" "trgs (hw_update t) = trgs t" "trgo_update (hw_update t) = trgo_update t"
  by (simp_all add: hw_update_def)

lemma gap_sel [simp]:
  "car (gap b t) = car t" "chcv (gap b t) = chcv t" "updis (gap b t) = updis t" "spm (gap b t) = spm t"
  "cam (gap b t) = cam t" "capif (gap b t) = capif t" "capcv (gap b t) = capcv t" "pads (gap b t) = pads t"
  "smc (gap b t) = smc t" "trgs (gap b t) = trgs t" "trgo_update (gap b t) = trgo_update t"
  by (simp_all add: gap_def)

lemma gap_updis [simp]: "updis t \<Longrightarrow> gap b t = t"
  by (simp add: gap_def hw_update_def)

lemma on_pad_sel [simp]:
  "car (on_pad k f t) = car t" "car_active (on_pad k f t) = car_active t" "chcv (on_pad k f t) = chcv t"
  "chcv_active (on_pad k f t) = chcv_active t" "updis (on_pad k f t) = updis t" "spm (on_pad k f t) = spm t"
  "upif (on_pad k f t) = upif t" "capif (on_pad k f t) = capif t" "capcv (on_pad k f t) = capcv t"
  "smc (on_pad k f t) = smc t" "cen (on_pad k f t) = cen t" "length (pads (on_pad k f t)) = length (pads t)"
  by (simp_all add: on_pad_def)

lemma on_tim_sel [simp]:
  "length (tims (on_tim i f s)) = length (tims s)"
  "pwm_one_shot (on_tim i f s) = pwm_one_shot s" "pwm_align_mode (on_tim i f s) = pwm_align_mode s"
  "pwm_timer_claims (on_tim i f s) = pwm_timer_claims s" "pwm_capture (on_tim i f s) = pwm_capture s"
  "pwm_capture_active_car (on_tim i f s) = pwm_capture_active_car s"
  "pwm_capture_pending_car (on_tim i f s) = pwm_capture_pending_car s"
  "pwm_capture_pending_valid (on_tim i f s) = pwm_capture_pending_valid s"
  "timer_sync_master_mask (on_tim i f s) = timer_sync_master_mask s"
  by (simp_all add: on_tim_def)

lemma tims_on_tim [simp]:
  "i < length (tims s) \<Longrightarrow> tims (on_tim i f s) ! i = f (tims s ! i)" "j \<noteq> i \<Longrightarrow> tims (on_tim i f s) ! j = tims s ! j"
  by (simp_all add: on_tim_def)

lemma mirrors_update [simp]: "mirrors t act pend valid \<Longrightarrow> mirrors (hw_update t) act pend valid"
  by (auto simp: mirrors_def hw_update_def)

lemma mirrors_gap [simp]: "mirrors t act pend valid \<Longrightarrow> mirrors (gap b t) act pend valid"
  by (simp add: gap_def)

lemma mirrors_frame [simp]:
  "mirrors (t\<lparr>chcv := cs\<rparr>) act pend valid = mirrors t act pend valid" "mirrors (t\<lparr>spm := b\<rparr>) act pend valid = mirrors t act pend valid"
  "mirrors (t\<lparr>cen := b\<rparr>) act pend valid = mirrors t act pend valid" "mirrors (t\<lparr>cam := c\<rparr>) act pend valid = mirrors t act pend valid"
  "mirrors (t\<lparr>cnt := n\<rparr>) act pend valid = mirrors t act pend valid" "mirrors (t\<lparr>capif := fl\<rparr>) act pend valid = mirrors t act pend valid"
  "mirrors (t\<lparr>updis := b\<rparr>) act pend valid = mirrors t act pend valid"
  "mirrors (on_pad k f t) act pend valid = mirrors t act pend valid"
  by (simp_all add: mirrors_def)

lemma tim_ok_simps [simp]:
  "tim_ok t \<Longrightarrow> tim_ok (hw_update t)" "tim_ok t \<Longrightarrow> tim_ok (gap b t)" "tim_ok (on_pad k f t) = tim_ok t"
  "length cs = length (chcv t) \<Longrightarrow> tim_ok (t\<lparr>chcv := cs\<rparr>) = tim_ok t" "tim_ok (t\<lparr>spm := b\<rparr>) = tim_ok t" "tim_ok (t\<lparr>cen := b\<rparr>) = tim_ok t"
  "tim_ok (t\<lparr>cam := c\<rparr>) = tim_ok t" "tim_ok (t\<lparr>cnt := n\<rparr>) = tim_ok t" "tim_ok (t\<lparr>upif := b\<rparr>) = tim_ok t"
  "length fs = length (capif t) \<Longrightarrow> tim_ok (t\<lparr>capif := fs\<rparr>) = tim_ok t"
  "v \<le> PWM_TIMER_ARR_MAX \<Longrightarrow> tim_ok t \<Longrightarrow> tim_ok (t\<lparr>car := v\<rparr>)"
  by (auto simp: tim_ok_def gap_def hw_update_def)

text \<open>Writing one timer, its claims aside, keeps the registers sound if it keeps that timer sound.\<close>

lemma regs_ok_on_tim:
  assumes "regs_ok s" "i < 2" "tim_ok (f (tims s ! i))"
    "mirrors (f (tims s ! i)) (pwm_capture_active_car s ! i) (pwm_capture_pending_car s ! i) (pwm_capture_pending_valid s ! i)"
  shows "regs_ok (on_tim i f s)"
  using assms by (auto simp: regs_ok_def sized_st_def on_tim_def nth_list_update)

lemma regs_okD: "regs_ok s \<Longrightarrow> i < 2 \<Longrightarrow> tim_ok (tims s ! i)" "regs_ok s \<Longrightarrow> i < 2 \<Longrightarrow> mirror i s"
  "regs_ok s \<Longrightarrow> length (tims s) = 2" "regs_ok s \<Longrightarrow> i < 2 \<Longrightarrow> \<not> updis (tims s ! i)"
  by (auto simp: regs_ok_def sized_st_def tim_ok_def)

lemma regs_ok_step:
  assumes "regs_ok s" "i < 2" "\<And>t. tim_ok t \<Longrightarrow> tim_ok (f t)" "\<And>t act pend valid. mirrors t act pend valid \<Longrightarrow> mirrors (f t) act pend valid"
  shows "regs_ok (on_tim i f s)"
  using assms regs_okD(1,2) [OF assms(1,2)] by (intro regs_ok_on_tim) auto

lemma regs_ok_frame [simp]:
  "length xs = length (pwm_timer_claims s) \<Longrightarrow> regs_ok (s\<lparr>pwm_timer_claims := xs\<rparr>) = regs_ok s"
  "length ys = length (pwm_one_shot s) \<Longrightarrow> regs_ok (s\<lparr>pwm_one_shot := ys\<rparr>) = regs_ok s"
  "length zs = length (pwm_align_mode s) \<Longrightarrow> regs_ok (s\<lparr>pwm_align_mode := zs\<rparr>) = regs_ok s"
  "length cs = length (pwm_capture s) \<Longrightarrow> regs_ok (s\<lparr>pwm_capture := cs\<rparr>) = regs_ok s"
  "regs_ok (s\<lparr>timer_sync_master_mask := k\<rparr>) = regs_ok s"
  by (simp_all add: regs_ok_def sized_st_def)

lemma regs_ok_claim [simp]: "regs_ok (pwm_channel_claim ch s) = regs_ok s" "regs_ok (pwm_channel_release ch s) = regs_ok s"
  "regs_ok (timer_sync_master_set i b s) = regs_ok s"
  by (simp_all add: pwm_channel_claim_def pwm_channel_release_def timer_sync_master_set_def)

lemma regs_ok_consume:
  assumes "regs_ok s" "i < 2"
  shows "regs_ok (pwm_capture_consume_update b i s)"
  using assms regs_okD(4) [OF assms]
  by (auto simp: pwm_capture_consume_update_def Let_def regs_ok_def sized_st_def on_tim_def nth_list_update mirrors_def gap_def hw_update_def tim_ok_def)

text \<open>A forced update followed by the commit.\<close>

lemma regs_ok_commit:
  assumes "sized_st s" "i < 2" "tim_ok (tims s ! i)" "car (tims s ! i) = v" "\<forall>j < 2. j \<noteq> i \<longrightarrow> tim_ok (tims s ! j) \<and> mirror j s"
  shows "regs_ok (pwm_car_shadow_commit i v (on_tim i hw_update s))"
  using assms
  by (auto simp: pwm_car_shadow_commit_def Let_def regs_ok_def sized_st_def on_tim_def nth_list_update mirrors_def hw_update_def tim_ok_def)

text \<open>The transaction: between the two preload writes and the record of the reload no update takes effect.\<close>

lemma regs_ok_transaction:
  assumes "regs_ok s" "i < 2" "arr \<le> PWM_TIMER_ARR_MAX"
  shows "regs_ok (pwm_preload_transaction i (pwm_preload_load env i k arr compare) s)"
  using assms regs_okD(4) [OF assms(1,2)]
  by (auto simp: pwm_preload_transaction_def pwm_preload_load_def pwm_car_shadow_defer_def pwm_capture_consume_update_def Let_def
    regs_ok_def sized_st_def on_tim_def nth_list_update mirrors_def tim_ok_def)

lemma counter_values_bounds:
  "pwm_counter_values p d c = Inr (arr, compare) \<Longrightarrow> arr \<le> PWM_TIMER_ARR_MAX \<and> compare \<le> PWM_TIMER_ARR_MAX"
  by (auto simp: pwm_counter_values_def Let_def not_less split: if_splits)

lemma sized_frame [simp]:
  "sized_st (on_tim i f s) = sized_st s" "sized_st (pwm_channel_claim ch s) = sized_st s"
  "length ys = length (pwm_one_shot s) \<Longrightarrow> sized_st (s\<lparr>pwm_one_shot := ys\<rparr>) = sized_st s"
  by (simp_all add: sized_st_def pwm_channel_claim_def)

lemma tims_claim [simp]: "tims (pwm_channel_claim ch s) = tims s" "tims (pwm_channel_release ch s) = tims s"
  "tims (timer_sync_master_set i b s) = tims s"
  by (simp_all add: pwm_channel_claim_def pwm_channel_release_def timer_sync_master_set_def)

lemma regs_ok_apply:
  assumes "regs_ok s" "unat ch < 8" "arr \<le> PWM_TIMER_ARR_MAX"
  shows "regs_ok (snd (pwm_apply_counter_values env ch arr compare s))"
proof -
  let ?i = "tim_of ch" and ?k = "unit_of ch"
  note i = channel_lt(1) [OF assms(2)]
  define s1 where "s1 = (on_tim ?i (gap (env 1) \<circ> on_pad ?k (\<lambda>p. p\<lparr>oc_of := TIMER_OC_MODE_PWM0\<rparr>) \<circ> (\<lambda>t. t\<lparr>spm := False\<rparr>) \<circ> gap (env 0))
      (pwm_channel_claim ch s))"
  define s2 where "s2 = s1\<lparr>pwm_one_shot := (pwm_one_shot s1)[unat ch := False]\<rparr>"
  have s2: "regs_ok s2" unfolding s2_def s1_def
    using assms(1) i by (auto intro!: regs_ok_step)
  let ?halted = "on_tim ?i (gap (env 3) \<circ> (\<lambda>t. t\<lparr>chcv := (chcv t)[?k := compare]\<rparr>) \<circ> gap (env 2) \<circ> (\<lambda>t. t\<lparr>car := arr\<rparr>)) s2"
  have "regs_ok (pwm_car_shadow_commit ?i arr (on_tim ?i hw_update ?halted))"
    using s2 i assms(3) regs_okD(1) [OF s2 i] by (intro regs_ok_commit) (auto simp: regs_ok_def sized_st_def on_tim_def nth_list_update)
  moreover have "on_tim ?i hw_update ?halted = on_tim ?i (hw_update \<circ> gap (env 3) \<circ> (\<lambda>t. t\<lparr>chcv := (chcv t)[?k := compare]\<rparr>) \<circ> gap (env 2) \<circ> (\<lambda>t. t\<lparr>car := arr\<rparr>)) s2"
    using s2 i by (simp add: on_tim_def regs_ok_def sized_st_def)
  ultimately have "regs_ok (if b then pwm_preload_transaction ?i (pwm_preload_load env ?i ?k arr compare) s2
      else pwm_car_shadow_commit ?i arr (on_tim ?i (hw_update \<circ> gap (env 3) \<circ> (\<lambda>t. t\<lparr>chcv := (chcv t)[?k := compare]\<rparr>) \<circ> gap (env 2) \<circ>
        (\<lambda>t. t\<lparr>car := arr\<rparr>)) s2))" (is "regs_ok (?next b)") for b
    using regs_ok_transaction [OF s2 i assms(3)] by (cases b) (simp_all only: if_True if_False)
  then have "regs_ok (on_tim ?i ((\<lambda>t. t\<lparr>cen := True\<rparr>) \<circ> gap (env 4)) (?next b))" for b
    by (rule regs_ok_step [OF _ i]) auto
  from this [of "cen (tims s ! ?i)"] show ?thesis using assms(1)
    unfolding s2_def s1_def pwm_apply_counter_values_def Let_def by (cases "cen (tims s ! ?i)") simp_all
qed

lemma regs_ok_set: "regs_ok s \<Longrightarrow> pwm_set env ch p d s = (rc, s') \<Longrightarrow> regs_ok s'"
  using counter_values_bounds [of p d "pwm_channel_center_aligned ch s"] regs_ok_apply [of s ch _ env]
  by (auto simp: pwm_set_def not_le split: if_splits sum.splits prod.splits) (metis snd_conv)

lemma regs_ok_configure: "regs_ok s \<Longrightarrow> pwm_configure env ch al dt br s = (rc, s') \<Longrightarrow> regs_ok s'"
  by (auto simp: pwm_configure_def Let_def not_le channel_lt split: if_splits intro!: regs_ok_step)

lemma regs_ok_single_pulse:
  assumes "regs_ok s" "pwm_single_pulse env ch ns s = (rc, s')"
  shows "regs_ok s'"
proof (cases "rc = BRIDGE_HW_OK")
  case False
  then show ?thesis using assms by (auto simp: pwm_single_pulse_def Let_def split: if_splits)
next
  case True
  let ?i = "tim_of ch" and ?k = "unit_of ch" and ?us = "ns div PWM_TIMER_TICK_NS"
  from True assms(2) have c: "unat ch < 8" "?us \<le> PWM_TIMER_ARR_MAX" by (auto simp: pwm_single_pulse_def Let_def not_le not_less split: if_splits)
  note i = channel_lt(1) [OF c(1)]
  let ?f = "(\<lambda>t. t\<lparr>chcv := (chcv t)[?k := PWM_ONE_SHOT_DELAY_TICKS]\<rparr>) \<circ> gap (env 1) \<circ> (\<lambda>t. t\<lparr>car := ?us\<rparr>) \<circ>
     (\<lambda>t. t\<lparr>cnt := 0\<rparr>) \<circ> on_pad ?k (\<lambda>p. p\<lparr>oc_of := TIMER_OC_MODE_PWM1\<rparr>) \<circ> (\<lambda>t. t\<lparr>cen := False\<rparr>) \<circ> gap (env 0)"
  define s1 where "s1 = on_tim ?i (gap (env 2)) ((on_tim ?i ?f (pwm_channel_release ch s))\<lparr>pwm_one_shot := (pwm_one_shot s)[unat ch := True]\<rparr>)"
  have r: "regs_ok (pwm_channel_release ch s)" using assms(1) by simp
  have l: "pwm_capture_active_car (pwm_channel_release ch s) = pwm_capture_active_car s"
    "pwm_capture_pending_car (pwm_channel_release ch s) = pwm_capture_pending_car s"
    "pwm_capture_pending_valid (pwm_channel_release ch s) = pwm_capture_pending_valid s"
    "length (pwm_timer_claims (pwm_channel_release ch s)) = length (pwm_timer_claims s)"
    by (simp_all add: pwm_channel_release_def)
  have "regs_ok (pwm_car_shadow_commit ?i ?us (on_tim ?i hw_update s1))"
    using r assms(1) i c(2) regs_okD(1) [OF assms(1) i]
    by (intro regs_ok_commit) (auto simp: s1_def l regs_ok_def sized_st_def on_tim_def nth_list_update)
  from regs_ok_step [OF this i, of "(\<lambda>t. t\<lparr>cen := True\<rparr>) \<circ> (\<lambda>t. t\<lparr>spm := True\<rparr>)"]
  have "regs_ok (on_tim ?i ((\<lambda>t. t\<lparr>cen := True\<rparr>) \<circ> (\<lambda>t. t\<lparr>spm := True\<rparr>)) (pwm_car_shadow_commit ?i ?us (on_tim ?i hw_update s1)))" by simp
  moreover have "on_tim ?i hw_update s1 = on_tim ?i (hw_update \<circ> gap (env 2))
      ((on_tim ?i ?f (pwm_channel_release ch s))\<lparr>pwm_one_shot := (pwm_one_shot s)[unat ch := True]\<rparr>)"
    using assms(1) i by (simp add: s1_def on_tim_def regs_ok_def sized_st_def)
  moreover have "pwm_one_shot (pwm_channel_release ch s) = pwm_one_shot s" by (simp add: pwm_channel_release_def)
  ultimately show ?thesis using True assms(2) by (auto simp: pwm_single_pulse_def Let_def split: if_splits)
qed

lemma channel_init_regs: "regs_ok s \<Longrightarrow> unat ch < 8 \<Longrightarrow> regs_ok (pwm_channel_init ch s)"
  by (auto simp: pwm_channel_init_def Let_def channel_lt intro!: regs_ok_step)

lemma regs_ok_capture_begin: "regs_ok s \<Longrightarrow> pwm_capture_begin ch e s = (rc, s') \<Longrightarrow> regs_ok s'"
  by (auto simp: pwm_capture_begin_def Let_def not_le channel_lt split: if_splits intro!: regs_ok_step)

lemma regs_ok_capture_end: "regs_ok s \<Longrightarrow> pwm_capture_end ch s = (rc, s') \<Longrightarrow> regs_ok s'"
  by (auto simp: pwm_capture_end_def Let_def not_le channel_lt split: if_splits intro!: regs_ok_step channel_init_regs)

lemma regs_ok_drain: "regs_ok s \<Longrightarrow> unat ch < 8 \<Longrightarrow> regs_ok (pwm_capture_drain env ch s)"
  by (auto simp: pwm_capture_drain_def Let_def channel_lt intro!: regs_ok_step regs_ok_consume)

lemma regs_ok_capture_read: "regs_ok s \<Longrightarrow> pwm_capture_read env ch s = (rc, p, w, s') \<Longrightarrow> regs_ok s'"
  using regs_ok_drain [of s ch env] by (auto simp: pwm_capture_read_def Let_def not_le split: if_splits)

lemma regs_ok_sync: "regs_ok s \<Longrightarrow> timer_sync master slave m s = (rc, s') \<Longrightarrow> regs_ok s'"
  by (auto simp: timer_sync_def Let_def not_le word_less_nat_alt mirrors_def tim_ok_def split: if_splits option.splits intro!: regs_ok_step)

lemma regs_ok_boot: "length ts = 2 \<Longrightarrow> regs_ok (pwm_bring_up b0 b1 ts)"
proof -
  assume l: "length ts = 2"
  let ?s = "pwm_timer_init b1 1 (pwm_timer_init b0 0 (pwm_bss ts))"
  have "regs_ok ?s"
    using l by (auto simp: pwm_timer_init_def pwm_bss_def on_tim_def regs_ok_def sized_st_def tim_ok_def mirrors_def less_Suc_eq numeral_2_eq_2)
  then show ?thesis by (simp add: pwm_bring_up_def channel_init_regs)
qed

lemma run_regs: "pwm_run s u \<Longrightarrow> regs_ok s"
proof (induction rule: pwm_run.induct)
  case (hardware s u i fl cv n b)
  then show ?case by (intro regs_ok_step) (auto simp: tim_ok_def mirrors_def)
qed (auto intro: regs_ok_boot regs_ok_set regs_ok_configure regs_ok_single_pulse regs_ok_capture_begin regs_ok_capture_end
  regs_ok_capture_read regs_ok_sync regs_ok_step)

subsection \<open>Synchronisation\<close>

text \<open>Only \<open>timer_sync\<close> touches slave modes and the master mask.\<close>

definition same_sync :: "pwm_st \<Rightarrow> pwm_st \<Rightarrow> bool" where
  "same_sync s s' \<longleftrightarrow> map smc (tims s') = map smc (tims s) \<and> timer_sync_master_mask s' = timer_sync_master_mask s"

lemma same_sync_refl [simp]: "same_sync s s"
  by (simp add: same_sync_def)

lemma same_sync_on_tim: "(\<And>t. smc (f t) = smc t) \<Longrightarrow> map smc (tims (on_tim i f s)) = map smc (tims s)"
  by (rule nth_equalityI) (simp_all add: on_tim_def, metis nth_list_update_eq nth_list_update_neq)

lemma claim_sel [simp]: "timer_sync_master_mask (pwm_channel_claim ch s) = timer_sync_master_mask s"
  "timer_sync_master_mask (pwm_channel_release ch s) = timer_sync_master_mask s"
  by (simp_all add: pwm_channel_claim_def pwm_channel_release_def)

lemma same_sync_consume [simp]:
  "map smc (tims (pwm_capture_consume_update b i s)) = map smc (tims s)"
  "timer_sync_master_mask (pwm_capture_consume_update b i s) = timer_sync_master_mask s"
  by (simp_all add: pwm_capture_consume_update_def Let_def same_sync_on_tim)

lemma same_sync_shadow [simp]:
  "map smc (tims (pwm_car_shadow_defer b i v s)) = map smc (tims s)" "map smc (tims (pwm_car_shadow_commit i v s)) = map smc (tims s)"
  "timer_sync_master_mask (pwm_car_shadow_defer b i v s) = timer_sync_master_mask s"
  "timer_sync_master_mask (pwm_car_shadow_commit i v s) = timer_sync_master_mask s"
  by (simp_all add: pwm_car_shadow_defer_def pwm_car_shadow_commit_def Let_def same_sync_on_tim)

lemma same_sync_transaction [simp]:
  "map smc (tims (pwm_preload_transaction i (pwm_preload_load env i k arr compare) s)) = map smc (tims s)"
  "timer_sync_master_mask (pwm_preload_transaction i (pwm_preload_load env i k arr compare) s) = timer_sync_master_mask s"
  by (simp_all add: pwm_preload_transaction_def pwm_preload_load_def Let_def same_sync_on_tim)

lemma same_sync_apply: "pwm_apply_counter_values env ch arr compare s = (rc, s') \<Longrightarrow> same_sync s s'"
  by (auto simp: same_sync_def pwm_apply_counter_values_def Let_def same_sync_on_tim split: if_splits)

lemma same_sync_set: "pwm_set env ch p d s = (rc, s') \<Longrightarrow> same_sync s s'"
  by (auto simp: pwm_set_def split: if_splits sum.splits prod.splits dest: same_sync_apply)

lemma same_sync_others:
  "pwm_configure env ch al dt br s = (rc, s') \<Longrightarrow> same_sync s s'" "pwm_single_pulse env ch ns s = (rc, s') \<Longrightarrow> same_sync s s'"
  "pwm_capture_begin ch e s = (rc, s') \<Longrightarrow> same_sync s s'" "pwm_capture_end ch s = (rc, s') \<Longrightarrow> same_sync s s'"
  "pwm_capture_read env ch s = (rc, p, w, s') \<Longrightarrow> same_sync s s'"
  by (auto simp: same_sync_def pwm_configure_def pwm_single_pulse_def pwm_capture_begin_def pwm_capture_end_def pwm_capture_read_def
    pwm_capture_drain_def pwm_channel_init_def Let_def same_sync_on_tim split: if_splits)

lemma sync_ok_same: "same_sync s s' \<Longrightarrow> length (tims s) = 2 \<Longrightarrow> sync_ok s' = sync_ok s"
proof -
  assume a: "same_sync s s'" "length (tims s) = 2"
  then have "length (tims s') = 2" unfolding same_sync_def by (metis length_map)
  then have "smc (tims s' ! (1 - i)) = smc (tims s ! (1 - i))" for i
    using a unfolding same_sync_def by (metis One_nat_def diff_le_self le_imp_less_Suc nth_map numeral_2_eq_2)
  then show ?thesis using a by (simp add: sync_ok_def timer_sync_master_active_def same_sync_def)
qed

lemma master_active_bit: "timer_sync_master_active i s \<longleftrightarrow> i < 2 \<and> bit (timer_sync_master_mask s) (unat i)"
  by (simp add: timer_sync_master_active_def and_exp_eq_0_iff_not_bit)

lemma u8_lt_2: "(x :: u8) < 2 \<Longrightarrow> x = 0 \<or> x = 1"
  by (auto simp: word_less_nat_alt word_unat_eq_iff)

lemma sync_ok_sync:
  assumes "sync_ok s" "length (tims s) = 2" "timer_sync master slave m s = (rc, s')"
  shows "sync_ok s'"
proof (cases "rc = BRIDGE_HW_OK")
  case False
  then show ?thesis using assms by (auto simp: timer_sync_def Let_def split: if_splits option.splits)
next
  case True
  then have ms: "master = 0 \<and> slave = 1 \<or> master = 1 \<and> slave = 0" and "slave_mode_of m \<noteq> None"
    using assms(3) u8_lt_2 [of master] u8_lt_2 [of slave] by (auto simp: timer_sync_def Let_def not_le split: if_splits option.splits)
  then obtain sm where sm: "slave_mode_of m = Some sm" "sm = TIMER_SLAVE_MODE_DISABLE \<longleftrightarrow> m = 0"
    by (auto simp: slave_mode_of_def split: if_splits)
  have s': "s' = timer_sync_master_set master (m \<noteq> 0) (on_tim (unat slave) (\<lambda>t. t\<lparr>trgs := timer_sync_iti_lookup slave master, smc := sm\<rparr>)
      (on_tim (unat master) (\<lambda>t. t\<lparr>trgo_update := True\<rparr>) s))"
    using assms(3) True sm(1) by (auto simp: timer_sync_def Let_def split: if_splits)
  have i: "P i" if "i < 2" "P 0" "P 1" for P and i :: nat using that by (cases i) auto
  have old: "bit (timer_sync_master_mask s) 0 \<longleftrightarrow> smc (tims s ! 1) \<noteq> TIMER_SLAVE_MODE_DISABLE"
    "bit (timer_sync_master_mask s) (Suc 0) \<longleftrightarrow> smc (tims s ! 0) \<noteq> TIMER_SLAVE_MODE_DISABLE"
    using assms(1) [unfolded sync_ok_def, rule_format, of 0] assms(1) [unfolded sync_ok_def, rule_format, of 1] by (simp_all add: master_active_bit)
  show ?thesis unfolding sync_ok_def
  proof (intro allI impI, erule i)
    show "timer_sync_master_active (of_nat 0) s' \<longleftrightarrow> smc (tims s' ! (1 - 0)) \<noteq> TIMER_SLAVE_MODE_DISABLE"
      using ms assms(2)
      by (elim disjE conjE)
        (simp_all add: s' old sm(2) master_active_bit timer_sync_master_set_def bit_or_iff bit_and_iff bit_not_iff bit_1_iff on_tim_def bit_exp_iff word_le_nat_alt)
    show "timer_sync_master_active (of_nat 1) s' \<longleftrightarrow> smc (tims s' ! (1 - 1)) \<noteq> TIMER_SLAVE_MODE_DISABLE"
      using ms assms(2)
      by (elim disjE conjE)
        (simp_all add: s' old sm(2) master_active_bit timer_sync_master_set_def bit_or_iff bit_and_iff bit_not_iff bit_1_iff on_tim_def bit_exp_iff word_le_nat_alt)
  qed
qed

lemma sync_ok_op: "sync_ok s \<Longrightarrow> pwm_run s u \<Longrightarrow> same_sync s s' \<Longrightarrow> sync_ok s'"
  by (simp add: sync_ok_same regs_okD(3) run_regs)

lemma run_sync: "pwm_run s u \<Longrightarrow> sync_ok s"
proof (induction rule: pwm_run.induct)
  case (boot ts b0 b1)
  let ?s = "pwm_timer_init b1 1 (pwm_timer_init b0 0 (pwm_bss ts))"
  have keep: "sync_ok (pwm_channel_init ch s) = sync_ok s" if "length (tims s) = 2" for ch s
    by (rule sync_ok_same [OF _ that]) (simp add: same_sync_def pwm_channel_init_def Let_def same_sync_on_tim)
  have len: "length (tims (pwm_channel_init ch s)) = length (tims s)" for ch s by (simp add: pwm_channel_init_def Let_def)
  have "sync_ok ?s" using boot by (auto simp: sync_ok_def master_active_bit pwm_timer_init_def pwm_bss_def on_tim_def nth_list_update)
  then show ?case using boot by (simp add: pwm_bring_up_def keep len pwm_timer_init_def pwm_bss_def)
next
  case (sync s u master slave m rc s')
  then show ?case using sync_ok_sync regs_okD(3) [OF run_regs] by blast
next
  case (update s u i)
  have "same_sync s (on_tim i hw_update s)" by (simp add: same_sync_def same_sync_on_tim)
  then show ?case using update sync_ok_op by blast
next
  case (hardware s u i fl cv b n)
  have "same_sync s (on_tim i (\<lambda>t. t\<lparr>cnt := n, cen := b, capif := fl, capcv := cv\<rparr>) s)" by (simp add: same_sync_def same_sync_on_tim)
  then show ?case using hardware sync_ok_op by blast
qed (auto intro: sync_ok_op same_sync_set same_sync_others)

subsection \<open>Claims\<close>

lemma bit_channel: "bit (pwm_timer_channel_bit ch) k \<longleftrightarrow> k < 8 \<and> k = unat (ch AND 3)"
  by (auto simp: pwm_timer_channel_bit_def bit_exp_iff)

lemma claims_okD: "claims_ok s u \<Longrightarrow> i < 2 \<Longrightarrow> k < 8 \<Longrightarrow> bit (pwm_timer_claims s ! i) k \<longleftrightarrow> k < 4 \<and> u (4 * i + k) \<in> {Continuous, Capturing}"
  by (simp add: claims_ok_def)

lemma channel_index:
  assumes "unat ch < 8"
  shows "k < 4 \<Longrightarrow> 4 * i + k = unat ch \<longleftrightarrow> i = tim_of ch \<and> k = unat (ch AND 3)" "unat (ch AND 3) < 4"
proof -
  show "unat (ch AND 3) < 4" by (simp add: channel_lt(4) [OF assms])
  show "k < 4 \<Longrightarrow> 4 * i + k = unat ch \<longleftrightarrow> i = tim_of ch \<and> k = unat (ch AND 3)"
    unfolding channel_lt(3,4) [OF assms]
  proof
    assume k: "k < 4" and e: "4 * i + k = unat ch"
    have "unat ch div 4 = i" "unat ch mod 4 = k" unfolding e [symmetric] using k by simp_all
    then show "i = unat ch div 4 \<and> k = unat ch mod 4" by simp
  qed simp
qed

lemma claims_ok_write:
  assumes c: "claims_ok s u" and ch: "unat ch < 8" and l: "length (pwm_timer_claims s) = 2"
    and w: "\<And>k. k < 8 \<Longrightarrow> bit w k \<longleftrightarrow> (if k = unat (ch AND 3) then v \<in> {Continuous, Capturing} else bit (pwm_timer_claims s ! tim_of ch) k)"
  shows "claims_ok (s\<lparr>pwm_timer_claims := (pwm_timer_claims s)[tim_of ch := w]\<rparr>) (u(unat ch := v))"
  unfolding claims_ok_def
proof (intro allI impI)
  fix i k :: nat
  assume i: "i < 2" and k: "k < 8"
  show "bit (pwm_timer_claims (s\<lparr>pwm_timer_claims := (pwm_timer_claims s)[tim_of ch := w]\<rparr>) ! i) k \<longleftrightarrow>
      k < 4 \<and> (u(unat ch := v)) (4 * i + k) \<in> {Continuous, Capturing}"
    using claims_okD [OF c i k] w [OF k] channel_index(1) [OF ch, of k i] channel_index(2) [OF ch] l i by (cases "i = tim_of ch") (auto simp: fun_upd_def)
qed

lemma claims_ok_claim:
  assumes "claims_ok s u" "unat ch < 8" "length (pwm_timer_claims s) = 2" "v \<in> {Continuous, Capturing}"
  shows "claims_ok (pwm_channel_claim ch s) (u(unat ch := v))"
  using claims_ok_write [OF assms(1-3), of "pwm_timer_claims s ! tim_of ch OR pwm_timer_channel_bit ch" v] assms(2,4)
  by (auto simp: pwm_channel_claim_def bit_or_iff bit_channel)

lemma claims_ok_release:
  assumes "claims_ok s u" "unat ch < 8" "length (pwm_timer_claims s) = 2" "v \<in> {Unused, One_Shot}"
  shows "claims_ok (pwm_channel_release ch s) (u(unat ch := v))"
  using claims_ok_write [OF assms(1-3), of "pwm_timer_claims s ! tim_of ch AND NOT (pwm_timer_channel_bit ch)" v] assms(2,4)
  by (auto simp: pwm_channel_release_def bit_and_iff bit_not_iff bit_channel)

lemma sibling_claim:
  assumes "claims_ok s u" "unat ch < 8"
  shows "pwm_timer_has_sibling_claim (pwm_timer_claims s ! tim_of ch) ch \<longleftrightarrow>
    (\<exists>j < 8. j \<noteq> unat ch \<and> j div 4 = unat ch div 4 \<and> u j \<in> {Continuous, Capturing})"
proof -
  let ?w = "pwm_timer_claims s ! tim_of ch"
  have "pwm_timer_has_sibling_claim ?w ch \<longleftrightarrow> (\<exists>k < 8. bit ?w k \<and> k \<noteq> unat ch mod 4)"
    using channel_lt(4) [OF assms(2)]
    by (auto simp: pwm_timer_has_sibling_claim_def bit_eq_iff bit_and_iff bit_not_iff bit_channel)
  also have "\<dots> \<longleftrightarrow> (\<exists>k < 4. k \<noteq> unat ch mod 4 \<and> u (4 * (unat ch div 4) + k) \<in> {Continuous, Capturing})"
  proof -
    have "k < 4 \<Longrightarrow> k < (8 :: nat)" for k by simp
    then show ?thesis unfolding channel_lt(3) [OF assms(2), symmetric] using claims_okD [OF assms(1) channel_lt(1) [OF assms(2)]] by blast
  qed
  also have "\<dots> \<longleftrightarrow> (\<exists>j < 8. j \<noteq> unat ch \<and> j div 4 = unat ch div 4 \<and> u j \<in> {Continuous, Capturing})" (is "?l \<longleftrightarrow> ?r")
  proof
    assume ?l
    then obtain k where k: "k < 4" "k \<noteq> unat ch mod 4" "u (4 * (unat ch div 4) + k) \<in> {Continuous, Capturing}" by blast
    have "unat ch div 4 < 2" using assms(2) by (simp add: less_mult_imp_div_less)
    then have "4 * (unat ch div 4) + k < 8" using k(1) by linarith
    moreover have "(4 * (unat ch div 4) + k) div 4 = unat ch div 4" using k(1) by simp
    moreover have "4 * (unat ch div 4) + k \<noteq> unat ch"
      using channel_index(1) [OF assms(2) k(1), of "unat ch div 4"] k(2) channel_lt(4) [OF assms(2)] by simp
    ultimately have "4 * (unat ch div 4) + k < 8" "(4 * (unat ch div 4) + k) div 4 = unat ch div 4" "4 * (unat ch div 4) + k \<noteq> unat ch"
      by simp_all
    then show ?r using k(3) by blast
  next
    assume ?r
    then obtain j where j: "j < 8" "j \<noteq> unat ch" "j div 4 = unat ch div 4" "u j \<in> {Continuous, Capturing}" by blast
    then have "j mod 4 \<noteq> unat ch mod 4" by (metis div_mult_mod_eq)
    moreover have "4 * (unat ch div 4) + j mod 4 = j" using j(3) by (metis mult_div_mod_eq)
    ultimately show ?l using j(4) by (intro exI [of _ "j mod 4"]) auto
  qed
  finally show ?thesis .
qed

lemma claims_sel [simp]:
  "pwm_timer_claims (pwm_capture_consume_update b i s) = pwm_timer_claims s"
  "pwm_timer_claims (pwm_car_shadow_defer b i v s) = pwm_timer_claims s"
  "pwm_timer_claims (pwm_car_shadow_commit i v s) = pwm_timer_claims s"
  "pwm_timer_claims (pwm_preload_transaction i (pwm_preload_load env i k arr compare) s) = pwm_timer_claims s"
  "pwm_timer_claims (pwm_channel_init ch s) = pwm_timer_claims s" "pwm_timer_claims (pwm_capture_drain env ch s) = pwm_timer_claims s"
  "pwm_timer_claims (timer_sync_master_set j b' s) = pwm_timer_claims s"
  by (simp_all add: pwm_capture_consume_update_def pwm_car_shadow_defer_def pwm_car_shadow_commit_def pwm_preload_transaction_def
    pwm_preload_load_def pwm_channel_init_def pwm_capture_drain_def timer_sync_master_set_def Let_def)

lemma release_claims_cong:
  "pwm_timer_claims s = pwm_timer_claims s' \<Longrightarrow> pwm_timer_claims (pwm_channel_release ch s) = pwm_timer_claims (pwm_channel_release ch s')"
  by (simp add: pwm_channel_release_def)

lemma claims_effect:
  "pwm_set env ch p d s = (rc, s') \<Longrightarrow> if rc = BRIDGE_HW_OK then unat ch < 8 \<and> pwm_timer_claims s' = pwm_timer_claims (pwm_channel_claim ch s) else s' = s"
  "pwm_single_pulse env ch ns s = (rc, s') \<Longrightarrow>
    if rc = BRIDGE_HW_OK then unat ch < 8 \<and> pwm_timer_claims s' = pwm_timer_claims (pwm_channel_release ch s) else s' = s"
  "pwm_capture_begin ch e s = (rc, s') \<Longrightarrow>
    if rc = BRIDGE_HW_OK then unat ch < 8 \<and> pwm_timer_claims s' = pwm_timer_claims (pwm_channel_claim ch s) else s' = s"
  "pwm_capture_end ch s = (rc, s') \<Longrightarrow>
    if rc = BRIDGE_HW_OK then unat ch < 8 \<and> pwm_timer_claims s' = pwm_timer_claims (pwm_channel_release ch s) else s' = s"
  "pwm_configure env ch al dt br s = (rc, s') \<Longrightarrow> pwm_timer_claims s' = pwm_timer_claims s"
  "pwm_capture_read env ch s = (rc, p', w, s') \<Longrightarrow> pwm_timer_claims s' = pwm_timer_claims s"
  "timer_sync master slave m s = (rc, s') \<Longrightarrow> pwm_timer_claims s' = pwm_timer_claims s"
proof -
  show "if rc = BRIDGE_HW_OK then unat ch < 8 \<and> pwm_timer_claims s' = pwm_timer_claims (pwm_channel_claim ch s) else s' = s"
    if "pwm_set env ch p d s = (rc, s')"
    using that by (auto simp: pwm_set_def pwm_counter_values_def pwm_apply_counter_values_def Let_def not_le split: if_splits)
  show "if rc = BRIDGE_HW_OK then unat ch < 8 \<and> pwm_timer_claims s' = pwm_timer_claims (pwm_channel_release ch s) else s' = s"
    if "pwm_capture_end ch s = (rc, s')"
    using that by (auto simp: pwm_capture_end_def Let_def not_le intro!: release_claims_cong split: if_splits)
qed (auto simp: pwm_single_pulse_def pwm_capture_begin_def pwm_configure_def pwm_capture_read_def timer_sync_def Let_def not_le
  split: if_splits option.splits)

lemma claims_ok_cong: "claims_ok s u \<Longrightarrow> pwm_timer_claims s' = pwm_timer_claims s \<Longrightarrow> claims_ok s' u"
  by (simp add: claims_ok_def)

lemma claims_ok_after:
  assumes "pwm_run s u" "claims_ok s u"
  shows "if rc = BRIDGE_HW_OK then unat ch < 8 \<and> pwm_timer_claims s' = pwm_timer_claims (pwm_channel_claim ch s) else s' = s \<Longrightarrow>
      v \<in> {Continuous, Capturing} \<Longrightarrow> claims_ok s' (if rc = BRIDGE_HW_OK then u(unat ch := v) else u)"
    and "if rc = BRIDGE_HW_OK then unat ch < 8 \<and> pwm_timer_claims s' = pwm_timer_claims (pwm_channel_release ch s) else s' = s \<Longrightarrow>
      v \<in> {Unused, One_Shot} \<Longrightarrow> claims_ok s' (if rc = BRIDGE_HW_OK then u(unat ch := v) else u)"
proof -
  have l: "length (pwm_timer_claims s) = 2" using run_regs [OF assms(1)] by (simp add: regs_ok_def sized_st_def)
  show "claims_ok s' (if rc = BRIDGE_HW_OK then u(unat ch := v) else u)"
    if "if rc = BRIDGE_HW_OK then unat ch < 8 \<and> pwm_timer_claims s' = pwm_timer_claims (pwm_channel_claim ch s) else s' = s"
      "v \<in> {Continuous, Capturing}"
    using that assms(2) claims_ok_cong [OF claims_ok_claim [OF assms(2) _ l that(2)], of ch s'] by (simp split: if_splits)
  show "claims_ok s' (if rc = BRIDGE_HW_OK then u(unat ch := v) else u)"
    if "if rc = BRIDGE_HW_OK then unat ch < 8 \<and> pwm_timer_claims s' = pwm_timer_claims (pwm_channel_release ch s) else s' = s"
      "v \<in> {Unused, One_Shot}"
    using that assms(2) claims_ok_cong [OF claims_ok_release [OF assms(2) _ l that(2)], of ch s'] by (simp split: if_splits)
qed

lemma run_claims: "pwm_run s u \<Longrightarrow> claims_ok s u"
proof (induction rule: pwm_run.induct)
  case (boot ts b0 b1)
  then show ?case by (auto simp: claims_ok_def pwm_bring_up_def pwm_timer_init_def pwm_bss_def less_2_cases_iff)
next
  case (set s u env ch p d rc s')
  show ?case by (rule claims_ok_after(1) [OF set(1,3) claims_effect(1) [OF set(2)]]) simp
next
  case (single_pulse s u env ch ns rc s')
  show ?case by (rule claims_ok_after(2) [OF single_pulse(1,3) claims_effect(2) [OF single_pulse(2)]]) simp
next
  case (capture_begin s u ch e rc s')
  show ?case by (rule claims_ok_after(1) [OF capture_begin(1,3) claims_effect(3) [OF capture_begin(2)]]) simp
next
  case (capture_end s u ch rc s')
  show ?case by (rule claims_ok_after(2) [OF capture_end(1,3) claims_effect(4) [OF capture_end(2)]]) simp
qed (use claims_effect(5-7) in \<open>auto simp: claims_ok_def\<close>)

section \<open>Effects of a request on the registers\<close>

lemma transaction_tim:
  assumes "i < length (tims s)" "\<not> updis (tims s ! i)"
  shows "tims (pwm_preload_transaction i (pwm_preload_load env i k arr compare) s) ! i =
    (tims s ! i)\<lparr>car := arr, chcv := (chcv (tims s ! i))[k := compare], upif := False\<rparr>"
  using assms by (simp add: pwm_preload_transaction_def pwm_preload_load_def pwm_car_shadow_defer_def pwm_capture_consume_update_def Let_def on_tim_def)

text \<open>The timer after an accepted set.\<close>

lemma apply_tim:
  assumes "length (tims s) = 2" "unat ch < 8" "\<not> updis (tims s ! tim_of ch)"
    "pwm_apply_counter_values env ch arr compare s = (BRIDGE_HW_OK, s')"
  defines "t \<equiv> tims s ! tim_of ch" and "k \<equiv> unit_of ch"
  defines "t1 \<equiv> gap (env 1) (on_pad k (\<lambda>p. p\<lparr>oc_of := TIMER_OC_MODE_PWM0\<rparr>) ((gap (env 0) t)\<lparr>spm := False\<rparr>))"
  shows "tims s' ! tim_of ch = (gap (env 4) (if cen t then t1\<lparr>car := arr, chcv := (chcv t)[k := compare], upif := False\<rparr>
      else (hw_update (gap (env 3) ((gap (env 2) (t1\<lparr>car := arr\<rparr>))\<lparr>chcv := (chcv t)[k := compare]\<rparr>)))\<lparr>upif := False\<rparr>))\<lparr>cen := True\<rparr>"
    and "cen t \<or> \<not> timer_sync_master_active (of_nat (tim_of ch)) s"
    and "pwm_one_shot s' = (pwm_one_shot s)[unat ch := False]" "pwm_align_mode s' = pwm_align_mode s"
proof -
  let ?i = "tim_of ch"
  note i = channel_lt(1) [OF assms(2)]
  define s1 where "s1 = (on_tim ?i (gap (env 1) \<circ> on_pad k (\<lambda>p. p\<lparr>oc_of := TIMER_OC_MODE_PWM0\<rparr>) \<circ> (\<lambda>t. t\<lparr>spm := False\<rparr>) \<circ> gap (env 0))
      (pwm_channel_claim ch s))"
  define s2 where "s2 = s1\<lparr>pwm_one_shot := (pwm_one_shot s1)[unat ch := False]\<rparr>"
  have claim: "pwm_one_shot (pwm_channel_claim ch s) = pwm_one_shot s" "pwm_align_mode (pwm_channel_claim ch s) = pwm_align_mode s"
    by (simp_all add: pwm_channel_claim_def)
  have t2: "tims s2 ! ?i = t1" "length (tims s2) = 2" "\<not> updis (tims s2 ! ?i)" "chcv t1 = chcv t"
    using assms(1,3) i by (simp_all add: s2_def s1_def t1_def t_def)
  define s3 where "s3 = (if cen t then pwm_preload_transaction ?i (pwm_preload_load env ?i k arr compare) s2
     else pwm_car_shadow_commit ?i arr (on_tim ?i (hw_update \<circ> gap (env 3) \<circ> (\<lambda>t. t\<lparr>chcv := (chcv t)[k := compare]\<rparr>) \<circ> gap (env 2) \<circ>
       (\<lambda>t. t\<lparr>car := arr\<rparr>)) s2))"
  have r: "cen t \<or> \<not> timer_sync_master_active (of_nat (tim_of ch)) s" "s' = on_tim ?i ((\<lambda>t. t\<lparr>cen := True\<rparr>) \<circ> gap (env 4)) s3"
    using assms(4) unfolding pwm_apply_counter_values_def Let_def s3_def s2_def s1_def t_def k_def
    by (auto simp: timer_sync_forced_update_allowed_def split: if_splits)
  show "cen t \<or> \<not> timer_sync_master_active (of_nat (tim_of ch)) s" by (rule r(1))
  have l: "length (tims s3) = 2" using t2(2)
    by (simp add: s3_def pwm_preload_transaction_def pwm_preload_load_def pwm_car_shadow_defer_def pwm_capture_consume_update_def
      pwm_car_shadow_commit_def Let_def)
  have "tims s3 ! ?i = (if cen t then t1\<lparr>car := arr, chcv := (chcv t)[k := compare], upif := False\<rparr>
      else (hw_update (gap (env 3) ((gap (env 2) (t1\<lparr>car := arr\<rparr>))\<lparr>chcv := (chcv t)[k := compare]\<rparr>)))\<lparr>upif := False\<rparr>)"
    using t2 i transaction_tim [of ?i s2 env k arr compare] by (simp add: s3_def pwm_car_shadow_commit_def Let_def)
  then show "tims s' ! ?i = (gap (env 4) (if cen t then t1\<lparr>car := arr, chcv := (chcv t)[k := compare], upif := False\<rparr>
      else (hw_update (gap (env 3) ((gap (env 2) (t1\<lparr>car := arr\<rparr>))\<lparr>chcv := (chcv t)[k := compare]\<rparr>)))\<lparr>upif := False\<rparr>))\<lparr>cen := True\<rparr>"
    using l i r(2) by simp
  show "pwm_one_shot s' = (pwm_one_shot s)[unat ch := False]" "pwm_align_mode s' = pwm_align_mode s"
    by (simp_all add: r(2) s3_def s2_def s1_def claim pwm_preload_transaction_def pwm_preload_load_def pwm_car_shadow_defer_def
      pwm_capture_consume_update_def pwm_car_shadow_commit_def Let_def)
qed

lemma set_applies:
  "pwm_set env ch p d s = (BRIDGE_HW_OK, s') \<Longrightarrow> \<exists>arr compare. unat ch < 8 \<and> d \<le> p \<and>
     pwm_counter_values p d (pwm_channel_center_aligned ch s) = Inr (arr, compare) \<and>
     pwm_apply_counter_values env ch arr compare s = (BRIDGE_HW_OK, s')"
  by (auto simp: pwm_set_def not_le not_less pwm_counter_values_def Let_def split: if_splits sum.splits prod.splits)

lemma counter_values:
  assumes "pwm_counter_values p d c = Inr (arr, compare)" "d \<le> p"
  shows "if c then unat arr = unat p div 2000 \<and> unat compare = unat d div 2000 \<and> 0 < unat arr
         else Suc (unat arr) = unat p div 1000 \<and> unat compare = unat d div 1000"
    and "unat arr \<le> 65535" "unat compare \<le> 65535"
proof -
  have dv: "unat (p div 1000) = unat p div 1000" "unat (d div 1000) = unat d div 1000"
    "unat (p div 1000 div 2) = unat p div 2000" "unat (d div 1000 div 2) = unat d div 2000"
    by (simp_all add: unat_div div_mult2_eq [symmetric])
  have "unat (p div 1000 - 1) = unat p div 1000 - 1" if "p div 1000 \<noteq> 0"
    using that dv(1) by (simp add: unat_minus_one)
  moreover have "0 < unat p div 1000" if "p div 1000 \<noteq> 0" using that dv(1) by (metis unat_gt_0)
  moreover have "0 < unat p div 2000" if "p div 1000 div 2 \<noteq> 0" using that dv(3) by (metis unat_gt_0)
  ultimately show "if c then unat arr = unat p div 2000 \<and> unat compare = unat d div 2000 \<and> 0 < unat arr
         else Suc (unat arr) = unat p div 1000 \<and> unat compare = unat d div 1000"
    using assms(1) dv by (auto simp: pwm_counter_values_def Let_def split: if_splits)
  show "unat arr \<le> 65535" "unat compare \<le> 65535" using counter_values_bounds [OF assms(1)] by (simp_all add: word_le_nat_alt)
qed

lemma and_arr_max: "(x :: u32) \<le> PWM_TIMER_ARR_MAX \<Longrightarrow> x AND PWM_TIMER_ARR_MAX = x"
proof -
  assume "x \<le> 0xFFFF"
  then have "take_bit 16 x = x" by (simp add: word_le_nat_alt word_unat_eq_iff take_bit_eq_mod unat_mod)
  then show ?thesis by (simp add: take_bit_eq_mask mask_eq_exp_minus_1)
qed

text \<open>The single-wrap difference of two captures.\<close>

lemma capture_delta_span:
  assumes "unat act \<le> 65535" "m = Suc (unat act)" "T1 \<le> T2" "T2 < T1 + m"
  shows "unat (capture_delta act (of_nat (T2 mod m)) (of_nat (T1 mod m))) = T2 - T1"
proof -
  have m: "unat (act + 1) = m" "m \<le> 65536" using assms(1,2) by (simp_all add: unat_word_ariths)
  have lt: "T1 mod m < m" "T2 mod m < m" using m(2) assms(2) by auto
  have u: "unat (of_nat (T1 mod m) :: u32) = T1 mod m" "unat (of_nat (T2 mod m) :: u32) = T2 mod m"
  proof -
    have "T1 mod m < 4294967296" "T2 mod m < 4294967296" using lt m(2) by linarith+
    then show "unat (of_nat (T1 mod m) :: u32) = T1 mod m" "unat (of_nat (T2 mod m) :: u32) = T2 mod m" by (simp_all add: unat_of_nat)
  qed
  let ?a = "of_nat (T2 mod m) :: u32" and ?b = "of_nat (T1 mod m) :: u32"
  have b: "?b mod (act + 1) = ?b" using lt(1) u(1) m(1) by (simp add: word_unat_eq_iff unat_mod del: unat_of_nat)
  have "unat (?a + (act + 1)) = (T2 mod m + m) mod 4294967296" using u(2) m(1) unat_word_ariths(1) [of ?a "act + 1"] by simp
  then have "unat (?a + (act + 1)) = T2 mod m + m" using lt(2) m(2) by simp
  moreover from this have "?b \<le> ?a + (act + 1)" using lt(1) u(1) by (simp add: word_le_nat_alt)
  ultimately have "unat (?a + (act + 1) - ?b) = T2 mod m + m - T1 mod m" using u(1) by (simp add: unat_sub)
  then have "unat (capture_delta act ?a ?b) = (T2 mod m + m - T1 mod m) mod m"
    unfolding capture_delta_def Let_def b unat_mod m(1) by simp
  moreover have "int ((T2 mod m + m - T1 mod m) mod m) = int ((T2 - T1) mod m)"
  proof -
    have "T1 mod m \<le> T2 mod m + m" using lt by linarith
    then have "int (T2 mod m + m - T1 mod m) = int T2 mod int m - int T1 mod int m + int m" by (simp add: of_nat_diff zmod_int)
    then show ?thesis using assms(3) by (simp add: zmod_int of_nat_diff mod_diff_eq)
  qed
  moreover have "(T2 - T1) mod m = T2 - T1" using assms(3,4) by simp
  ultimately show ?thesis by simp
qed

text \<open>Consuming with no further event leaves the record equal to the hardware's active reload.\<close>

lemma consume_active:
  assumes "mirror i s" "i < length (tims s)" "i < length (pwm_capture_active_car s)"
  shows "pwm_capture_active_car (pwm_capture_consume_update False i s) ! i = car_active (tims s ! i)"
    "pwm_capture (pwm_capture_consume_update b i s) = pwm_capture s"
  using assms by (auto simp: pwm_capture_consume_update_def Let_def mirrors_def gap_def)

text \<open>Three flaws.  A set on one channel restarts a timer halted after a one-shot on a sibling and leaves the
  sibling in its inverted mode with its compare of one tick, active for the rest of every period.  A
  one-shot that ends between the two reads of the run bit in a reconfiguration is started again.  A one-shot
  on a capturing channel gives up the claim that protected the capture.\<close>

lemma sibling_set_revives_one_shot:
  assumes "regs_ok s" "pwm_set env ch p d s = (BRIDGE_HW_OK, s')" "k \<noteq> unit_of ch"
  shows "cen (tims s' ! tim_of ch)" "\<not> spm (tims s' ! tim_of ch)" "pads (tims s' ! tim_of ch) ! k = pads (tims s ! tim_of ch) ! k"
    "chcv (tims s' ! tim_of ch) ! k = chcv (tims s ! tim_of ch) ! k"
proof -
  obtain arr compare where a: "unat ch < 8" "pwm_apply_counter_values env ch arr compare s = (BRIDGE_HW_OK, s')"
    using set_applies [OF assms(2)] by blast
  note t = apply_tim(1) [OF regs_okD(3) [OF assms(1)] a(1) regs_okD(4) [OF assms(1) channel_lt(1) [OF a(1)]] a(2)]
  show "cen (tims s' ! tim_of ch)" "\<not> spm (tims s' ! tim_of ch)" "pads (tims s' ! tim_of ch) ! k = pads (tims s ! tim_of ch) ! k"
    "chcv (tims s' ! tim_of ch) ! k = chcv (tims s ! tim_of ch) ! k"
    using t assms(3) by (simp_all add: on_pad_def)
qed

lemma configure_rearms_one_shot:
  assumes "regs_ok s" "unat ch < 8" "al \<le> 3" "pwm_align_mode s ! tim_of ch \<noteq> al" "cen (tims s ! tim_of ch)" "spm (tims s ! tim_of ch)" "env 0"
  shows "\<not> cen (gap (env 0) (tims s ! tim_of ch))"
    "let t' = tims (snd (pwm_configure env ch al 0 0 s)) ! tim_of ch in cen t' \<and> spm t'"
  using assms channel_lt(1) [OF assms(2)] regs_okD(3,4) [OF assms(1)]
  by (auto simp: pwm_configure_def Let_def not_less gap_def hw_update_def)

lemma single_pulse_drops_capture_claim:
  assumes "pwm_single_pulse env ch ns s = (BRIDGE_HW_OK, s')" "length (pwm_timer_claims s) = 2"
  shows "pwm_capture s' = pwm_capture s" "\<not> bit (pwm_timer_claims s' ! tim_of ch) (unat (ch AND 3))"
proof -
  have ch: "unat ch < 8" "pwm_timer_claims s' = pwm_timer_claims (pwm_channel_release ch s)"
    using claims_effect(2) [OF assms(1)] by simp_all
  then show "\<not> bit (pwm_timer_claims s' ! tim_of ch) (unat (ch AND 3))"
    using assms(2) channel_lt [OF ch(1)] by (simp add: pwm_channel_release_def bit_and_iff bit_not_iff bit_channel)
  show "pwm_capture s' = pwm_capture s"
    using assms(1) by (auto simp: pwm_single_pulse_def pwm_channel_release_def pwm_car_shadow_commit_def Let_def split: if_splits)
qed

section \<open>Properties\<close>

text \<open>C16: what the timers' users share is consistent at every point of a run, update events falling anywhere.
  The reload the hardware compares against is the recorded one, or the pending one when an update event has
  not been consumed yet, and the preload holds the value last asked for; a timer is recorded as
  synchronisation master exactly when the other timer's slave mode is on; a channel's claim is set exactly when its
  last accepted request was continuous output or capture.\<close>

theorem pwm_shared_state:
  assumes "pwm_run s u" "i < 2"
  shows "car_active (tims s ! i) = (if upif (tims s ! i) \<and> pwm_capture_pending_valid s ! i then pwm_capture_pending_car s ! i
        else pwm_capture_active_car s ! i) \<and>
    car (tims s ! i) = (if pwm_capture_pending_valid s ! i then pwm_capture_pending_car s ! i else pwm_capture_active_car s ! i) \<and>
    (timer_sync_master_active (of_nat i) s \<longleftrightarrow> smc (tims s ! (1 - i)) \<noteq> TIMER_SLAVE_MODE_DISABLE) \<and>
    (\<forall>k < 8. bit (pwm_timer_claims s ! i) k \<longleftrightarrow> k < 4 \<and> u (4 * i + k) \<in> {Continuous, Capturing})"
  using regs_okD(2) [OF run_regs [OF assms(1)] assms(2)] run_sync [OF assms(1)] run_claims [OF assms(1)] assms(2)
  by (simp add: mirrors_def sync_ok_def claims_ok_def)


text \<open>C15: a set on a running timer is seen whole.  Wherever update events fall among its register writes, the
  hardware's active reload and compare values afterwards are the ones from before, the ones preloaded before,
  or the new pair; never the new reload with an old compare or the reverse.\<close>

theorem pwm_set_coherent:
  assumes "pwm_run s u" "pwm_set env ch p d s = (BRIDGE_HW_OK, s')" "cen (tims s ! (unat ch div 4))"
  shows "\<exists>arr compare. pwm_counter_values p d (pwm_channel_center_aligned ch s) = Inr (arr, compare) \<and>
    (let t = tims s ! (unat ch div 4); t' = tims s' ! (unat ch div 4); new = (chcv t)[unit_of ch := compare]
     in (car_active t', chcv_active t') \<in> {(car_active t, chcv_active t), (car t, chcv t), (arr, new)} \<and> car t' = arr \<and> chcv t' = new)"
proof -
  note r = run_regs [OF assms(1)]
  obtain arr compare where a: "unat ch < 8" "pwm_counter_values p d (pwm_channel_center_aligned ch s) = Inr (arr, compare)"
    "pwm_apply_counter_values env ch arr compare s = (BRIDGE_HW_OK, s')" using set_applies [OF assms(2)] by blast
  have u: "\<not> updis (tims s ! tim_of ch)" by (rule regs_okD(4) [OF r channel_lt(1) [OF a(1)]])
  note t = apply_tim(1) [OF regs_okD(3) [OF r] a(1) u a(3)]
  show ?thesis using t a(2) assms(3) u channel_lt(3) [OF a(1)]
    by (auto simp: Let_def gap_def hw_update_def on_pad_def)
qed

text \<open>C31: an accepted period and duty read back, rounded down to whole ticks of the counting mode: 1 us when
  edge aligned, 2 us when centre aligned.\<close>

theorem pwm_set_get_roundtrip:
  assumes "pwm_run s u" "pwm_set env ch p d s = (BRIDGE_HW_OK, s')"
  shows "\<exists>P D. pwm_get ch s' = (BRIDGE_HW_OK, P, D) \<and>
    (let q = (if pwm_align_mode s ! (unat ch div 4) = 0 then 1000 else 2000) in unat P = unat p div q * q \<and> unat D = unat d div q * q)"
proof -
  note r = run_regs [OF assms(1)]
  obtain arr compare where a: "unat ch < 8" "d \<le> p" "pwm_counter_values p d (pwm_channel_center_aligned ch s) = Inr (arr, compare)"
    "pwm_apply_counter_values env ch arr compare s = (BRIDGE_HW_OK, s')" using set_applies [OF assms(2)] by blast
  have i: "tim_of ch < 2" "unit_of ch < 4" and u: "\<not> updis (tims s ! tim_of ch)" and l: "length (chcv (tims s ! tim_of ch)) = 4"
    using channel_lt(1,2) [OF a(1)] regs_okD(1,4) [OF r] by (auto simp: tim_ok_def)
  note t = apply_tim [OF regs_okD(3) [OF r] a(1) u a(4)]
  have v: "car (tims s' ! tim_of ch) = arr" "chcv (tims s' ! tim_of ch) ! unit_of ch = compare" "\<not> pwm_one_shot s' ! unat ch"
    using t(1,3) i(2) l r a(1) by (simp_all add: regs_ok_def sized_st_def)
  note c = counter_values [OF a(3,2)]
  have "arr AND PWM_TIMER_ARR_MAX = arr" using c(2) by (intro and_arr_max) (simp add: word_le_nat_alt)
  moreover have sm: "unat (arr + 1) = unat arr + 1" "unat ((arr + 1) * 1000) = (unat arr + 1) * 1000" "unat (compare * 1000) = unat compare * 1000"
    "unat (2 * arr * 1000) = unat arr * 2000" "unat (2 * compare * 1000) = unat compare * 2000"
    using c(2,3) by (simp_all add: unat_word_ariths)
  moreover have "unat d div 1000 \<le> unat p div 1000" "unat d div 2000 \<le> unat p div 2000" "unat d div 2000 \<le> Suc (unat p div 2000)"
    using a(2) div_le_mono [of "unat d" "unat p" 1000] div_le_mono [of "unat d" "unat p" 2000] by (simp_all add: word_le_nat_alt)
  ultimately show ?thesis
    using a(1) c(1) v t(4) channel_lt(3) [OF a(1)]
    by (auto simp: pwm_get_def Let_def pwm_channel_center_aligned_def word_less_nat_alt not_less split: if_splits)
qed


section \<open>Witnesses\<close>

definition blank_tim :: tim where
  "blank_tim = \<lparr>car = 0, car_active = 0, chcv = [0, 0, 0, 0], chcv_active = [0, 0, 0, 0], cnt = 0, cen = False, updis = False, spm = False,
     cam = TIMER_COUNTER_EDGE, upif = False, capif = [False, False, False, False], capcv = [0, 0, 0, 0],
     pads = replicate 4 \<lparr>oc_of = TIMER_OC_MODE_PWM0, outn_on = False, mch_capture = None, pulled_up = False\<rparr>,
     smc = TIMER_SLAVE_MODE_DISABLE, trgs = 0, trgo_update = False\<rparr>"

definition boot_pwm :: pwm_st where
  "boot_pwm = pwm_bring_up True True [blank_tim, blank_tim]"

definition quiet :: "nat \<Rightarrow> bool" where
  "quiet = (\<lambda>_. False)"

lemma boot_run: "pwm_run boot_pwm (\<lambda>_. Unused)"
  by (simp add: boot_pwm_def pwm_run.boot)

definition boot_tim :: "tim \<Rightarrow> bool" where
  "boot_tim t \<longleftrightarrow> cen t \<and> car t = 0xFFFF \<and> car_active t = 0xFFFF \<and> chcv t = replicate 4 0 \<and> length (capif t) = 4 \<and> smc t = TIMER_SLAVE_MODE_DISABLE"

definition booted :: "pwm_st \<Rightarrow> bool" where
  "booted s \<longleftrightarrow> length (tims s) = 2 \<and> (\<forall>i < 2. boot_tim (tims s ! i)) \<and> pwm_align_mode s = [0, 0] \<and> pwm_timer_claims s = [0, 0] \<and>
     timer_sync_master_mask s = 0 \<and> length (pwm_capture s) = 8"

lemma booted_init: "booted s \<Longrightarrow> booted (pwm_channel_init ch s)"
proof -
  assume b: "booted s"
  have z: "(replicate 4 (0 :: u32))[k := 0] = replicate 4 0" for k by (cases "k < 4") (simp_all add: list_eq_iff_nth_eq nth_list_update)
  have "boot_tim (tims (pwm_channel_init ch s) ! i)" if "i < 2" for i
    using b that by (cases "i = tim_of ch") (auto simp: booted_def boot_tim_def pwm_channel_init_def Let_def z)
  then show ?thesis using b by (simp add: booted_def pwm_channel_init_def Let_def)
qed

lemma booted_boot: "booted boot_pwm"
proof -
  have "booted (pwm_timer_init True 1 (pwm_timer_init True 0 (pwm_bss [blank_tim, blank_tim])))"
    by (auto simp: booted_def boot_tim_def pwm_timer_init_def pwm_bss_def on_tim_def nth_list_update less_2_cases_iff)
  then show ?thesis by (simp add: boot_pwm_def pwm_bring_up_def booted_init)
qed

lemma boot_sel: "length (tims boot_pwm) = 2" "tims boot_pwm ! 0 = t0 \<Longrightarrow> boot_tim t0" "tims boot_pwm ! 1 = t1 \<Longrightarrow> boot_tim t1"
  "pwm_align_mode boot_pwm = [0, 0]" "pwm_timer_claims boot_pwm = [0, 0]" "timer_sync_master_mask boot_pwm = 0"
  using booted_boot by (auto simp: booted_def)

lemma boot_fields [simp]: "cen (tims boot_pwm ! 0)" "car_active (tims boot_pwm ! 0) = 0xFFFF" "smc (tims boot_pwm ! 0) = TIMER_SLAVE_MODE_DISABLE"
  "smc (tims boot_pwm ! Suc 0) = TIMER_SLAVE_MODE_DISABLE"
  using boot_sel(2,3) by (auto simp: boot_tim_def)

theorem pwm_shared_state_witness:
  "car (tims boot_pwm ! 0) = (if pwm_capture_pending_valid boot_pwm ! 0 then pwm_capture_pending_car boot_pwm ! 0
     else pwm_capture_active_car boot_pwm ! 0) \<and> \<not> timer_sync_master_active 0 boot_pwm \<and> \<not> bit (pwm_timer_claims boot_pwm ! 0) 3"
  using pwm_shared_state [OF boot_run, of 0] by simp

text \<open>At boot a one-shot is accepted; once the timer drives a slave, a set on it still is.\<close>

definition synced_pwm :: pwm_st where
  "synced_pwm = snd (timer_sync 0 1 1 boot_pwm)"

lemma boot_pulse: "fst (pwm_single_pulse quiet 0 5000 boot_pwm) = BRIDGE_HW_OK"
  by (simp add: pwm_single_pulse_def pwm_channels_def boot_sel timer_sync_forced_update_allowed_def timer_sync_master_active_def
    pwm_timer_has_sibling_claim_def Let_def)

lemma synced_run: "pwm_run synced_pwm (\<lambda>_. Unused)"
  unfolding synced_pwm_def by (rule pwm_run.sync [OF boot_run]) (rule prod.collapse [symmetric])

lemma synced_state: "cen (tims synced_pwm ! 0)" "pwm_align_mode synced_pwm = [0, 0]" "smc (tims synced_pwm ! 1) = TIMER_SLAVE_MODE_RESTART"
  using boot_sel(1)
  by (simp_all add: synced_pwm_def timer_sync_def slave_mode_of_def timer_sync_iti_lookup_def Let_def timer_sync_master_set_def boot_sel on_tim_def word_le_nat_alt)

lemma running_set:
  assumes "cen (tims s ! 0)" "pwm_align_mode s = [0, 0]"
  shows "fst (pwm_set env 0 20000000 1500000 s) = BRIDGE_HW_OK"
  using assms by (simp add: pwm_set_def pwm_counter_values_def pwm_channel_center_aligned_def pwm_apply_counter_values_def pwm_channels_def Let_def)


theorem pwm_set_coherent_witness:
  "\<exists>s'. pwm_set (\<lambda>n. n = 10) 0 20000000 1500000 boot_pwm = (BRIDGE_HW_OK, s') \<and> car (tims s' ! 0) = 19999"
proof -
  obtain s' where q: "pwm_set (\<lambda>n. n = 10) 0 20000000 1500000 boot_pwm = (BRIDGE_HW_OK, s')"
    using running_set [OF boot_fields(1) boot_sel(4)] by (metis prod.collapse)
  have "pwm_counter_values 20000000 1500000 (pwm_channel_center_aligned 0 boot_pwm) = Inr (19999, 1500)"
    by (simp add: pwm_channel_center_aligned_def pwm_channels_def boot_sel pwm_counter_values_def Let_def)
  then show ?thesis using pwm_set_coherent [OF boot_run q] q by (simp add: Let_def)
qed

theorem pwm_set_get_roundtrip_witness:
  "\<exists>s' P D. pwm_set quiet 0 20000999 1500000 boot_pwm = (BRIDGE_HW_OK, s') \<and> pwm_get 0 s' = (BRIDGE_HW_OK, P, D) \<and> unat P = 20000000 \<and> unat D = 1500000"
proof -
  have "fst (pwm_set quiet 0 20000999 1500000 boot_pwm) = BRIDGE_HW_OK"
    by (simp add: pwm_set_def pwm_counter_values_def pwm_channel_center_aligned_def pwm_apply_counter_values_def pwm_channels_def Let_def boot_sel)
  then obtain s' where q: "pwm_set quiet 0 20000999 1500000 boot_pwm = (BRIDGE_HW_OK, s')" by (metis prod.collapse)
  then show ?thesis using pwm_set_get_roundtrip [OF boot_run q] by (auto simp: Let_def boot_sel)
qed

text \<open>Two rising edges on channel 2, 250 ticks apart.\<close>

definition edge_at :: "u32 \<Rightarrow> pwm_st \<Rightarrow> pwm_st" where
  "edge_at v s = on_tim 0 (\<lambda>t. t\<lparr>cnt := v, cen := True, capif := [False, True, False, False], capcv := [0, v, 0, 0]\<rparr>) s"

definition armed_pwm :: pwm_st where
  "armed_pwm = edge_at 100 (snd (pwm_capture_begin 2 0 boot_pwm))"

definition seeded_pwm :: pwm_st where
  "seeded_pwm = edge_at 350 (snd (snd (snd (pwm_capture_read quiet 2 armed_pwm))))"

lemma seeded_run: "pwm_run seeded_pwm ((\<lambda>_. Unused)(2 := Capturing))"
proof -
  have e: "pwm_run (edge_at v s) u" if "pwm_run s u" for v s u
    unfolding edge_at_def using that by (rule pwm_run.hardware) simp_all
  have "fst (pwm_capture_begin 2 0 boot_pwm) = BRIDGE_HW_OK" by (simp add: pwm_capture_begin_def Let_def)
  then have "pwm_run (snd (pwm_capture_begin 2 0 boot_pwm)) ((\<lambda>_. Unused)(2 := Capturing))"
    using pwm_run.capture_begin [OF boot_run, of 2 0 BRIDGE_HW_OK "snd (pwm_capture_begin 2 0 boot_pwm)"] by (simp add: prod_eq_iff)
  from pwm_run.capture_read [OF e [OF this], of quiet 2] show ?thesis
    unfolding seeded_pwm_def armed_pwm_def by (metis e prod.collapse)
qed

lemma armed_state:
  "pwm_capture armed_pwm ! 2 = \<lparr>last_tick = 0, period_ticks = 0, pulse_width_ticks = 0, cap_edge = 0, cap_state = 0, in_capture = True,
     have_period = False, have_pulse = False\<rparr>" "length (pwm_capture armed_pwm) = 8" "length (tims armed_pwm) = 2"
  "capif (tims armed_pwm ! 0) ! 1" "capcv (tims armed_pwm ! 0) ! 1 = 100" "car_active (tims armed_pwm ! 0) = 0xFFFF"
  using booted_boot unfolding armed_pwm_def edge_at_def booted_def
  by (simp_all add: pwm_capture_begin_def pwm_channel_claim_def pwm_channels_def Let_def on_tim_def on_pad_def)

lemma consume_sel:
  "pwm_capture (pwm_capture_consume_update b i s) = pwm_capture s" "length (tims (pwm_capture_consume_update b i s)) = length (tims s)"
  "i < length (tims s) \<Longrightarrow> car_active (tims (pwm_capture_consume_update False i s) ! i) = car_active (tims s ! i)"
  by (simp_all add: pwm_capture_consume_update_def Let_def gap_def)

lemma drained_state:
  "pwm_capture (pwm_capture_drain quiet 2 armed_pwm) ! 2 = \<lparr>last_tick = 100, period_ticks = 0, pulse_width_ticks = 0, cap_edge = 0, cap_state = 1,
     in_capture = True, have_period = False, have_pulse = False\<rparr>"
  "length (tims (pwm_capture_drain quiet 2 armed_pwm)) = 2" "car_active (tims (pwm_capture_drain quiet 2 armed_pwm) ! 0) = 0xFFFF"
  using armed_state by (simp_all add: pwm_capture_drain_def pwm_channels_def Let_def consume_sel capture_edge_def quiet_def gap_def)

lemma seeded_state:
  "pwm_capture seeded_pwm ! 2 = \<lparr>last_tick = 100, period_ticks = 0, pulse_width_ticks = 0, cap_edge = 0, cap_state = 1, in_capture = True,
     have_period = False, have_pulse = False\<rparr>"
  "capif (tims seeded_pwm ! 0) ! 1" "capcv (tims seeded_pwm ! 0) ! 1 = 350" "car_active (tims seeded_pwm ! 0) = 0xFFFF"
proof -
  have "snd (snd (snd (pwm_capture_read quiet 2 armed_pwm))) = pwm_capture_drain quiet 2 armed_pwm"
    using armed_state(1) drained_state(1) by (simp add: pwm_capture_read_def Let_def)
  then have e: "seeded_pwm = edge_at 350 (pwm_capture_drain quiet 2 armed_pwm)" by (simp add: seeded_pwm_def)
  show "pwm_capture seeded_pwm ! 2 = \<lparr>last_tick = 100, period_ticks = 0, pulse_width_ticks = 0, cap_edge = 0, cap_state = 1, in_capture = True,
     have_period = False, have_pulse = False\<rparr>"
  "capif (tims seeded_pwm ! 0) ! 1" "capcv (tims seeded_pwm ! 0) ! 1 = 350" "car_active (tims seeded_pwm ! 0) = 0xFFFF"
    unfolding e edge_at_def using drained_state by simp_all
qed


end
