(* ===== verification/Gpio.thy ===== *)
theory Gpio
  imports Hal
begin

text \<open>
  The general-purpose pads of \<open>hal/gd32/gpio.c\<close>, their part of \<open>bridge_hw_init\<close>, and the pin tables of the
  whole backend.  The calls into the port registers are recorded in order; a port model (output latch and
  mode per pin, the latch written through the set/clear register) gives what the pads show after each.
\<close>

section \<open>Ports\<close>

datatype gpio_port = GPIOA | GPIOB | GPIOC | GPIOD | GPIOE | GPIOF

type_synonym pin = "gpio_port \<times> nat"

datatype pin_mode = Mode_Analog | Mode_Input | Mode_Output

abbreviation (input) "GPIO_PAD_MAP_COUNT \<equiv> (21 :: nat)"
abbreviation (input) "GPIO_MAPPED_PORT_COUNT \<equiv> (6 :: nat)"
abbreviation (input) "GPIO_PAD_UNROUTED_MASK \<equiv> (0x100 :: u32)"

definition gpio_pad_map :: "pin list" where
  "gpio_pad_map =
     [(GPIOB, 10), (GPIOA, 7), (GPIOA, 12), (GPIOB, 0), (GPIOC, 1), (GPIOF, 1), (GPIOB, 5), (GPIOC, 0), (GPIOC, 14),
      (GPIOC, 15), (GPIOB, 11), (GPIOE, 9), (GPIOD, 11), (GPIOD, 10), (GPIOE, 12), (GPIOD, 2), (GPIOD, 8), (GPIOD, 1),
      (GPIOE, 14), (GPIOE, 15), (GPIOB, 13)]"

text \<open>The pins other tables claim: converters, DAC, encoders, pulse outputs, secure-element reset, the two buses.\<close>

definition adc_pins :: "pin list" where
  "adc_pins = [(GPIOD, 9), (GPIOB, 12), (GPIOE, 13), (GPIOE, 11), (GPIOC, 4), (GPIOA, 5), (GPIOA, 2), (GPIOA, 3)]"

definition dac_pins :: "pin list" where
  "dac_pins = [(GPIOA, 4), (GPIOA, 6)]"

definition pwm_pins :: "pin list" where
  "pwm_pins = [(GPIOA, 11), (GPIOB, 1), (GPIOB, 14), (GPIOC, 5), (GPIOC, 10), (GPIOC, 11), (GPIOC, 12), (GPIOD, 0)]"

definition qenc_pins :: "pin list" where
  "qenc_pins = [(GPIOA, 0), (GPIOB, 3), (GPIOC, 6), (GPIOC, 7), (GPIOB, 6), (GPIOB, 7), (GPIOB, 2), (GPIOA, 1)]"

definition se_rst_pin :: pin where
  "se_rst_pin = (GPIOC, 13)"

definition bus_pins :: "pin list" where
  "bus_pins = [(GPIOA, 9), (GPIOA, 10), (GPIOB, 15), (GPIOA, 8), (GPIOA, 15), (GPIOB, 9)]"

definition gpio_mapped_ports :: "gpio_port list" where
  "gpio_mapped_ports = [GPIOA, GPIOB, GPIOC, GPIOD, GPIOE, GPIOF]"

definition gpio_mapped_port_index :: "gpio_port \<Rightarrow> nat" where
  "gpio_mapped_port_index p =
     (case find (\<lambda>i. gpio_mapped_ports ! i = p) [0..<GPIO_MAPPED_PORT_COUNT] of Some i \<Rightarrow> i | None \<Rightarrow> GPIO_MAPPED_PORT_COUNT)"

record gpio_st =
  gpio_is_output :: "bool list"
  gpio_input_promoted :: "bool list"

text \<open>The register accesses: a write of the set/clear register, output options, and the two mode changes, by
  port index with a mask of pins.\<close>

datatype gpio_call = Bop nat u32 | Output_Options nat u32 | Set_Output nat u32 | Set_Input nat u32

abbreviation (input) selected :: "u32 \<Rightarrow> nat \<Rightarrow> bool" where
  "selected m i \<equiv> m AND push_bit i 1 \<noteq> 0"

abbreviation (input) pad_port :: "nat \<Rightarrow> nat" where
  "pad_port i \<equiv> gpio_mapped_port_index (fst (gpio_pad_map ! i))"

abbreviation (input) pad_pin :: "nat \<Rightarrow> u32" where
  "pad_pin i \<equiv> push_bit (snd (gpio_pad_map ! i)) 1"

section \<open>Reading\<close>

text \<open>The first loop: pads named for the first time become inputs.\<close>

fun promote_inputs :: "u32 \<Rightarrow> nat list \<Rightarrow> gpio_st \<Rightarrow> gpio_st \<times> gpio_call list" where
  "promote_inputs m [] s = (s, [])"
| "promote_inputs m (i # is) s =
     (if \<not> selected m i \<or> gpio_is_output s ! i \<or> gpio_input_promoted s ! i then promote_inputs m is s
      else let (s', tr) = promote_inputs m is (s\<lparr>gpio_input_promoted := (gpio_input_promoted s)[i := True]\<rparr>)
           in (s', Set_Input (pad_port i) (pad_pin i) # tr))"

text \<open>The second loop: each port is sampled once, when its first pad comes up; \<open>istat n p\<close> is what the \<open>n\<close>-th
  access to an input register finds on port \<open>p\<close>.\<close>

fun sample_pads :: "(nat \<Rightarrow> nat \<Rightarrow> u16) \<Rightarrow> nat \<Rightarrow> u32 \<Rightarrow> nat list \<Rightarrow> u16 list \<Rightarrow> bool list \<Rightarrow> u32 \<Rightarrow> u32 option" where
  "sample_pads istat n m [] inputs sampled levels = Some levels"
| "sample_pads istat n m (i # is) inputs sampled levels =
     (if \<not> selected m i then sample_pads istat n m is inputs sampled levels
      else if pad_port i = GPIO_MAPPED_PORT_COUNT then None
      else let p = pad_port i;
               (n', inputs', sampled') = (if sampled ! p then (n, inputs, sampled)
                                          else (Suc n, inputs[p := istat n p], sampled[p := True]));
               levels' = (if ucast (inputs' ! p) AND pad_pin i \<noteq> 0 then levels OR push_bit i 1 else levels)
           in sample_pads istat n' m is inputs' sampled' levels')"

definition gpio_read :: "(nat \<Rightarrow> nat \<Rightarrow> u16) \<Rightarrow> u32 \<Rightarrow> gpio_st \<Rightarrow> int \<times> u32 \<times> gpio_st \<times> gpio_call list" where
  "gpio_read istat m s =
     (if m AND GPIO_PAD_UNROUTED_MASK \<noteq> 0 then (BRIDGE_HW_ERR_NOTIMPL, 0, s, [])
      else let (s', tr) = promote_inputs m [0..<GPIO_PAD_MAP_COUNT] s
           in case sample_pads istat 0 m [0..<GPIO_PAD_MAP_COUNT] (replicate GPIO_MAPPED_PORT_COUNT 0)
                     (replicate GPIO_MAPPED_PORT_COUNT False) 0 of
                Some levels \<Rightarrow> (BRIDGE_HW_OK, levels, s', tr)
              | None \<Rightarrow> (BRIDGE_HW_ERR_IO, 0, s', tr))"

section \<open>Writing\<close>

text \<open>The set/clear word and the pins to promote, per port.\<close>

fun collect_write :: "u32 \<Rightarrow> u32 \<Rightarrow> bool list \<Rightarrow> nat list \<Rightarrow> u32 list \<times> u32 list \<Rightarrow> (u32 list \<times> u32 list) option" where
  "collect_write m levels outs [] acc = Some acc"
| "collect_write m levels outs (i # is) (bop, promote) =
     (if \<not> selected m i then collect_write m levels outs is (bop, promote)
      else if pad_port i = GPIO_MAPPED_PORT_COUNT then None
      else let p = pad_port i;
               bop' = bop[p := bop ! p OR (if selected levels i then pad_pin i else push_bit 16 (pad_pin i))];
               promote' = (if outs ! i then promote else promote[p := promote ! p OR pad_pin i])
           in collect_write m levels outs is (bop', promote'))"

definition promote_call :: "u32 list \<Rightarrow> u32 list \<Rightarrow> nat \<Rightarrow> gpio_call list" where
  "promote_call bop promote p =
     (if promote ! p = 0 then []
      else [Bop p (bop ! p AND (promote ! p OR push_bit 16 (promote ! p))), Output_Options p (promote ! p), Set_Output p (promote ! p)])"

definition drive_call :: "u32 list \<Rightarrow> nat \<Rightarrow> gpio_call list" where
  "drive_call bop p = (if bop ! p \<noteq> 0 then [Bop p (bop ! p)] else [])"

definition mark_written :: "u32 \<Rightarrow> gpio_st \<Rightarrow> gpio_st" where
  "mark_written m s = fold (\<lambda>i s. if selected m i then s\<lparr>gpio_is_output := (gpio_is_output s)[i := True],
       gpio_input_promoted := (gpio_input_promoted s)[i := False]\<rparr> else s) [0..<GPIO_PAD_MAP_COUNT] s"

definition gpio_write :: "u32 \<Rightarrow> u32 \<Rightarrow> gpio_st \<Rightarrow> int \<times> gpio_st \<times> gpio_call list" where
  "gpio_write m levels s =
     (if m AND GPIO_PAD_UNROUTED_MASK \<noteq> 0 then (BRIDGE_HW_ERR_NOTIMPL, s, [])
      else case collect_write m levels (gpio_is_output s) [0..<GPIO_PAD_MAP_COUNT]
                  (replicate GPIO_MAPPED_PORT_COUNT 0, replicate GPIO_MAPPED_PORT_COUNT 0) of
             None \<Rightarrow> (BRIDGE_HW_ERR_IO, s, [])
           | Some (bop, promote) \<Rightarrow>
               (BRIDGE_HW_OK, mark_written m s,
                concat (map (promote_call bop promote) [0..<GPIO_MAPPED_PORT_COUNT]) @
                concat (map (drive_call bop) [0..<GPIO_MAPPED_PORT_COUNT])))"

section \<open>Boot\<close>

text \<open>Every pad is left parked; the two module power enables go out low and the transceiver standby high,
  each latch set before its mode.\<close>

definition gpio_boot :: "gpio_st \<times> gpio_call list" where
  "gpio_boot =
     (\<lparr>gpio_is_output = (replicate GPIO_PAD_MAP_COUNT False)[18 := True, 19 := True, 20 := True],
       gpio_input_promoted = replicate GPIO_PAD_MAP_COUNT False\<rparr>,
      concat (map (\<lambda>i. [Bop (pad_port i) (if i = 20 then pad_pin i else push_bit 16 (pad_pin i)), Output_Options (pad_port i) (pad_pin i),
                        Set_Output (pad_port i) (pad_pin i)]) [18, 19, 20]))"

section \<open>Port model\<close>

record gpio_hw =
  octl :: "nat \<Rightarrow> u16"
  ctl :: "nat \<Rightarrow> nat \<Rightarrow> pin_mode"

fun port_step :: "gpio_call \<Rightarrow> gpio_hw \<Rightarrow> gpio_hw" where
  "port_step (Bop p w) h = h\<lparr>octl := (octl h)(p := (octl h p AND NOT (ucast (drop_bit 16 w))) OR ucast w)\<rparr>"
| "port_step (Output_Options p w) h = h"
| "port_step (Set_Output p w) h = h\<lparr>ctl := (ctl h)(p := \<lambda>n. if bit w n then Mode_Output else ctl h p n)\<rparr>"
| "port_step (Set_Input p w) h = h\<lparr>ctl := (ctl h)(p := \<lambda>n. if bit w n then Mode_Input else ctl h p n)\<rparr>"

text \<open>What a pad shows: the level it drives, if it is an output.\<close>

definition shows_level :: "gpio_hw \<Rightarrow> nat \<Rightarrow> bool option" where
  "shows_level h i = (let p = pad_port i; n = snd (gpio_pad_map ! i)
     in if ctl h p n = Mode_Output then Some (bit (octl h p) n) else None)"

text \<open>The direction flags against the ports.\<close>

definition gpio_agrees :: "gpio_st \<Rightarrow> gpio_hw \<Rightarrow> bool" where
  "gpio_agrees s h \<longleftrightarrow> length (gpio_is_output s) = GPIO_PAD_MAP_COUNT \<and> length (gpio_input_promoted s) = GPIO_PAD_MAP_COUNT \<and>
     (\<forall>i < GPIO_PAD_MAP_COUNT. gpio_is_output s ! i = (ctl h (pad_port i) (snd (gpio_pad_map ! i)) = Mode_Output) \<and>
        gpio_input_promoted s ! i = (ctl h (pad_port i) (snd (gpio_pad_map ! i)) = Mode_Input))"

text \<open>A served request: a read finds its port samples in the environment.  The pads boot from reset, where every pin is analog.\<close>

datatype gpio_req = Gpio_Read "nat \<Rightarrow> nat \<Rightarrow> u16" u32 | Gpio_Write u32 u32

fun gpio_serve :: "gpio_req \<Rightarrow> gpio_st \<times> gpio_hw \<Rightarrow> gpio_st \<times> gpio_hw" where
  "gpio_serve (Gpio_Read istat m) (s, h) = (let (_, _, s', tr) = gpio_read istat m s in (s', fold port_step tr h))"
| "gpio_serve (Gpio_Write m levels) (s, h) = (let (_, s', tr) = gpio_write m levels s in (s', fold port_step tr h))"

definition reset_ports :: gpio_hw where
  "reset_ports = \<lparr>octl = \<lambda>_. 0, ctl = \<lambda>_ _. Mode_Analog\<rparr>"

definition gpio_booted :: "gpio_st \<times> gpio_hw" where
  "gpio_booted = (let (s, tr) = gpio_boot in (s, fold port_step tr reset_ports))"

text \<open>The specification: what each pad drives, if anything.  Only a write that avoids the unrouted pad has an effect.\<close>

fun pads_spec :: "gpio_req \<Rightarrow> (nat \<rightharpoonup> bool) \<Rightarrow> nat \<rightharpoonup> bool" where
  "pads_spec (Gpio_Read istat m) v = v"
| "pads_spec (Gpio_Write m levels) v = (if bit m 8 then v else (\<lambda>i. if i < 21 \<and> bit m i then Some (bit levels i) else v i))"

definition boot_levels :: "nat \<rightharpoonup> bool" where
  "boot_levels = [18 \<mapsto> False, 19 \<mapsto> False, 20 \<mapsto> True]"

section \<open>The tables\<close>

lemma selected_iff_bit: "m AND push_bit i 1 \<noteq> 0 \<longleftrightarrow> bit m i" for m :: u32
  by (simp add: and_exp_eq_0_iff_not_bit)

lemma unselected_iff_bit: "\<not> m AND push_bit i 1 \<noteq> 0 \<longleftrightarrow> \<not> bit m i" for m :: u32
  by (simp add: and_exp_eq_0_iff_not_bit)

lemma pads_distinct: "distinct (map (\<lambda>i. (pad_port i, snd (gpio_pad_map ! i))) [0..<21])"
  by code_simp

lemma pads_in_range: "list_all (\<lambda>i. pad_port i < 6 \<and> snd (gpio_pad_map ! i) < 16) [0..<21]"
  by code_simp

lemma pad_range:
  assumes "i < 21"
  shows "pad_port i < 6" "snd (gpio_pad_map ! i) < 16" "pad_port i \<noteq> 6"
  using pads_in_range assms by (force simp: list_all_iff)+

lemma pad_eqD:
  assumes "i < 21" "j < 21" "pad_port i = pad_port j" "snd (gpio_pad_map ! i) = snd (gpio_pad_map ! j)"
  shows "i = j"
  using pads_distinct assms unfolding distinct_map inj_on_def by auto

section \<open>One pin\<close>

text \<open>A pin's latch and mode, and what a call on its port does to them.\<close>

definition pin_view :: "gpio_hw \<Rightarrow> nat \<Rightarrow> nat \<Rightarrow> bool \<times> pin_mode" where
  "pin_view h p n = (bit (octl h p) n, ctl h p n)"

fun call_port :: "gpio_call \<Rightarrow> nat" where
  "call_port (Bop p w) = p"
| "call_port (Output_Options p w) = p"
| "call_port (Set_Output p w) = p"
| "call_port (Set_Input p w) = p"

fun pin_step :: "nat \<Rightarrow> gpio_call \<Rightarrow> bool \<times> pin_mode \<Rightarrow> bool \<times> pin_mode" where
  "pin_step n (Bop p w) (l, d) = (bit w n \<or> l \<and> \<not> bit w (n + 16), d)"
| "pin_step n (Output_Options p w) v = v"
| "pin_step n (Set_Output p w) (l, d) = (l, if bit w n then Mode_Output else d)"
| "pin_step n (Set_Input p w) (l, d) = (l, if bit w n then Mode_Input else d)"

lemma pin_view_step:
  assumes "n < 16"
  shows "pin_view (port_step c h) p n = (if call_port c = p then pin_step n c (pin_view h p n) else pin_view h p n)"
  using assms by (cases c) (auto simp: pin_view_def bit_simps add.commute)

lemma pin_view_fold:
  assumes "n < 16"
  shows "pin_view (fold port_step cs h) p n = fold (pin_step n) (filter (\<lambda>c. call_port c = p) cs) (pin_view h p n)"
  by (induction cs arbitrary: h) (simp_all add: pin_view_step [OF assms])

lemma filter_port_concat:
  assumes "\<And>q c. c \<in> set (f q) \<Longrightarrow> call_port c = q"
  shows "filter (\<lambda>c. call_port c = p) (concat (map f [0..<N])) = (if p < N then f p else [])"
proof (induction N)
  case (Suc N)
  have "filter (\<lambda>c. call_port c = p) (f N) = (if N = p then f N else [])"
    using assms [of _ N] by (auto intro: filter_True filter_False)
  then show ?case using Suc by auto
qed simp

lemma fold_fixed: "\<forall>c \<in> set cs. f c v = v \<Longrightarrow> fold f cs v = v"
  by (induction cs) simp_all

lemma filter_take_take: "filter P (take k xs) = take (length (filter P (take k xs))) (filter P xs)"
  by (metis append_eq_conv_conj append_take_drop_id filter_append)

lemma filter_take_mono:
  assumes "k \<le> l"
  shows "length (filter P (take k xs)) \<le> length (filter P (take l xs))"
proof -
  have "take l xs = take k xs @ take (l - k) (drop k xs)"
    using assms by (metis le_add_diff_inverse take_add)
  then show ?thesis by simp
qed

lemma shows_level_pin:
  "shows_level h i = (case pin_view h (pad_port i) (snd (gpio_pad_map ! i)) of (l, d) \<Rightarrow> if d = Mode_Output then Some l else None)"
  by (simp add: shows_level_def pin_view_def Let_def)

section \<open>What a write sends\<close>

text \<open>The bits the collecting loop adds: one set or clear bit for each selected pad, one promotion bit for each that is
  not an output yet.\<close>

definition adds_bits :: "u32 \<Rightarrow> u32 \<Rightarrow> bool list \<Rightarrow> nat list \<Rightarrow> u32 list \<times> u32 list \<Rightarrow> u32 list \<times> u32 list \<Rightarrow> bool" where
  "adds_bits m levels outs is acc acc' \<longleftrightarrow> length (fst acc') = 6 \<and> length (snd acc') = 6 \<and>
     (\<forall>p < 6. \<forall>b.
        (bit (fst acc' ! p) b \<longleftrightarrow> bit (fst acc ! p) b \<or>
          (\<exists>i \<in> set is. bit m i \<and> pad_port i = p \<and> b = snd (gpio_pad_map ! i) + (if bit levels i then 0 else 16))) \<and>
        (bit (snd acc' ! p) b \<longleftrightarrow> bit (snd acc ! p) b \<or>
          (\<exists>i \<in> set is. bit m i \<and> pad_port i = p \<and> b = snd (gpio_pad_map ! i) \<and> \<not> outs ! i)))"

lemma adds_bits_one:
  assumes "i < 21" "bit m i" "length bop = 6" "length pro = 6"
  shows "adds_bits m levels outs [i] (bop, pro)
    (bop[pad_port i := bop ! pad_port i OR (if bit levels i then pad_pin i else push_bit 16 (pad_pin i))],
     if outs ! i then pro else pro[pad_port i := pro ! pad_port i OR pad_pin i])"
  using pad_range [OF assms(1)] assms by (auto simp: adds_bits_def nth_list_update bit_simps)

lemma adds_bits_trans:
  assumes "adds_bits m levels outs is a b" "adds_bits m levels outs js b c"
  shows "adds_bits m levels outs (is @ js) a c"
  using assms unfolding adds_bits_def by (simp add: bex_Un disj_assoc)

lemma collect_write_bits:
  assumes "\<forall>i \<in> set is. i < 21" "length (fst acc) = 6" "length (snd acc) = 6"
  shows "\<exists>acc'. collect_write m levels outs is acc = Some acc' \<and> adds_bits m levels outs is acc acc'"
  using assms
proof (induction "is" arbitrary: acc)
  case Nil
  then show ?case by (cases acc) (simp add: adds_bits_def)
next
  case (Cons i "is")
  obtain bop pro where acc: "acc = (bop, pro)" by (cases acc)
  have i: "i < 21" using Cons.prems by simp
  show ?case
  proof (cases "bit m i")
    case False
    then show ?thesis
      using Cons unfolding acc by (fastforce simp: selected_iff_bit unselected_iff_bit adds_bits_def simp del: push_bit_of_1)
  next
    case True
    let ?bop = "bop[pad_port i := bop ! pad_port i OR (if bit levels i then pad_pin i else push_bit 16 (pad_pin i))]"
    let ?pro = "if outs ! i then pro else pro[pad_port i := pro ! pad_port i OR pad_pin i]"
    have eq: "collect_write m levels outs (i # is) acc = collect_write m levels outs is (?bop, ?pro)"
      using True pad_range(3) [OF i] unfolding acc by (simp add: selected_iff_bit unselected_iff_bit Let_def del: push_bit_of_1)
    have one: "adds_bits m levels outs [i] acc (?bop, ?pro)"
      unfolding acc using adds_bits_one [OF i True] Cons.prems unfolding acc by auto
    then have "length (fst (?bop, ?pro)) = 6" "length (snd (?bop, ?pro)) = 6"
      by (simp_all only: adds_bits_def)
    then obtain acc' where "collect_write m levels outs is (?bop, ?pro) = Some acc'" "adds_bits m levels outs is (?bop, ?pro) acc'"
      using Cons.IH [of "(?bop, ?pro)"] Cons.prems(1) by auto
    then show ?thesis
      unfolding eq using adds_bits_trans [OF one] by fastforce
  qed
qed

text \<open>The bits of one pin in the collected words.\<close>

abbreviation (input) no_bits :: "u32 list \<times> u32 list" where
  "no_bits \<equiv> (replicate GPIO_MAPPED_PORT_COUNT 0, replicate GPIO_MAPPED_PORT_COUNT 0)"

lemma adds_bitsD:
  assumes "adds_bits m levels outs [0..<21] no_bits (bop, pro)" "p < 6"
  shows "bit (bop ! p) b \<longleftrightarrow> (\<exists>i < 21. bit m i \<and> pad_port i = p \<and> b = snd (gpio_pad_map ! i) + (if bit levels i then 0 else 16))"
    "bit (pro ! p) b \<longleftrightarrow> (\<exists>i < 21. bit m i \<and> pad_port i = p \<and> b = snd (gpio_pad_map ! i) \<and> \<not> outs ! i)"
  using assms unfolding adds_bits_def by (simp_all add: Bex_def)

lemma selected_pad_bits:
  assumes "adds_bits m levels outs [0..<21] no_bits (bop, pro)" "i < 21" "bit m i"
  shows "bit (bop ! pad_port i) (snd (gpio_pad_map ! i)) = bit levels i"
    "bit (bop ! pad_port i) (snd (gpio_pad_map ! i) + 16) = (\<not> bit levels i)"
    "bit (pro ! pad_port i) (snd (gpio_pad_map ! i)) = (\<not> outs ! i)"
    "\<not> bit (pro ! pad_port i) (snd (gpio_pad_map ! i) + 16)"
proof -
  note r = pad_range [OF assms(2)]
  note d = adds_bitsD [OF assms(1) r(1)]
  have eq: "j < 21 \<Longrightarrow> pad_port j = pad_port i \<Longrightarrow> snd (gpio_pad_map ! j) = snd (gpio_pad_map ! i) \<Longrightarrow> j = i" for j
    using pad_eqD assms(2) by blast
  have lt: "j < 21 \<Longrightarrow> snd (gpio_pad_map ! j) < 16" for j by (rule pad_range(2))
  have ne: "j < 21 \<Longrightarrow> snd (gpio_pad_map ! i) + 16 \<noteq> snd (gpio_pad_map ! j)" for j using lt [of j] r(2) by linarith
  have "bit (bop ! pad_port i) b \<longleftrightarrow> b = snd (gpio_pad_map ! i) + (if bit levels i then 0 else 16)"
    if b: "b = snd (gpio_pad_map ! i) \<or> b = snd (gpio_pad_map ! i) + 16" for b
  proof
    assume "bit (bop ! pad_port i) b"
    then obtain j where j: "j < 21" "pad_port j = pad_port i" "b = snd (gpio_pad_map ! j) + (if bit levels j then 0 else 16)"
      unfolding d(1) by blast
    have "snd (gpio_pad_map ! j) = snd (gpio_pad_map ! i)"
      using j(3) b lt [OF j(1)] r(2) by (auto split: if_splits)
    with j show "b = snd (gpio_pad_map ! i) + (if bit levels i then 0 else 16)" using eq by blast
  qed (use assms(2,3) in \<open>auto simp only: d(1)\<close>)
  then show "bit (bop ! pad_port i) (snd (gpio_pad_map ! i)) = bit levels i"
    "bit (bop ! pad_port i) (snd (gpio_pad_map ! i) + 16) = (\<not> bit levels i)" by auto
  show "bit (pro ! pad_port i) (snd (gpio_pad_map ! i)) = (\<not> outs ! i)"
    unfolding d(2) using assms(2,3) eq by metis
  show "\<not> bit (pro ! pad_port i) (snd (gpio_pad_map ! i) + 16)"
    unfolding d(2) using ne by metis
qed

lemma unselected_pin_bits:
  assumes "adds_bits m levels outs [0..<21] no_bits (bop, pro)" "p < 6" "n < 16"
    "\<forall>i < 21. bit m i \<longrightarrow> \<not> (pad_port i = p \<and> snd (gpio_pad_map ! i) = n)"
  shows "\<not> bit (bop ! p) n" "\<not> bit (bop ! p) (n + 16)" "\<not> bit (pro ! p) n" "\<not> bit (pro ! p) (n + 16)"
proof -
  note d = adds_bitsD [OF assms(1,2)]
  have ne: "j < 21 \<Longrightarrow> n \<noteq> snd (gpio_pad_map ! j) + 16" "j < 21 \<Longrightarrow> n + 16 \<noteq> snd (gpio_pad_map ! j)" for j
    using pad_range(2) [of j] assms(3) by linarith+
  show "\<not> bit (bop ! p) n" unfolding d(1) using assms(4) ne(1) by (auto split: if_splits)
  show "\<not> bit (bop ! p) (n + 16)" unfolding d(1) using assms(4) ne(2) by (auto split: if_splits)
  show "\<not> bit (pro ! p) n" unfolding d(2) using assms(4) by metis
  show "\<not> bit (pro ! p) (n + 16)" unfolding d(2) using ne(2) by metis
qed

lemma gpio_write_ok:
  assumes "gpio_write m levels s = (BRIDGE_HW_OK, s', tr)"
  shows "\<exists>bop pro. adds_bits m levels (gpio_is_output s) [0..<21] no_bits (bop, pro) \<and> s' = mark_written m s \<and>
    (\<forall>p. filter (\<lambda>c. call_port c = p) tr = (if p < 6 then promote_call bop pro p @ drive_call bop p else []))"
proof -
  obtain bop pro where c: "collect_write m levels (gpio_is_output s) [0..<21] no_bits = Some (bop, pro)"
    and a: "adds_bits m levels (gpio_is_output s) [0..<21] no_bits (bop, pro)"
    using collect_write_bits [of "[0..<21]" no_bits m levels "gpio_is_output s"] by auto
  have p: "filter (\<lambda>c. call_port c = p) (concat (map (promote_call bop pro) [0..<6]) @ concat (map (drive_call bop) [0..<6]))
     = (if p < 6 then promote_call bop pro p @ drive_call bop p else [])" for p
    unfolding filter_append
    by (subst (1 2) filter_port_concat) (auto simp: promote_call_def drive_call_def split: if_splits)
  have "s' = mark_written m s" "tr = concat (map (promote_call bop pro) [0..<6]) @ concat (map (drive_call bop) [0..<6])"
    using assms unfolding gpio_write_def c by (auto split: if_splits)
  then show ?thesis
    using a p by blast
qed

text \<open>A pin no selected pad has keeps its latch and mode throughout; a selected pad's pin takes its level with the port's last
  call if it is an output already, and otherwise becomes an output only after its latch was loaded.\<close>

lemma unselected_pin_steps:
  assumes "adds_bits m levels outs [0..<21] no_bits (bop, pro)" "p < 6" "n < 16"
    "\<forall>i < 21. bit m i \<longrightarrow> \<not> (pad_port i = p \<and> snd (gpio_pad_map ! i) = n)"
  shows "fold (pin_step n) (take j (promote_call bop pro p @ drive_call bop p)) v = v"
proof -
  note b = unselected_pin_bits [OF assms]
  have "c \<in> set (promote_call bop pro p @ drive_call bop p) \<Longrightarrow> pin_step n c v = v" for c
    using b by (cases v) (auto simp: promote_call_def drive_call_def bit_simps split: if_splits)
  then have "\<forall>c \<in> set (take j (promote_call bop pro p @ drive_call bop p)). pin_step n c v = v"
    by (meson in_set_takeD)
  then show ?thesis by (rule fold_fixed)
qed

lemma selected_pin_steps:
  assumes "adds_bits m levels outs [0..<21] no_bits (bop, pro)" "i < 21" "bit m i" "(d = Mode_Output) = outs ! i"
  defines "cs \<equiv> promote_call bop pro (pad_port i) @ drive_call bop (pad_port i)"
  shows "fold (pin_step (snd (gpio_pad_map ! i))) (take j cs) (l, d) =
      (if outs ! i then (if length cs \<le> j then bit levels i else l, d)
       else (if 1 \<le> j then bit levels i else l, if 3 \<le> j then Mode_Output else d))"
    "(if outs ! i then 1 else 3) \<le> length cs"
proof -
  note b = selected_pad_bits [OF assms(1-3)] and n = pad_range(2) [OF assms(2)]
  have w: "bop ! pad_port i \<noteq> 0" using b(1,2) by (cases "bit levels i") auto
  have p: "\<not> outs ! i \<Longrightarrow> pro ! pad_port i \<noteq> 0" using b(3) by auto
  show "(if outs ! i then 1 else 3) \<le> length cs"
    using w p by (auto simp: cs_def promote_call_def drive_call_def)
  show "fold (pin_step (snd (gpio_pad_map ! i))) (take j cs) (l, d) =
      (if outs ! i then (if length cs \<le> j then bit levels i else l, d)
       else (if 1 \<le> j then bit levels i else l, if 3 \<le> j then Mode_Output else d))"
    using w p b n assms(4)
    by (auto simp: cs_def promote_call_def drive_call_def take_Cons' bit_simps split: if_splits)
qed

text \<open>How far a port has got after \<open>k\<close> calls, and the call from which a pad shows its new level.\<close>

abbreviation (input) port_progress :: "gpio_call list \<Rightarrow> nat \<Rightarrow> nat \<Rightarrow> nat" where
  "port_progress tr p k \<equiv> length (filter (\<lambda>c. call_port c = p) (take k tr))"

abbreviation (input) switch_point :: "gpio_st \<Rightarrow> gpio_call list \<Rightarrow> nat \<Rightarrow> nat" where
  "switch_point s tr i \<equiv> (if gpio_is_output s ! i then length (filter (\<lambda>c. call_port c = pad_port i) tr) else 3)"

lemma gpio_agreesD:
  assumes "gpio_agrees s h" "i < 21"
  shows "gpio_is_output s ! i = (ctl h (pad_port i) (snd (gpio_pad_map ! i)) = Mode_Output)"
    "gpio_input_promoted s ! i = (ctl h (pad_port i) (snd (gpio_pad_map ! i)) = Mode_Input)"
  using assms unfolding gpio_agrees_def by blast+

lemma write_progress:
  assumes "gpio_agrees s h" "gpio_write m levels s = (BRIDGE_HW_OK, s', tr)" "i < 21" "bit m i"
  shows "shows_level (fold port_step (take k tr) h) i =
      (if switch_point s tr i \<le> port_progress tr (pad_port i) k then Some (bit levels i) else shows_level h i)"
    "1 \<le> switch_point s tr i" "switch_point s tr i \<le> length (filter (\<lambda>c. call_port c = pad_port i) tr)"
    "ctl (fold port_step tr h) (pad_port i) (snd (gpio_pad_map ! i)) = Mode_Output"
proof -
  note r = pad_range [OF assms(3)]
  obtain bop pro where w: "adds_bits m levels (gpio_is_output s) [0..<21] no_bits (bop, pro)"
    and cs: "filter (\<lambda>c. call_port c = pad_port i) tr = promote_call bop pro (pad_port i) @ drive_call bop (pad_port i)"
    using gpio_write_ok [OF assms(2)] r(1) by auto
  note out = gpio_agreesD(1) [OF assms(1,3)]
  note steps = selected_pin_steps [OF w assms(3,4), folded cs]
  have view: "pin_view (fold port_step (take k tr) h) (pad_port i) (snd (gpio_pad_map ! i)) =
      fold (pin_step (snd (gpio_pad_map ! i))) (take (port_progress tr (pad_port i) k) (filter (\<lambda>c. call_port c = pad_port i) tr))
        (pin_view h (pad_port i) (snd (gpio_pad_map ! i)))" for k
    unfolding pin_view_fold [OF r(2)] by (subst filter_take_take) (rule refl)
  show "shows_level (fold port_step (take k tr) h) i =
      (if switch_point s tr i \<le> port_progress tr (pad_port i) k then Some (bit levels i) else shows_level h i)"
    unfolding shows_level_pin view using steps(1) out by (simp add: pin_view_def)
  show "1 \<le> switch_point s tr i" "switch_point s tr i \<le> length (filter (\<lambda>c. call_port c = pad_port i) tr)"
    using steps(2) [where d = Mode_Output] steps(2) [where d = Mode_Input] by (auto split: if_splits)
  show "ctl (fold port_step tr h) (pad_port i) (snd (gpio_pad_map ! i)) = Mode_Output"
    using view [of "length tr"] out steps(2) [where d = "ctl h (pad_port i) (snd (gpio_pad_map ! i))"]
      steps(1) [where d = "ctl h (pad_port i) (snd (gpio_pad_map ! i))" and j = "length (filter (\<lambda>c. call_port c = pad_port i) tr)"]
    by (simp add: pin_view_def split: if_splits)
qed

lemma write_untouched:
  assumes "gpio_write m levels s = (BRIDGE_HW_OK, s', tr)" "n < 16"
    "\<forall>i < 21. bit m i \<longrightarrow> \<not> (pad_port i = p \<and> snd (gpio_pad_map ! i) = n)"
  shows "pin_view (fold port_step (take k tr) h) p n = pin_view h p n"
proof -
  obtain bop pro where w: "adds_bits m levels (gpio_is_output s) [0..<21] no_bits (bop, pro)"
    and cs: "filter (\<lambda>c. call_port c = p) tr = (if p < 6 then promote_call bop pro p @ drive_call bop p else [])"
    using gpio_write_ok [OF assms(1)] by auto
  show ?thesis
    unfolding pin_view_fold [OF assms(2)] by (subst filter_take_take)
      (cases "p < 6"; simp add: cs unselected_pin_steps [OF w _ assms(2,3)] del: take_append)
qed

lemma write_untouched_pad:
  assumes "gpio_write m levels s = (BRIDGE_HW_OK, s', tr)" "i < 21" "\<not> bit m i"
  shows "pin_view (fold port_step (take k tr) h) (pad_port i) (snd (gpio_pad_map ! i)) = pin_view h (pad_port i) (snd (gpio_pad_map ! i))"
  using write_untouched [OF assms(1) pad_range(2) [OF assms(2)]] pad_eqD [OF _ assms(2)] assms(3) by blast

lemma mark_written_flags:
  assumes "length (gpio_is_output s) = 21" "length (gpio_input_promoted s) = 21"
  shows "length (gpio_is_output (mark_written m s)) = 21" "length (gpio_input_promoted (mark_written m s)) = 21"
    "i < 21 \<Longrightarrow> gpio_is_output (mark_written m s) ! i = (bit m i \<or> gpio_is_output s ! i)"
    "i < 21 \<Longrightarrow> gpio_input_promoted (mark_written m s) ! i = (\<not> bit m i \<and> gpio_input_promoted s ! i)"
proof -
  let ?f = "\<lambda>i s. if bit m i then s\<lparr>gpio_is_output := (gpio_is_output s)[i := True],
       gpio_input_promoted := (gpio_input_promoted s)[i := False]\<rparr> else s"
  have "length (gpio_is_output (fold ?f is s)) = 21 \<and> length (gpio_input_promoted (fold ?f is s)) = 21 \<and>
    (\<forall>i < 21. gpio_is_output (fold ?f is s) ! i = (i \<in> set is \<and> bit m i \<or> gpio_is_output s ! i) \<and>
      gpio_input_promoted (fold ?f is s) ! i = (\<not> (i \<in> set is \<and> bit m i) \<and> gpio_input_promoted s ! i))"
    if "\<forall>i \<in> set is. i < 21" for "is"
    using assms that by (induction "is" arbitrary: s) (auto simp: nth_list_update)
  from this [of "[0..<21]"] show "length (gpio_is_output (mark_written m s)) = 21" "length (gpio_input_promoted (mark_written m s)) = 21"
    "i < 21 \<Longrightarrow> gpio_is_output (mark_written m s) ! i = (bit m i \<or> gpio_is_output s ! i)"
    "i < 21 \<Longrightarrow> gpio_input_promoted (mark_written m s) ! i = (\<not> bit m i \<and> gpio_input_promoted s ! i)"
    by (simp_all add: mark_written_def selected_iff_bit del: push_bit_of_1)
qed

lemma write_agrees:
  assumes "gpio_agrees s h" "gpio_write m levels s = (BRIDGE_HW_OK, s', tr)"
  shows "gpio_agrees s' (fold port_step tr h)"
proof -
  have s': "s' = mark_written m s" using gpio_write_ok [OF assms(2)] by blast
  have len: "length (gpio_is_output s) = 21" "length (gpio_input_promoted s) = 21"
    using assms(1) by (simp_all add: gpio_agrees_def)
  note f = mark_written_flags [OF len, where m = m]
  have "gpio_is_output s' ! i = (ctl (fold port_step tr h) (pad_port i) (snd (gpio_pad_map ! i)) = Mode_Output) \<and>
      gpio_input_promoted s' ! i = (ctl (fold port_step tr h) (pad_port i) (snd (gpio_pad_map ! i)) = Mode_Input)" if "i < 21" for i
  proof (cases "bit m i")
    case True
    then show ?thesis using write_progress(4) [OF assms that] f that unfolding s' by simp
  next
    case False
    then show ?thesis
      using write_untouched_pad [OF assms(2) that, of "length tr" h] f that gpio_agreesD [OF assms(1) that]
      unfolding s' by (simp add: pin_view_def)
  qed
  then show ?thesis unfolding gpio_agrees_def s' using f(1,2) by blast
qed

section \<open>What a read does\<close>

lemma promote_one:
  assumes "gpio_agrees s h" "i < 21" "\<not> gpio_is_output s ! i"
  defines "h' \<equiv> port_step (Set_Input (pad_port i) (pad_pin i)) h"
  shows "gpio_agrees (s\<lparr>gpio_input_promoted := (gpio_input_promoted s)[i := True]\<rparr>) h'"
    "j < 21 \<Longrightarrow> shows_level h' j = shows_level h j"
proof -
  note r = pad_range [OF assms(2)]
  have c: "ctl h' p n = (if p = pad_port i \<and> n = snd (gpio_pad_map ! i) then Mode_Input else ctl h p n)" for p n
    using r(2) by (auto simp: h'_def bit_simps)
  have o: "octl h' = octl h" by (simp add: h'_def)
  have out: "ctl h (pad_port i) (snd (gpio_pad_map ! i)) \<noteq> Mode_Output"
    using assms(3) gpio_agreesD(1) [OF assms(1,2)] by simp
  have own: "j < 21 \<Longrightarrow> pad_port j = pad_port i \<and> snd (gpio_pad_map ! j) = snd (gpio_pad_map ! i) \<longleftrightarrow> j = i" for j
    using pad_eqD [OF _ assms(2)] by blast
  show "gpio_agrees (s\<lparr>gpio_input_promoted := (gpio_input_promoted s)[i := True]\<rparr>) h'"
    using assms(1-3) out own unfolding gpio_agrees_def c by (auto simp: nth_list_update)
  show "j < 21 \<Longrightarrow> shows_level h' j = shows_level h j"
    using out own [of j] unfolding shows_level_def Let_def c o by auto
qed

lemma promote_inputs_agrees:
  assumes "gpio_agrees s h" "\<forall>i \<in> set is. i < 21" "promote_inputs m is s = (s', tr)"
  shows "gpio_agrees s' (fold port_step tr h) \<and> (\<forall>i < 21. shows_level (fold port_step tr h) i = shows_level h i) \<and>
    gpio_is_output s' = gpio_is_output s \<and> (\<forall>i < 21. gpio_input_promoted s ! i \<longrightarrow> gpio_input_promoted s' ! i) \<and>
    (\<forall>i \<in> set is. bit m i \<longrightarrow> gpio_is_output s' ! i \<or> gpio_input_promoted s' ! i)"
  using assms
proof (induction "is" arbitrary: s h tr)
  case (Cons i "is")
  show ?case
  proof (cases "bit m i \<and> \<not> gpio_is_output s ! i \<and> \<not> gpio_input_promoted s ! i")
    case True
    let ?s = "s\<lparr>gpio_input_promoted := (gpio_input_promoted s)[i := True]\<rparr>"
    have i: "i < 21" and len: "length (gpio_input_promoted s) = 21"
      using Cons.prems by (simp_all add: gpio_agrees_def)
    note one = promote_one [OF Cons.prems(1) i]
    obtain tr' where tr: "promote_inputs m is ?s = (s', tr')" "tr = Set_Input (pad_port i) (pad_pin i) # tr'"
      using Cons.prems(3) True by (auto simp: selected_iff_bit unselected_iff_bit Let_def simp del: push_bit_of_1 split: prod.splits)
    note ih = Cons.IH [OF one(1) _ tr(1)]
    show ?thesis
      using ih Cons.prems(2) True one(2) len i unfolding tr(2) by (auto simp: nth_list_update simp del: port_step.simps)
  next
    case False
    then have "promote_inputs m is s = (s', tr)"
      using Cons.prems(3) by (auto simp: selected_iff_bit unselected_iff_bit simp del: push_bit_of_1)
    with Cons.IH [OF Cons.prems(1) _ this] Cons.prems(2) False show ?thesis by auto
  qed
qed auto

text \<open>Each port answers with one sample, whichever of its pads are named.\<close>

lemma sample_pads_bits:
  assumes "\<forall>i \<in> set is. i < 21" "length inputs = 6" "length sampled = 6"
    "\<forall>p < 6. sampled ! p \<longrightarrow> inputs ! p = istat (\<sigma> p) p"
  shows "\<exists>lv \<sigma>'. sample_pads istat n m is inputs sampled levels = Some lv \<and> (\<forall>p < 6. sampled ! p \<longrightarrow> \<sigma>' p = \<sigma> p) \<and>
    (\<forall>b. bit lv b \<longleftrightarrow> bit levels b \<or> (b \<in> set is \<and> bit m b \<and> bit (istat (\<sigma>' (pad_port b)) (pad_port b)) (snd (gpio_pad_map ! b))))"
  using assms
proof (induction "is" arbitrary: n inputs sampled levels \<sigma>)
  case (Cons i "is")
  note r = pad_range [of i]
  show ?case
  proof (cases "bit m i")
    case False
    have eq: "sample_pads istat n m (i # is) inputs sampled levels = sample_pads istat n m is inputs sampled levels"
      using False by (simp add: selected_iff_bit unselected_iff_bit del: push_bit_of_1)
    have b: "b \<in> set (i # is) \<and> bit m b \<longleftrightarrow> b \<in> set is \<and> bit m b" for b using False by auto
    show ?thesis
      unfolding eq conj_assoc [symmetric] b using Cons.IH [OF _ Cons.prems(2-4)] Cons.prems(1) unfolding conj_assoc by simp
  next
    case True
    let ?p = "pad_port i"
    define n' where "n' = (if sampled ! ?p then n else Suc n)"
    define in' where "in' = (if sampled ! ?p then inputs else inputs[?p := istat n ?p])"
    define sa' where "sa' = (if sampled ! ?p then sampled else sampled[?p := True])"
    define \<sigma>1 where "\<sigma>1 = (if sampled ! ?p then \<sigma> else \<sigma>(?p := n))"
    define lv' where "lv' = (if bit (in' ! ?p) (snd (gpio_pad_map ! i)) then levels OR push_bit i 1 else levels)"
    have i: "i < 21" using Cons.prems by simp
    have pin: "ucast (in' ! ?p) AND pad_pin i \<noteq> (0 :: u32) \<longleftrightarrow> bit (in' ! ?p) (snd (gpio_pad_map ! i))"
      unfolding selected_iff_bit using pad_range(2) [OF i] by (simp add: bit_simps)
    have eq: "sample_pads istat n m (i # is) inputs sampled levels = sample_pads istat n' m is in' sa' lv'"
      using True pad_range(3) [OF i] pin unfolding n'_def in'_def sa'_def lv'_def
      by (cases "sampled ! ?p") (simp_all add: selected_iff_bit unselected_iff_bit Let_def del: push_bit_of_1)
    have pre: "length in' = 6" "length sa' = 6" "\<forall>p < 6. sa' ! p \<longrightarrow> in' ! p = istat (\<sigma>1 p) p"
      using Cons.prems pad_range(1) [OF i] by (auto simp: in'_def sa'_def \<sigma>1_def nth_list_update)
    have own: "sa' ! ?p" "in' ! ?p = istat (\<sigma>1 ?p) ?p" "\<forall>p < 6. sampled ! p \<longrightarrow> sa' ! p \<and> \<sigma>1 p = \<sigma> p"
      using Cons.prems pad_range(1) [OF i] by (auto simp: in'_def sa'_def \<sigma>1_def nth_list_update)
    obtain lv \<sigma>' where ih: "sample_pads istat n' m is in' sa' lv' = Some lv" "\<forall>p < 6. sa' ! p \<longrightarrow> \<sigma>' p = \<sigma>1 p"
      "\<And>b. bit lv b \<longleftrightarrow> bit lv' b \<or> (b \<in> set is \<and> bit m b \<and> bit (istat (\<sigma>' (pad_port b)) (pad_port b)) (snd (gpio_pad_map ! b)))"
      using Cons.IH [OF _ pre, of n' lv'] Cons.prems(1) by auto
    have "\<sigma>' ?p = \<sigma>1 ?p" using ih(2) own(1) pad_range(1) [OF i] by blast
    then have "bit lv b \<longleftrightarrow> bit levels b \<or> (b \<in> set (i # is) \<and> bit m b \<and>
        bit (istat (\<sigma>' (pad_port b)) (pad_port b)) (snd (gpio_pad_map ! b)))" for b
      using ih(3) [of b] own(2) True i by (cases "b = i") (auto simp: lv'_def bit_simps)
    then show ?thesis
      unfolding eq ih(1) using ih(2) own(3) by (intro exI [of _ lv] exI [of _ \<sigma>']) auto
  qed
qed auto

lemma gpio_read_ok:
  assumes "\<not> bit m 8"
  obtains lv \<sigma> s' tr where "gpio_read istat m s = (BRIDGE_HW_OK, lv, s', tr)" "promote_inputs m [0..<21] s = (s', tr)"
    "\<forall>i. bit lv i \<longleftrightarrow> i < 21 \<and> bit m i \<and> bit (istat (\<sigma> (pad_port i)) (pad_port i)) (snd (gpio_pad_map ! i))"
proof -
  obtain s' tr where p: "promote_inputs m [0..<21] s = (s', tr)" by fastforce
  obtain lv \<sigma> where q: "sample_pads istat 0 m [0..<21] (replicate 6 0) (replicate 6 False) 0 = Some lv"
    "\<forall>b. bit lv b \<longleftrightarrow> b < 21 \<and> bit m b \<and> bit (istat (\<sigma> (pad_port b)) (pad_port b)) (snd (gpio_pad_map ! b))"
    using sample_pads_bits [of "[0..<21]" "replicate 6 0" "replicate 6 False" istat _ 0 m 0] by auto
  have "\<not> m AND GPIO_PAD_UNROUTED_MASK \<noteq> 0"
    using assms unselected_iff_bit [of m 8] by simp
  then have "gpio_read istat m s = (BRIDGE_HW_OK, lv, s', tr)"
    unfolding gpio_read_def p q(1) by simp
  with p q(2) show thesis using that by blast
qed

lemma unrouted_refused:
  assumes "bit m 8"
  shows "gpio_read istat m s = (BRIDGE_HW_ERR_NOTIMPL, 0, s, [])" "gpio_write m levels s = (BRIDGE_HW_ERR_NOTIMPL, s, [])"
  using selected_iff_bit [of m 8] assms unfolding gpio_read_def gpio_write_def by simp_all

lemma write_status:
  assumes "\<not> bit m 8"
  obtains s' tr where "gpio_write m levels s = (BRIDGE_HW_OK, s', tr)"
proof -
  obtain acc where "collect_write m levels (gpio_is_output s) [0..<21] no_bits = Some acc"
    using collect_write_bits [of "[0..<21]" no_bits m levels "gpio_is_output s"] by auto
  then show thesis
    using that unselected_iff_bit [of m 8] assms unfolding gpio_write_def by (cases acc) simp
qed

lemma write_levels:
  assumes "gpio_agrees s h" "gpio_write m levels s = (BRIDGE_HW_OK, s', tr)" "i < 21"
  shows "shows_level (fold port_step tr h) i = (if bit m i then Some (bit levels i) else shows_level h i)"
  using write_progress(1) [OF assms, where k = "length tr"] write_progress(3) [OF assms] write_untouched_pad [OF assms(2,3), where k = "length tr"]
  by (cases "bit m i") (simp_all add: shows_level_pin)

section \<open>Properties\<close>

text \<open>
  C14: A write that names a routed set of pads succeeds and is free of glitches.  After every single register access each pad
  shows either what it showed before or, if it was selected, the commanded level, and having taken the commanded level it
  keeps it; the pads of a port that were outputs already change over in one access; a pin of the device that no selected
  pad owns keeps latch and mode throughout.  Afterwards every selected pad drives its level, every other pad shows what it
  did, and the direction flags match the ports.
\<close>

theorem gpio_write_glitch_free:
  assumes "gpio_agrees s h" "\<not> bit m 8"
  shows "\<exists>s' tr. gpio_write m levels s = (BRIDGE_HW_OK, s', tr) \<and> gpio_agrees s' (fold port_step tr h) \<and>
    (\<forall>i < 21. shows_level (fold port_step tr h) i = (if bit m i then Some (bit levels i) else shows_level h i)) \<and>
    (\<forall>i < 21. \<exists>t. \<forall>k. shows_level (fold port_step (take k tr) h) i =
       (if bit m i \<and> t \<le> k then Some (bit levels i) else shows_level h i)) \<and>
    (\<forall>p k. (\<forall>i < 21. pad_port i = p \<and> gpio_is_output s ! i \<longrightarrow>
         shows_level (fold port_step (take k tr) h) i = shows_level h i) \<or>
       (\<forall>i < 21. pad_port i = p \<and> gpio_is_output s ! i \<longrightarrow>
         shows_level (fold port_step (take k tr) h) i = shows_level (fold port_step tr h) i)) \<and>
    (\<forall>p n k. n < 16 \<and> (\<forall>i < 21. bit m i \<longrightarrow> (pad_port i, snd (gpio_pad_map ! i)) \<noteq> (p, n)) \<longrightarrow>
       pin_view (fold port_step (take k tr) h) p n = pin_view h p n)"
proof -
  obtain s' tr where w: "gpio_write m levels s = (BRIDGE_HW_OK, s', tr)" by (rule write_status [OF assms(2)])
  note lv = write_levels [OF assms(1) w]
  have old: "shows_level (fold port_step (take k tr) h) i = shows_level h i" if "i < 21" "\<not> bit m i" for i k
    using write_untouched_pad [OF w that] by (simp add: shows_level_pin)
  have pt: "\<exists>t. \<forall>k. shows_level (fold port_step (take k tr) h) i =
       (if bit m i \<and> t \<le> k then Some (bit levels i) else shows_level h i)" if i: "i < 21" for i
  proof (cases "bit m i")
    case True
    define t where "t = (LEAST k. switch_point s tr i \<le> port_progress tr (pad_port i) k)"
    have ex: "switch_point s tr i \<le> port_progress tr (pad_port i) (length tr)"
      using write_progress(3) [OF assms(1) w i True] by simp
    have "switch_point s tr i \<le> port_progress tr (pad_port i) k \<longleftrightarrow> t \<le> k" for k
      using LeastI [of "\<lambda>k. switch_point s tr i \<le> port_progress tr (pad_port i) k", OF ex, folded t_def]
        Least_le [of "\<lambda>k. switch_point s tr i \<le> port_progress tr (pad_port i) k" k, folded t_def]
        filter_take_mono [of t k "\<lambda>c. call_port c = pad_port i" tr] le_trans by blast
    then show ?thesis using write_progress(1) [OF assms(1) w i True] True by auto
  qed (use old i in auto)
  have tog: "(\<forall>i < 21. pad_port i = p \<and> gpio_is_output s ! i \<longrightarrow>
         shows_level (fold port_step (take k tr) h) i = shows_level h i) \<or>
       (\<forall>i < 21. pad_port i = p \<and> gpio_is_output s ! i \<longrightarrow>
         shows_level (fold port_step (take k tr) h) i = shows_level (fold port_step tr h) i)" for p k
  proof -
    have "shows_level (fold port_step (take k tr) h) i =
        (if length (filter (\<lambda>c. call_port c = p) tr) \<le> port_progress tr p k then shows_level (fold port_step tr h) i else shows_level h i)"
      if "i < 21" "pad_port i = p" "gpio_is_output s ! i" for i
      using that write_progress(1) [OF assms(1) w that(1), where k = k] old [OF that(1), of k] lv [OF that(1)] by (cases "bit m i") auto
    then show ?thesis by metis
  qed
  show ?thesis
    using w write_agrees [OF assms(1) w] lv pt tog write_untouched [OF w] by (intro exI [of _ s'] exI [of _ tr]) simp
qed

lemma booted_agrees: "gpio_agrees (fst gpio_booted) (snd gpio_booted)"
  by code_simp

lemma booted_levels: "list_all (\<lambda>i. shows_level (snd gpio_booted) i = boot_levels i) [0..<21]"
  by code_simp

theorem gpio_write_glitch_free_witness:
  "let (s, h) = gpio_booted; (r, s', tr) = gpio_write 0x100041 0x1 s
   in r = BRIDGE_HW_OK \<and> map (shows_level h) [0, 6, 18, 20] = [None, None, Some False, Some True] \<and>
      map (shows_level (fold port_step tr h)) [0, 6, 18, 20] = [Some True, Some False, Some False, Some False]"
proof -
  obtain s' tr where w: "gpio_write 0x100041 0x1 (fst gpio_booted) = (BRIDGE_HW_OK, s', tr)"
    and l: "\<forall>i < 21. shows_level (fold port_step tr (snd gpio_booted)) i =
      (if bit (0x100041 :: u32) i then Some (bit (1 :: u32) i) else shows_level (snd gpio_booted) i)"
    using gpio_write_glitch_free [OF booted_agrees, of "0x100041" "0x1"] by (auto simp: bit_numeral_rec)
  have b: "shows_level (snd gpio_booted) 0 = None" "shows_level (snd gpio_booted) 6 = None"
    "shows_level (snd gpio_booted) 18 = Some False" "shows_level (snd gpio_booted) 20 = Some True"
    using booted_levels by (simp_all add: list_all_iff boot_levels_def)
  show ?thesis
    using w l b by (simp add: case_prod_unfold Let_def bit_numeral_rec)
qed

text \<open>
  C13: The pads behave as a map from pads to driven levels.  From the boot sequence on reset ports (module power enables
  low, transceivers in standby, all else undriven), along any sequence of reads and writes, each pad drives the level of
  the last accepted write naming it and is undriven if there is none; reads and refused writes drive nothing, and the
  direction flags always match the ports.
\<close>

theorem gpio_history:
  "gpio_agrees (fst (fold gpio_serve reqs gpio_booted)) (snd (fold gpio_serve reqs gpio_booted)) \<and>
    (\<forall>i < 21. shows_level (snd (fold gpio_serve reqs gpio_booted)) i = fold pads_spec reqs boot_levels i)"
proof (induction reqs rule: rev_induct)
  case Nil
  then show ?case using booted_agrees booted_levels by (simp add: list_all_iff)
next
  case (snoc r reqs)
  obtain s h where sh: "fold gpio_serve reqs gpio_booted = (s, h)" by (cases "fold gpio_serve reqs gpio_booted")
  have a: "gpio_agrees s h" and v: "\<forall>i < 21. shows_level h i = fold pads_spec reqs boot_levels i" using snoc sh by simp_all
  have run: "fold gpio_serve (reqs @ [r]) gpio_booted = gpio_serve r (s, h)" using sh by simp
  show ?case
  proof (cases r)
    case (Gpio_Read istat m)
    show ?thesis
    proof (cases "bit m 8")
      case True
      then show ?thesis using run Gpio_Read unrouted_refused(1) a v by simp
    next
      case False
      then obtain lv \<sigma> s' tr where q: "gpio_read istat m s = (BRIDGE_HW_OK, lv, s', tr)" "promote_inputs m [0..<21] s = (s', tr)"
        by (rule gpio_read_ok)
      then show ?thesis using run Gpio_Read promote_inputs_agrees [OF a _ q(2)] v by simp
    qed
  next
    case (Gpio_Write m levels)
    show ?thesis
    proof (cases "bit m 8")
      case True
      then show ?thesis using run Gpio_Write unrouted_refused(2) a v by simp
    next
      case False
      then obtain s' tr where "gpio_write m levels s = (BRIDGE_HW_OK, s', tr)" by (rule write_status)
      then show ?thesis using run Gpio_Write False write_agrees [OF a] write_levels [OF a] v by simp
    qed
  qed
qed

theorem gpio_history_witness:
  "map (shows_level (snd (fold gpio_serve [Gpio_Write 0x3 0x1, Gpio_Read (\<lambda>_ _. 0) 0x7, Gpio_Write 0x102 0x2] gpio_booted))) [0, 1, 2, 20] =
     [Some True, Some False, None, Some True]"
  using gpio_history [of "[Gpio_Write 0x3 0x1, Gpio_Read (\<lambda>_ _. 0) 0x7, Gpio_Write 0x102 0x2]"]
  by (simp add: bit_numeral_rec boot_levels_def del: gpio_serve.simps fold_simps(2))

text \<open>
  A read naming only routed pads succeeds and reports the measured pads: bit \<open>i\<close> is set exactly if pad \<open>i\<close> was named
  and high in a sample of its port, the same sample for all pads of a port, whatever the direction of the pad.  Every
  named pad is readable when it is sampled, no pad that drives stops driving and none starts.  A read naming the unrouted
  pad is refused before any pad is touched.
\<close>

theorem gpio_read_samples:
  assumes "gpio_agrees s h"
  shows "(\<not> bit m 8 \<longrightarrow> (\<exists>lv s' tr \<sigma>. gpio_read istat m s = (BRIDGE_HW_OK, lv, s', tr) \<and>
      (\<forall>i. bit lv i \<longleftrightarrow> i < 21 \<and> bit m i \<and> bit (istat (\<sigma> (pad_port i)) (pad_port i)) (snd (gpio_pad_map ! i))) \<and>
      gpio_agrees s' (fold port_step tr h) \<and>
      (\<forall>i < 21. shows_level (fold port_step tr h) i = shows_level h i) \<and>
      (\<forall>i < 21. bit m i \<longrightarrow> ctl (fold port_step tr h) (pad_port i) (snd (gpio_pad_map ! i)) \<noteq> Mode_Analog))) \<and>
    (bit m 8 \<longrightarrow> gpio_read istat m s = (BRIDGE_HW_ERR_NOTIMPL, 0, s, []))"
proof (cases "bit m 8")
  case False
  then obtain lv \<sigma> s' tr where r: "gpio_read istat m s = (BRIDGE_HW_OK, lv, s', tr)" "promote_inputs m [0..<21] s = (s', tr)"
    "\<forall>i. bit lv i \<longleftrightarrow> i < 21 \<and> bit m i \<and> bit (istat (\<sigma> (pad_port i)) (pad_port i)) (snd (gpio_pad_map ! i))"
    by (rule gpio_read_ok)
  note p = promote_inputs_agrees [OF assms _ r(2)]
  have "ctl (fold port_step tr h) (pad_port i) (snd (gpio_pad_map ! i)) \<noteq> Mode_Analog" if "i < 21" "bit m i" for i
    using p gpio_agreesD [of s' "fold port_step tr h" i] that by force
  then show ?thesis using False r p by auto
qed (use unrouted_refused in auto)

theorem gpio_read_samples_witness:
  "fst (gpio_read (\<lambda>n p. if p = 1 then 0x400 else 0) 0x41 (fst gpio_booted)) = BRIDGE_HW_OK \<and>
   bit (fst (snd (gpio_read (\<lambda>n p. if p = 1 then 0x400 else 0) 0x41 (fst gpio_booted)))) 0 \<and>
   \<not> bit (fst (snd (gpio_read (\<lambda>n p. if p = 1 then 0x400 else 0) 0x41 (fst gpio_booted)))) 6"
proof -
  have pads: "pad_port 0 = 1" "pad_port 6 = 1" "snd (gpio_pad_map ! 0) = 10" "snd (gpio_pad_map ! 6) = 5" by code_simp+
  obtain lv s' tr \<sigma> where "gpio_read (\<lambda>n p. if p = 1 then 0x400 else 0) 0x41 (fst gpio_booted) = (BRIDGE_HW_OK, lv, s', tr)"
    "\<forall>i. bit lv i \<longleftrightarrow> i < 21 \<and> bit (0x41 :: u32) i \<and> bit (if pad_port i = 1 then 0x400 else 0 :: u16) (snd (gpio_pad_map ! i))"
    using gpio_read_samples [OF booted_agrees, of "0x41" "\<lambda>n p. if p = 1 then 0x400 else 0"] by (auto simp: bit_numeral_rec)
  then show ?thesis by (simp add: pads bit_numeral_rec)
qed

text \<open>
  No pin of the device has two users: the pad map, the converter, DAC, pulse-output and encoder tables, the
  secure-element reset and the two host buses name pairwise different pins.
\<close>

theorem pin_tables_disjoint:
  "distinct (gpio_pad_map @ adc_pins @ dac_pins @ pwm_pins @ qenc_pins @ se_rst_pin # bus_pins)"
  by code_simp

end
