(* ===== verification/Spec2Isabelle.thy ===== *)
theory Spec2Isabelle
  imports Crc Ota_Machine Bus_Spi Bus_I2c Dsp_Machine Pwm Gpio
begin

text \<open>
  \<^bold>\<open>The GD32 bridge firmware.\<close>  The program is the firmware of a supervisor microcontroller.  A host
  talks to it over SPI or I2C; a request envelope is checked, dispatched to a handler, and a reply
  envelope is staged for the host to clock out.  The handlers drive peripherals (converters, timers,
  a filter accelerator), store a boot configuration, and update the firmware itself: an image is
  written to the inactive of two flash slots, verified, committed, tried and confirmed.  A separate
  bootloader decides at reset which slot runs.

  \<^bold>\<open>Parts and theories.\<close>  Paths are relative to the repository.

  \<^item> \<open>Bridge_Prelude\<close>: machine words, byte lists with checked access (\<open>rd\<close>), little-endian
    encodings, the result type of code that may fail, shared lemmas.
  \<^item> \<open>Crc\<close> (\<open>src/crc32.c\<close>, the CRC of \<open>src/protocol.c\<close>): the two table-driven checksums, equal to
    their bit-serial definitions, and the bursts they detect.
  \<^item> \<open>Layout\<close> (\<open>src/ota_layout.h\<close>): flash map, metadata record and its bytes, the predicates that
    application and bootloader share.
  \<^item> \<open>Fmc\<close> (\<open>hal/fmc_ota.c\<close>, \<open>hal/fmc_ota_guard.h\<close>): flash erase, program and ECC-safe read.  The
    controller's registers and the flash bytes are the state; the silicon's answers are a parameter.
  \<^item> \<open>Boot_Config\<close> (\<open>src/boot_config.c\<close>): the two-page configuration record, its queue and tick.
  \<^item> \<open>Ota_Meta\<close>, \<open>Ota_Session\<close>, \<open>Ota_Machine\<close> (\<open>src/ota.c\<close>): metadata commits; every update handler
    and tick; the step relation that interleaves handlers with the ticks, the erase tick in two
    halves so that a handler may run between them.
  \<^item> \<open>Boot_Decide\<close> (\<open>src/boot/boot_decide.c\<close>, \<open>src/boot/boot_main.c\<close>): the boot decision, and that
    no metadata commit, cut anywhere, leaves the bootloader without a slot.
  \<^item> \<open>Wire\<close>, \<open>Hal\<close>, \<open>Protocol\<close> (\<open>src/protocol.c\<close>, \<open>src/protocol.h\<close>, \<open>hal/bridge_hw.h\<close>,
    \<open>hal/bridge_hw_stub.c\<close>, \<open>src/bootloader/bootloader.c\<close>): status codes, the record of peripheral
    operations with its stub instance, every opcode handler and the dispatcher with its gates.
  \<^item> \<open>Framing\<close>, \<open>Transport_Spi\<close>, \<open>Transport_I2c\<close> (\<open>src/transport_spi.c\<close>, \<open>src/transport_i2c.c\<close>):
    envelopes, capture, decoding, reply staging, retry and drain behaviour, byte by byte.
  \<^item> \<open>Bus_Spi\<close>, \<open>Bus_I2c\<close> (\<open>hal/transport_hw_gd32.c\<close> and the small files it calls): the interrupt handlers of
    the two bus slaves over the registers, DMA channels and FIFO of the peripherals.  The master's side and the
    moments at which an interrupt runs are inputs.
  \<^item> \<open>Gpio\<close> (\<open>hal/gd32/gpio.c\<close>): pad reads and writes, every register access in order, the ports' latches and modes.
  \<^item> \<open>Pwm\<close> (\<open>hal/gd32/pwm.c\<close>, \<open>pwm_set.c\<close>, \<open>pwm_capture.c\<close>, \<open>timer_sync*.c\<close>): pulse output, one-shots, capture
    and timer synchronisation; an update event of the timer may fall between any two register writes.
  \<^item> \<open>Dsp_Chain\<close> (\<open>hal/gd32/adc_dsp_chain.c\<close>): the pool of processing chains, uploaded in chunks.
  \<^item> \<open>Adc\<close> (\<open>hal/gd32/adc.c\<close>, \<open>hal/gd32/vref.c\<close>, the analog part of \<open>hal/gd32/init.c\<close>): single-shot
    reads, conversion formats, claims and the voltage reference.  The calls into the vendor library
    are recorded in order, so that claims about their order are claims about the code.
  \<^item> \<open>Adc_Stream\<close> (\<open>hal/gd32/adc_stream.c\<close>, first half): DMA streams, their ring, lap interrupts,
    overrun and overflow recovery.
  \<^item> \<open>Dsp_Pump\<close> (\<open>hal/gd32/adc_stream.c\<close>, second half): filter and transform configuration, sample
    arithmetic, and the two pumps cut into the sections between which an interrupt may run.
  \<^item> \<open>Dsp_Machine\<close>: these sections interleaved with all handlers and DMA interrupts.

  \<^bold>\<open>What is shown.\<close>

  \<^item> \<^emph>\<open>Update and boot.\<close>  Reachable sessions satisfy the session invariant; no step writes the
    bootloader or the running slot; an erase in flight publishes nothing after an abort; an erase on
    healthy hardware completes in 108 ticks; the boot decision is total and picks the newest valid
    image; commits and configuration stores survive a power cut at any point.
  \<^item> \<^emph>\<open>Flash.\<close>  The guard refuses exactly the protected ranges; erase and program meet their contracts
    on success and keep away from everything else on failure; waits end within their budgets.
  \<^item> \<^emph>\<open>Link.\<close>  Dispatch is total, fits its buffers and changes only what its opcode owns.  On both
    transports a request is run once and answered with its status and reply, and one damaged in two
    consecutive bytes is run nowhere; the SPI drain ladder and stamps and the I2C re-reads behave as
    described.
  \<^item> \<^emph>\<open>Bus slaves.\<close>  The SPI interrupt and DMA layer refines the portable framing; the I2C event interrupt calls
    the framing hooks in the order of the bus however late it runs; faults of either bus reach no command and leave
    the slave ready; the derived I2C timing meets its limits.
  \<^item> \<^emph>\<open>Pads and timers.\<close>  Pads refine a map of driven levels and change without glitches; a pulse width set
    on a running timer is seen whole and reads back; users of one timer do not disturb each other (three
    exceptions are lemmas); captures measure.
  \<^item> \<^emph>\<open>Analog path.\<close>  Uploads refine a partial map of the received bytes; a raw stream refines a
    queue; reads are bounded and never disturb a converter they do not own; the filter's fixed-point
    arithmetic and coefficients are exact to the stated bounds; the two DSP blocks are owned by at
    most one session, and a spectrum is served whole.

  \<^bold>\<open>Interfaces.\<close>  Locales state what one part relies on: \<open>xor_linear\<close> (the shift registers of both
  checksums), \<open>flash_seam\<close> (what the metadata, configuration and update code may assume of the flash
  funnel, interpreted on the driver and on the weak seam of builds without one), \<open>wire_handler\<close> (the
  reply contract the dispatcher needs of a handler, interpreted for every handler), \<open>reassembly\<close> (a
  chunked upload, interpreted on a stage and on a slot of the pool) and \<open>sample_ring\<close> (a ring behind a
  cursor, interpreted on the raw and the processed ring of a stream).

  \<^bold>\<open>Conventions and bounds.\<close>  C integers keep their width.  \<open>None\<close> as the result of a definition that
  models C code stands for undefined behaviour (an access outside an array, an undefined conversion),
  so a theorem that the result is \<open>Some\<close> is a memory-safety statement.  Loops with a spin budget in the
  code have that budget in the model: the hardware is given as the number of polls after which a flag
  changes, and the wait succeeds exactly when that number is below the budget.  The only recursion by
  fuel is \<open>pow2_floor\<close> in \<open>Adc\<close>; its fuel of nine covers the eight doublings that the ratio, capped at
  256, allows, and the lemma \<open>pow2_floor\<close> shows that it never runs out.  Single-precision values are the
  rationals they denote; the model of coefficient quantisation uses exact arithmetic, where the code
  only scales by powers of two, plus the clamp constant.

  \<^bold>\<open>Not modelled.\<close>

  \<^item> The peripheral back ends \<open>power.c\<close>, \<open>tmu.c\<close>, \<open>trng.c\<close>, \<open>qenc.c\<close>, \<open>dac.c\<close> and the like: the handlers call
    them through the operations record, whose behaviour is arbitrary in the theorems about the protocol.
  \<^item> Clock and pin set-up, fault capture, the idle loop, timing counters.
  \<^item> The transform and the window functions: the transform is a parameter, window coefficients are
    not computed.
  \<^item> A handler that pre-empts the configuration of a DSP block, or another handler: the sections of
    the pump are the units of interleaving, and handlers run to completion.
\<close>

end
